(* ===== verification/Prelude.thy ===== *)
theory Prelude
  imports Main "HOL-Library.Word" "HOL-Library.Signed_Division"
begin

text \<open>
  What every component shares: the C integer types of \<^verbatim>\<open>lib/types.h\<close>, the result type of an
  operation that may not return to its caller, the flat byte memory the kernel reaches through
  pointers (with its little-endian 16- and 32-bit accesses), C arrays as lists with checked
  accesses, and the generic lemmas on words, lists and memory.
\<close>

unbundle bit_operations_syntax

section \<open>The integer types of the kernel\<close>

type_synonym u8 = "8 word"
type_synonym u16 = "16 word"
type_synonym u32 = "32 word"

text \<open>A C string literal as its bytes, without the terminating NUL.\<close>

definition cs :: "string \<Rightarrow> u8 list" where
  "cs xs = map of_char xs"

text \<open>\<^verbatim>\<open>low_16\<close> and \<^verbatim>\<open>high_16\<close>.\<close>

definition low_16 :: "u32 \<Rightarrow> u16" where
  "low_16 address = ucast (address AND 0xFFFF)"

definition high_16 :: "u32 \<Rightarrow> u16" where
  "high_16 address = ucast (drop_bit 16 address AND 0xFFFF)"

section \<open>Results of operations\<close>

text \<open>
  Why control does not come back to the caller: the code polls or halts for ever (\<open>Hang\<close>), it
  touches memory outside the object it addresses (\<open>Wild\<close>, undefined behaviour in C), or it divides
  by zero (\<open>DivZero\<close>, the processor's exception 0).
\<close>

datatype stop = Hang | Wild | DivZero

type_synonym ('a, 's) result = "stop + 'a \<times> 's"

definition bindk :: "('a, 's) result \<Rightarrow> ('a \<Rightarrow> 's \<Rightarrow> ('b, 's) result) \<Rightarrow> ('b, 's) result" where
  "bindk r f = (case r of Inl e \<Rightarrow> Inl e | Inr p \<Rightarrow> f (fst p) (snd p))"

lemma bindk_simps [simp]:
  "bindk (Inl e) f = Inl e"
  "bindk (Inr p) f = f (fst p) (snd p)"
  by (simp_all add: bindk_def)

lemma bindk_eq_Inr_iff:
  "bindk r f = Inr q \<longleftrightarrow> (\<exists>p. r = Inr p \<and> f (fst p) (snd p) = Inr q)"
  by (simp add: bindk_def split: sum.splits)

lemma bindk_assoc: "bindk (bindk r f) g = bindk r (\<lambda>x s. bindk (f x s) g)"
  by (simp add: bindk_def split: sum.splits)

section \<open>C arrays\<close>

text \<open>An array element is read and written inside the array only; outside, the access is wild.\<close>

definition arr_get :: "'a list \<Rightarrow> int \<Rightarrow> stop + 'a" where
  "arr_get xs i = (if 0 \<le> i \<and> i < int (length xs) then Inr (xs ! nat i) else Inl Wild)"

definition arr_set :: "'a list \<Rightarrow> int \<Rightarrow> 'a \<Rightarrow> stop + 'a list" where
  "arr_set xs i v = (if 0 \<le> i \<and> i < int (length xs) then Inr (xs[nat i := v]) else Inl Wild)"

section \<open>Flat memory\<close>

type_synonym memory = "u32 \<Rightarrow> u8"

definition rd16 :: "memory \<Rightarrow> u32 \<Rightarrow> u16" where
  "rd16 m a = ucast (m a) OR push_bit 8 (ucast (m (a + 1)))"

definition wr16 :: "memory \<Rightarrow> u32 \<Rightarrow> u16 \<Rightarrow> memory" where
  "wr16 m a v = m(a := ucast v, a + 1 := ucast (drop_bit 8 v))"

definition rd32 :: "memory \<Rightarrow> u32 \<Rightarrow> u32" where
  "rd32 m a = ucast (m a) OR push_bit 8 (ucast (m (a + 1)))
     OR push_bit 16 (ucast (m (a + 2))) OR push_bit 24 (ucast (m (a + 3)))"

definition wr32 :: "memory \<Rightarrow> u32 \<Rightarrow> u32 \<Rightarrow> memory" where
  "wr32 m a v = m(a := ucast v, a + 1 := ucast (drop_bit 8 v),
     a + 2 := ucast (drop_bit 16 v), a + 3 := ucast (drop_bit 24 v))"

definition rd_bytes :: "memory \<Rightarrow> u32 \<Rightarrow> nat \<Rightarrow> u8 list" where
  "rd_bytes m a n = map (\<lambda>i. m (a + of_nat i)) [0..<n]"

fun wr_bytes :: "memory \<Rightarrow> u32 \<Rightarrow> u8 list \<Rightarrow> memory" where
  "wr_bytes m a [] = m"
| "wr_bytes m a (x # xs) = wr_bytes (m(a := x)) (a + 1) xs"

text \<open>Address \<open>b\<close> lies in the \<open>n\<close> bytes from \<open>a\<close> on (the address space is cyclic).\<close>

definition in_range :: "u32 \<Rightarrow> nat \<Rightarrow> u32 \<Rightarrow> bool" where
  "in_range a n b \<longleftrightarrow> unat (b - a) < n"

lemma rd16_wr16_same [simp]: "rd16 (wr16 m a v) a = v"
  by (rule bit_word_eqI) (auto simp: rd16_def wr16_def bit_simps)

text \<open>Bit \<open>n\<close> of a 32-bit value is a bit of its byte \<open>n div 8\<close>.\<close>

lemma bit_rd32:
  "n < 8 \<Longrightarrow> bit (rd32 m a) n = bit (m a) n"
  "8 \<le> n \<Longrightarrow> n < 16 \<Longrightarrow> bit (rd32 m a) n = bit (m (a + 1)) (n - 8)"
  "16 \<le> n \<Longrightarrow> n < 24 \<Longrightarrow> bit (rd32 m a) n = bit (m (a + 2)) (n - 16)"
  "24 \<le> n \<Longrightarrow> n < 32 \<Longrightarrow> bit (rd32 m a) n = bit (m (a + 3)) (n - 24)"
  by (auto simp: rd32_def bit_simps dest: bit_imp_le_length)

lemma rd32_wr32_same [simp]: "rd32 (wr32 m a v) a = v"
proof (rule bit_word_eqI)
  fix n assume "n < LENGTH(32)"
  then consider "n < 8" | "8 \<le> n" "n < 16" | "16 \<le> n" "n < 24" | "24 \<le> n" "n < 32"
    by fastforce
  then show "bit (rd32 (wr32 m a v) a) n = bit v n"
    by cases (simp_all add: bit_rd32 wr32_def bit_simps less_diff_conv2)
qed

lemma wr32_outside: "\<not> in_range a 4 b \<Longrightarrow> wr32 m a v b = m b"
  by (auto simp: in_range_def wr32_def)

lemma wr16_outside: "\<not> in_range a 2 b \<Longrightarrow> wr16 m a v b = m b"
  by (auto simp: in_range_def wr16_def)

lemma in_range_self [simp]: "in_range a n a \<longleftrightarrow> 0 < n"
  by (simp add: in_range_def)

lemma in_range_offset: "unat k < n \<Longrightarrow> in_range a n (a + k)"
  by (simp add: in_range_def)

lemma rd32_cong: "(\<And>b. in_range a 4 b \<Longrightarrow> m b = m' b) \<Longrightarrow> rd32 m a = rd32 m' a"
  by (simp add: rd32_def in_range_offset)

lemma rd16_cong: "(\<And>b. in_range a 2 b \<Longrightarrow> m b = m' b) \<Longrightarrow> rd16 m a = rd16 m' a"
  by (simp add: rd16_def in_range_offset)

lemma rd32_wr32_disjoint:
  assumes "\<And>x. in_range a 4 x \<Longrightarrow> \<not> in_range b 4 x"
  shows "rd32 (wr32 m a v) b = rd32 m b"
  by (rule rd32_cong) (use assms in \<open>auto intro: wr32_outside\<close>)

text \<open>
  A 32-bit array at \<open>base\<close>: byte address \<open>x\<close> belongs to element \<open>(x - base) div 4\<close>, so distinct
  elements do not overlap.
\<close>

lemma in_range_word_array:
  assumes "i < 2 ^ 30"
  shows "in_range (base + 4 * of_nat i) 4 x \<longleftrightarrow> unat (x - base) div 4 = i"
proof -
  let ?o = "x - base"
  have ui: "unat (4 * of_nat i :: u32) = 4 * i"
    using assms by (simp add: unat_word_ariths unat_of_nat take_bit_eq_mod)
  have eq: "x - (base + 4 * of_nat i) = ?o - 4 * of_nat i"
    by (simp add: algebra_simps)
  have unat_lt_o: "unat ?o < 2 ^ 32"
    using unsigned_less [of ?o] by simp
  show ?thesis
  proof (cases "4 * i \<le> unat ?o")
    case True
    then have "(4 * of_nat i :: u32) \<le> ?o"
      by (simp add: word_le_nat_alt ui)
    then have "unat (?o - 4 * of_nat i) = unat ?o - 4 * i"
      by (simp add: unat_sub ui)
    with True show ?thesis
      by (auto simp: in_range_def eq)
  next
    case False
    have "unat (?o - 4 * of_nat i) = 2 ^ 32 + unat ?o - 4 * i"
      using False assms unat_lt_o
      by (simp add: unat_sub_if' ui)
    with False assms show ?thesis
      by (auto simp: in_range_def eq)
  qed
qed

lemma rd32_wr32_array:
  assumes "i < 2 ^ 30" "j < 2 ^ 30"
  shows "rd32 (wr32 m (base + 4 * of_nat i) v) (base + 4 * of_nat j)
    = (if i = j then v else rd32 m (base + 4 * of_nat j))"
  using assms by (auto intro: rd32_wr32_disjoint simp: in_range_word_array)

text \<open>Byte strings in flat memory.\<close>

lemma rd_bytes_length [simp]: "length (rd_bytes m a n) = n"
  by (simp add: rd_bytes_def)

lemma rd_bytes_nth [simp]: "i < n \<Longrightarrow> rd_bytes m a n ! i = m (a + of_nat i)"
  by (simp add: rd_bytes_def)

lemma wr_bytes_append: "wr_bytes m a (xs @ ys) = wr_bytes (wr_bytes m a xs) (a + of_nat (length xs)) ys"
  by (induction xs arbitrary: m a) (simp_all add: ac_simps)

lemma wr_bytes_byte:
  "length xs \<le> 2 ^ 32 \<Longrightarrow>
    wr_bytes m a xs x = (if unat (x - a) < length xs then xs ! unat (x - a) else m x)"
proof (induction xs arbitrary: m a)
  case Nil
  then show ?case by simp
next
  case (Cons y xs)
  have IH: "wr_bytes (m(a := y)) (a + 1) xs x
      = (if unat (x - a - 1) < length xs then xs ! unat (x - a - 1) else (m(a := y)) x)"
    unfolding diff_diff_add by (rule Cons.IH) (use Cons.prems in simp)
  show ?case
  proof (cases "x = a")
    case True
    moreover have "unat (- 1 :: u32) = 2 ^ 32 - 1" by (simp add: unsigned_minus_1_eq_mask mask_eq_exp_minus_1)
    ultimately show ?thesis using IH Cons.prems by simp
  next
    case False
    then have "x - a \<noteq> 0" by simp
    then have "unat (x - a) = Suc (unat (x - a - 1))" by (simp add: unat_minus_one unat_gt_0)
    with IH False show ?thesis by simp
  qed
qed

lemma wr_bytes_outside:
  "length xs \<le> 2 ^ 32 \<Longrightarrow> \<not> in_range a (length xs) x \<Longrightarrow> wr_bytes m a xs x = m x"
  by (simp add: wr_bytes_byte in_range_def)

lemma rd_bytes_wr_bytes: "length xs \<le> 2 ^ 32 \<Longrightarrow> rd_bytes (wr_bytes m a xs) a (length xs) = xs"
proof (rule nth_equalityI)
  fix i assume a: "length xs \<le> 2 ^ 32" "i < length (rd_bytes (wr_bytes m a xs) a (length xs))"
  then have "unat (of_nat i :: u32) = i" by (simp add: unat_of_nat take_bit_nat_eq_self)
  with a show "rd_bytes (wr_bytes m a xs) a (length xs) ! i = xs ! i" by (simp add: wr_bytes_byte)
qed simp

lemma rd_bytes_cong: "(\<And>x. in_range a n x \<Longrightarrow> m x = m' x) \<Longrightarrow> n \<le> 2 ^ 32 \<Longrightarrow> rd_bytes m a n = rd_bytes m' a n"
  by (rule nth_equalityI) (auto simp: in_range_def unat_of_nat take_bit_nat_eq_self)

section \<open>Signed integers\<close>

text \<open>
  A C \<^verbatim>\<open>int\<close> is an \<open>int\<close> here; \<open>wrap32\<close> brings the result of an operation that can overflow
  back into 32 bits, as the generated two's complement code does. Division and remainder truncate
  towards zero (\<open>sdiv\<close>, \<open>smod\<close>).
\<close>

definition wrap32 :: "int \<Rightarrow> int" where
  "wrap32 x = signed_take_bit 31 x"

lemma wrap32_id: "- (2 ^ 31) \<le> x \<Longrightarrow> x < 2 ^ 31 \<Longrightarrow> wrap32 x = x"
  by (simp add: wrap32_def signed_take_bit_int_eq_self)

lemma wrap32_minus_min: "wrap32 (- (- 2147483648)) = - 2147483648"
  by (simp add: wrap32_def)

lemma sdiv_nonneg: "0 \<le> (x::int) \<Longrightarrow> 0 \<le> y \<Longrightarrow> x sdiv y = x div y"
  by (cases "x = 0"; cases "y = 0") (auto simp: signed_divide_int_def)

lemma smod_nonneg: "0 \<le> (x::int) \<Longrightarrow> 0 \<le> y \<Longrightarrow> x smod y = x mod y"
  by (simp add: sdiv_nonneg minus_sdiv_mult_eq_smod [symmetric] minus_div_mult_eq_mod)

lemma sint_eq_0_iff: "sint (w :: 'a::len word) = 0 \<longleftrightarrow> w = 0"
  by (metis signed_word_eqI sint_0)

lemma unat_lt32: "unat (w :: u32) < 4294967296"
  using unsigned_less [of w] by simp

end
