(* ===== verification/Util.thy ===== *)
theory Util
  imports Prelude
begin

text \<open>
  \<^verbatim>\<open>lib/util.c\<close>: the memory and string routines. \<open>memset\<close> on flat memory is what the memory
  managers call on pages and on the frame bitmap; the routines on C arrays (\<open>arr_get\<close>,
  \<open>arr_set\<close>: an access outside the array is \<open>Wild\<close>) are what the drivers, the file system and
  the printing code call on their buffers.
\<close>

section \<open>Filling and copying\<close>

function memset :: "memory \<Rightarrow> u32 \<Rightarrow> u8 \<Rightarrow> u32 \<Rightarrow> memory" where
  "memset m temp val len =
     (if len \<noteq> 0 then memset (m(temp := val)) (temp + 1) val (len - 1) else m)"
  by pat_completeness auto
termination
  by (relation "measure (\<lambda>(m, temp, val, len). unat len)") (auto simp: unat_minus_one word_less_nat_alt unat_gt_0)

declare memset.simps [simp del]

function memset_arr :: "u8 list \<Rightarrow> int \<Rightarrow> u8 \<Rightarrow> nat \<Rightarrow> stop + u8 list" where
  "memset_arr dest i val len =
     (if len \<noteq> 0
      then (case arr_set dest i val of Inl e \<Rightarrow> Inl e | Inr d \<Rightarrow> memset_arr d (i + 1) val (len - 1))
      else Inr dest)"
  by pat_completeness auto
termination
  by (relation "measure (\<lambda>(dest, i, val, len). len)") auto

text \<open>
  \<open>memcpy dest d source s nbytes i\<close> copies \<open>nbytes\<close> bytes from offset \<open>s\<close> of one array to
  offset \<open>d\<close> of another, from byte \<open>i\<close> on.
\<close>

function memcpy :: "u8 list \<Rightarrow> int \<Rightarrow> u8 list \<Rightarrow> int \<Rightarrow> int \<Rightarrow> int \<Rightarrow> stop + u8 list" where
  "memcpy dest d source s nbytes i =
     (if i < nbytes
      then (case arr_get source (s + i) of Inl e \<Rightarrow> Inl e | Inr v \<Rightarrow>
            case arr_set dest (d + i) v of Inl e \<Rightarrow> Inl e | Inr dest' \<Rightarrow>
              memcpy dest' d source s nbytes (i + 1))
      else Inr dest)"
  by pat_completeness auto
termination
  by (relation "measure (\<lambda>(dest, d, source, s, nbytes, i). nat (nbytes - i))") auto

text \<open>The same copy within one array.\<close>

function memcpy_within :: "u8 list \<Rightarrow> int \<Rightarrow> int \<Rightarrow> int \<Rightarrow> int \<Rightarrow> stop + u8 list" where
  "memcpy_within xs d s nbytes i =
     (if i < nbytes
      then (case arr_get xs (s + i) of Inl e \<Rightarrow> Inl e | Inr v \<Rightarrow>
            case arr_set xs (d + i) v of Inl e \<Rightarrow> Inl e | Inr xs' \<Rightarrow>
              memcpy_within xs' d s nbytes (i + 1))
      else Inr xs)"
  by pat_completeness auto
termination
  by (relation "measure (\<lambda>(xs, d, s, nbytes, i). nat (nbytes - i))") auto

function memcmp :: "u8 list \<Rightarrow> u8 list \<Rightarrow> int \<Rightarrow> int \<Rightarrow> stop + int" where
  "memcmp src dst n i =
     (if i < n
      then (case arr_get src i of Inl e \<Rightarrow> Inl e | Inr a \<Rightarrow>
            case arr_get dst i of Inl e \<Rightarrow> Inl e | Inr b \<Rightarrow>
              if a < b then Inr (-1) else if b < a then Inr 1 else memcmp src dst n (i + 1))
      else Inr 0)"
  by pat_completeness auto
termination
  by (relation "measure (\<lambda>(src, dst, n, i). nat (n - i))") auto

section \<open>Strings\<close>

function strlen_from :: "u8 list \<Rightarrow> int \<Rightarrow> stop + int" where
  "strlen_from s i =
     (case arr_get s i of Inl e \<Rightarrow> Inl e | Inr c \<Rightarrow> if c \<noteq> 0 then strlen_from s (i + 1) else Inr i)"
  by pat_completeness auto
termination
  by (relation "measure (\<lambda>(s, i). nat (int (length s) - i))")
     (auto simp: arr_get_def split: if_splits)

definition strlen :: "u8 list \<Rightarrow> stop + int" where
  "strlen s = strlen_from s 0"

function reverse_loop :: "u8 list \<Rightarrow> int \<Rightarrow> int \<Rightarrow> stop + u8 list" where
  "reverse_loop s i j =
     (if i < j
      then (case arr_get s i of Inl e \<Rightarrow> Inl e | Inr c \<Rightarrow>
            case arr_get s j of Inl e \<Rightarrow> Inl e | Inr b \<Rightarrow>
            case arr_set s i b of Inl e \<Rightarrow> Inl e | Inr s1 \<Rightarrow>
            case arr_set s1 j c of Inl e \<Rightarrow> Inl e | Inr s2 \<Rightarrow>
              reverse_loop s2 (i + 1) (j - 1))
      else Inr s)"
  by pat_completeness auto
termination
  by (relation "measure (\<lambda>(s, i, j). nat (j - i))") auto

definition reverse :: "u8 list \<Rightarrow> stop + u8 list" where
  "reverse s = (case strlen s of Inl e \<Rightarrow> Inl e | Inr n \<Rightarrow> reverse_loop s 0 (n - 1))"

text \<open>The digit loop of \<^verbatim>\<open>int_to_ascii\<close>: a \<^verbatim>\<open>do\<close> loop, so the body runs before the test.\<close>

function ascii_digits :: "int \<Rightarrow> u8 list \<Rightarrow> int \<Rightarrow> stop + u8 list \<times> int" where
  "ascii_digits n str i =
     (case arr_set str i (of_int (n smod 10 + 48)) of Inl e \<Rightarrow> Inl e | Inr str' \<Rightarrow>
        let n' = n sdiv 10 in
        if n' > 0 then ascii_digits n' str' (i + 1) else Inr (str', i + 1))"
  by pat_completeness auto
termination
  by (relation "measure (\<lambda>(n, str, i). nat (int (length str) - i))")
     (auto simp: arr_set_def split: if_splits)

definition int_to_ascii :: "int \<Rightarrow> u8 list \<Rightarrow> stop + u8 list" where
  "int_to_ascii n str =
     (let sign = n; n = (if n < 0 then wrap32 (- n) else n) in
      case ascii_digits n str 0 of Inl e \<Rightarrow> Inl e | Inr p \<Rightarrow>
      case (if sign < 0 then map_sum id (\<lambda>s. (s, snd p + 1)) (arr_set (fst p) (snd p) 45)
            else Inr p) of Inl e \<Rightarrow> Inl e | Inr q \<Rightarrow>
      case arr_set (fst q) (snd q) 0 of Inl e \<Rightarrow> Inl e | Inr s \<Rightarrow> reverse s)"

declare memset_arr.simps [simp del] memcpy.simps [simp del] memcpy_within.simps [simp del] memcmp.simps [simp del]
  strlen_from.simps [simp del] reverse_loop.simps [simp del] ascii_digits.simps [simp del]

section \<open>Lemmas\<close>

lemma memset_eq: "memset m d v n = (\<lambda>a. if in_range d (unat n) a then v else m a)"
proof (induction m d v n rule: memset.induct)
  case (1 m d v n)
  show ?case
  proof (cases "n = 0")
    case True
    then show ?thesis by (simp add: memset.simps in_range_def)
  next
    case False
    have "in_range d (unat n) a \<longleftrightarrow> a = d \<or> in_range (d + 1) (unat (n - 1)) a" for a
    proof (cases "a = d")
      case True
      with False show ?thesis by (simp add: unat_gt_0)
    next
      case neq: False
      then have "a - d \<noteq> 0" by simp
      then have "unat (a - d) = Suc (unat (a - d - 1))"
        by (simp add: unat_minus_one unat_gt_0)
      moreover have "unat n = Suc (unat (n - 1))"
        using False by (simp add: unat_minus_one unat_gt_0)
      ultimately show ?thesis using neq by (simp add: in_range_def diff_diff_add)
    qed
    moreover have "memset m d v n = memset (m(d := v)) (d + 1) v (n - 1)"
      using False by (subst memset.simps) simp
    ultimately show ?thesis
      by (simp add: 1 [OF False] fun_eq_iff)
  qed
qed

text \<open>Array accesses at natural indices, and inside a concatenation.\<close>

lemma arr_get_nat: "n < length xs \<Longrightarrow> arr_get xs (int n) = Inr (xs ! n)"
  by (simp add: arr_get_def)

lemma arr_set_nat: "n < length xs \<Longrightarrow> arr_set xs (int n) v = Inr (xs[n := v])"
  by (simp add: arr_set_def)

lemma strlen_from_string:
  "0 \<notin> set xs \<Longrightarrow> strlen_from (ys @ xs @ 0 # zs) (int (length ys)) = Inr (int (length ys + length xs))"
proof (induction xs arbitrary: ys)
  case Nil
  then show ?case by (simp add: strlen_from.simps [of "ys @ 0 # zs"] arr_get_nat nth_append)
next
  case (Cons x xs)
  have "strlen_from ((ys @ [x]) @ xs @ 0 # zs) (int (length (ys @ [x])))
      = Inr (int (length (ys @ [x]) + length xs))"
    using Cons by (intro Cons.IH) simp
  then show ?case
    using Cons.prems
    by (simp add: strlen_from.simps [of "ys @ x # xs @ 0 # zs"] arr_get_nat nth_append add.commute)
qed

lemma strlen_string: "0 \<notin> set xs \<Longrightarrow> strlen (xs @ 0 # zs) = Inr (int (length xs))"
  using strlen_from_string [of xs "[]" zs] by (simp add: strlen_def)

text \<open>One round of the swap loop exchanges the two ends of the middle part.\<close>

lemma reverse_loop_mid:
  "reverse_loop (ys @ xs @ zs) (int (length ys)) (int (length ys + length xs) - 1) = Inr (ys @ rev xs @ zs)"
proof (induction xs arbitrary: ys zs rule: length_induct)
  case (1 xs)
  show ?case
  proof (cases "length xs \<le> 1")
    case True
    then show ?thesis
      by (cases xs) (simp_all add: reverse_loop.simps)
  next
    case False
    then obtain a m b where xs: "xs = a # m @ [b]"
      by (metis One_nat_def append_butlast_last_id le_SucI length_Cons list.exhaust list.size(3)
          nat_le_linear not_less_eq_eq)
    have IH: "reverse_loop ((ys @ [b]) @ m @ (a # zs)) (int (length (ys @ [b])))
        (int (length (ys @ [b]) + length m) - 1) = Inr ((ys @ [b]) @ rev m @ (a # zs))"
      using 1 [rule_format, of m "ys @ [b]" "a # zs"] xs by (simp add: algebra_simps)
    have e: "ys @ xs @ zs = ys @ a # m @ b # zs" by (simp add: xs)
    have l: "int (length ys + length xs) - 1 = int (length ys + length m + 1)"
      by (simp add: xs)
    have g1: "arr_get (ys @ a # m @ b # zs) (int (length ys)) = Inr a"
      by (simp add: arr_get_nat nth_append)
    have g2: "arr_get (ys @ a # m @ b # zs) (int (length ys + length m + 1)) = Inr b"
      by (subst arr_get_nat) (simp_all add: nth_append)
    have s1: "arr_set (ys @ a # m @ b # zs) (int (length ys)) b = Inr (ys @ b # m @ b # zs)"
      by (simp add: arr_set_nat list_update_append)
    have s2: "arr_set (ys @ b # m @ b # zs) (int (length ys + length m + 1)) a
        = Inr (ys @ b # m @ a # zs)"
      by (subst arr_set_nat) (simp_all add: list_update_append)
    show ?thesis
      unfolding l e
      by (subst reverse_loop.simps, simp only: g1 g2 s1 s2 sum.case)
        (use IH in \<open>simp add: xs algebra_simps\<close>)
  qed
qed

lemma reverse_string: "0 \<notin> set xs \<Longrightarrow> reverse (xs @ 0 # zs) = Inr (rev xs @ 0 # zs)"
  using reverse_loop_mid [of "[]" xs "0 # zs"] by (simp add: reverse_def strlen_string)

lemma list_update_take_drop:
  "n < length xs \<Longrightarrow> xs[n := v] = take n xs @ v # drop (Suc n) xs"
  by (simp add: upd_conv_take_nth_drop)

lemma memset_arr_eq:
  assumes "i + n \<le> length xs"
  shows "memset_arr xs (int i) v n = Inr (take i xs @ replicate n v @ drop (i + n) xs)"
  using assms
proof (induction n arbitrary: i xs)
  case 0
  then show ?case by (simp add: memset_arr.simps)
next
  case (Suc n)
  have "memset_arr (xs[i := v]) (int (Suc i)) v n
      = Inr (take (Suc i) (xs[i := v]) @ replicate n v @ drop (Suc i + n) (xs[i := v]))"
    using Suc.prems by (intro Suc.IH) simp
  moreover have "take (Suc i) (xs[i := v]) = take i xs @ [v]"
    using Suc.prems by (simp add: take_Suc_conv_app_nth)
  ultimately show ?case
    using Suc.prems by (subst memset_arr.simps) (simp add: arr_set_nat add.commute)
qed

text \<open>\<open>memcpy\<close> of \<open>n\<close> bytes, both ranges inside their arrays.\<close>

lemma memcpy_from:
  assumes "s + n \<le> length src" "d + n \<le> length dst" "i \<le> n"
    "take i (drop d dst) = take i (drop s src)"
  shows "memcpy dst (int d) src (int s) (int n) (int i)
    = Inr (take d dst @ take n (drop s src) @ drop (d + n) dst)"
  using assms
proof (induction "n - i" arbitrary: i dst)
  case 0
  then have "i = n" by simp
  with 0 have "take d dst @ take n (drop d dst) @ drop (d + n) dst = dst"
    by (metis append_take_drop_id drop_drop add.commute)
  with 0 \<open>i = n\<close> show ?case by (subst memcpy.simps) simp
next
  case (Suc m)
  then have i: "i < n" by simp
  let ?v = "src ! (s + i)"
  let ?d = "dst[d + i := ?v]"
  have g: "arr_get src (int s + int i) = Inr ?v" "arr_set dst (int d + int i) ?v = Inr ?d"
    using Suc.prems i arr_get_nat [of "s + i" src] arr_set_nat [of "d + i" dst] by auto
  have tk: "take (Suc i) (drop d ?d) = take (Suc i) (drop s src)"
  proof -
    have "drop d ?d = (drop d dst)[i := ?v]" by (simp add: drop_update_swap)
    moreover have "i < length (drop d dst)" "i < length (drop s src)" using Suc.prems i by auto
    ultimately show ?thesis
      using Suc.prems(4) by (simp add: take_Suc_conv_app_nth take_update_cancel add.commute)
  qed
  have "memcpy ?d (int d) src (int s) (int n) (int (Suc i))
      = Inr (take d ?d @ take n (drop s src) @ drop (d + n) ?d)"
    using Suc tk i by (intro Suc.hyps) auto
  moreover have "take d ?d = take d dst" "drop (d + n) ?d = drop (d + n) dst" using i by simp_all
  ultimately show ?case
    using i g by (subst memcpy.simps) (simp add: add.commute)
qed

lemma memcpy_eq:
  assumes "s + n \<le> length src" "d + n \<le> length dst"
  shows "memcpy dst (int d) src (int s) (int n) 0 = Inr (take d dst @ take n (drop s src) @ drop (d + n) dst)"
  using memcpy_from [OF assms, of 0] by simp

text \<open>A copy to lower addresses within one array, the ranges disjoint.\<close>

lemma memcpy_within_memcpy:
  assumes "d + n \<le> s" "i \<le> n" "drop s xs = drop s ys" "length xs = length ys"
  shows "memcpy_within xs (int d) (int s) (int n) (int i) = memcpy xs (int d) ys (int s) (int n) (int i)"
  using assms
proof (induction "n - i" arbitrary: i xs)
  case 0
  then show ?case by (simp add: memcpy_within.simps memcpy.simps)
next
  case (Suc m)
  then have i: "i < n" by simp
  have g: "arr_get xs (int s + int i) = arr_get ys (int s + int i)"
  proof (cases "s + i < length ys")
    case True
    then have "xs ! (s + i) = ys ! (s + i)"
      using Suc.prems(3,4) by (metis nth_drop le_add1 order_le_less_trans less_imp_le)
    with True Suc.prems(4) show ?thesis by (simp add: arr_get_def nat_add_distrib)
  qed (use Suc.prems in \<open>simp add: arr_get_def\<close>)
  show ?case
  proof (cases "arr_get ys (int s + int i)")
    case (Inl e)
    with g i show ?thesis by (simp add: memcpy_within.simps memcpy.simps)
  next
    case (Inr v)
    show ?thesis
    proof (cases "d + i < length xs")
      case False
      with g i Inr show ?thesis
        by (simp add: memcpy_within.simps memcpy.simps arr_set_def)
    next
      case True
      have "memcpy_within (xs[d + i := v]) (int d) (int s) (int n) (int (Suc i))
          = memcpy (xs[d + i := v]) (int d) ys (int s) (int n) (int (Suc i))"
        using Suc i by (intro Suc.hyps) auto
      then show ?thesis
        using True i g Inr arr_set_nat [OF True, of v]
        by (subst memcpy_within.simps, subst memcpy.simps) (simp add: add.commute)
    qed
  qed
qed

text \<open>\<open>memcmp\<close> answers 0 exactly for equal prefixes.\<close>

lemma memcmp_from:
  assumes "n \<le> length src" "n \<le> length dst" "i \<le> n"
  shows "\<exists>c. memcmp src dst (int n) (int i) = Inr c \<and> (c = 0 \<longleftrightarrow> take (n - i) (drop i src) = take (n - i) (drop i dst))"
  using assms
proof (induction "n - i" arbitrary: i)
  case 0
  then show ?case by (simp add: memcmp.simps)
next
  case (Suc m)
  then have i: "i < n" "m = n - Suc i" by simp_all
  have e: "take (n - i) (drop i xs) = xs ! i # take (n - Suc i) (drop (Suc i) xs)" if "n \<le> length xs"
    for xs :: "u8 list"
    using i that by (simp add: Cons_nth_drop_Suc [symmetric] Suc_diff_Suc [symmetric])
  obtain c where c: "memcmp src dst (int n) (int (Suc i)) = Inr c"
    "c = 0 \<longleftrightarrow> take (n - Suc i) (drop (Suc i) src) = take (n - Suc i) (drop (Suc i) dst)"
    using Suc.hyps(1) [OF i(2)] Suc.prems i by auto
  have g: "arr_get src (int i) = Inr (src ! i)" "arr_get dst (int i) = Inr (dst ! i)"
    using Suc.prems i by (simp_all add: arr_get_nat)
  show ?case
    using c g i(1) Suc.prems
    by (subst memcmp.simps) (auto simp: e add.commute not_less dest: order_antisym)
qed

lemma memcmp_eq:
  assumes "n \<le> length src" "n \<le> length dst"
  obtains c where "memcmp src dst (int n) 0 = Inr c" "c = 0 \<longleftrightarrow> take n src = take n dst"
  using memcmp_from [OF assms, of 0] by auto

end
