(* ===== verification/Interfaces.thy ===== *)
theory Interfaces
  imports Prelude
begin

text \<open>
  The contracts between components, as locales: the operations a client calls and the laws their
  provider promises. Each is interpreted on the model of the providing component, in that
  component's theory.
\<close>

section \<open>Frames of physical memory\<close>

text \<open>A client that takes up to \<open>n\<close> frames, stopping at the first failure (address 0).\<close>

fun grab :: "('s \<Rightarrow> u32 \<times> 's) \<Rightarrow> nat \<Rightarrow> 's \<Rightarrow> u32 list \<times> 's" where
  "grab alloc 0 s = ([], s)"
| "grab alloc (Suc n) s =
     (if fst (alloc s) = 0 then ([], snd (alloc s))
      else (fst (alloc s) # fst (grab alloc n (snd (alloc s))), snd (grab alloc n (snd (alloc s)))))"

locale frame_allocator =
  fixes alloc :: "'s \<Rightarrow> u32 \<times> 's"
    and release :: "u32 \<Rightarrow> 's \<Rightarrow> 's"
    and owned :: "'s \<Rightarrow> u32 \<Rightarrow> bool"
    and inv :: "'s \<Rightarrow> bool"
  assumes alloc_none: "inv s \<Longrightarrow> fst (alloc s) = 0 \<Longrightarrow> snd (alloc s) = s"
    and alloc_new: "inv s \<Longrightarrow> fst (alloc s) \<noteq> 0 \<Longrightarrow> \<not> owned s (fst (alloc s))"
    and alloc_owned: "inv s \<Longrightarrow> fst (alloc s) \<noteq> 0 \<Longrightarrow>
      owned (snd (alloc s)) q \<longleftrightarrow> q = fst (alloc s) \<or> owned s q"
    and alloc_inv: "inv s \<Longrightarrow> fst (alloc s) \<noteq> 0 \<Longrightarrow> inv (snd (alloc s))"
    and release_owned: "inv s \<Longrightarrow> p \<noteq> 0 \<Longrightarrow> owned s p \<Longrightarrow> owned (release p s) q \<longleftrightarrow> q \<noteq> p \<and> owned s q"
    and release_inv: "inv s \<Longrightarrow> p \<noteq> 0 \<Longrightarrow> owned s p \<Longrightarrow> inv (release p s)"
begin

lemma grab_spec:
  assumes "inv s"
  shows "inv (snd (grab alloc n s)) \<and> distinct (fst (grab alloc n s)) \<and> 0 \<notin> set (fst (grab alloc n s)) \<and>
    (\<forall>p \<in> set (fst (grab alloc n s)). \<not> owned s p) \<and>
    (\<forall>q. owned (snd (grab alloc n s)) q \<longleftrightarrow> q \<in> set (fst (grab alloc n s)) \<or> owned s q)"
  using assms
proof (induction n arbitrary: s)
  case 0
  then show ?case by simp
next
  case (Suc n)
  show ?case
  proof (cases "fst (alloc s) = 0")
    case True
    with Suc.prems show ?thesis by (simp add: alloc_none)
  next
    case False
    with Suc.prems have "inv (snd (alloc s))" by (rule alloc_inv)
    from Suc.IH [OF this] show ?thesis
      using False Suc.prems alloc_new by (auto simp: alloc_owned)
  qed
qed

lemmas grab_inv = grab_spec [THEN conjunct1]

lemma release_all:
  assumes "inv s" "distinct ps" "0 \<notin> set ps" "\<forall>p \<in> set ps. owned s p"
  shows "inv (fold release ps s) \<and> (\<forall>q. owned (fold release ps s) q \<longleftrightarrow> q \<notin> set ps \<and> owned s q)"
  using assms
proof (induction ps arbitrary: s)
  case Nil
  then show ?case by simp
next
  case (Cons p ps)
  have p: "inv (release p s)" "\<And>q. owned (release p s) q \<longleftrightarrow> q \<noteq> p \<and> owned s q"
    using Cons.prems by (auto simp: release_owned release_inv)
  have "inv (fold release ps (release p s)) \<and>
      (\<forall>q. owned (fold release ps (release p s)) q \<longleftrightarrow> q \<notin> set ps \<and> owned (release p s) q)"
    by (rule Cons.IH) (use Cons.prems p in auto)
  then show ?case by (auto simp: p)
qed

text \<open>Taking frames and giving them all back leaves the ownership as it was.\<close>

lemma grab_release_all:
  assumes "inv s"
  shows "owned (fold release (fst (grab alloc n s)) (snd (grab alloc n s))) q \<longleftrightarrow> owned s q"
  using release_all [of "snd (grab alloc n s)" "fst (grab alloc n s)"] grab_spec [OF assms, of n]
  by auto

end

section \<open>Indexed stores\<close>

text \<open>
  Entries at indices below a limit, each written without effect on the others: the words of the
  bitmap, the entries of a page table, the entries of the FAT.
\<close>

locale indexed_store =
  fixes get :: "'s \<Rightarrow> nat \<Rightarrow> 'v"
    and put :: "nat \<Rightarrow> 'v \<Rightarrow> 's \<Rightarrow> 's"
    and limit :: nat
    and fits :: "'v \<Rightarrow> bool"
  assumes get_put: "i < limit \<Longrightarrow> j < limit \<Longrightarrow> fits v \<Longrightarrow> get (put i v s) j = (if j = i then v else get s j)"
begin

text \<open>A loop that writes the entries from \<open>i\<close> to \<open>n\<close>.\<close>

lemma get_fill:
  assumes "\<And>i. i < n \<Longrightarrow> fits (f i)" "n \<le> limit" "j < limit"
  shows "get (fold (\<lambda>i. put i (f i)) [i..<n] s) j = (if i \<le> j \<and> j < n then f j else get s j)"
  using assms
proof (induction "n - i" arbitrary: i s)
  case 0
  then show ?case by (cases "i \<le> j") auto
next
  case (Suc m)
  then have i: "i < n" by simp
  then have "get (fold (\<lambda>i. put i (f i)) [Suc i..<n] (put i (f i) s)) j
      = (if Suc i \<le> j \<and> j < n then f j else get (put i (f i) s) j)"
    using Suc by (intro Suc.hyps) auto
  then show ?case
    using Suc.prems i by (auto simp: upt_conv_Cons get_put)
qed

text \<open>Two writes, and a write of what is there already.\<close>

lemma get_put_put:
  assumes "i < limit" "j < limit" "k < limit" "fits v" "fits w"
  shows "get (put i v (put j w s)) k = (if k = i then v else if k = j then w else get s k)"
  using assms by (simp add: get_put)

text \<open>Following a chain: a write at an index the chain does not visit leaves it as it is.\<close>

fun chain :: "('v \<Rightarrow> nat option) \<Rightarrow> 's \<Rightarrow> nat \<Rightarrow> nat \<Rightarrow> nat list" where
  "chain next s i 0 = []"
| "chain next s i (Suc n) = i # (case next (get s i) of None \<Rightarrow> [] | Some j \<Rightarrow> chain next s j n)"

lemma chain_put:
  assumes "k < limit" "fits v" "k \<notin> set (chain next s i n)" "\<And>v j. next v = Some j \<Longrightarrow> j < limit" "i < limit"
  shows "chain next (put k v s) i n = chain next s i n"
  using assms(3,5)
proof (induction n arbitrary: i)
  case (Suc n)
  then have "i \<noteq> k" by auto
  then have e: "get (put k v s) i = get s i" using Suc.prems assms by (simp add: get_put)
  show ?case
  proof (cases "next (get s i)")
    case (Some j)
    with Suc.prems assms(4) have "chain next (put k v s) j n = chain next s j n"
      by (intro Suc.IH) auto
    with Some e show ?thesis by simp
  qed (simp add: e)
qed simp

end

section \<open>Sectors of a drive\<close>

text \<open>
  Whole sectors read into and written from a 512-byte buffer. \<open>same\<close> is the frame: what neither
  operation touches.
\<close>

locale sector_store =
  fixes rd :: "u32 \<Rightarrow> u8 list \<Rightarrow> 's \<Rightarrow> (u8 list, 's) result"
    and wr :: "u32 \<Rightarrow> u8 list \<Rightarrow> 's \<Rightarrow> (unit, 's) result"
    and content :: "'s \<Rightarrow> nat \<Rightarrow> u8 list"
    and index :: "u32 \<Rightarrow> nat"
    and inv :: "'s \<Rightarrow> bool"
    and same :: "'s \<Rightarrow> 's \<Rightarrow> bool"
  assumes rd: "inv s \<Longrightarrow> length buf = 512 \<Longrightarrow>
      \<exists>s'. rd lba buf s = Inr (content s (index lba), s') \<and> inv s' \<and> content s' = content s \<and> same s s'"
    and wr: "inv s \<Longrightarrow> length buf = 512 \<Longrightarrow>
      \<exists>s'. wr lba buf s = Inr ((), s') \<and> inv s' \<and> content s' = (content s)(index lba := buf) \<and> same s s'"
    and content_length: "inv s \<Longrightarrow> length (content s l) = 512"
    and same_refl: "same s s"
    and same_trans: "same s s' \<Longrightarrow> same s' s'' \<Longrightarrow> same s s''"
begin

text \<open>What was written is what is read.\<close>

lemma read_back:
  assumes "inv s" "length buf = 512" "length buf' = 512"
  shows "\<exists>s'. bindk (wr lba buf s) (\<lambda>_ s. rd lba buf' s) = Inr (buf, s') \<and> inv s' \<and>
    content s' = (content s)(index lba := buf) \<and> same s s'"
proof -
  obtain s1 where "wr lba buf s = Inr ((), s1)" "inv s1" "content s1 = (content s)(index lba := buf)" "same s s1"
    using wr [OF assms(1,2)] by blast
  moreover from this(2) obtain s2 where
    "rd lba buf' s1 = Inr (content s1 (index lba), s2)" "inv s2" "content s2 = content s1" "same s1 s2"
    using rd [OF _ assms(3)] by blast
  ultimately show ?thesis by (auto intro: same_trans)
qed

text \<open>Reading a sector, changing it and writing it back changes that sector alone.\<close>

lemma read_modify_write:
  assumes "inv s" "length buf = 512" "\<And>b. length b = 512 \<Longrightarrow> length (f b) = 512"
  shows "\<exists>s'. bindk (rd lba buf s) (\<lambda>b s. wr lba (f b) s) = Inr ((), s') \<and> inv s' \<and>
    content s' = (content s)(index lba := f (content s (index lba))) \<and> same s s'"
proof -
  obtain s1 where s1: "rd lba buf s = Inr (content s (index lba), s1)" "inv s1" "content s1 = content s" "same s s1"
    using rd [OF assms(1,2)] by blast
  moreover have "length (f (content s (index lba))) = 512"
    using assms(3) content_length [OF assms(1)] by blast
  ultimately obtain s2 where "wr lba (f (content s (index lba))) s1 = Inr ((), s2)" "inv s2"
    "content s2 = (content s)(index lba := f (content s (index lba)))" "same s1 s2"
    using wr [OF s1(2)] by metis
  with s1 show ?thesis by (auto intro: same_trans)
qed

end

section \<open>Queues of bytes\<close>

text \<open>
  A queue filled one byte at a time and emptied one byte at a time into memory. A byte put into a
  full queue is stored too, but what the queue holds then is not promised.
\<close>

fun put_list :: "(u8 \<Rightarrow> 's \<Rightarrow> (unit, 's) result) \<Rightarrow> u8 list \<Rightarrow> 's \<Rightarrow> (unit, 's) result" where
  "put_list put [] s = Inr ((), s)"
| "put_list put (c # xs) s = bindk (put c s) (\<lambda>_ s. put_list put xs s)"

lemma put_list_append:
  "put_list put (xs @ ys) s = bindk (put_list put xs s) (\<lambda>_ s. put_list put ys s)"
proof (induction xs arbitrary: s)
  case (Cons c xs)
  then have "put_list put (xs @ ys) = (\<lambda>s. bindk (put_list put xs s) (\<lambda>_ s. put_list put ys s))"
    by (intro ext)
  then show ?case by (simp add: bindk_assoc)
qed simp

fun pull_list :: "(u32 \<Rightarrow> 's \<Rightarrow> (unit, 's) result) \<Rightarrow> u32 \<Rightarrow> nat \<Rightarrow> 's \<Rightarrow> (unit, 's) result" where
  "pull_list pull a 0 s = Inr ((), s)"
| "pull_list pull a (Suc n) s = bindk (pull a s) (\<lambda>_ s. pull_list pull (a + 1) n s)"

locale byte_queue =
  fixes put :: "u8 \<Rightarrow> 's \<Rightarrow> (unit, 's) result"
    and pull :: "u32 \<Rightarrow> 's \<Rightarrow> (unit, 's) result"
    and items :: "'s \<Rightarrow> u8 list"
    and cap :: nat
    and out :: "'s \<Rightarrow> memory"
    and inv :: "'s \<Rightarrow> bool"
    and same :: "'s \<Rightarrow> 's \<Rightarrow> bool"
  assumes put: "inv s \<Longrightarrow> \<exists>s'. put c s = Inr ((), s') \<and> inv s' \<and> same s s' \<and> out s' = out s \<and>
      (length (items s) < cap \<longrightarrow> items s' = items s @ [c])"
    and pull: "inv s \<Longrightarrow> items s = c # q \<Longrightarrow> \<exists>s'. pull a s = Inr ((), s') \<and> inv s' \<and> same s s' \<and>
      out s' = (out s)(a := c) \<and> items s' = q"
    and same_refl: "same s s"
    and same_trans: "same s s' \<Longrightarrow> same s' s'' \<Longrightarrow> same s s''"
begin

lemma put_list_spec:
  assumes "inv s"
  shows "\<exists>s'. put_list put xs s = Inr ((), s') \<and> inv s' \<and> same s s' \<and> out s' = out s \<and>
    (length (items s) + length xs \<le> cap \<longrightarrow> items s' = items s @ xs)"
  using assms
proof (induction xs arbitrary: s)
  case Nil
  then show ?case by (simp add: same_refl)
next
  case (Cons c xs)
  obtain s1 where s1: "put c s = Inr ((), s1)" "inv s1" "same s s1" "out s1 = out s"
    "length (items s) < cap \<Longrightarrow> items s1 = items s @ [c]"
    using put [OF Cons.prems] by blast
  obtain s2 where s2: "put_list put xs s1 = Inr ((), s2)" "inv s2" "same s1 s2" "out s2 = out s1"
    "length (items s1) + length xs \<le> cap \<Longrightarrow> items s2 = items s1 @ xs"
    using Cons.IH [OF s1(2)] by blast
  from s1(3) s2(3) have "same s s2" by (rule same_trans)
  with s1 s2 show ?case by auto
qed

lemma pull_list_spec:
  assumes "inv s" "n \<le> length (items s)"
  shows "\<exists>s'. pull_list pull a n s = Inr ((), s') \<and> inv s' \<and> same s s' \<and>
    out s' = wr_bytes (out s) a (take n (items s)) \<and> items s' = drop n (items s)"
  using assms
proof (induction n arbitrary: a s)
  case 0
  then show ?case by (simp add: same_refl)
next
  case (Suc n)
  then obtain c q where q: "items s = c # q" by (cases "items s") auto
  obtain s1 where s1: "pull a s = Inr ((), s1)" "inv s1" "same s s1" "out s1 = (out s)(a := c)" "items s1 = q"
    using pull [OF Suc.prems(1) q] by blast
  obtain s2 where s2: "pull_list pull (a + 1) n s1 = Inr ((), s2)" "inv s2" "same s1 s2"
    "out s2 = wr_bytes (out s1) (a + 1) (take n q)" "items s2 = drop n q"
    using Suc.IH [OF s1(2)] Suc.prems(2) q s1(5) by auto
  from s1(3) s2(3) have "same s s2" by (rule same_trans)
  with s1 s2 q show ?case by auto
qed

text \<open>What was put into an empty queue is what comes out, in order.\<close>

lemma put_pull:
  assumes "inv s" "items s = []" "length xs \<le> cap"
  shows "\<exists>s'. bindk (put_list put xs s) (\<lambda>_ s. pull_list pull a (length xs) s) = Inr ((), s') \<and> inv s' \<and>
    same s s' \<and> out s' = wr_bytes (out s) a xs \<and> items s' = []"
proof -
  obtain s1 where s1: "put_list put xs s = Inr ((), s1)" "inv s1" "same s s1" "out s1 = out s" "items s1 = xs"
    using put_list_spec [OF assms(1), of xs] assms(2,3) by auto
  obtain s2 where "pull_list pull a (length xs) s1 = Inr ((), s2)" "inv s2" "same s1 s2"
    "out s2 = wr_bytes (out s1) a xs" "items s2 = []"
    using pull_list_spec [OF s1(2), of "length xs" a] s1(5) by auto
  with s1 show ?thesis by (auto intro: same_trans)
qed

end

end
