(* ===== verification/Memory.thy ===== *)
theory Memory
  imports Util Interfaces
begin

text \<open>
  \<^verbatim>\<open>mm/memory.c\<close>: the physical memory manager. Its state is the bitmap of frames at
  \<open>mem_mngr\<close> in flat memory (one bit per 4 KiB frame, set when in use) and four counters; the
  record also holds what the file's inline assembly touches, CR0 and CR3. Every later component's
  state extends this record. \<open>frame_bit\<close> reads the bitmap abstractly; the lemmas give each
  operation's effect on it, and \<open>frame_allocator\<close> is the interface the virtual memory manager
  relies on.
\<close>

section \<open>State\<close>

record pmm =
  mem :: memory
  cr0 :: u32
  cr3 :: u32
  mem_mngr :: u32
  mem_mngr_max_blocks :: u32
  mem_mngr_used_blocks :: u32
  mem_mngr_size :: u32

abbreviation (input) MEMORY_BLOCKS_PER_BYTE :: u32 where "MEMORY_BLOCKS_PER_BYTE \<equiv> 8"

abbreviation (input) MEMORY_BLOCK_SIZE :: u32 where "MEMORY_BLOCK_SIZE \<equiv> 4096"

section \<open>Operations\<close>

definition get_memory_size :: "'a pmm_scheme \<Rightarrow> u32" where
  "get_memory_size s = mem_mngr_size s"

definition get_block_count :: "'a pmm_scheme \<Rightarrow> u32" where
  "get_block_count s = mem_mngr_max_blocks s"

definition get_use_block_count :: "'a pmm_scheme \<Rightarrow> u32" where
  "get_use_block_count s = mem_mngr_used_blocks s"

definition get_free_block_count :: "'a pmm_scheme \<Rightarrow> u32" where
  "get_free_block_count s = mem_mngr_max_blocks s - mem_mngr_used_blocks s"

definition init_mem_mngr :: "u32 \<Rightarrow> u32 \<Rightarrow> 'a pmm_scheme \<Rightarrow> 'a pmm_scheme" where
  "init_mem_mngr addr sz s =
     (let s = s\<lparr>mem_mngr_size := sz\<rparr>;
          s = s\<lparr>mem_mngr := addr\<rparr>;
          s = s\<lparr>mem_mngr_max_blocks := (get_memory_size s * 1024) div MEMORY_BLOCK_SIZE\<rparr>;
          s = s\<lparr>mem_mngr_used_blocks := mem_mngr_max_blocks s\<rparr>
      in s\<lparr>mem := memset (mem s) (mem_mngr s) 0xf (get_block_count s div MEMORY_BLOCKS_PER_BYTE)\<rparr>)"

text \<open>
  Element \<open>i\<close> of the \<^verbatim>\<open>u32\<close> array \<^verbatim>\<open>mem_mngr\<close>, and the mask \<^verbatim>\<open>1 << (bit % 32)\<close>. Every
  caller passes a bit number that is not negative (for a negative one the shift is undefined in C).
\<close>

definition mem_mngr_at :: "'a pmm_scheme \<Rightarrow> int \<Rightarrow> u32" where
  "mem_mngr_at s i = rd32 (mem s) (mem_mngr s + 4 * of_int i)"

definition mem_mngr_put :: "int \<Rightarrow> u32 \<Rightarrow> 'a pmm_scheme \<Rightarrow> 'a pmm_scheme" where
  "mem_mngr_put i v s = s\<lparr>mem := wr32 (mem s) (mem_mngr s + 4 * of_int i) v\<rparr>"

definition bit_mask :: "int \<Rightarrow> u32" where
  "bit_mask b = push_bit (nat (b smod 32)) 1"

definition mmap_set :: "int \<Rightarrow> 'a pmm_scheme \<Rightarrow> 'a pmm_scheme" where
  "mmap_set b s = mem_mngr_put (b sdiv 32) (mem_mngr_at s (b sdiv 32) OR bit_mask b) s"

definition mmap_unset :: "int \<Rightarrow> 'a pmm_scheme \<Rightarrow> 'a pmm_scheme" where
  "mmap_unset b s = mem_mngr_put (b sdiv 32) (mem_mngr_at s (b sdiv 32) AND NOT (bit_mask b)) s"

definition mmap_test :: "int \<Rightarrow> 'a pmm_scheme \<Rightarrow> int" where
  "mmap_test b s = sint (mem_mngr_at s (b sdiv 32) AND bit_mask b)"

text \<open>The inner loop of \<open>mmap_first_free\<close>: the first clear bit of a word.\<close>

function first_free_bit :: "u32 \<Rightarrow> nat \<Rightarrow> nat option" where
  "first_free_bit w j =
     (if j < 32 then if w AND push_bit j 1 = 0 then Some j else first_free_bit w (Suc j) else None)"
  by pat_completeness auto
termination
  by (relation "measure (\<lambda>(w, j). 32 - j)") auto

text \<open>The outer loop, over words \<open>i\<close> below \<open>n\<close> = \<^verbatim>\<open>get_block_count() / 32\<close>.\<close>

function first_free_word :: "'a pmm_scheme \<Rightarrow> nat \<Rightarrow> nat \<Rightarrow> int" where
  "first_free_word s i n =
     (if i < n
      then if mem_mngr_at s (int i) \<noteq> 0xffffffff
           then (case first_free_bit (mem_mngr_at s (int i)) 0 of
                   Some j \<Rightarrow> sint (of_nat i * 4 * 8 + of_nat j :: u32)
                 | None \<Rightarrow> first_free_word s (Suc i) n)
           else first_free_word s (Suc i) n
      else -1)"
  by pat_completeness auto
termination
  by (relation "measure (\<lambda>(s, i, n). n - i)") auto

definition mmap_first_free :: "'a pmm_scheme \<Rightarrow> int" where
  "mmap_first_free s = first_free_word s 0 (unat (get_block_count s div 32))"

text \<open>
  \<open>mmap_first_free_s\<close>. \<open>enough_from\<close> is the innermost loop, over \<open>count\<close> up to \<open>sz\<close>
  inclusive; \<open>count\<close> and \<open>free\<close> do not wrap below \<open>sz = 2^32 - 1\<close>, a sz the guard of
  \<open>alloc_memory_blocks\<close> never lets through.
\<close>

function enough_from :: "'a pmm_scheme \<Rightarrow> int \<Rightarrow> nat \<Rightarrow> nat \<Rightarrow> nat \<Rightarrow> bool" where
  "enough_from s starting_bit sz count free =
     (if count \<le> sz
      then let free = (if mmap_test (sint (of_int starting_bit + of_nat count :: u32)) s = 0
                       then free + 1 else free)
           in if free = sz then True else enough_from s starting_bit sz (Suc count) free
      else False)"
  by pat_completeness auto
termination
  by (relation "measure (\<lambda>(s, b, sz, count, free). Suc sz - count)") auto

function first_run_bit :: "'a pmm_scheme \<Rightarrow> nat \<Rightarrow> nat \<Rightarrow> nat \<Rightarrow> int option" where
  "first_run_bit s sz i j =
     (if j < 32
      then if mem_mngr_at s (int i) AND push_bit j 1 = 0 \<and>
              enough_from s (sint (of_nat i * 32 :: u32) + int j) sz 0 0
           then Some (sint (of_nat i * 4 * 8 + of_nat j :: u32))
           else first_run_bit s sz i (Suc j)
      else None)"
  by pat_completeness auto
termination
  by (relation "measure (\<lambda>(s, sz, i, j). 32 - j)") auto

function first_run_word :: "'a pmm_scheme \<Rightarrow> nat \<Rightarrow> nat \<Rightarrow> nat \<Rightarrow> int" where
  "first_run_word s sz i n =
     (if i < n
      then if mem_mngr_at s (int i) \<noteq> 0xffffffff
           then (case first_run_bit s sz i 0 of
                   Some b \<Rightarrow> b | None \<Rightarrow> first_run_word s sz (Suc i) n)
           else first_run_word s sz (Suc i) n
      else -1)"
  by pat_completeness auto
termination
  by (relation "measure (\<lambda>(s, sz, i, n). n - i)") auto

definition mmap_first_free_s :: "u32 \<Rightarrow> 'a pmm_scheme \<Rightarrow> int" where
  "mmap_first_free_s sz s =
     (if sz = 0 then -1
      else if sz = 1 then mmap_first_free s
      else first_run_word s (unat sz) 0 (unat (get_block_count s div 32)))"

definition alloc_memory_block :: "'a pmm_scheme \<Rightarrow> u32 \<times> 'a pmm_scheme" where
  "alloc_memory_block s =
     (if get_free_block_count s \<le> 0 then (0, s)
      else let frame = mmap_first_free s in
        if frame = -1 then (0, s)
        else let s = mmap_set frame s;
                 addr = of_int frame * MEMORY_BLOCK_SIZE
             in (addr, s\<lparr>mem_mngr_used_blocks := mem_mngr_used_blocks s + 1\<rparr>))"

definition free_memory_block :: "u32 \<Rightarrow> 'a pmm_scheme \<Rightarrow> 'a pmm_scheme" where
  "free_memory_block addr s =
     (let frame = sint (addr div MEMORY_BLOCK_SIZE);
          s = mmap_unset frame s
      in s\<lparr>mem_mngr_used_blocks := mem_mngr_used_blocks s - 1\<rparr>)"

text \<open>\<^verbatim>\<open>for (i = 0; i < sz; i++) mmap_set(frame + i)\<close>, and the same with \<open>mmap_unset\<close>.\<close>

function set_blocks :: "int \<Rightarrow> nat \<Rightarrow> nat \<Rightarrow> 'a pmm_scheme \<Rightarrow> 'a pmm_scheme" where
  "set_blocks frame i sz s =
     (if i < sz then set_blocks frame (Suc i) sz (mmap_set (sint (of_int frame + of_nat i :: u32)) s)
      else s)"
  by pat_completeness auto
termination
  by (relation "measure (\<lambda>(frame, i, sz, s). sz - i)") auto

function unset_blocks :: "int \<Rightarrow> nat \<Rightarrow> nat \<Rightarrow> 'a pmm_scheme \<Rightarrow> 'a pmm_scheme" where
  "unset_blocks frame i sz s =
     (if i < sz then unset_blocks frame (Suc i) sz (mmap_unset (sint (of_int frame + of_nat i :: u32)) s)
      else s)"
  by pat_completeness auto
termination
  by (relation "measure (\<lambda>(frame, i, sz, s). sz - i)") auto

definition alloc_memory_blocks :: "u32 \<Rightarrow> 'a pmm_scheme \<Rightarrow> u32 \<times> 'a pmm_scheme" where
  "alloc_memory_blocks sz s =
     (if get_free_block_count s \<le> sz then (0, s)
      else let frame = mmap_first_free_s sz s in
        if frame = -1 then (0, s)
        else let s = set_blocks frame 0 (unat sz) s;
                 addr = of_int frame * MEMORY_BLOCK_SIZE
             in (addr, s\<lparr>mem_mngr_used_blocks := mem_mngr_used_blocks s + sz\<rparr>))"

definition free_memory_blocks :: "u32 \<Rightarrow> u32 \<Rightarrow> 'a pmm_scheme \<Rightarrow> 'a pmm_scheme" where
  "free_memory_blocks addr sz s =
     (let frame = sint (addr div MEMORY_BLOCK_SIZE);
          s = unset_blocks frame 0 (unat sz) s
      in s\<lparr>mem_mngr_used_blocks := mem_mngr_used_blocks s - sz\<rparr>)"

text \<open>The loop of \<open>init_memory_region\<close> runs while \<^verbatim>\<open>blocks >= 0\<close>.\<close>

function region_loop :: "int \<Rightarrow> int \<Rightarrow> 'a pmm_scheme \<Rightarrow> 'a pmm_scheme" where
  "region_loop align blocks s =
     (if 0 \<le> blocks
      then let s = mmap_unset align s;
               s = s\<lparr>mem_mngr_used_blocks := mem_mngr_used_blocks s - 1\<rparr>
           in region_loop (align + 1) (blocks - 1) s
      else s)"
  by pat_completeness auto
termination
  by (relation "measure (\<lambda>(align, blocks, s). nat (blocks + 1))") auto

definition init_memory_region :: "u32 \<Rightarrow> u32 \<Rightarrow> 'a pmm_scheme \<Rightarrow> 'a pmm_scheme" where
  "init_memory_region base sz s =
     (let align = sint (base div MEMORY_BLOCK_SIZE);
          blocks = sint (sz div MEMORY_BLOCK_SIZE)
      in mmap_set 0 (region_loop align blocks s))"

text \<open>The inline assembly on the control registers.\<close>

definition pmmngr_paging_enable :: "u32 \<Rightarrow> 'a pmm_scheme \<Rightarrow> 'a pmm_scheme" where
  "pmmngr_paging_enable b s =
     s\<lparr>cr0 := (if b = 1 then cr0 s OR 0x80000000 else cr0 s AND 0x7FFFFFFF)\<rparr>"

definition is_paging :: "'a pmm_scheme \<Rightarrow> u32" where
  "is_paging s = (if cr0 s AND 0x80000000 \<noteq> 0 then 1 else 0)"

definition load_PDBR :: "u32 \<Rightarrow> 'a pmm_scheme \<Rightarrow> 'a pmm_scheme" where
  "load_PDBR addr s = s\<lparr>cr3 := addr\<rparr>"

definition get_PDBR :: "'a pmm_scheme \<Rightarrow> u32" where
  "get_PDBR s = cr3 s"

declare first_free_bit.simps [simp del] first_free_word.simps [simp del] enough_from.simps [simp del]
  first_run_bit.simps [simp del] first_run_word.simps [simp del] set_blocks.simps [simp del]
  unset_blocks.simps [simp del] region_loop.simps [simp del]

section \<open>The bitmap, frame by frame\<close>

definition frame_bit :: "'a pmm_scheme \<Rightarrow> nat \<Rightarrow> bool" where
  "frame_bit s b \<longleftrightarrow> bit (mem_mngr_at s (int (b div 32))) (b mod 32)"

text \<open>The frames the searches look at: \<^verbatim>\<open>get_block_count() / 32\<close> whole words.\<close>

definition frame_limit :: "'a pmm_scheme \<Rightarrow> nat" where
  "frame_limit s = 32 * (unat (mem_mngr_max_blocks s) div 32)"

lemma mem_mngr_put_fields [simp]:
  "mem_mngr (mem_mngr_put i v s) = mem_mngr s"
  "mem_mngr_max_blocks (mem_mngr_put i v s) = mem_mngr_max_blocks s"
  "mem_mngr_used_blocks (mem_mngr_put i v s) = mem_mngr_used_blocks s"
  "cr0 (mem_mngr_put i v s) = cr0 s" "cr3 (mem_mngr_put i v s) = cr3 s"
  "mem_mngr_size (mem_mngr_put i v s) = mem_mngr_size s"
  "pmm.more (mem_mngr_put i v s) = pmm.more s"
  by (simp_all add: mem_mngr_put_def)

lemma mmap_fields [simp]:
  "mem_mngr (mmap_set b s) = mem_mngr s" "mem_mngr (mmap_unset b s) = mem_mngr s"
  "mem_mngr_max_blocks (mmap_set b s) = mem_mngr_max_blocks s"
  "mem_mngr_max_blocks (mmap_unset b s) = mem_mngr_max_blocks s"
  "mem_mngr_used_blocks (mmap_set b s) = mem_mngr_used_blocks s"
  "mem_mngr_used_blocks (mmap_unset b s) = mem_mngr_used_blocks s"
  by (simp_all add: mmap_set_def mmap_unset_def)

lemma frame_limit_cong [simp]:
  "frame_limit (mmap_set b s) = frame_limit s" "frame_limit (mmap_unset b s) = frame_limit s"
  "frame_limit (s\<lparr>mem_mngr_used_blocks := u\<rparr>) = frame_limit s"
  by (simp_all add: frame_limit_def)

lemma frame_bit_used [simp]: "frame_bit (s\<lparr>mem_mngr_used_blocks := u\<rparr>) = frame_bit s"
  by (simp add: frame_bit_def mem_mngr_at_def fun_eq_iff)

lemma mem_mngr_at_put:
  assumes "i < 2 ^ 30" "j < 2 ^ 30"
  shows "mem_mngr_at (mem_mngr_put (int i) v s) (int j) = (if i = j then v else mem_mngr_at s (int j))"
  using rd32_wr32_array [OF assms, of "mem s" "mem_mngr s" v]
  by (simp add: mem_mngr_at_def mem_mngr_put_def)

lemma bit_mask_nat: "bit_mask (int b) = push_bit (b mod 32) 1"
proof -
  have "int b smod 32 = int (b mod 32)" by (simp add: smod_nonneg zmod_int)
  then show ?thesis by (simp add: bit_mask_def)
qed

lemma sdiv32_nat: "int b sdiv 32 = int (b div 32)"
  by (simp add: sdiv_nonneg zdiv_int)

lemma same_frame: "c = b \<longleftrightarrow> c div 32 = b div 32 \<and> c mod 32 = b mod (32::nat)"
  by (metis div_mult_mod_eq)

lemma frame_bit_set:
  assumes "b < 2 ^ 31" "c < 2 ^ 31"
  shows "frame_bit (mmap_set (int b) s) c \<longleftrightarrow> c = b \<or> frame_bit s c"
  using assms
  by (subst same_frame)
    (auto simp: frame_bit_def mmap_set_def mem_mngr_at_put sdiv32_nat bit_mask_nat bit_simps)

lemma frame_bit_unset:
  assumes "b < 2 ^ 31" "c < 2 ^ 31"
  shows "frame_bit (mmap_unset (int b) s) c \<longleftrightarrow> c \<noteq> b \<and> frame_bit s c"
  using assms
  by (subst same_frame)
    (auto simp: frame_bit_def mmap_unset_def mem_mngr_at_put sdiv32_nat bit_mask_nat bit_simps)

lemma and_mask_eq_0: "w AND 2 ^ j = 0 \<longleftrightarrow> \<not> bit (w :: u32) j"
  using bit_iff_and_push_bit_not_eq_0 [of w j] by simp

lemma mmap_test_frame: "mmap_test (int b) s = 0 \<longleftrightarrow> \<not> frame_bit s b"
  by (simp add: mmap_test_def frame_bit_def sdiv32_nat bit_mask_nat and_mask_eq_0 sint_eq_0_iff)

text \<open>Only bytes of the bitmap word change.\<close>

lemma mmap_mem_outside:
  assumes "b < 2 ^ 31" "\<not> in_range (mem_mngr s) (4 * (b div 32) + 4) x"
  shows "mem (mmap_set (int b) s) x = mem s x" "mem (mmap_unset (int b) s) x = mem s x"
proof -
  have "\<not> in_range (mem_mngr s + 4 * of_nat (b div 32)) 4 x"
    using assms by (subst in_range_word_array) (auto simp: in_range_def)
  then show "mem (mmap_set (int b) s) x = mem s x" "mem (mmap_unset (int b) s) x = mem s x"
    by (simp_all add: mmap_set_def mmap_unset_def mem_mngr_put_def sdiv32_nat wr32_outside)
qed

section \<open>The search for a free frame\<close>

lemma first_free_bit_spec:
  "case first_free_bit w j of
     Some k \<Rightarrow> j \<le> k \<and> k < 32 \<and> \<not> bit w k \<and> (\<forall>l. j \<le> l \<and> l < k \<longrightarrow> bit w l)
   | None \<Rightarrow> \<forall>l. j \<le> l \<and> l < 32 \<longrightarrow> bit w l"
proof (induction w j rule: first_free_bit.induct)
  case (1 w j)
  show ?case
  proof (cases "j < 32 \<and> bit w j")
    case True
    then have "first_free_bit w j = first_free_bit w (Suc j)"
      by (subst first_free_bit.simps) (simp add: and_mask_eq_0)
    with True 1 show ?thesis
      by (auto simp: and_mask_eq_0 split: option.splits) (metis Suc_leI le_eq_less_or_eq)+
  next
    case False
    then show ?thesis
      by (subst first_free_bit.simps) (auto simp: and_mask_eq_0)
  qed
qed

lemma word_full_iff: "w = (0xffffffff :: u32) \<longleftrightarrow> (\<forall>l<32. bit w l)"
proof -
  have "(0xffffffff :: u32) = mask 32" by (simp add: mask_eq_exp_minus_1)
  then show ?thesis by (auto simp: bit_eq_iff bit_simps)
qed

lemma frame_bit_word: "l < 32 \<Longrightarrow> frame_bit s (32 * i + l) \<longleftrightarrow> bit (mem_mngr_at s (int i)) l"
  by (simp add: frame_bit_def)

lemma sint_frame:
  assumes "f < 2 ^ 31"
  shows "sint (of_nat f :: u32) = int f"
  using assms by (simp add: signed_of_nat signed_take_bit_int_eq_self)

lemma first_free_word_spec:
  assumes "n \<le> 2 ^ 26"
  shows "(\<exists>f. first_free_word s i n = int f \<and> 32 * i \<le> f \<and> f < 32 * n \<and> \<not> frame_bit s f \<and>
             (\<forall>b. 32 * i \<le> b \<and> b < f \<longrightarrow> frame_bit s b))
    \<or> first_free_word s i n = -1 \<and> (\<forall>b. 32 * i \<le> b \<and> b < 32 * n \<longrightarrow> frame_bit s b)"
  using assms
proof (induction s i n rule: first_free_word.induct)
  case (1 s i n)
  let ?w = "mem_mngr_at s (int i)"
  have bits: "frame_bit s b = bit ?w (b - 32 * i)" if "32 * i \<le> b" "b < 32 * Suc i" for b
    using frame_bit_word [of "b - 32 * i" s i] that by simp
  show ?case
  proof (cases "i < n")
    case False
    then have "first_free_word s i n = -1" by (subst first_free_word.simps) simp
    with False show ?thesis by auto
  next
    case i: True
    show ?thesis
    proof (cases "\<exists>j<32. \<not> bit ?w j")
      case True
      then have w: "?w \<noteq> 0xffffffff" by (auto simp: word_full_iff)
      obtain k where k: "first_free_bit ?w 0 = Some k"
        using True first_free_bit_spec [where w = ?w and j = 0] by (cases "first_free_bit ?w 0") auto
      then have k': "k < 32" "\<not> bit ?w k" "\<forall>l<k. bit ?w l"
        using first_free_bit_spec [where w = ?w and j = 0] by auto
      have "first_free_word s i n = sint (of_nat i * 4 * 8 + of_nat k :: u32)"
        by (subst first_free_word.simps) (simp add: i w k)
      also have "(of_nat i * 4 * 8 + of_nat k :: u32) = of_nat (32 * i + k)" by simp
      also have "sint (of_nat (32 * i + k) :: u32) = int (32 * i + k)"
        using i k' 1(3) by (intro sint_frame) simp
      finally have r: "first_free_word s i n = int (32 * i + k)" .
      have "\<forall>b. 32 * i \<le> b \<and> b < 32 * i + k \<longrightarrow> frame_bit s b"
        using k' by (auto simp: bits)
      moreover have "\<not> frame_bit s (32 * i + k)" using k' by (simp add: frame_bit_word)
      ultimately show ?thesis using r i k' by (intro disjI1 exI [of _ "32 * i + k"]) auto
    next
      case full: False
      then have "?w = 0xffffffff" by (simp add: word_full_iff)
      then have r: "first_free_word s i n = first_free_word s (Suc i) n"
        by (subst first_free_word.simps) (simp add: i)
      have here: "frame_bit s b" if "32 * i \<le> b" "b < 32 * Suc i" for b
        using full that by (simp add: bits)
      have "32 * i \<le> b \<Longrightarrow> b < 32 * Suc i \<or> 32 * Suc i \<le> b" for b by auto
      with 1(2) [OF i] \<open>?w = 0xffffffff\<close> 1(3) here show ?thesis
        unfolding r by (metis add_leE mult_Suc_right not_less)
    qed
  qed
qed

text \<open>The search in one equation: the least free frame below the limit, or -1.\<close>

definition least_free :: "'a pmm_scheme \<Rightarrow> int" where
  "least_free s = (case find (\<lambda>b. \<not> frame_bit s b) [0..<frame_limit s] of
     Some b \<Rightarrow> int b | None \<Rightarrow> -1)"

lemma find_upt_eq:
  "find P [0..<n] = Some f \<longleftrightarrow> f < n \<and> P f \<and> (\<forall>b<f. \<not> P b)"
  by (auto simp: find_Some_iff)

lemma mmap_first_free_cases:
  assumes "mem_mngr_max_blocks s \<le> 2 ^ 20"
  obtains (free) f where "mmap_first_free s = int f" "f < frame_limit s" "\<not> frame_bit s f"
      "\<forall>b<f. frame_bit s b"
  | (none) "mmap_first_free s = -1" "\<forall>b<frame_limit s. frame_bit s b"
proof -
  let ?n = "unat (mem_mngr_max_blocks s div 32)"
  have "unat (mem_mngr_max_blocks s) \<le> 2 ^ 20"
    using assms by (simp add: word_le_nat_alt)
  moreover have n: "?n = unat (mem_mngr_max_blocks s) div 32" by (simp add: unat_div)
  ultimately have "?n \<le> 2 ^ 26" by simp
  from first_free_word_spec [OF this, of s 0] show ?thesis
    using that n by (auto simp: mmap_first_free_def get_block_count_def frame_limit_def)
qed

lemma frame_limit_bound:
  assumes "mem_mngr_max_blocks s \<le> 2 ^ 20"
  shows "frame_limit s \<le> 2 ^ 20" "frame_limit s \<le> unat (mem_mngr_max_blocks s)"
  using assms by (auto simp: frame_limit_def word_le_nat_alt)

section \<open>Allocating and freeing one frame\<close>

text \<open>
  Frame \<open>f\<close> as an address. \<open>pmm_ok\<close> is what the searches and the address arithmetic need: at
  most 2^20 frames, and frame 0 in use (its address is the error value).
\<close>

definition frame_addr :: "nat \<Rightarrow> u32" where
  "frame_addr f = of_nat f * MEMORY_BLOCK_SIZE"

definition pmm_ok :: "'a pmm_scheme \<Rightarrow> bool" where
  "pmm_ok s \<longleftrightarrow> mem_mngr_max_blocks s \<le> 2 ^ 20 \<and> frame_bit s 0"

lemma unat_frame_addr: "f < 2 ^ 20 \<Longrightarrow> unat (frame_addr f) = 4096 * f"
proof -
  assume f: "f < 2 ^ 20"
  have "frame_addr f = of_nat (4096 * f)" by (simp add: frame_addr_def)
  moreover have "4096 * f < 2 ^ 32" using f by simp
  ultimately show ?thesis by (simp only: unat_of_nat) (simp add: take_bit_nat_eq_self)
qed

lemma frame_addr_inject: "f < 2 ^ 20 \<Longrightarrow> g < 2 ^ 20 \<Longrightarrow> frame_addr f = frame_addr g \<longleftrightarrow> f = g"
  by (metis unat_frame_addr nat_mult_eq_cancel_disj zero_neq_numeral)

lemma frame_addr_0_iff: "f < 2 ^ 20 \<Longrightarrow> frame_addr f = 0 \<longleftrightarrow> f = 0"
  using frame_addr_inject [of f 0] by (simp add: frame_addr_def)

lemma frame_addr_div: "f < 2 ^ 20 \<Longrightarrow> sint (frame_addr f div MEMORY_BLOCK_SIZE) = int f"
proof -
  assume f: "f < 2 ^ 20"
  then have "frame_addr f div MEMORY_BLOCK_SIZE = of_nat f"
    by (intro word_unat_eq_iff [THEN iffD2]) (simp add: unat_div unat_frame_addr unat_of_nat take_bit_eq_mod)
  with f show ?thesis by (simp add: sint_frame)
qed

lemma alloc_memory_block_cases:
  assumes "pmm_ok s"
  obtains (none) "alloc_memory_block s = (0, s)"
      "mem_mngr_used_blocks s = mem_mngr_max_blocks s \<or> (\<forall>b<frame_limit s. frame_bit s b)"
  | (frame) f where "0 < f" "f < frame_limit s" "f < 2 ^ 20" "\<not> frame_bit s f" "\<forall>b<f. frame_bit s b"
      "alloc_memory_block s =
         (frame_addr f, (mmap_set (int f) s)\<lparr>mem_mngr_used_blocks := mem_mngr_used_blocks s + 1\<rparr>)"
proof (cases "mem_mngr_used_blocks s = mem_mngr_max_blocks s")
  case True
  then show ?thesis by (intro none) (simp_all add: alloc_memory_block_def get_free_block_count_def)
next
  case False
  from assms have m: "mem_mngr_max_blocks s \<le> 2 ^ 20" by (simp add: pmm_ok_def)
  from m show ?thesis
  proof (cases rule: mmap_first_free_cases)
    case (free f)
    have "f \<noteq> 0" using assms free by (metis pmm_ok_def)
    with free False show ?thesis
      by (intro frame [of f] order.strict_trans2 [OF free(2) frame_limit_bound(1) [OF m]])
        (simp_all add: alloc_memory_block_def get_free_block_count_def frame_addr_def)
  next
    case none'': none
    with False show ?thesis
      by (intro none) (simp_all add: alloc_memory_block_def get_free_block_count_def)
  qed
qed

lemma alloc_frame_bit:
  assumes "f < 2 ^ 20" "c < 2 ^ 20"
  shows "frame_bit ((mmap_set (int f) s)\<lparr>mem_mngr_used_blocks := u\<rparr>) c \<longleftrightarrow> c = f \<or> frame_bit s c"
  using assms by (simp add: frame_bit_set)

lemma free_memory_block_frame:
  assumes "f < 2 ^ 20"
  shows "free_memory_block (frame_addr f) s
    = (mmap_unset (int f) s)\<lparr>mem_mngr_used_blocks := mem_mngr_used_blocks s - 1\<rparr>"
  using assms by (simp add: free_memory_block_def Let_def frame_addr_div)

lemma pmm_ok_alloc:
  assumes "pmm_ok s" "f < 2 ^ 20"
  shows "pmm_ok ((mmap_set (int f) s)\<lparr>mem_mngr_used_blocks := u\<rparr>)"
  using assms by (simp add: pmm_ok_def frame_bit_set)

lemma pmm_ok_free:
  assumes "pmm_ok s" "f < 2 ^ 20" "f \<noteq> 0"
  shows "pmm_ok (free_memory_block (frame_addr f) s)"
  using assms by (simp add: pmm_ok_def free_memory_block_frame frame_bit_unset)

section \<open>The frame allocator interface\<close>

definition frame_owned :: "'a pmm_scheme \<Rightarrow> u32 \<Rightarrow> bool" where
  "frame_owned s p \<longleftrightarrow> unat p mod 4096 = 0 \<and> frame_bit s (unat p div 4096)"

lemma unat_div_frame: "unat (p :: u32) div 4096 < 2 ^ 20"
proof -
  have "unat p < 2 ^ 32" using unsigned_less [of p] by simp
  then show ?thesis by simp
qed

lemma frame_addr_unat: "unat p mod 4096 = 0 \<Longrightarrow> frame_addr (unat p div 4096) = p"
proof -
  assume "unat p mod 4096 = 0"
  then have "unat (frame_addr (unat p div 4096)) = unat p"
    using unat_frame_addr [OF unat_div_frame, of p] by (metis mult_div_mod_eq add.right_neutral)
  then show ?thesis by (simp only: word_unat_eq_iff)
qed

lemma frame_owned_addr: "f < 2 ^ 20 \<Longrightarrow> frame_owned s (frame_addr f) \<longleftrightarrow> frame_bit s f"
  by (simp only: frame_owned_def unat_frame_addr) simp

lemma frame_owned_update:
  assumes "f < 2 ^ 20" and "\<And>c. c < 2 ^ 20 \<Longrightarrow> frame_bit s' c \<longleftrightarrow> (if c = f then v else frame_bit s c)"
  shows "frame_owned s' q \<longleftrightarrow> (if q = frame_addr f then v else frame_owned s q)"
proof (cases "q = frame_addr f")
  case True
  with assms show ?thesis by (auto simp: frame_owned_addr)
next
  case False
  then have "unat q mod 4096 = 0 \<Longrightarrow> unat q div 4096 \<noteq> f"
    by (metis frame_addr_unat)
  with assms(2) [OF unat_div_frame, of q] False show ?thesis
    by (auto simp: frame_owned_def)
qed

lemma alloc_owned_frame:
  assumes "f < 2 ^ 20"
  shows "frame_owned ((mmap_set (int f) s)\<lparr>mem_mngr_used_blocks := u\<rparr>) q
    \<longleftrightarrow> q = frame_addr f \<or> frame_owned s q"
  by (subst frame_owned_update [where f = f and v = True and s = s]) (use assms in \<open>auto simp: frame_bit_set\<close>)

lemma free_owned_frame:
  assumes "f < 2 ^ 20"
  shows "frame_owned (free_memory_block (frame_addr f) s) q \<longleftrightarrow> q \<noteq> frame_addr f \<and> frame_owned s q"
  by (subst frame_owned_update [where f = f and v = False and s = s])
    (use assms in \<open>auto simp: free_memory_block_frame frame_bit_unset\<close>)

interpretation fa: frame_allocator alloc_memory_block free_memory_block frame_owned pmm_ok
proof (unfold_locales, goal_cases)
  case (1 s)
  then show ?case
    by (cases rule: alloc_memory_block_cases) (simp_all add: frame_addr_0_iff)
next
  case (2 s)
  from 2(1) show ?case
    by (cases rule: alloc_memory_block_cases) (use 2 in \<open>simp_all add: frame_owned_addr\<close>)
next
  case (3 s q)
  from 3(1) show ?case
    by (cases rule: alloc_memory_block_cases) (use 3 in \<open>simp_all add: alloc_owned_frame\<close>)
next
  case (4 s)
  from 4(1) show ?case
    by (cases rule: alloc_memory_block_cases) (use 4 in \<open>simp_all add: pmm_ok_alloc\<close>)
next
  case (5 s p q)
  then show ?case
    using free_owned_frame [OF unat_div_frame, of p s q]
    by (simp add: frame_addr_unat frame_owned_def [of s p])
next
  case (6 s p)
  then show ?case
    using pmm_ok_free [OF 6(1) unat_div_frame, of p] frame_addr_unat [of p]
    by (metis div_eq_0_iff frame_owned_def mod_less unat_eq_zero zero_neq_numeral)
qed

section \<open>Initialisation\<close>

text \<open>The same bit, read from its byte: what \<open>memset\<close> on the bitmap determines.\<close>

lemma frame_bit_byte: "frame_bit s b \<longleftrightarrow> bit (mem s (mem_mngr s + of_nat (b div 8))) (b mod 8)"
proof -
  define q where "q = b div 32"
  define r where "r = b mod 32"
  have b: "b = 8 * (4 * q) + r" by (simp add: q_def r_def)
  have d8: "b div 8 = 4 * q + r div 8" by (simp add: b)
  have m8: "b mod 8 = r - 8 * (r div 8)"
    unfolding b by (simp only: mod_mult_self4 minus_mult_div_eq_mod)
  have "r < 32" by (simp add: r_def)
  then consider "r < 8" "r div 8 = 0" | "8 \<le> r" "r < 16" "r div 8 = 1"
    | "16 \<le> r" "r < 24" "r div 8 = 2" | "24 \<le> r" "r < 32" "r div 8 = 3"
    by linarith
  then show ?thesis
    unfolding frame_bit_def mem_mngr_at_def d8 m8 q_def [symmetric] r_def [symmetric]
    by cases (simp_all add: bit_rd32 ac_simps)
qed

lemma init_mem_mngr_fields [simp]:
  "mem_mngr (init_mem_mngr addr sz s) = addr"
  "mem_mngr_max_blocks (init_mem_mngr addr sz s) = (sz * 1024) div 4096"
  "mem_mngr_used_blocks (init_mem_mngr addr sz s) = (sz * 1024) div 4096"
  "mem_mngr_size (init_mem_mngr addr sz s) = sz"
  by (simp_all add: init_mem_mngr_def get_memory_size_def Let_def)

lemma init_max_blocks_le: "(sz * 1024 :: u32) div 4096 \<le> 2 ^ 20"
  using unat_div_frame [of "sz * 1024"] by (simp add: word_le_nat_alt unat_div)

lemma bit_0x0f: "n < 8 \<Longrightarrow> bit (0xf :: u8) n \<longleftrightarrow> n < 4"
proof -
  have "(0xf :: u8) = mask 4" by (simp add: mask_eq_exp_minus_1)
  then show "n < 8 \<Longrightarrow> bit (0xf :: u8) n \<longleftrightarrow> n < 4" by (simp only: bit_mask_iff) simp
qed

lemma init_frame_bit:
  assumes "b div 8 < unat (mem_mngr_max_blocks (init_mem_mngr addr sz s)) div 8"
  shows "frame_bit (init_mem_mngr addr sz s) b \<longleftrightarrow> b mod 8 < 4"
proof -
  let ?k = "(sz * 1024) div 4096 :: u32"
  have k: "b div 8 < unat (?k div 8)" using assms by (simp add: unat_div)
  then have "b div 8 < 2 ^ 32" using unat_lt32 [of "?k div 8"] by simp
  then have "unat (of_nat (b div 8) :: u32) = b div 8"
    by (simp add: unat_of_nat take_bit_nat_eq_self)
  with k have "in_range addr (unat (?k div 8)) (addr + of_nat (b div 8))"
    by (simp add: in_range_def)
  moreover have "mem (init_mem_mngr addr sz s) = memset (mem s) addr 0xf (?k div 8)"
    by (simp add: init_mem_mngr_def get_memory_size_def get_block_count_def Let_def)
  ultimately show ?thesis
    using bit_0x0f [of "b mod 8"] by (simp add: frame_bit_byte memset_eq)
qed

lemma region_loop_fields [simp]:
  "mem_mngr (region_loop a n s) = mem_mngr s"
  "mem_mngr_max_blocks (region_loop a n s) = mem_mngr_max_blocks s"
  by (induction a n s rule: region_loop.induct; subst region_loop.simps; simp add: Let_def)+

lemma region_loop_0:
  "region_loop (int a) 0 s = (mmap_unset (int a) s)\<lparr>mem_mngr_used_blocks := mem_mngr_used_blocks s - 1\<rparr>"
  by (simp add: region_loop.simps)

lemma region_loop_Suc:
  "region_loop (int a) (int (Suc n)) s = region_loop (int (Suc a)) (int n)
     ((mmap_unset (int a) s)\<lparr>mem_mngr_used_blocks := mem_mngr_used_blocks s - 1\<rparr>)"
  by (subst region_loop.simps) (simp add: Let_def add.commute)

lemma region_loop_frame:
  assumes "a + n < 2 ^ 31" "c < 2 ^ 31"
  shows "frame_bit (region_loop (int a) (int n) s) c \<longleftrightarrow> frame_bit s c \<and> \<not> (a \<le> c \<and> c \<le> a + n)"
  using assms
proof (induction n arbitrary: a s)
  case 0
  then show ?case by (auto simp: region_loop_0 frame_bit_unset)
next
  case (Suc n)
  let ?s = "(mmap_unset (int a) s)\<lparr>mem_mngr_used_blocks := mem_mngr_used_blocks s - 1\<rparr>"
  have "frame_bit (region_loop (int (Suc a)) (int n) ?s) c
      \<longleftrightarrow> frame_bit ?s c \<and> \<not> (Suc a \<le> c \<and> c \<le> Suc a + n)"
    using Suc.prems by (intro Suc.IH) auto
  then show ?case
    using Suc.prems unfolding region_loop_Suc by (auto simp: frame_bit_unset)
qed

lemma region_loop_used:
  "mem_mngr_used_blocks (region_loop (int a) (int n) s) = mem_mngr_used_blocks s - of_nat (Suc n)"
proof (induction n arbitrary: a s)
  case 0
  then show ?case by (simp add: region_loop_0)
next
  case (Suc n)
  show ?case unfolding region_loop_Suc Suc.IH by (simp add: algebra_simps)
qed

lemma sint_page: "sint ((x :: u32) div 4096) = int (unat x div 4096)"
proof -
  have "x div 4096 = of_nat (unat x div 4096)"
    by (simp add: word_unat_eq_iff unat_div unat_of_nat take_bit_nat_eq_self
        order.strict_trans [OF unat_div_frame])
  then show ?thesis
    using unat_div_frame [of x] sint_frame [of "unat x div 4096"] by simp
qed

lemma init_memory_region_frame:
  assumes "c < 2 ^ 31"
  shows "frame_bit (init_memory_region base sz s) c \<longleftrightarrow>
    c = 0 \<or> frame_bit s c \<and> \<not> (unat base div 4096 \<le> c \<and> c \<le> unat base div 4096 + unat sz div 4096)"
    and "mem_mngr_max_blocks (init_memory_region base sz s) = mem_mngr_max_blocks s"
proof -
  have b: "unat base div 4096 + unat sz div 4096 < 2 ^ 31"
    using unat_div_frame [of base] unat_div_frame [of sz] by simp
  have "init_memory_region base sz s
      = mmap_set 0 (region_loop (int (unat base div 4096)) (int (unat sz div 4096)) s)"
    by (simp add: init_memory_region_def sint_page)
  then show "frame_bit (init_memory_region base sz s) c \<longleftrightarrow> c = 0 \<or> frame_bit s c \<and>
      \<not> (unat base div 4096 \<le> c \<and> c \<le> unat base div 4096 + unat sz div 4096)"
    "mem_mngr_max_blocks (init_memory_region base sz s) = mem_mngr_max_blocks s"
    using assms b frame_bit_set [of 0 c "region_loop (int (unat base div 4096)) (int (unat sz div 4096)) s"]
    by (simp_all add: region_loop_frame)
qed

section \<open>Runs of frames\<close>

text \<open>
  The window scan of \<open>mmap_first_free_s\<close>: it counts the free frames among \<open>size + 1\<close> frames and
  stops as soon as it has seen \<open>size\<close> of them.
\<close>

definition window_free :: "'a pmm_scheme \<Rightarrow> nat \<Rightarrow> nat \<Rightarrow> nat \<Rightarrow> nat" where
  "window_free s f a b = length (filter (\<lambda>k. \<not> frame_bit s (f + k)) [a..<b])"

lemma window_free_Cons:
  "a < b \<Longrightarrow> window_free s f a b = (if frame_bit s (f + a) then 0 else 1) + window_free s f (Suc a) b"
  by (simp add: window_free_def upt_conv_Cons)

lemma mmap_test_offset:
  assumes "f + k < 2 ^ 31"
  shows "mmap_test (sint (of_nat f + of_nat k :: u32)) s = 0 \<longleftrightarrow> \<not> frame_bit s (f + k)"
proof -
  have "sint (of_nat f + of_nat k :: u32) = int (f + k)"
    using sint_frame [OF assms] by simp
  then show ?thesis using mmap_test_frame [of "f + k" s] by simp
qed

lemma enough_from_iff:
  assumes "f + sz < 2 ^ 31" "free < sz"
  shows "enough_from s (int f) sz count free \<longleftrightarrow> sz \<le> free + window_free s f count (Suc sz)"
  using assms
proof (induction "Suc sz - count" arbitrary: count free)
  case 0
  then have "enough_from s (int f) sz count free = False"
    by (subst enough_from.simps) simp
  with 0 show ?case by (simp add: window_free_def)
next
  case (Suc n)
  then have c: "count \<le> sz" by simp
  have t: "mmap_test (sint (of_nat f + of_nat count :: u32)) s = 0 \<longleftrightarrow> \<not> frame_bit s (f + count)"
    using Suc.prems c by (intro mmap_test_offset) simp
  let ?free = "if frame_bit s (f + count) then free else free + 1"
  have e: "enough_from s (int f) sz count free \<longleftrightarrow>
      (?free = sz \<or> enough_from s (int f) sz (Suc count) ?free)"
    using c by (subst enough_from.simps) (simp add: t Let_def)
  show ?case
  proof (cases "?free = sz")
    case True
    with e Suc.prems c show ?thesis by (auto simp: window_free_Cons split: if_splits)
  next
    case False
    then have "enough_from s (int f) sz (Suc count) ?free
        \<longleftrightarrow> sz \<le> ?free + window_free s f (Suc count) (Suc sz)"
      using Suc by (intro Suc.hyps) (auto split: if_splits)
    with e False c show ?thesis by (auto simp: window_free_Cons split: if_splits)
  qed
qed

text \<open>A frame \<open>mmap_first_free_s\<close> may answer.\<close>

definition run_candidate :: "'a pmm_scheme \<Rightarrow> nat \<Rightarrow> nat \<Rightarrow> bool" where
  "run_candidate s sz f \<longleftrightarrow> \<not> frame_bit s f \<and> sz \<le> window_free s f 0 (Suc sz)"

lemma first_run_bit_spec:
  assumes "i < 2 ^ 15" "0 < sz" "sz \<le> 2 ^ 20"
  shows "case first_run_bit s sz i j of
     Some r \<Rightarrow> \<exists>k. r = int (32 * i + k) \<and> j \<le> k \<and> k < 32 \<and> run_candidate s sz (32 * i + k) \<and>
       (\<forall>l. j \<le> l \<and> l < k \<longrightarrow> \<not> run_candidate s sz (32 * i + l))
   | None \<Rightarrow> \<forall>l. j \<le> l \<and> l < 32 \<longrightarrow> \<not> run_candidate s sz (32 * i + l)"
proof (induction "32 - j" arbitrary: j)
  case 0
  then have "first_run_bit s sz i j = None" by (subst first_run_bit.simps) simp
  with 0 show ?case by auto
next
  case (Suc n)
  then have j: "j < 32" by simp
  have sb: "sint (of_nat i * 32 :: u32) + int j = int (32 * i + j)"
    using assms sint_frame [of "i * 32"] by simp
  have r: "sint (of_nat i * 4 * 8 + of_nat j :: u32) = int (32 * i + j)"
    using assms j sint_frame [of "32 * i + j"] by simp
  have cand: "(mem_mngr_at s (int i) AND 2 ^ j = 0 \<and>
        enough_from s (int (32 * i + j)) sz 0 0) \<longleftrightarrow> run_candidate s sz (32 * i + j)"
    using enough_from_iff [of "32 * i + j" sz 0 s 0] assms j
    by (simp add: run_candidate_def and_mask_eq_0 frame_bit_word del: of_nat_add)
  show ?case
  proof (cases "run_candidate s sz (32 * i + j)")
    case True
    then have "first_run_bit s sz i j = Some (int (32 * i + j))"
      by (subst first_run_bit.simps) (use j cand r in \<open>auto simp: sb simp del: of_nat_add of_nat_mult\<close>)
    with True j show ?thesis by (auto intro!: exI [of _ j])
  next
    case False
    then have e: "first_run_bit s sz i j = first_run_bit s sz i (Suc j)"
      by (subst first_run_bit.simps) (use j cand r in \<open>auto simp: sb simp del: of_nat_add of_nat_mult\<close>)
    have "case first_run_bit s sz i (Suc j) of
     Some r \<Rightarrow> \<exists>k. r = int (32 * i + k) \<and> Suc j \<le> k \<and> k < 32 \<and> run_candidate s sz (32 * i + k) \<and>
       (\<forall>l. Suc j \<le> l \<and> l < k \<longrightarrow> \<not> run_candidate s sz (32 * i + l))
   | None \<Rightarrow> \<forall>l. Suc j \<le> l \<and> l < 32 \<longrightarrow> \<not> run_candidate s sz (32 * i + l)"
      using Suc by (intro Suc.hyps) simp
    with False e show ?thesis
      by (auto split: option.splits simp: Suc_le_eq) (metis le_eq_less_or_eq Suc_leI)+
  qed
qed

lemma first_run_word_spec:
  assumes "n \<le> 2 ^ 15" "0 < sz" "sz \<le> 2 ^ 20"
  shows "(\<exists>f. first_run_word s sz i n = int f \<and> f < 32 * n \<and> run_candidate s sz f \<and>
             (\<forall>b. 32 * i \<le> b \<and> b < f \<longrightarrow> \<not> run_candidate s sz b))
    \<or> first_run_word s sz i n = -1 \<and> (\<forall>b. 32 * i \<le> b \<and> b < 32 * n \<longrightarrow> \<not> run_candidate s sz b)"
proof (induction "n - i" arbitrary: i)
  case 0
  then have "first_run_word s sz i n = -1" by (subst first_run_word.simps) simp
  with 0 show ?case by auto
next
  case (Suc m)
  then have i: "i < n" by simp
  note bit = first_run_bit_spec [where i = i and sz = sz and s = s and j = 0]
  have split: "32 * i \<le> b \<Longrightarrow> (\<exists>l<32. b = 32 * i + l) \<or> 32 * Suc i \<le> b" for b
    by (cases "b < 32 * Suc i") (auto intro!: exI [of _ "b - 32 * i"])
  show ?case
  proof (cases "mem_mngr_at s (int i) = 0xffffffff \<or> first_run_bit s sz i 0 = None")
    case True
    then have e: "first_run_word s sz i n = first_run_word s sz (Suc i) n"
      by (subst first_run_word.simps) (use i in auto)
    have "\<not> run_candidate s sz (32 * i + l)" if "l < 32" for l
      using True bit i assms that
      by (auto simp: run_candidate_def word_full_iff frame_bit_word)
    with split have "32 * i \<le> b \<Longrightarrow> run_candidate s sz b \<Longrightarrow> 32 * Suc i \<le> b" for b
      by blast
    with Suc.hyps(1) [of "Suc i"] Suc.hyps(2) show ?thesis unfolding e by (metis Suc_diff_Suc diff_Suc_1 i)
  next
    case False
    then obtain k where k: "first_run_bit s sz i 0 = Some (int (32 * i + k))" "k < 32"
        "run_candidate s sz (32 * i + k)" "\<forall>l<k. \<not> run_candidate s sz (32 * i + l)"
      using bit i assms by (auto split: option.splits)
    then have e: "first_run_word s sz i n = int (32 * i + k)"
      by (subst first_run_word.simps) (use i False in simp)
    have "\<not> run_candidate s sz b" if "32 * i \<le> b" "b < 32 * i + k" for b
      using k(4) that by (metis add_less_cancel_left le_Suc_ex)
    with e k i show ?thesis by (intro disjI1 exI [of _ "32 * i + k"]) auto
  qed
qed

lemma mmap_first_free_s_eq:
  assumes "mem_mngr_max_blocks s \<le> 2 ^ 20" "2 \<le> sz" "sz \<le> 2 ^ 20"
    "f < frame_limit s" "run_candidate s (unat sz) f" "\<forall>b<f. frame_bit s b"
  shows "mmap_first_free_s sz s = int f"
proof -
  have n: "unat (get_block_count s div 32) = unat (mem_mngr_max_blocks s) div 32"
    by (simp add: unat_div get_block_count_def)
  have sz: "2 \<le> unat sz" "unat sz \<le> 2 ^ 20" using assms(2,3) by (auto simp: word_le_nat_alt)
  have le: "unat (mem_mngr_max_blocks s) div 32 \<le> 2 ^ 15"
    using assms(1) by (simp add: word_le_nat_alt)
  have no: "b < f \<Longrightarrow> \<not> run_candidate s (unat sz) b" for b
    using assms(6) by (simp add: run_candidate_def)
  have "sz \<noteq> 0" "sz \<noteq> 1" using sz by auto
  then have "mmap_first_free_s sz s = first_run_word s (unat sz) 0 (unat (mem_mngr_max_blocks s) div 32)"
    by (simp add: mmap_first_free_s_def n)
  also have "\<dots> = int f"
    using first_run_word_spec [OF le, where sz = "unat sz" and s = s and i = 0] sz assms(4,5) no
    unfolding frame_limit_def by (metis linorder_neqE_nat not_numeral_le_zero zero_le gr0I mult_0_right)
  finally show ?thesis .
qed

lemma set_blocks_fields [simp]:
  "mem_mngr_max_blocks (set_blocks f i n s) = mem_mngr_max_blocks s"
  "mem_mngr_used_blocks (set_blocks f i n s) = mem_mngr_used_blocks s"
  by (induction f i n s rule: set_blocks.induct; subst set_blocks.simps; simp)+

lemma set_blocks_frame:
  assumes "f + n < 2 ^ 31" "c < 2 ^ 31"
  shows "frame_bit (set_blocks (int f) i n s) c \<longleftrightarrow> f + i \<le> c \<and> c < f + n \<or> frame_bit s c"
proof (induction "n - i" arbitrary: i s)
  case 0
  then show ?case by (subst set_blocks.simps) auto
next
  case (Suc m)
  then have i: "i < n" by simp
  have "sint (of_nat f + of_nat i :: u32) = int (f + i)"
    using sint_frame [of "f + i"] i assms by simp
  then have e: "set_blocks (int f) i n s = set_blocks (int f) (Suc i) n (mmap_set (int (f + i)) s)"
    using i by (subst set_blocks.simps) simp
  have "frame_bit (set_blocks (int f) (Suc i) n (mmap_set (int (f + i)) s)) c
      \<longleftrightarrow> f + Suc i \<le> c \<and> c < f + n \<or> frame_bit (mmap_set (int (f + i)) s) c"
    using Suc by (intro Suc.hyps) simp
  then show ?case
    unfolding e using i assms by (auto simp: frame_bit_set simp del: of_nat_add)
qed

section \<open>Counting the frames in use\<close>

definition used_frames :: "'a pmm_scheme \<Rightarrow> nat set" where
  "used_frames s = {b. b < unat (mem_mngr_max_blocks s) \<and> frame_bit s b}"

definition counter_ok :: "'a pmm_scheme \<Rightarrow> bool" where
  "counter_ok s \<longleftrightarrow> unat (mem_mngr_used_blocks s) = card (used_frames s)"

lemma finite_used_frames [simp]: "finite (used_frames s)"
  by (simp add: used_frames_def)

lemma card_used_frames_le: "card (used_frames s) \<le> unat (mem_mngr_max_blocks s)"
  using card_mono [of "{..<unat (mem_mngr_max_blocks s)}" "used_frames s"]
  by (auto simp: used_frames_def)

lemma counter_alloc:
  assumes "pmm_ok s" "counter_ok s" "f < frame_limit s" "\<not> frame_bit s f"
  shows "counter_ok ((mmap_set (int f) s)\<lparr>mem_mngr_used_blocks := mem_mngr_used_blocks s + 1\<rparr>)"
proof -
  let ?s = "(mmap_set (int f) s)\<lparr>mem_mngr_used_blocks := mem_mngr_used_blocks s + 1\<rparr>"
  have m: "unat (mem_mngr_max_blocks s) \<le> 2 ^ 20" "f < unat (mem_mngr_max_blocks s)"
    using assms(1,3) by (auto simp: pmm_ok_def word_le_nat_alt frame_limit_def)
  have "used_frames ?s = insert f (used_frames s)"
    using m by (auto simp: used_frames_def frame_bit_set)
  moreover have "f \<notin> used_frames s" using assms(4) by (simp add: used_frames_def)
  ultimately have "card (used_frames ?s) = Suc (card (used_frames s))" by simp
  moreover have "unat (mem_mngr_used_blocks s) < 2 ^ 32 - 1"
    using m card_used_frames_le [of s] assms(2) by (simp add: counter_ok_def)
  then have "unat (mem_mngr_used_blocks s + 1) = Suc (unat (mem_mngr_used_blocks s))"
    by (simp add: unat_word_ariths)
  ultimately show ?thesis using assms(2) by (simp add: counter_ok_def)
qed

lemma counter_free:
  assumes "pmm_ok s" "counter_ok s" "f < unat (mem_mngr_max_blocks s)" "frame_bit s f"
  shows "counter_ok (free_memory_block (frame_addr f) s)"
proof -
  have f: "f < 2 ^ 20" "unat (mem_mngr_max_blocks s) \<le> 2 ^ 20"
    using assms(1,3) by (auto simp: pmm_ok_def word_le_nat_alt)
  have u: "used_frames (free_memory_block (frame_addr f) s) = used_frames s - {f}"
    using f assms(3) by (auto simp: used_frames_def free_memory_block_frame frame_bit_unset)
  have "f \<in> used_frames s" using assms by (simp add: used_frames_def)
  then have "card (used_frames s - {f}) = card (used_frames s) - 1" "0 < card (used_frames s)"
    by (auto simp: card_gt_0_iff)
  moreover from this have "mem_mngr_used_blocks s \<noteq> 0"
    using assms(2) by (auto simp: counter_ok_def)
  ultimately show ?thesis
    using assms(2) f u by (simp add: counter_ok_def free_memory_block_frame unat_minus_one)
qed

section \<open>Properties of the physical memory manager\<close>

text \<open>
  A small machine for the witnesses: a 64-frame bitmap at 0x1000 in which frames 0, 1 and 3 are in
  use and the counter says so.
\<close>

definition demo_pmm :: pmm where
  "demo_pmm = \<lparr>mem = (\<lambda>a. if a = 0x1000 then 0x0b else 0), cr0 = 0, cr3 = 0, mem_mngr = 0x1000,
     mem_mngr_max_blocks = 64, mem_mngr_used_blocks = 3, mem_mngr_size = 256\<rparr>"

lemma demo_pmm_bit: "b < 64 \<Longrightarrow> frame_bit demo_pmm b \<longleftrightarrow> b \<in> {0, 1, 3}"
proof -
  have "bit (0x0b :: u8) n \<longleftrightarrow> n \<in> {0, 1, 3}" if "n < 8" for n
    using that by (auto simp: bit_numeral_rec less_Suc_eq numeral_eq_Suc bit_simps)
  moreover assume "b < 64"
  moreover from this have "(of_nat (b div 8) :: u32) = 0 \<longleftrightarrow> b < 8"
    by (subst word_unat_eq_iff) (simp add: unat_of_nat take_bit_nat_eq_self div_eq_0_iff)
  ultimately show ?thesis
    by (auto simp: frame_bit_byte demo_pmm_def)
qed

lemma demo_pmm_ok: "pmm_ok demo_pmm"
  using demo_pmm_bit [of 0] by (simp add: pmm_ok_def demo_pmm_def)

lemma demo_pmm_limit: "frame_limit demo_pmm = 64"
  by (simp add: frame_limit_def demo_pmm_def)

text \<open>
  \<open>mmap_first_free\<close> is the first-fit search: it answers the least free frame among the whole
  words of the bitmap, and -1 when every one of those frames is in use.
\<close>

theorem mmap_first_free_least:
  assumes "mem_mngr_max_blocks s \<le> 2 ^ 20"
  shows "mmap_first_free s = least_free s"
  using assms
proof (cases rule: mmap_first_free_cases)
  case (free f)
  then have "find (\<lambda>b. \<not> frame_bit s b) [0..<frame_limit s] = Some f" by (simp add: find_upt_eq)
  with free show ?thesis by (simp add: least_free_def)
next
  case none
  then have "find (\<lambda>b. \<not> frame_bit s b) [0..<frame_limit s] = None" by (simp add: find_None_iff)
  with none show ?thesis by (simp add: least_free_def)
qed

theorem mmap_first_free_least_witness: "mmap_first_free demo_pmm = 2"
proof -
  have "find (\<lambda>b. \<not> frame_bit demo_pmm b) [0..<frame_limit demo_pmm] = Some 2"
    unfolding find_upt_eq demo_pmm_limit using demo_pmm_bit by (auto simp: less_2_cases_iff)
  moreover have "mem_mngr_max_blocks demo_pmm \<le> 2 ^ 20" by (simp add: demo_pmm_def)
  ultimately show ?thesis
    using mmap_first_free_least [of demo_pmm] by (simp add: least_free_def)
qed

text \<open>
  C7: \<open>alloc_memory_block\<close> either fails with address 0 and no change, and then the counter says
  memory is full or every searched frame is in use, or it hands out the lowest free frame, sets
  exactly that frame's bit, counts it, and writes no byte outside the bitmap.
\<close>

theorem alloc_memory_block_correct:
  assumes "pmm_ok s" "alloc_memory_block s = (p, s')"
  shows "p = 0 \<and> s' = s \<and>
      (mem_mngr_used_blocks s = mem_mngr_max_blocks s \<or> (\<forall>b<frame_limit s. frame_bit s b))
    \<or> (\<exists>f. 0 < f \<and> f < frame_limit s \<and> p = frame_addr f \<and> p \<noteq> 0 \<and>
        \<not> frame_bit s f \<and> (\<forall>b<f. frame_bit s b) \<and>
        (\<forall>c<2 ^ 20. frame_bit s' c \<longleftrightarrow> c = f \<or> frame_bit s c) \<and>
        mem_mngr_used_blocks s' = mem_mngr_used_blocks s + 1 \<and>
        (\<forall>x. \<not> in_range (mem_mngr s) (unat (mem_mngr_max_blocks s) div 8) x \<longrightarrow> mem s' x = mem s x))"
  using assms(1)
proof (cases rule: alloc_memory_block_cases)
  case none
  with assms(2) show ?thesis by simp
next
  case (frame f)
  have out: "mem s' x = mem s x" if "\<not> in_range (mem_mngr s) (unat (mem_mngr_max_blocks s) div 8) x" for x
  proof -
    have "f div 32 < unat (mem_mngr_max_blocks s) div 32"
      using frame(2) by (simp add: frame_limit_def less_mult_imp_div_less mult.commute)
    moreover have "4 * (unat (mem_mngr_max_blocks s) div 32) \<le> unat (mem_mngr_max_blocks s) div 8"
      using div_mult2_eq [of "unat (mem_mngr_max_blocks s)" 8 4] by simp
    ultimately have "4 * (f div 32) + 4 \<le> unat (mem_mngr_max_blocks s) div 8" by linarith
    then have "\<not> in_range (mem_mngr s) (4 * (f div 32) + 4) x"
      using that by (auto simp: in_range_def)
    then show ?thesis
      using frame assms(2) mmap_mem_outside(1) [of f s x] by auto
  qed
  have "frame_addr f \<noteq> 0" using frame by (simp add: frame_addr_0_iff)
  with frame assms(2) out show ?thesis
    by (intro disjI2 exI [of _ f]) (auto simp: frame_bit_set)
qed

lemma demo_pmm_first: "\<not> frame_bit demo_pmm f \<Longrightarrow> \<forall>b<f. frame_bit demo_pmm b \<Longrightarrow> f = 2"
proof (rule linorder_cases [of f 2])
  assume "f < 2" "\<not> frame_bit demo_pmm f"
  then show "f = 2" by (auto simp: demo_pmm_bit)
next
  assume "2 < f" "\<forall>b<f. frame_bit demo_pmm b"
  then show "f = 2" using demo_pmm_bit [of 2] by auto
qed

theorem alloc_memory_block_correct_witness: "fst (alloc_memory_block demo_pmm) = frame_addr 2"
proof -
  let ?p = "fst (alloc_memory_block demo_pmm)"
  have "\<not> frame_bit demo_pmm 2" "2 < frame_limit demo_pmm"
    by (simp_all add: demo_pmm_bit demo_pmm_limit)
  then have n: "mem_mngr_used_blocks demo_pmm \<noteq> mem_mngr_max_blocks demo_pmm"
    "\<not> (\<forall>b<frame_limit demo_pmm. frame_bit demo_pmm b)"
    by (simp add: demo_pmm_def, blast)
  have "alloc_memory_block demo_pmm = (?p, snd (alloc_memory_block demo_pmm))" by simp
  from alloc_memory_block_correct [OF demo_pmm_ok this] n
  obtain f where "?p = frame_addr f" "\<not> frame_bit demo_pmm f" "\<forall>b<f. frame_bit demo_pmm b"
    by blast
  with demo_pmm_first [of f] show ?thesis by simp
qed

text \<open>
  C27: However many frames a client takes one after another, their addresses are pairwise
  distinct, nonzero, and none of them was in use before; afterwards exactly those are in use in
  addition, and the allocator's invariant still holds.
\<close>

theorem alloc_sequence_distinct:
  assumes "pmm_ok s" "grab alloc_memory_block n s = (ps, s')"
  shows "pmm_ok s' \<and> distinct ps \<and> 0 \<notin> set ps \<and> (\<forall>p \<in> set ps. \<not> frame_owned s p) \<and>
    (\<forall>q. frame_owned s' q \<longleftrightarrow> q \<in> set ps \<or> frame_owned s q)"
  using fa.grab_spec [OF assms(1), of n] assms(2) by simp

theorem alloc_sequence_distinct_witness: "distinct (fst (grab alloc_memory_block 3 demo_pmm))"
  using alloc_sequence_distinct [OF demo_pmm_ok, of 3] by (metis prod.collapse)

text \<open>
  C28: Freeing, in any number, the frames that were taken gives the bitmap back: after taking
  \<open>n\<close> frames and passing each of them to \<open>free_memory_block\<close>, a frame is in use exactly when it
  was before.
\<close>

theorem alloc_free_roundtrip:
  assumes "pmm_ok s" "grab alloc_memory_block n s = (ps, s')"
  shows "frame_owned (fold free_memory_block ps s') q \<longleftrightarrow> frame_owned s q"
  using fa.grab_release_all [OF assms(1), of n q] assms(2) by simp

theorem alloc_free_roundtrip_witness:
  "\<not> frame_owned (fold free_memory_block (fst (grab alloc_memory_block 3 demo_pmm))
     (snd (grab alloc_memory_block 3 demo_pmm))) (frame_addr 2)"
  using alloc_free_roundtrip [OF demo_pmm_ok, of 3 _ _ "frame_addr 2"] demo_pmm_bit [of 2]
  by (simp add: frame_owned_addr)

text \<open>
  C29: The counter of used blocks is exact as long as only allocated frames are freed: when it
  equals the number of set bits below the block count, it still does after \<open>alloc_memory_block\<close>
  and after \<open>free_memory_block\<close> of a nonzero frame in use.
\<close>

theorem used_blocks_counts:
  assumes "pmm_ok s" "counter_ok s"
  shows "counter_ok (snd (alloc_memory_block s)) \<and>
    (\<forall>p. p \<noteq> 0 \<and> frame_owned s p \<and> unat p div 4096 < unat (mem_mngr_max_blocks s) \<longrightarrow>
      counter_ok (free_memory_block p s))"
proof (intro conjI allI impI; (elim conjE)?)
  show "counter_ok (snd (alloc_memory_block s))"
    using assms(1) by (cases rule: alloc_memory_block_cases) (use assms in \<open>simp_all add: counter_alloc\<close>)
next
  fix p
  assume "frame_owned s p" "unat p div 4096 < unat (mem_mngr_max_blocks s)"
  with counter_free [OF assms, of "unat p div 4096"]
  show "counter_ok (free_memory_block p s)"
    by (simp add: frame_owned_def frame_addr_unat)
qed

lemma demo_pmm_counter: "counter_ok demo_pmm"
proof -
  have "used_frames demo_pmm = {b. b < 64 \<and> frame_bit demo_pmm b}"
    by (simp add: used_frames_def demo_pmm_def)
  also have "\<dots> = {0, 1, 3}" by (auto simp: demo_pmm_bit)
  finally show ?thesis by (simp add: counter_ok_def demo_pmm_def)
qed

theorem used_blocks_counts_witness:
  "counter_ok (snd (alloc_memory_block demo_pmm)) \<and> counter_ok (free_memory_block 0x3000 demo_pmm)"
proof -
  have "frame_owned demo_pmm 0x3000" using demo_pmm_bit [of 3] by (simp add: frame_owned_def)
  moreover have "unat (mem_mngr_max_blocks demo_pmm) = 64" by (simp add: demo_pmm_def)
  ultimately show ?thesis
    using used_blocks_counts [OF demo_pmm_ok demo_pmm_counter] by (auto simp: spec [of _ "0x3000"])
qed

text \<open>
  \<open>init_mem_mngr\<close> computes the block count as (size * 1024 mod 2^32) / 4096, and fills the
  bitmap with 0x0f bytes: of every eight frames only the first four are marked in use. So with 32
  blocks or more, frame 4 is free and the search answers it before any region has been added, where
  the comment says all of memory is in use.
\<close>

theorem init_mem_mngr_bitmap:
  fixes addr sz s
  defines "s' \<equiv> init_mem_mngr addr sz s"
  shows "unat (mem_mngr_max_blocks s') = (unat sz * 1024 mod 2 ^ 32) div 4096 \<and>
    (\<forall>b. b div 8 < unat (mem_mngr_max_blocks s') div 8 \<longrightarrow> (frame_bit s' b \<longleftrightarrow> b mod 8 < 4)) \<and>
    (32 \<le> mem_mngr_max_blocks s' \<longrightarrow> mmap_first_free s' = 4)"
proof (intro conjI allI impI)
  show "unat (mem_mngr_max_blocks s') = (unat sz * 1024 mod 2 ^ 32) div 4096"
    by (simp add: s'_def unat_div unat_word_ariths)
  show bits: "frame_bit s' b \<longleftrightarrow> b mod 8 < 4" if "b div 8 < unat (mem_mngr_max_blocks s') div 8" for b
    using that unfolding s'_def by (rule init_frame_bit)
  assume m: "32 \<le> mem_mngr_max_blocks s'"
  then have m': "32 \<le> unat (mem_mngr_max_blocks s')" by (simp add: word_le_nat_alt)
  have le: "mem_mngr_max_blocks s' \<le> 2 ^ 20"
    using init_max_blocks_le [of sz] by (simp add: s'_def)
  have "32 div 8 \<le> unat (mem_mngr_max_blocks s') div 8" "32 div 32 \<le> unat (mem_mngr_max_blocks s') div 32"
    using m' by (rule div_le_mono)+
  then have 4: "\<not> frame_bit s' 4" "4 < frame_limit s'" "\<And>b. b < 4 \<Longrightarrow> frame_bit s' b"
    by (auto simp: bits frame_limit_def)
  from le show "mmap_first_free s' = 4"
  proof (cases rule: mmap_first_free_cases)
    case (free f)
    with 4 have "f = 4" by (metis linorder_neqE_nat)
    with free show ?thesis by simp
  next
    case none
    with 4 show ?thesis by blast
  qed
qed

theorem init_mem_mngr_bitmap_witness:
  "\<not> frame_bit (init_mem_mngr 0x200000 0x1000 demo_pmm) 12 \<and>
   mmap_first_free (init_mem_mngr 0x200000 0x1000 demo_pmm) = 4"
proof -
  have "mem_mngr_max_blocks (init_mem_mngr 0x200000 0x1000 demo_pmm) = 1024" by simp
  then show ?thesis
    using init_mem_mngr_bitmap [where addr = "0x200000" and sz = "0x1000" and s = demo_pmm]
    by (auto simp: spec [of _ 12])
qed

text \<open>
  C30: \<open>init_memory_region\<close> marks the region's frames free, but its loop runs once more than the
  region has blocks: the frame right after a page-aligned region becomes free as well. Frame 0 is
  set in use in any case, and no other frame changes.
\<close>

theorem init_memory_region_frees_one_more:
  assumes "c < 2 ^ 31"
  shows "frame_bit (init_memory_region base sz s) c \<longleftrightarrow>
    c = 0 \<or> frame_bit s c \<and> (c < unat base div 4096 \<or> unat base div 4096 + unat sz div 4096 < c)"
  using init_memory_region_frame(1) [OF assms] by auto

theorem init_memory_region_frees_one_more_witness:
  "frame_bit demo_pmm 3 \<and> \<not> frame_bit (init_memory_region 0x1000 0x2000 demo_pmm) 3"
  using init_memory_region_frees_one_more [of 3 "0x1000" "0x2000" demo_pmm] by (simp add: demo_pmm_bit)

text \<open>
  C31: The window scan behind \<open>alloc_memory_blocks\<close> looks at one frame more than it was asked for
  and does not require the free ones to be adjacent: when the first free frame \<open>f\<close> is followed
  by a used and then a free one, a request for two frames is answered with frame \<open>f\<close>, so the
  caller is handed frame \<open>f + 1\<close>, which is in use, while frame \<open>f + 2\<close> stays free.
\<close>

theorem alloc_memory_blocks_overlaps:
  assumes "mem_mngr_max_blocks s \<le> 2 ^ 20" "2 < get_free_block_count s"
    and "\<forall>b<f. frame_bit s b" "\<not> frame_bit s f" "frame_bit s (f + 1)" "\<not> frame_bit s (f + 2)"
    and "f < frame_limit s"
  shows "fst (alloc_memory_blocks 2 s) = frame_addr f \<and>
    frame_bit s (f + 1) \<and> \<not> frame_bit (snd (alloc_memory_blocks 2 s)) (f + 2)"
proof -
  have f: "f < 2 ^ 20" using frame_limit_bound(1) [OF assms(1)] assms(7) by simp
  have "window_free s f 0 (Suc 2) = 2"
    using assms(4-6) by (simp add: window_free_def upt_rec numeral_2_eq_2)
  then have "run_candidate s (unat (2 :: u32)) f"
    using assms(4) by (simp add: run_candidate_def)
  then have "mmap_first_free_s 2 s = int f"
    using assms by (intro mmap_first_free_s_eq) auto
  then have "alloc_memory_blocks 2 s = (frame_addr f,
      (set_blocks (int f) 0 2 s)\<lparr>mem_mngr_used_blocks := mem_mngr_used_blocks s + 2\<rparr>)"
    using assms(2) [unfolded not_le [symmetric]] by (auto simp: alloc_memory_blocks_def frame_addr_def)
  then show ?thesis
    using assms(5,6) f by (simp add: set_blocks_frame)
qed

theorem alloc_memory_blocks_overlaps_witness:
  "fst (alloc_memory_blocks 2 demo_pmm) = 0x2000 \<and> frame_bit demo_pmm 3"
proof -
  have "mem_mngr_max_blocks demo_pmm \<le> 2 ^ 20" "2 < get_free_block_count demo_pmm"
    by (simp_all add: demo_pmm_def get_free_block_count_def)
  moreover have "\<forall>b<2. frame_bit demo_pmm b" by (auto simp: demo_pmm_bit less_2_cases_iff)
  ultimately show ?thesis
    using alloc_memory_blocks_overlaps [of demo_pmm 2]
    by (simp add: demo_pmm_bit demo_pmm_limit frame_addr_def)
qed

end
