(* ===== verification/Ports.thy ===== *)
theory Ports
  imports Memory
begin

text \<open>
  \<^verbatim>\<open>drivers/ports.c\<close>: the four port instructions. What answers them is hardware, not code of the
  repository: it is the parameter \<open>bus\<close> of every definition that reaches a port, over a state
  \<open>'d\<close> of its own kept in the field \<open>dev\<close>. The record \<open>io\<close> also holds the VGA text buffer.

  The second half states the documented behaviour the drivers rely on, as the hypothesis
  \<open>pc_conforms bus view\<close>: seen through \<open>view\<close>, the bus behaves like a PC with a CRT controller
  (index and data register) and a healthy ATA drive in PIO mode.
\<close>

section \<open>Port input and output\<close>

record 'd bus =
  bus_inb :: "u16 \<Rightarrow> 'd \<Rightarrow> u8 \<times> 'd"
  bus_outb :: "u16 \<Rightarrow> u8 \<Rightarrow> 'd \<Rightarrow> 'd"
  bus_inw :: "u16 \<Rightarrow> 'd \<Rightarrow> u16 \<times> 'd"
  bus_outw :: "u16 \<Rightarrow> u16 \<Rightarrow> 'd \<Rightarrow> 'd"

record 'd io = pmm +
  dev :: 'd
  vidmem :: "u8 list"

definition port_byte_in :: "'d bus \<Rightarrow> u16 \<Rightarrow> ('d, 'z) io_scheme \<Rightarrow> u8 \<times> ('d, 'z) io_scheme" where
  "port_byte_in bus port s = (fst (bus_inb bus port (dev s)), s\<lparr>dev := snd (bus_inb bus port (dev s))\<rparr>)"

definition port_byte_out :: "'d bus \<Rightarrow> u16 \<Rightarrow> u8 \<Rightarrow> ('d, 'z) io_scheme \<Rightarrow> ('d, 'z) io_scheme" where
  "port_byte_out bus port data s = s\<lparr>dev := bus_outb bus port data (dev s)\<rparr>"

definition port_word_in :: "'d bus \<Rightarrow> u16 \<Rightarrow> ('d, 'z) io_scheme \<Rightarrow> u16 \<times> ('d, 'z) io_scheme" where
  "port_word_in bus port s = (fst (bus_inw bus port (dev s)), s\<lparr>dev := snd (bus_inw bus port (dev s))\<rparr>)"

definition port_word_out :: "'d bus \<Rightarrow> u16 \<Rightarrow> u16 \<Rightarrow> ('d, 'z) io_scheme \<Rightarrow> ('d, 'z) io_scheme" where
  "port_word_out bus port data s = s\<lparr>dev := bus_outw bus port data (dev s)\<rparr>"

lemmas port_defs = port_byte_in_def port_byte_out_def port_word_in_def port_word_out_def

section \<open>The hardware contract\<close>

text \<open>
  The drive as its documentation describes it to a PIO driver: the task file registers, the data
  phase a command has started, the contents of its sectors, and for how many status reads it will
  still report BSY.
\<close>

datatype ata_phase = Idle | Reading "u16 list" | Writing nat "u16 list"

record pc =
  crtc_index :: u8
  crtc_regs :: "u8 \<Rightarrow> u8"
  ata_lba_low :: u8
  ata_lba_mid :: u8
  ata_lba_high :: u8
  ata_drive_head :: u8
  ata_state :: ata_phase
  ata_busy :: nat
  ata_sectors :: "nat \<Rightarrow> u16 list"
  ata_identity :: "u16 list"

definition ata_lba :: "pc \<Rightarrow> nat" where
  "ata_lba a = unat (ata_lba_low a) + 256 * unat (ata_lba_mid a) + 65536 * unat (ata_lba_high a)
     + 16777216 * unat (ata_drive_head a AND 0x0F)"

text \<open>
  The effect of a byte written to a port; \<open>n\<close> is the latency of a command, in status reads. (A
  driver writes the ATA registers only when BSY has cleared.)
\<close>

definition ata_command :: "u8 \<Rightarrow> pc \<Rightarrow> ata_phase" where
  "ata_command c a =
     (if c = 0x20 then Reading (ata_sectors a (ata_lba a))
      else if c = 0x30 then Writing (ata_lba a) []
      else if c = 0xEC then Reading (ata_identity a)
      else ata_state a)"

definition pc_outb :: "u16 \<Rightarrow> u8 \<Rightarrow> nat \<Rightarrow> pc \<Rightarrow> pc" where
  "pc_outb port v n a =
     (if port = 0x3d4 then a\<lparr>crtc_index := v\<rparr>
      else if port = 0x3d5 then a\<lparr>crtc_regs := (crtc_regs a)(crtc_index a := v)\<rparr>
      else if port = 0x1F3 then a\<lparr>ata_lba_low := v\<rparr>
      else if port = 0x1F4 then a\<lparr>ata_lba_mid := v\<rparr>
      else if port = 0x1F5 then a\<lparr>ata_lba_high := v\<rparr>
      else if port = 0x1F6 then a\<lparr>ata_drive_head := v\<rparr>
      else if port = 0x1F7 then a\<lparr>ata_state := ata_command v a, ata_busy := n\<rparr>
      else a)"

text \<open>
  The status register: BSY for \<open>ata_busy\<close> reads, with DRQ clear; then BSY clear, DRDY set, no
  error, and DRQ set exactly in a data phase.
\<close>

definition ata_status :: "pc \<Rightarrow> u8 \<Rightarrow> bool" where
  "ata_status a v \<longleftrightarrow>
     (if 0 < ata_busy a then bit v 7 \<and> \<not> bit v 3
      else \<not> bit v 7 \<and> bit v 6 \<and> \<not> bit v 5 \<and> \<not> bit v 0 \<and> (bit v 3 \<longleftrightarrow> ata_state a \<noteq> Idle))"

fun ata_data_in :: "ata_phase \<Rightarrow> u16 \<times> ata_phase" where
  "ata_data_in (Reading (w # ws)) = (w, if ws = [] then Idle else Reading ws)"
| "ata_data_in p = (0, p)"

definition ata_data_out :: "u16 \<Rightarrow> nat \<Rightarrow> pc \<Rightarrow> pc" where
  "ata_data_out w n a =
     (case ata_state a of
        Writing lba ws \<Rightarrow>
          if length ws < 255 then a\<lparr>ata_state := Writing lba (ws @ [w])\<rparr>
          else a\<lparr>ata_state := Idle, ata_busy := n, ata_sectors := (ata_sectors a)(lba := ws @ [w])\<rparr>
      | _ \<Rightarrow> a)"

definition pc_conforms :: "'d bus \<Rightarrow> ('d \<Rightarrow> pc) \<Rightarrow> bool" where
  "pc_conforms bus view \<longleftrightarrow>
     (\<forall>port v d. \<exists>n. view (bus_outb bus port v d) = pc_outb port v n (view d)) \<and>
     (\<forall>d. fst (bus_inb bus 0x3d5 d) = crtc_regs (view d) (crtc_index (view d))) \<and>
     (\<forall>d. ata_status (view d) (fst (bus_inb bus 0x1F7 d))) \<and>
     (\<forall>d. view (snd (bus_inb bus 0x1F7 d)) = (view d)\<lparr>ata_busy := ata_busy (view d) - 1\<rparr>) \<and>
     (\<forall>port d. port \<noteq> 0x1F7 \<longrightarrow> view (snd (bus_inb bus port d)) = view d) \<and>
     (\<forall>d. fst (bus_inw bus 0x1F0 d) = fst (ata_data_in (ata_state (view d)))) \<and>
     (\<forall>d. view (snd (bus_inw bus 0x1F0 d))
        = (view d)\<lparr>ata_state := snd (ata_data_in (ata_state (view d)))\<rparr>) \<and>
     (\<forall>w d. \<exists>n. view (bus_outw bus 0x1F0 w d) = ata_data_out w n (view d))"

text \<open>
  A bus that meets the contract, for the witnesses: its state is the PC itself, every command takes
  two status reads.
\<close>

definition demo_bus :: "pc bus" where
  "demo_bus = \<lparr>
     bus_inb = (\<lambda>port a.
       if port = 0x3d5 then (crtc_regs a (crtc_index a), a)
       else if port = 0x1F7 then
         (if 0 < ata_busy a then 0x80 else if ata_state a = Idle then 0x50 else 0x58,
          a\<lparr>ata_busy := ata_busy a - 1\<rparr>)
       else (0, a)),
     bus_outb = (\<lambda>port v. pc_outb port v 2),
     bus_inw = (\<lambda>port a. (fst (ata_data_in (ata_state a)), a\<lparr>ata_state := snd (ata_data_in (ata_state a))\<rparr>)),
     bus_outw = (\<lambda>port w. ata_data_out w 2)\<rparr>"

lemma bit_numerals8:
  "bit (0x80 :: u8) 7" "\<not> bit (0x80 :: u8) 3" "\<not> bit (0x50 :: u8) 7" "bit (0x50 :: u8) 6" "\<not> bit (0x50 :: u8) 5"
  "\<not> bit (0x50 :: u8) 0" "\<not> bit (0x50 :: u8) 3" "\<not> bit (0x58 :: u8) 7" "bit (0x58 :: u8) 6"
  "\<not> bit (0x58 :: u8) 5" "\<not> bit (0x58 :: u8) 0" "bit (0x58 :: u8) 3"
  by (simp_all add: bit_numeral_rec numeral_eq_Suc bit_simps)

lemma demo_bus_conforms: "pc_conforms demo_bus (\<lambda>a. a)"
  by (auto simp: pc_conforms_def demo_bus_def ata_status_def bit_numerals8)

text \<open>The contract, law by law.\<close>

lemma view_outb: "pc_conforms bus view \<Longrightarrow> \<exists>n. view (bus_outb bus port v d) = pc_outb port v n (view d)"
  by (simp add: pc_conforms_def)

lemma view_outb_quiet:
  "pc_conforms bus view \<Longrightarrow> port \<noteq> 0x1F7 \<Longrightarrow> view (bus_outb bus port v d) = pc_outb port v 0 (view d)"
  using view_outb [of bus view port v d] by (auto simp: pc_outb_def)

lemma crtc_in: "pc_conforms bus view \<Longrightarrow> fst (bus_inb bus 0x3d5 d) = crtc_regs (view d) (crtc_index (view d))"
  by (simp add: pc_conforms_def)

lemma view_inb: "pc_conforms bus view \<Longrightarrow> port \<noteq> 0x1F7 \<Longrightarrow> view (snd (bus_inb bus port d)) = view d"
  by (simp add: pc_conforms_def)

lemma status_in: "pc_conforms bus view \<Longrightarrow> ata_status (view d) (fst (bus_inb bus 0x1F7 d))"
  and view_status_in: "pc_conforms bus view \<Longrightarrow>
    view (snd (bus_inb bus 0x1F7 d)) = (view d)\<lparr>ata_busy := ata_busy (view d) - 1\<rparr>"
  by (simp_all add: pc_conforms_def)

lemma data_in: "pc_conforms bus view \<Longrightarrow> fst (bus_inw bus 0x1F0 d) = fst (ata_data_in (ata_state (view d)))"
  and view_data_in: "pc_conforms bus view \<Longrightarrow>
    view (snd (bus_inw bus 0x1F0 d)) = (view d)\<lparr>ata_state := snd (ata_data_in (ata_state (view d)))\<rparr>"
  by (simp_all add: pc_conforms_def)

lemma view_data_out: "pc_conforms bus view \<Longrightarrow> \<exists>n. view (bus_outw bus 0x1F0 w d) = ata_data_out w n (view d)"
  by (simp add: pc_conforms_def)

end
