(* ===== verification/Screen.thy ===== *)
theory Screen
  imports Ports
begin

text \<open>
  \<^verbatim>\<open>drivers/screen.c\<close>: the 80x25 text screen. \<open>vidmem\<close> is the 4000-byte buffer at
  \<^verbatim>\<open>VIDEO_ADDRESS\<close> (character and attribute bytes alternate); a write outside it is \<open>Wild\<close>.
  The cursor lives in the CRT controller and is read and written through ports. The lemmas refine
  \<open>put_char\<close> to an abstract terminal (\<open>text_put\<close> on a buffer and a position).
\<close>

abbreviation (input) MAX_ROWS :: int where "MAX_ROWS \<equiv> 25"

abbreviation (input) MAX_COLS :: int where "MAX_COLS \<equiv> 80"

abbreviation (input) WHITE_ON_BLACK :: u8 where "WHITE_ON_BLACK \<equiv> 0x0f"

abbreviation (input) RED_ON_WHITE :: u8 where "RED_ON_WHITE \<equiv> 0xf4"

abbreviation (input) VGA_COLOR_GREEN :: u8 where "VGA_COLOR_GREEN \<equiv> 2"

abbreviation (input) VGA_COLOR_CYAN :: u8 where "VGA_COLOR_CYAN \<equiv> 3"

abbreviation (input) VGA_COLOR_RED :: u8 where "VGA_COLOR_RED \<equiv> 4"

abbreviation (input) VGA_COLOR_MAGENTA :: u8 where "VGA_COLOR_MAGENTA \<equiv> 5"

abbreviation (input) VGA_COLOR_YELLOW :: u8 where "VGA_COLOR_YELLOW \<equiv> 14"

abbreviation (input) REG_SCREEN_CTRL :: u16 where "REG_SCREEN_CTRL \<equiv> 0x3d4"

abbreviation (input) REG_SCREEN_DATA :: u16 where "REG_SCREEN_DATA \<equiv> 0x3d5"

section \<open>Operations\<close>

definition get_offset :: "int \<Rightarrow> int \<Rightarrow> int" where
  "get_offset col row = 2 * (row * MAX_COLS + col)"

definition get_offset_row :: "int \<Rightarrow> int" where
  "get_offset_row offset = offset sdiv (2 * MAX_COLS)"

definition get_offset_col :: "int \<Rightarrow> int" where
  "get_offset_col offset = (offset - (get_offset_row offset * 2 * MAX_COLS)) sdiv 2"

definition get_cursor_offset :: "'d bus \<Rightarrow> ('d, 'z) io_scheme \<Rightarrow> int \<times> ('d, 'z) io_scheme" where
  "get_cursor_offset bus s =
     (let s = port_byte_out bus REG_SCREEN_CTRL 14 s;
          (h, s) = port_byte_in bus REG_SCREEN_DATA s;
          offset = push_bit 8 (uint h);
          s = port_byte_out bus REG_SCREEN_CTRL 15 s;
          (l, s) = port_byte_in bus REG_SCREEN_DATA s;
          offset = offset + uint l
      in (offset * 2, s))"

definition set_cursor_offset :: "'d bus \<Rightarrow> int \<Rightarrow> ('d, 'z) io_scheme \<Rightarrow> ('d, 'z) io_scheme" where
  "set_cursor_offset bus offset s =
     (let offset = offset sdiv 2;
          s = port_byte_out bus REG_SCREEN_CTRL 14 s;
          s = port_byte_out bus REG_SCREEN_DATA (of_int (drop_bit 8 offset)) s;
          s = port_byte_out bus REG_SCREEN_CTRL 15 s
      in port_byte_out bus REG_SCREEN_DATA (of_int (offset AND 0xff)) s)"

text \<open>Two adjacent bytes of the video memory, and the scrolling loop over rows \<open>i\<close> to 24.\<close>

definition vid_put :: "u8 list \<Rightarrow> int \<Rightarrow> u8 \<Rightarrow> u8 \<Rightarrow> stop + u8 list" where
  "vid_put v offset c attr =
     (case arr_set v offset c of Inl e \<Rightarrow> Inl e | Inr v \<Rightarrow> arr_set v (offset + 1) attr)"

function scroll_rows :: "u8 list \<Rightarrow> int \<Rightarrow> stop + u8 list" where
  "scroll_rows v i =
     (if i < MAX_ROWS
      then (case memcpy_within v (get_offset 0 (i - 1)) (get_offset 0 i) (MAX_COLS * 2) 0 of
              Inl e \<Rightarrow> Inl e | Inr v \<Rightarrow> scroll_rows v (i + 1))
      else Inr v)"
  by pat_completeness auto
termination
  by (relation "measure (\<lambda>(v, i). nat (25 - i))") auto

function blank_last_line :: "u8 list \<Rightarrow> int \<Rightarrow> stop + u8 list" where
  "blank_last_line v i =
     (if i < MAX_COLS * 2
      then (case arr_set v (get_offset 0 (MAX_ROWS - 1) + i) 0 of
              Inl e \<Rightarrow> Inl e | Inr v \<Rightarrow> blank_last_line v (i + 1))
      else Inr v)"
  by pat_completeness auto
termination
  by (relation "measure (\<lambda>(v, i). nat (160 - i))") auto

definition with_vidmem :: "stop + u8 list \<Rightarrow> ('d, 'z) io_scheme \<Rightarrow> (unit, ('d, 'z) io_scheme) result" where
  "with_vidmem r s = (case r of Inl e \<Rightarrow> Inl e | Inr v \<Rightarrow> Inr ((), s\<lparr>vidmem := v\<rparr>))"

text \<open>The end of \<open>print_char\<close>: scroll when the offset is past the screen, store the cursor.\<close>

definition print_char_end :: "'d bus \<Rightarrow> int \<Rightarrow> ('d, 'z) io_scheme \<Rightarrow> (int, ('d, 'z) io_scheme) result" where
  "print_char_end bus offset s =
     bindk
       (if MAX_ROWS * MAX_COLS * 2 \<le> offset
        then bindk (with_vidmem (scroll_rows (vidmem s) 1) s) (\<lambda>_ s.
             bindk (with_vidmem (blank_last_line (vidmem s) 0) s) (\<lambda>_ s.
               Inr (offset - 2 * MAX_COLS, s)))
        else Inr (offset, s))
       (\<lambda>offset s. Inr (offset, set_cursor_offset bus offset s))"

definition print_char ::
  "'d bus \<Rightarrow> u8 \<Rightarrow> int \<Rightarrow> int \<Rightarrow> u8 \<Rightarrow> ('d, 'z) io_scheme \<Rightarrow> (int, ('d, 'z) io_scheme) result" where
  "print_char bus c col row attr s =
     (let attr = (if attr = 0 then WHITE_ON_BLACK else attr) in
      if MAX_COLS \<le> col \<or> MAX_ROWS \<le> row
      then bindk (with_vidmem (vid_put (vidmem s) (2 * MAX_COLS * MAX_ROWS - 2) 69 RED_ON_WHITE) s)
             (\<lambda>_ s. Inr (get_offset col row, s))
      else
        let (offset, s) = (if 0 \<le> col \<and> 0 \<le> row then (get_offset col row, s) else get_cursor_offset bus s) in
        bindk
          (if c = 10 then Inr (get_offset 0 (get_offset_row offset + 1), s)
           else if c = 8
           then bindk (with_vidmem (vid_put (vidmem s) (offset - 2) 32 0x0F) s) (\<lambda>_ s. Inr (offset - 2, s))
           else bindk (with_vidmem (vid_put (vidmem s) offset c attr) s) (\<lambda>_ s. Inr (offset + 2, s)))
          (print_char_end bus))"

definition put_char :: "'d bus \<Rightarrow> u8 \<Rightarrow> u8 \<Rightarrow> ('d, 'z) io_scheme \<Rightarrow> (unit, ('d, 'z) io_scheme) result" where
  "put_char bus a attr s =
     bindk (print_char bus a (-1) (-1) (if attr = 0 then WHITE_ON_BLACK else attr) s) (\<lambda>_ s. Inr ((), s))"

fun kprint_loop ::
  "'d bus \<Rightarrow> u8 list \<Rightarrow> int \<Rightarrow> int \<Rightarrow> ('d, 'z) io_scheme \<Rightarrow> (unit, ('d, 'z) io_scheme) result" where
  "kprint_loop bus [] col row s = Inr ((), s)"
| "kprint_loop bus (c # message) col row s =
     bindk (print_char bus c col row WHITE_ON_BLACK s) (\<lambda>offset s.
       kprint_loop bus message (get_offset_col offset) (get_offset_row offset) s)"

definition kprint_at ::
  "'d bus \<Rightarrow> u8 list \<Rightarrow> int \<Rightarrow> int \<Rightarrow> ('d, 'z) io_scheme \<Rightarrow> (unit, ('d, 'z) io_scheme) result" where
  "kprint_at bus message col row s =
     (if 0 \<le> col \<and> 0 \<le> row then kprint_loop bus message col row s
      else let (offset, s) = get_cursor_offset bus s
           in kprint_loop bus message (get_offset_col offset) (get_offset_row offset) s)"

definition kprint :: "'d bus \<Rightarrow> u8 list \<Rightarrow> ('d, 'z) io_scheme \<Rightarrow> (unit, ('d, 'z) io_scheme) result" where
  "kprint bus message s = kprint_at bus message (-1) (-1) s"

function clear_loop :: "u8 list \<Rightarrow> int \<Rightarrow> stop + u8 list" where
  "clear_loop v i =
     (if i < MAX_COLS * MAX_ROWS
      then (case vid_put v (i * 2) 32 WHITE_ON_BLACK of Inl e \<Rightarrow> Inl e | Inr v \<Rightarrow> clear_loop v (i + 1))
      else Inr v)"
  by pat_completeness auto
termination
  by (relation "measure (\<lambda>(v, i). nat (2000 - i))") auto

definition clear_screen :: "'d bus \<Rightarrow> ('d, 'z) io_scheme \<Rightarrow> (unit, ('d, 'z) io_scheme) result" where
  "clear_screen bus s =
     bindk (with_vidmem (clear_loop (vidmem s) 0) s) (\<lambda>_ s. Inr ((), set_cursor_offset bus (get_offset 0 0) s))"

declare scroll_rows.simps [simp del] blank_last_line.simps [simp del] clear_loop.simps [simp del]

section \<open>The cursor\<close>

definition cursor_of :: "pc \<Rightarrow> nat" where
  "cursor_of a = 256 * unat (crtc_regs a 14) + unat (crtc_regs a 15)"

text \<open>Only the CRT controller's part of the hardware differs.\<close>

definition crtc_only :: "pc \<Rightarrow> pc \<Rightarrow> bool" where
  "crtc_only a b \<longleftrightarrow> b = a\<lparr>crtc_index := crtc_index b, crtc_regs := crtc_regs b\<rparr>"

lemma crtc_onlyI [simp]: "crtc_only a (a\<lparr>crtc_index := i, crtc_regs := r\<rparr>)" "crtc_only a (a\<lparr>crtc_index := i\<rparr>)"
  "crtc_only a a"
  by (cases a; simp add: crtc_only_def)+

lemma crtc_only_trans: "crtc_only a b \<Longrightarrow> crtc_only b c \<Longrightarrow> crtc_only a c"
  by (cases a; cases b; cases c) (simp add: crtc_only_def)

lemma crtc_only_fields:
  assumes "crtc_only a b"
  shows "ata_state b = ata_state a" "ata_busy b = ata_busy a" "ata_sectors b = ata_sectors a"
    "ata_identity b = ata_identity a"
  using assms by (cases a; cases b; simp add: crtc_only_def)+

lemma get_cursor_offset_eq:
  assumes "pc_conforms bus view"
  obtains d where "get_cursor_offset bus s = (2 * int (cursor_of (view (dev s))), s\<lparr>dev := d\<rparr>)"
    "view d = (view (dev s))\<lparr>crtc_index := 15\<rparr>"
proof (rule that)
  let ?d1 = "bus_outb bus 0x3d4 14 (dev s)"
  let ?d2 = "snd (bus_inb bus 0x3d5 ?d1)"
  let ?d3 = "bus_outb bus 0x3d4 15 ?d2"
  let ?d4 = "snd (bus_inb bus 0x3d5 ?d3)"
  note laws = view_outb_quiet [OF assms] view_inb [OF assms] crtc_in [OF assms]
  show "view ?d4 = (view (dev s))\<lparr>crtc_index := 15\<rparr>"
    by (simp add: laws pc_outb_def)
  show "get_cursor_offset bus s = (2 * int (cursor_of (view (dev s))), s\<lparr>dev := ?d4\<rparr>)"
    by (simp add: get_cursor_offset_def port_defs Let_def laws pc_outb_def cursor_of_def push_bit_eq_mult)
qed

lemma set_cursor_offset_eq:
  assumes "pc_conforms bus view" "p < 2 ^ 16"
  obtains d where "set_cursor_offset bus (2 * int p) s = s\<lparr>dev := d\<rparr>"
    "crtc_only (view (dev s)) (view d)" "cursor_of (view d) = p"
proof (rule that)
  let ?d1 = "bus_outb bus 0x3d4 14 (dev s)"
  let ?d2 = "bus_outb bus 0x3d5 (of_int (drop_bit 8 (int p))) ?d1"
  let ?d3 = "bus_outb bus 0x3d4 15 ?d2"
  let ?d4 = "bus_outb bus 0x3d5 (of_int (int p AND 0xff)) ?d3"
  note laws = view_outb_quiet [OF assms(1)]
  have half: "(2 * int p) sdiv 2 = int p" by (simp add: sdiv_nonneg)
  show "set_cursor_offset bus (2 * int p) s = s\<lparr>dev := ?d4\<rparr>"
    by (simp add: set_cursor_offset_def port_defs Let_def half)
  show "crtc_only (view (dev s)) (view ?d4)" by (simp add: laws pc_outb_def)
  have hi: "unat (of_int (drop_bit 8 (int p)) :: u8) = p div 256"
  proof -
    have "drop_bit 8 (int p) = int (p div 256)" by (simp add: drop_bit_eq_div zdiv_int)
    moreover have "p div 256 < 256" using assms(2) by simp
    ultimately show ?thesis by (simp add: unat_of_nat take_bit_nat_eq_self)
  qed
  have lo: "unat (of_int (int p AND 0xff) :: u8) = p mod 256"
  proof -
    have "(0xff :: int) = mask 8" by (simp add: mask_eq_exp_minus_1)
    then have "int p AND 0xff = int (p mod 256)" by (simp only: take_bit_eq_mask [symmetric] take_bit_eq_mod zmod_int) simp
    then show ?thesis by (simp add: unat_of_nat take_bit_nat_eq_self)
  qed
  show "cursor_of (view ?d4) = p"
    by (simp add: laws pc_outb_def cursor_of_def hi lo)
qed

section \<open>Scrolling\<close>

definition scroll :: "u8 list \<Rightarrow> u8 list" where
  "scroll v = drop 160 v @ replicate 160 0"

lemma get_offset_0: "get_offset 0 (int r) = int (160 * r)"
  by (simp add: get_offset_def)

lemma scroll_rows_from:
  assumes "length v = 4000" "1 \<le> i" "i \<le> 25"
  shows "scroll_rows (take (160 * (i - 1)) (drop 160 v) @ drop (160 * (i - 1)) v) (int i)
    = Inr (drop 160 v @ drop 3840 v)"
  using assms
proof (induction "25 - i" arbitrary: i)
  case 0
  then have "i = 25" by simp
  with 0 show ?case by (subst scroll_rows.simps) simp
next
  case (Suc n)
  then have i: "i < 25" by simp
  let ?v = "take (160 * (i - 1)) (drop 160 v) @ drop (160 * (i - 1)) v"
  let ?w = "take (160 * i) (drop 160 v) @ drop (160 * i) v"
  have len: "length ?v = 4000" using Suc.prems i by simp
  have m: "160 * i = 160 * (i - 1) + 160" using Suc.prems by simp
  have ds: "drop (160 * i) ?v = drop (160 * i) v"
    using Suc.prems i by (simp add: m add.commute)
  have "memcpy_within ?v (int (160 * (i - 1))) (int (160 * i)) (int 160) (int 0)
      = memcpy ?v (int (160 * (i - 1))) ?v (int (160 * i)) (int 160) (int 0)"
    using Suc.prems by (intro memcpy_within_memcpy) auto
  also have "\<dots> = Inr (take (160 * (i - 1)) ?v @ take 160 (drop (160 * i) ?v) @ drop (160 * (i - 1) + 160) ?v)"
    using memcpy_eq [of "160 * i" 160 ?v "160 * (i - 1)" ?v] len i by simp
  also have "take (160 * (i - 1)) ?v = take (160 * (i - 1)) (drop 160 v)"
    using Suc.prems i by simp
  also have "drop (160 * (i - 1) + 160) ?v = drop (160 * i) v" using ds by (simp only: m)
  also have "take 160 (drop (160 * i) ?v) = take 160 (drop (160 * (i - 1)) (drop 160 v))"
    unfolding ds using m by (simp add: add.commute)
  also have "take (160 * (i - 1)) (drop 160 v) @ take 160 (drop (160 * (i - 1)) (drop 160 v)) @ drop (160 * i) v
      = ?w"
    by (simp only: m take_add append_assoc)
  finally have c: "memcpy_within ?v (get_offset 0 (int i - 1)) (get_offset 0 (int i)) (MAX_COLS * 2) 0 = Inr ?w"
    using get_offset_0 [of i] get_offset_0 [of "i - 1"] Suc.prems by (simp add: of_nat_diff)
  have "scroll_rows ?w (int (Suc i)) = Inr (drop 160 v @ drop 3840 v)"
    using Suc.hyps(1) [of "Suc i"] Suc.hyps(2) Suc.prems i by simp
  then show ?case
    using i c by (subst scroll_rows.simps) (simp add: add.commute)
qed

lemma blank_last_line_from:
  assumes "length v = 4000" "i \<le> 160"
  shows "blank_last_line v (int i) = Inr (take (3840 + i) v @ replicate (160 - i) 0)"
  using assms
proof (induction "160 - i" arbitrary: i v)
  case 0
  then show ?case by (subst blank_last_line.simps) simp
next
  case (Suc n)
  then have i: "i < 160" by simp
  have s: "arr_set v (get_offset 0 (MAX_ROWS - 1) + int i) 0 = Inr (v[3840 + i := 0])"
    using arr_set_nat [of "3840 + i" v 0] Suc.prems i by (simp add: get_offset_def)
  have "blank_last_line (v[3840 + i := 0]) (int (Suc i))
      = Inr (take (3840 + Suc i) (v[3840 + i := 0]) @ replicate (160 - Suc i) 0)"
    using Suc i by (intro Suc.hyps) auto
  moreover have "take (3840 + Suc i) (v[3840 + i := 0]) = take (3840 + i) v @ [0]"
    using take_Suc_conv_app_nth [of "3840 + i" "v[3840 + i := 0]"] Suc.prems i by simp
  moreover have "replicate (160 - i) (0 :: u8) = 0 # replicate (160 - Suc i) 0"
    using i by (metis Suc_diff_Suc replicate_Suc)
  ultimately show ?case
    using i s by (subst blank_last_line.simps) (simp add: add.commute)
qed

lemma scroll_screen:
  assumes "length v = 4000"
  shows "scroll_rows v 1 = Inr (drop 160 v @ drop 3840 v)"
    and "blank_last_line (drop 160 v @ drop 3840 v) 0 = Inr (scroll v)"
  using scroll_rows_from [OF assms, of 1] blank_last_line_from [of "drop 160 v @ drop 3840 v" 0] assms
  by (simp_all add: scroll_def)

section \<open>The screen as a terminal\<close>

text \<open>
  The abstract terminal: a buffer and a position below 2000. A newline moves to the next row, a
  backspace blanks the cell before the position, any other character is written with its
  attribute; leaving the last row scrolls by one line.
\<close>

type_synonym terminal = "u8 list \<times> nat"

definition text_put :: "u8 \<Rightarrow> u8 \<Rightarrow> terminal \<Rightarrow> terminal" where
  "text_put c attr t =
     (let (v, p) = t;
          (v, p) = (if c = 10 then (v, 80 * (p div 80 + 1))
            else if c = 8 then (v[2 * p - 2 := 32, 2 * p - 1 := 0x0F], p - 1)
            else (v[2 * p := c, 2 * p + 1 := attr], p + 1))
      in if 2000 \<le> p then (scroll v, p - 80) else (v, p))"

definition terminal_of :: "('d \<Rightarrow> pc) \<Rightarrow> ('d, 'z) io_scheme \<Rightarrow> terminal" where
  "terminal_of view s = (vidmem s, cursor_of (view (dev s)))"

definition terminal_ok :: "terminal \<Rightarrow> bool" where
  "terminal_ok t \<longleftrightarrow> length (fst t) = 4000 \<and> snd t < 2000"

lemma terminal_ok_text_put: "terminal_ok t \<Longrightarrow> (c = 8 \<longrightarrow> 0 < snd t) \<Longrightarrow> terminal_ok (text_put c attr t)"
  by (cases t) (auto simp: terminal_ok_def text_put_def scroll_def)

lemma vid_put_eq:
  "p < length v \<Longrightarrow> p + 1 < length v \<Longrightarrow> vid_put v (int p) c attr = Inr (v[p := c, p + 1 := attr])"
  using arr_set_nat [of p v c] arr_set_nat [of "p + 1" "v[p := c]" attr]
  by (simp add: vid_put_def add.commute)

lemma get_offset_row_nat: "get_offset_row (2 * int p) = int (p div 80)"
  by (simp add: get_offset_row_def sdiv_nonneg zdiv_int [symmetric] div_mult_mult1 flip: of_nat_mult)

lemma print_char_end_eq:
  assumes "pc_conforms bus view" "length (vidmem s) = 4000" "p < 2080"
  defines "q \<equiv> (if 2000 \<le> p then p - 80 else p)"
  obtains d where
    "print_char_end bus (2 * int p) s
      = Inr (2 * int q, s\<lparr>dev := d, vidmem := (if 2000 \<le> p then scroll (vidmem s) else vidmem s)\<rparr>)"
    "crtc_only (view (dev s)) (view d)" "cursor_of (view d) = q"
proof -
  let ?s = "s\<lparr>vidmem := (if 2000 \<le> p then scroll (vidmem s) else vidmem s)\<rparr>"
  have "q < 2 ^ 16" using assms(3) by (auto simp: q_def)
  from set_cursor_offset_eq [OF assms(1) this, of ?s]
  obtain d where d: "set_cursor_offset bus (2 * int q) ?s = ?s\<lparr>dev := d\<rparr>"
    "crtc_only (view (dev s)) (view d)" "cursor_of (view d) = q" by auto
  have "print_char_end bus (2 * int p) s = Inr (2 * int q, set_cursor_offset bus (2 * int q) ?s)"
  proof (cases "2000 \<le> p")
    case True
    then have "2 * int q = 2 * int p - 160" by (simp add: q_def of_nat_diff)
    with True show ?thesis
      by (simp add: print_char_end_def with_vidmem_def scroll_screen [OF assms(2)])
  qed (simp add: print_char_end_def q_def)
  with d show ?thesis by (intro that [of d]) simp_all
qed

lemma print_char_refines:
  fixes s :: "('d, 'z) io_scheme" and attr c :: u8
  assumes "pc_conforms bus view" "terminal_ok (terminal_of view s)"
    and "c = 8 \<Longrightarrow> 0 < cursor_of (view (dev s))"
  defines "t \<equiv> text_put c (if attr = 0 then WHITE_ON_BLACK else attr) (terminal_of view s)"
  obtains d where
    "print_char bus c (-1) (-1) attr s = Inr (2 * int (snd t), s\<lparr>dev := d, vidmem := fst t\<rparr>)"
    "crtc_only (view (dev s)) (view d)" "cursor_of (view d) = snd t"
proof -
  define a where "a = (if attr = 0 then WHITE_ON_BLACK else attr)"
  define p where "p = cursor_of (view (dev s))"
  obtain d0 where d0: "get_cursor_offset bus s = (2 * int p, s\<lparr>dev := d0\<rparr>)"
    "view d0 = (view (dev s))\<lparr>crtc_index := 15\<rparr>"
    using get_cursor_offset_eq [OF assms(1), of s] unfolding p_def by blast
  have c0: "crtc_only (view (dev s)) (view d0)" by (simp add: d0(2))
  have len: "length (vidmem s) = 4000" "p < 2000"
    using assms(2) by (auto simp: terminal_ok_def terminal_of_def p_def)
  define v where "v = (if c = 10 then vidmem s
    else if c = 8 then (vidmem s)[2 * p - 2 := 32, 2 * p - 1 := 0x0F]
    else (vidmem s)[2 * p := c, 2 * p + 1 := a])"
  define q where "q = (if c = 10 then 80 * (p div 80 + 1) else if c = 8 then p - 1 else p + 1)"
  have t: "fst t = (if 2000 \<le> q then scroll v else v)" "snd t = (if 2000 \<le> q then q - 80 else q)"
    by (auto simp: t_def text_put_def terminal_of_def v_def q_def a_def p_def)
  have q: "q < 2080" using len by (auto simp: q_def)
  have v: "length v = 4000" using len by (simp add: v_def)
  let ?s = "s\<lparr>dev := d0, vidmem := v\<rparr>"
  obtain d where d: "print_char_end bus (2 * int q) ?s = Inr (2 * int (snd t), s\<lparr>dev := d, vidmem := fst t\<rparr>)"
    "crtc_only (view d0) (view d)" "cursor_of (view d) = snd t"
  proof (rule print_char_end_eq [OF assms(1), of ?s q])
    fix d
    assume "print_char_end bus (2 * int q) ?s = Inr (2 * int (if 2000 \<le> q then q - 80 else q),
        ?s\<lparr>dev := d, vidmem := (if 2000 \<le> q then scroll (vidmem ?s) else vidmem ?s)\<rparr>)"
      and "crtc_only (view (dev ?s)) (view d)" "cursor_of (view d) = (if 2000 \<le> q then q - 80 else q)"
    then show thesis by (intro that [of d]) (simp_all add: t cong: if_cong)
  qed (simp_all add: v q)
  have step: "(if c = 10 then Inr (get_offset 0 (get_offset_row (2 * int p) + 1), s\<lparr>dev := d0\<rparr>)
           else if c = 8
           then bindk (with_vidmem (vid_put (vidmem s) (2 * int p - 2) 32 0x0F) (s\<lparr>dev := d0\<rparr>))
                  (\<lambda>_ s. Inr (2 * int p - 2, s))
           else bindk (with_vidmem (vid_put (vidmem s) (2 * int p) c a) (s\<lparr>dev := d0\<rparr>))
                  (\<lambda>_ s. Inr (2 * int p + 2, s)))
      = Inr (2 * int q, ?s)"
  proof -
    have "c = 8 \<longrightarrow> 0 < p" using assms(3) by (simp add: p_def)
    then consider "c = 10" | "c = 8" "0 < p" | "c \<noteq> 10" "c \<noteq> 8" by blast
    then show ?thesis
    proof cases
      case 1
      then show ?thesis by (simp add: get_offset_row_nat get_offset_def q_def v_def)
    next
      case 2
      then have i: "2 * int p - 2 = int (2 * p - 2)" "2 * p - 2 + 1 = 2 * p - 1" by auto
      have "vid_put (vidmem s) (2 * int p - 2) 32 0x0F = Inr v"
        unfolding i(1) using len 2 vid_put_eq [of "2 * p - 2" "vidmem s" 32 "0x0F", unfolded i(2)]
        by (simp add: v_def)
      with 2 show ?thesis by (simp add: with_vidmem_def q_def of_nat_diff)
    next
      case 3
      have "vid_put (vidmem s) (int (2 * p)) c a = Inr v"
        using len 3 by (subst vid_put_eq) (simp_all add: v_def)
      with 3 show ?thesis by (simp add: with_vidmem_def q_def)
    qed
  qed
  have "print_char bus c (-1) (-1) attr s
      = bindk (Inr (2 * int q, ?s)) (print_char_end bus)"
    unfolding step [symmetric] by (simp add: print_char_def a_def d0(1))
  with d c0 show ?thesis by (intro that [of d]) (auto intro: crtc_only_trans)
qed

lemma put_char_refines_ex:
  fixes s :: "('d, 'z) io_scheme" and attr c :: u8
  assumes "pc_conforms bus view" "terminal_ok (terminal_of view s)"
    and "c = 8 \<Longrightarrow> 0 < cursor_of (view (dev s))"
  defines "t \<equiv> text_put c (if attr = 0 then WHITE_ON_BLACK else attr) (terminal_of view s)"
  obtains d where "put_char bus c attr s = Inr ((), s\<lparr>dev := d, vidmem := fst t\<rparr>)"
    "crtc_only (view (dev s)) (view d)" "cursor_of (view d) = snd t"
proof -
  let ?a = "if attr = 0 then WHITE_ON_BLACK else attr"
  have a: "(if ?a = 0 then WHITE_ON_BLACK else ?a) = ?a" by simp
  obtain d where
    "print_char bus c (-1) (-1) ?a s = Inr (2 * int (snd t), s\<lparr>dev := d, vidmem := fst t\<rparr>)"
    "crtc_only (view (dev s)) (view d)" "cursor_of (view d) = snd t"
    using print_char_refines [where c = c and attr = ?a, OF assms(1-3), unfolded a]
    unfolding t_def by blast
  then show ?thesis by (intro that [of d]) (simp_all add: put_char_def)
qed

lemma clear_loop_from:
  assumes "length v = 4000" "i \<le> 2000"
  shows "clear_loop v (int i)
    = Inr (take (2 * i) v @ concat (replicate (2000 - i) [32, WHITE_ON_BLACK]))"
  using assms
proof (induction "2000 - i" arbitrary: i v)
  case 0
  then show ?case by (subst clear_loop.simps) simp
next
  case (Suc n)
  then have i: "i < 2000" by simp
  let ?v = "v[2 * i := 32, 2 * i + 1 := WHITE_ON_BLACK]"
  have p: "vid_put v (int i * 2) 32 WHITE_ON_BLACK = Inr ?v"
    using vid_put_eq [of "2 * i" v 32 WHITE_ON_BLACK] Suc.prems i by (simp add: mult.commute)
  have "clear_loop ?v (int (Suc i))
      = Inr (take (2 * Suc i) ?v @ concat (replicate (2000 - Suc i) [32, WHITE_ON_BLACK]))"
    using Suc i by (intro Suc.hyps) auto
  moreover have "take (2 * Suc i) ?v = take (2 * i) v @ [32, WHITE_ON_BLACK]"
    using take_Suc_conv_app_nth [of "2 * i + 1" ?v] take_Suc_conv_app_nth [of "2 * i" ?v] Suc.prems i
    by (simp add: take_update_cancel)
  moreover have "replicate (2000 - i) [32, WHITE_ON_BLACK]
      = [32, WHITE_ON_BLACK] # replicate (2000 - Suc i) [32, WHITE_ON_BLACK]"
    using i by (metis Suc_diff_Suc replicate_Suc)
  ultimately show ?case
    using i p by (subst clear_loop.simps) (simp add: add.commute)
qed

lemma blank_screen_length: "length (concat (replicate n [a, b])) = 2 * n"
  by (induction n) auto

section \<open>Properties of the screen\<close>

definition demo_pc :: pc where
  "demo_pc = \<lparr>crtc_index = 0, crtc_regs = (\<lambda>_. 0), ata_lba_low = 0, ata_lba_mid = 0, ata_lba_high = 0,
     ata_drive_head = 0, ata_state = Idle, ata_busy = 0, ata_sectors = (\<lambda>_. replicate 256 0),
     ata_identity = replicate 256 0\<rparr>"

definition demo_io :: "pc io" where
  "demo_io = pmm.extend demo_pmm (io.fields demo_pc (replicate 4000 0))"

lemma demo_io_simps [simp]: "dev demo_io = demo_pc" "vidmem demo_io = replicate 4000 0"
  by (simp_all add: demo_io_def pmm.defs io.defs demo_pmm_def)

lemma demo_terminal: "terminal_of (\<lambda>a. a) demo_io = (replicate 4000 0, 0)"
  by (simp add: terminal_of_def cursor_of_def demo_pc_def)

text \<open>
  C11: \<open>put_char\<close> implements the abstract terminal: on a conforming bus, with the cursor on the
  screen (and not at its very start for a backspace), it returns, the video memory and the cursor
  become what \<open>text_put\<close> says, the cursor stays on the screen, and nothing else changes but the
  CRT controller's registers.
\<close>

theorem put_char_refines:
  fixes s :: "('d, 'z) io_scheme"
  assumes "pc_conforms bus view" "terminal_ok (terminal_of view s)"
    and "c = 8 \<longrightarrow> 0 < snd (terminal_of view s)"
  shows "\<exists>d v. put_char bus c attr s = Inr ((), s\<lparr>dev := d, vidmem := v\<rparr>) \<and>
    terminal_of view (s\<lparr>dev := d, vidmem := v\<rparr>)
      = text_put c (if attr = 0 then WHITE_ON_BLACK else attr) (terminal_of view s) \<and>
    terminal_ok (terminal_of view (s\<lparr>dev := d, vidmem := v\<rparr>)) \<and>
    crtc_only (view (dev s)) (view d)"
proof -
  have "c = 8 \<Longrightarrow> 0 < cursor_of (view (dev s))" using assms(3) by (simp add: terminal_of_def)
  from put_char_refines_ex [where c = c and attr = attr, OF assms(1,2) this]
  obtain d where d: "put_char bus c attr s = Inr ((), s\<lparr>dev := d, vidmem :=
        fst (text_put c (if attr = 0 then WHITE_ON_BLACK else attr) (terminal_of view s))\<rparr>)"
    "crtc_only (view (dev s)) (view d)"
    "cursor_of (view d) = snd (text_put c (if attr = 0 then WHITE_ON_BLACK else attr) (terminal_of view s))"
    by blast
  with terminal_ok_text_put [OF assms(2,3)] show ?thesis
    by (intro exI conjI) (assumption | simp add: terminal_of_def)+
qed

theorem put_char_refines_witness:
  "\<exists>d v. put_char demo_bus 65 0 demo_io = Inr ((), demo_io\<lparr>dev := d, vidmem := v\<rparr>) \<and>
     v ! 0 = 65 \<and> cursor_of d = 1"
proof -
  have "terminal_ok (terminal_of (\<lambda>a. a) demo_io)" by (simp add: demo_terminal terminal_ok_def)
  from put_char_refines [OF demo_bus_conforms this, of 65 0] obtain d v where
    "put_char demo_bus 65 0 demo_io = Inr ((), demo_io\<lparr>dev := d, vidmem := v\<rparr>)"
    "terminal_of (\<lambda>a. a) (demo_io\<lparr>dev := d, vidmem := v\<rparr>)
      = ((replicate 4000 0)[0 := 65, 1 := WHITE_ON_BLACK], 1)"
    by (auto simp: demo_terminal text_put_def)
  then show ?thesis by (intro exI [of _ d] exI [of _ v]) (simp add: terminal_of_def)
qed

text \<open>
  A backspace with the cursor at the start of the screen is not guarded: \<open>print_char\<close> writes two
  bytes before the video memory.
\<close>

lemma put_char_at_start:
  assumes "pc_conforms bus view" "cursor_of (view (dev s)) = 0"
  shows "put_char bus 8 attr s = Inl Wild"
proof -
  obtain d where "get_cursor_offset bus s = (0, s\<lparr>dev := d\<rparr>)"
    using get_cursor_offset_eq [OF assms(1), of s] assms(2) by auto
  then show ?thesis
    by (simp add: put_char_def print_char_def vid_put_def arr_set_def with_vidmem_def)
qed

text \<open>
  \<open>clear_screen\<close> leaves a blank screen, every cell a space in the default colour, and the
  cursor at its start.
\<close>

theorem clear_screen_blank:
  fixes s :: "('d, 'z) io_scheme"
  assumes "pc_conforms bus view" "length (vidmem s) = 4000"
  shows "\<exists>d v. clear_screen bus s = Inr ((), s\<lparr>dev := d, vidmem := v\<rparr>) \<and>
    terminal_of view (s\<lparr>dev := d, vidmem := v\<rparr>) = (concat (replicate 2000 [32, WHITE_ON_BLACK]), 0) \<and>
    crtc_only (view (dev s)) (view d)"
proof -
  let ?v = "concat (replicate 2000 [32, WHITE_ON_BLACK])"
  have v: "clear_loop (vidmem s) 0 = Inr ?v" using clear_loop_from [OF assms(2), of 0] by simp
  have "(0 :: nat) < 2 ^ 16" by simp
  from set_cursor_offset_eq [OF assms(1) this, of "s\<lparr>vidmem := ?v\<rparr>"]
  obtain d where d: "set_cursor_offset bus (2 * int 0) (s\<lparr>vidmem := ?v\<rparr>) = s\<lparr>vidmem := ?v\<rparr>\<lparr>dev := d\<rparr>"
    "crtc_only (view (dev (s\<lparr>vidmem := ?v\<rparr>))) (view d)" "cursor_of (view d) = 0" by blast
  have "clear_screen bus s = Inr ((), set_cursor_offset bus 0 (s\<lparr>vidmem := ?v\<rparr>))"
    by (simp only: clear_screen_def v with_vidmem_def sum.case bindk_simps fst_conv snd_conv) (simp add: get_offset_def)
  with d show ?thesis
    by (intro exI [of _ d] exI [of _ ?v]) (simp add: terminal_of_def del: concat_replicate_trivial)
qed

theorem clear_screen_blank_witness:
  "\<exists>d v. clear_screen demo_bus demo_io = Inr ((), demo_io\<lparr>dev := d, vidmem := v\<rparr>) \<and> cursor_of d = 0"
  using clear_screen_blank [OF demo_bus_conforms, of demo_io] by (auto simp: terminal_of_def)

end
