(* ===== verification/Kprint.thy ===== *)
theory Kprint
  imports Screen
begin

text \<open>
  \<^verbatim>\<open>lib/print.c\<close> and \<^verbatim>\<open>lib/print.h\<close>: formatted kernel output. A format is a C string (its
  bytes before the NUL), the variadic arguments a list of \<open>va_arg\<close> values; reading an argument
  that is missing or of another type is undefined (\<open>Wild\<close>). The lemmas reduce every printing
  routine to \<open>put_chars\<close> of a text computed by a reference function (\<open>dec\<close>, \<open>hex_digits\<close>,
  \<open>render\<close>).
\<close>

section \<open>Log levels\<close>

datatype log_level_t = KERN_DEBUG | KERN_INFO | KERN_WARN | KERN_ERR

fun kern_level :: "log_level_t \<Rightarrow> int" where
  "kern_level KERN_DEBUG = 0"
| "kern_level KERN_INFO = 1"
| "kern_level KERN_WARN = 2"
| "kern_level KERN_ERR = 3"

lemma kern_level_inject: "kern_level a = kern_level b \<longleftrightarrow> a = b"
  by (cases a; cases b) simp_all

instantiation log_level_t :: linorder
begin

definition less_eq_log_level_t :: "log_level_t \<Rightarrow> log_level_t \<Rightarrow> bool" where
  "less_eq_log_level_t a b \<longleftrightarrow> kern_level a \<le> kern_level b"

definition less_log_level_t :: "log_level_t \<Rightarrow> log_level_t \<Rightarrow> bool" where
  "less_log_level_t a b \<longleftrightarrow> kern_level a < kern_level b"

instance
  by standard (auto simp: less_eq_log_level_t_def less_log_level_t_def kern_level_inject)

end

record 'd kprint = "'d io" +
  current_level :: int

definition VGA_COLOR :: "u8 \<Rightarrow> u8 \<Rightarrow> u8" where
  "VGA_COLOR fg bg = push_bit 4 bg OR fg"

definition level_colors :: "u8 list" where
  "level_colors = [VGA_COLOR 1 0, VGA_COLOR 7 0, VGA_COLOR 14 0, VGA_COLOR 12 0]"

section \<open>Characters and numbers\<close>

text \<open>\<^verbatim>\<open>while (*str) put_char(*str++, color)\<close>, on a string and on a local array.\<close>

fun put_chars :: "'d bus \<Rightarrow> u8 list \<Rightarrow> u8 \<Rightarrow> ('d, 'z) io_scheme \<Rightarrow> (unit, ('d, 'z) io_scheme) result" where
  "put_chars bus [] color s = Inr ((), s)"
| "put_chars bus (c # str) color s = bindk (put_char bus c color s) (\<lambda>_ s. put_chars bus str color s)"

function put_array ::
  "'d bus \<Rightarrow> u8 list \<Rightarrow> int \<Rightarrow> u8 \<Rightarrow> ('d, 'z) io_scheme \<Rightarrow> (unit, ('d, 'z) io_scheme) result" where
  "put_array bus num p color s =
     (case arr_get num p of Inl e \<Rightarrow> Inl e | Inr c \<Rightarrow>
        if c \<noteq> 0 then bindk (put_char bus c color s) (\<lambda>_ s. put_array bus num (p + 1) color s)
        else Inr ((), s))"
  by pat_completeness auto
termination
  by (relation "measure (\<lambda>(bus, num, p, color, s). nat (int (length num) - p))")
    (auto simp: arr_get_def split: if_splits)

function int_digits :: "int \<Rightarrow> u8 list \<Rightarrow> int \<Rightarrow> stop + u8 list" where
  "int_digits value num i =
     (if value > 0 \<and> i < 11
      then (case arr_set num i (of_int (value smod 10 + 48)) of Inl e \<Rightarrow> Inl e | Inr num \<Rightarrow>
              int_digits (value sdiv 10) num (i + 1))
      else Inr num)"
  by pat_completeness auto
termination
  by (relation "measure (\<lambda>(value, num, i). nat (11 - i))") auto

definition print_int :: "'d bus \<Rightarrow> int \<Rightarrow> u8 \<Rightarrow> ('d, 'z) io_scheme \<Rightarrow> (unit, ('d, 'z) io_scheme) result" where
  "print_int bus value color s =
     (if value = 0 then put_char bus 48 color s
      else bindk (if value < 0 then bindk (put_char bus 45 color s) (\<lambda>_ s. Inr (wrap32 (- value), s))
                  else Inr (value, s))
        (\<lambda>value s.
          case int_digits value (replicate 12 0) 0 of Inl e \<Rightarrow> Inl e | Inr num \<Rightarrow>
          case reverse num of Inl e \<Rightarrow> Inl e | Inr num \<Rightarrow> put_array bus num 0 color s))"

definition hex_map :: "u8 list" where
  "hex_map = cs ''0123456789ABCDEF''"

function hex_loop :: "u32 \<Rightarrow> u8 list \<Rightarrow> int \<Rightarrow> stop + u8 list" where
  "hex_loop value hex i =
     (if value \<noteq> 0 \<and> i < 8
      then (case arr_set hex i (hex_map ! unat (value AND 0xF)) of Inl e \<Rightarrow> Inl e | Inr hex \<Rightarrow>
              hex_loop (drop_bit 4 value) hex (i + 1))
      else Inr hex)"
  by pat_completeness auto
termination
  by (relation "measure (\<lambda>(value, hex, i). nat (8 - i))") auto

definition print_hex :: "'d bus \<Rightarrow> u32 \<Rightarrow> u8 \<Rightarrow> ('d, 'z) io_scheme \<Rightarrow> (unit, ('d, 'z) io_scheme) result" where
  "print_hex bus value color s =
     bindk (put_char bus 48 color s) (\<lambda>_ s.
     bindk (put_char bus 120 color s) (\<lambda>_ s.
       if value = 0 then put_char bus 48 color s
       else case hex_loop value (replicate 9 0) 0 of Inl e \<Rightarrow> Inl e | Inr hex \<Rightarrow>
            case reverse hex of Inl e \<Rightarrow> Inl e | Inr hex \<Rightarrow> put_array bus hex 0 color s))"

function uint_digits :: "u32 \<Rightarrow> u8 list \<Rightarrow> int \<Rightarrow> stop + u8 list" where
  "uint_digits value num i =
     (if value > 0 \<and> i < 10
      then (case arr_set num i (ucast (value mod 10) + 48) of Inl e \<Rightarrow> Inl e | Inr num \<Rightarrow>
              uint_digits (value div 10) num (i + 1))
      else Inr num)"
  by pat_completeness auto
termination
  by (relation "measure (\<lambda>(value, num, i). nat (10 - i))") auto

definition print_uint :: "'d bus \<Rightarrow> u32 \<Rightarrow> u8 \<Rightarrow> ('d, 'z) io_scheme \<Rightarrow> (unit, ('d, 'z) io_scheme) result" where
  "print_uint bus value color s =
     (if value = 0 then put_char bus 48 color s
      else case uint_digits value (replicate 11 0) 0 of Inl e \<Rightarrow> Inl e | Inr num \<Rightarrow>
           case reverse num of Inl e \<Rightarrow> Inl e | Inr num \<Rightarrow> put_array bus num 0 color s)"

section \<open>Formats\<close>

datatype va_arg = VInt u32 | VStr "u8 list"

text \<open>
  The loop of \<open>vformat_print\<close>. After a final \<^verbatim>\<open>%\<close> the default case prints the NUL and steps over
  it, so the loop reads past the end of the format.
\<close>

fun vformat_print ::
  "'d bus \<Rightarrow> u8 list \<Rightarrow> va_arg list \<Rightarrow> u8 \<Rightarrow> ('d, 'z) io_scheme \<Rightarrow> (unit, ('d, 'z) io_scheme) result" where
  "vformat_print bus [] args color s = Inr ((), s)"
| "vformat_print bus [c] args color s =
     (if c = 37
      then bindk (put_char bus 37 color s) (\<lambda>_ s. bindk (put_char bus 0 color s) (\<lambda>_ s. Inl Wild))
      else put_char bus c color s)"
| "vformat_print bus (c # k # p) args color s =
     (if c = 37
      then if k \<in> {99, 120, 100, 105, 117}
           then (case args of
               VInt value # args \<Rightarrow>
                 bindk (if k = 99 then put_char bus (ucast value) color s
                        else if k = 120 then print_hex bus value color s
                        else if k = 117 then print_uint bus value color s
                        else print_int bus (sint value) color s)
                   (\<lambda>_ s. vformat_print bus p args color s)
             | _ \<Rightarrow> Inl Wild)
           else if k = 115
           then (case args of
               VStr str # args \<Rightarrow> bindk (put_chars bus str color s) (\<lambda>_ s. vformat_print bus p args color s)
             | _ \<Rightarrow> Inl Wild)
           else if k = 37 then bindk (put_char bus 37 color s) (\<lambda>_ s. vformat_print bus p args color s)
           else bindk (put_char bus 37 color s) (\<lambda>_ s. bindk (put_char bus k color s)
                  (\<lambda>_ s. vformat_print bus p args color s))
      else bindk (put_char bus c color s) (\<lambda>_ s. vformat_print bus (k # p) args color s))"

definition printk_core ::
  "'d bus \<Rightarrow> int \<Rightarrow> u8 list \<Rightarrow> u8 list \<Rightarrow> va_arg list \<Rightarrow> ('d, 'z) kprint_scheme \<Rightarrow> (unit, ('d, 'z) kprint_scheme) result" where
  "printk_core bus level module fmt args s =
     (if level < current_level s then Inr ((), s)
      else case arr_get level_colors level of Inl e \<Rightarrow> Inl e | Inr color \<Rightarrow>
        bindk (if module \<noteq> []
               then bindk (put_char bus 91 color s) (\<lambda>_ s.
                    bindk (put_chars bus module color s) (\<lambda>_ s.
                    bindk (put_char bus 93 color s) (\<lambda>_ s. put_char bus 58 color s)))
               else Inr ((), s))
          (\<lambda>_ s. bindk (vformat_print bus fmt args color s) (\<lambda>_ s. put_char bus 10 color s)))"

definition printk ::
  "'d bus \<Rightarrow> u8 list \<Rightarrow> va_arg list \<Rightarrow> ('d, 'z) io_scheme \<Rightarrow> (unit, ('d, 'z) io_scheme) result" where
  "printk bus fmt args s = vformat_print bus fmt args WHITE_ON_BLACK s"

definition printk_color ::
  "'d bus \<Rightarrow> u8 \<Rightarrow> u8 list \<Rightarrow> va_arg list \<Rightarrow> ('d, 'z) io_scheme \<Rightarrow> (unit, ('d, 'z) io_scheme) result" where
  "printk_color bus attr fmt args s = vformat_print bus fmt args attr s"

text \<open>The macros \<^verbatim>\<open>pr_debug\<close>, \<^verbatim>\<open>pr_info\<close>, \<^verbatim>\<open>pr_warn\<close> and \<^verbatim>\<open>pr_err\<close>.\<close>

definition pr ::
  "'d bus \<Rightarrow> log_level_t \<Rightarrow> string \<Rightarrow> string \<Rightarrow> va_arg list \<Rightarrow> ('d, 'z) kprint_scheme \<Rightarrow> (unit, ('d, 'z) kprint_scheme) result" where
  "pr bus level module fmt args s = printk_core bus (kern_level level) (cs module) (cs fmt) args s"

definition set_log_level :: "int \<Rightarrow> ('d, 'z) kprint_scheme \<Rightarrow> ('d, 'z) kprint_scheme" where
  "set_log_level level s = s\<lparr>current_level := level\<rparr>"

definition printk_init :: "'d bus \<Rightarrow> ('d, 'z) kprint_scheme \<Rightarrow> (unit, ('d, 'z) kprint_scheme) result" where
  "printk_init bus s =
     pr bus KERN_INFO ''PRINTK'' ''Kernel print initialized..'' [] (s\<lparr>current_level := kern_level KERN_INFO\<rparr>)"

declare put_array.simps [simp del] int_digits.simps [simp del] hex_loop.simps [simp del]
  uint_digits.simps [simp del]

section \<open>Numerals\<close>

text \<open>The digits of a number in base \<open>b\<close>, most significant first.\<close>

fun radix :: "nat \<Rightarrow> nat \<Rightarrow> nat list" where
  "radix b n = (if n < b \<or> b < 2 then [n] else radix b (n div b) @ [n mod b])"

declare radix.simps [simp del]

lemma radix_less: "n < b \<Longrightarrow> radix b n = [n]"
  by (simp add: radix.simps)

lemma radix_digit: "2 \<le> b \<Longrightarrow> d \<in> set (radix b n) \<Longrightarrow> d < b"
  by (induction b n rule: radix.induct) (subst (asm) (2) radix.simps, auto split: if_splits)

lemma radix_length: "2 \<le> b \<Longrightarrow> n < b ^ Suc k \<Longrightarrow> length (radix b n) \<le> Suc k"
proof (induction k arbitrary: n)
  case 0
  then show ?case by (simp add: radix_less)
next
  case (Suc k)
  show ?case
  proof (cases "n < b")
    case False
    have "n div b < b ^ Suc k" using Suc.prems by (simp add: less_mult_imp_div_less mult.commute)
    with Suc have "length (radix b (n div b)) \<le> Suc k" by simp
    with False Suc.prems show ?thesis by (subst radix.simps) simp
  qed (simp add: radix_less)
qed

definition dec :: "nat \<Rightarrow> u8 list" where
  "dec n = map (\<lambda>d. of_nat d + 48) (radix 10 n)"

definition hexadecimal :: "nat \<Rightarrow> u8 list" where
  "hexadecimal n = map (\<lambda>d. hex_map ! d) (radix 16 n)"

definition signed_dec :: "int \<Rightarrow> u8 list" where
  "signed_dec i = (if i < 0 then 45 # dec (nat (- i)) else dec (nat i))"

text \<open>
  The contract the three digit loops of the file share: one round stores the last digit of the
  number and goes on with the quotient, and the loop stops at 0. A loop that keeps it leaves the
  digits in its array, least significant first.
\<close>

locale digit_loop =
  fixes run :: "'n \<Rightarrow> u8 list \<Rightarrow> int \<Rightarrow> stop + u8 list"
    and number :: "nat \<Rightarrow> 'n"
    and glyph :: "nat \<Rightarrow> u8"
    and base room :: nat
    and bound :: nat
  assumes base: "2 \<le> base"
    and run_0: "run (number 0) num j = Inr num"
    and run_digit: "0 < n \<Longrightarrow> n < bound \<Longrightarrow> i < room \<Longrightarrow> i < length num \<Longrightarrow>
      run (number n) num (int i) = run (number (n div base)) (num[i := glyph (n mod base)]) (int (Suc i))"
    and glyph_nonzero: "d < base \<Longrightarrow> glyph d \<noteq> 0"
begin

lemma run_from:
  assumes "0 < n" "n < bound" "length xs + length (radix base n) \<le> room" "length (radix base n) \<le> k"
  shows "run (number n) (xs @ replicate k 0) (int (length xs))
    = Inr (xs @ rev (map glyph (radix base n)) @ replicate (k - length (radix base n)) 0)"
  using assms
proof (induction n arbitrary: xs k rule: less_induct)
  case (less n)
  have len: "0 < length (radix base n)" by (subst radix.simps) simp
  then obtain k' where k: "k = Suc k'" using less.prems(4) by (cases k) auto
  have room: "length xs < room" using less.prems(3) len by linarith
  have step: "run (number n) (xs @ replicate k 0) (int (length xs))
      = run (number (n div base)) ((xs @ [glyph (n mod base)]) @ replicate k' 0)
          (int (length (xs @ [glyph (n mod base)])))"
    using less.prems room by (subst run_digit) (simp_all add: k list_update_append)
  show ?case
  proof (cases "n < base")
    case True
    then show ?thesis using step base by (simp add: radix_less run_0 k)
  next
    case False
    then have r: "radix base n = radix base (n div base) @ [n mod base]"
      using base by (subst radix.simps) simp
    have "run (number (n div base)) ((xs @ [glyph (n mod base)]) @ replicate k' 0)
        (int (length (xs @ [glyph (n mod base)])))
      = Inr ((xs @ [glyph (n mod base)]) @ rev (map glyph (radix base (n div base)))
          @ replicate (k' - length (radix base (n div base))) 0)"
      using False base less.prems by (intro less.IH) (auto simp: r k div_greater_zero_iff intro: le_less_trans [OF div_le_dividend])
    with step show ?thesis by (simp add: r k)
  qed
qed

text \<open>After \<open>reverse\<close>, the array starts with the numeral and a NUL.\<close>

lemma run_reverse:
  assumes "0 < n" "n < bound" "length (radix base n) \<le> room" "length (radix base n) < k"
  shows "\<exists>num zs. run (number n) (replicate k 0) 0 = Inr num \<and>
    reverse num = Inr (map glyph (radix base n) @ 0 # zs)"
proof -
  let ?ds = "rev (map glyph (radix base n))"
  obtain j where j: "k - length (radix base n) = Suc j" using assms(4) by (metis Suc_diff_Suc)
  have "run (number n) (replicate k 0) 0 = Inr (?ds @ 0 # replicate j 0)"
    using run_from [of n "[]" k] assms by (simp add: j)
  moreover have "0 \<notin> set ?ds" using radix_digit [OF base] glyph_nonzero by (auto simp: image_iff)
  ultimately show ?thesis using reverse_string [of ?ds "replicate j 0"] by auto
qed

end


lemma less_10_cases: "(d :: nat) < 10 \<longleftrightarrow> d \<in> {0, 1, 2, 3, 4, 5, 6, 7, 8, 9}"
  by (simp only: insert_iff empty_iff) presburger

lemma less_16_cases: "(d :: nat) < 16 \<longleftrightarrow> d \<in> {0, 1, 2, 3, 4, 5, 6, 7, 8, 9, 10, 11, 12, 13, 14, 15}"
  by (simp only: insert_iff empty_iff) presburger

lemma decimal_glyph: "d < 10 \<Longrightarrow> of_nat d + 48 \<noteq> (0 :: u8)" "d < 10 \<Longrightarrow> of_nat d + 48 \<noteq> (8 :: u8)"
  by (auto simp: less_10_cases)

lemma hex_glyph: "d < 16 \<Longrightarrow> hex_map ! d \<noteq> 0" "d < 16 \<Longrightarrow> hex_map ! d \<noteq> 8"
  by (auto simp: less_16_cases hex_map_def cs_def)

lemma unat_of_nat32: "n < 2 ^ 32 \<Longrightarrow> unat (of_nat n :: u32) = n"
  by (simp add: unat_of_nat take_bit_nat_eq_self)

lemma less_10_bound: "n mod 10 < (2 :: nat) ^ 32"
  by (rule less_trans [of _ 10]) simp_all

interpretation int_loop: digit_loop int_digits int "\<lambda>d. of_nat d + 48" 10 11 "2 ^ 31"
proof unfold_locales
  fix num and j :: int show "int_digits (int 0) num j = Inr num" by (simp add: int_digits.simps)
next
  fix n i :: nat and num :: "u8 list"
  assume a: "0 < n" "n < 2 ^ 31" "i < 11" "i < length num"
  have m: "int n smod 10 = int (n mod 10)" and d: "int n sdiv 10 = int (n div 10)"
    by (simp_all add: sdiv_nonneg smod_nonneg zdiv_int zmod_int)
  have g: "of_int (int n smod 10 + 48) = (of_nat (n mod 10) + 48 :: u8)"
    by (simp only: m of_int_add of_int_of_nat_eq of_int_numeral)
  show "int_digits (int n) num (int i)
      = int_digits (int (n div 10)) (num[i := of_nat (n mod 10) + 48]) (int (Suc i))"
    using a by (subst int_digits.simps) (simp only: g d, simp add: arr_set_nat add.commute)
qed (simp_all add: decimal_glyph)

interpretation uint_loop: digit_loop uint_digits of_nat "\<lambda>d. of_nat d + 48" 10 10 "2 ^ 32"
proof unfold_locales
  fix num and j :: int show "uint_digits (of_nat 0) num j = Inr num" by (simp add: uint_digits.simps)
next
  fix n i :: nat and num :: "u8 list"
  assume a: "0 < n" "n < 2 ^ 32" "i < 10" "i < length num"
  have v: "(of_nat n :: u32) mod 10 = of_nat (n mod 10)" "(of_nat n :: u32) div 10 = of_nat (n div 10)"
    using a(2) by (auto simp: word_unat_eq_iff unat_mod unat_div unat_of_nat32 div_less_dividend)
  have "ucast (of_nat (n mod 10) :: u32) = (of_nat (n mod 10) :: u8)"
    using of_nat_unat [of "of_nat (n mod 10) :: u32"] unat_of_nat32 [of "n mod 10"] by (metis less_10_bound)
  moreover have "(0 :: u32) < of_nat n" using a by (simp add: word_less_nat_alt unat_of_nat32)
  ultimately show "uint_digits (of_nat n) num (int i)
      = uint_digits (of_nat (n div 10)) (num[i := of_nat (n mod 10) + 48]) (int (Suc i))"
    using a by (subst uint_digits.simps) (simp add: v arr_set_nat add.commute)
qed (simp_all add: decimal_glyph)

interpretation hexa_loop: digit_loop hex_loop of_nat "\<lambda>d. hex_map ! d" 16 8 "2 ^ 32"
proof unfold_locales
  fix num and j :: int show "hex_loop (of_nat 0) num j = Inr num" by (simp add: hex_loop.simps)
next
  fix n i :: nat and num :: "u8 list"
  assume a: "0 < n" "n < 2 ^ 32" "i < 8" "i < length num"
  have "(0xF :: u32) = mask 4" by (simp add: mask_eq_exp_minus_1)
  then have m: "unat ((of_nat n :: u32) AND 0xF) = n mod 16"
    using a(2) by (simp only: take_bit_eq_mask [symmetric] unsigned_take_bit_eq) (simp add: unat_of_nat32 take_bit_eq_mod)
  have d: "drop_bit 4 (of_nat n :: u32) = of_nat (n div 16)"
    using a(2) by (auto simp: word_unat_eq_iff unat_drop_bit_eq unat_of_nat32 drop_bit_eq_div unat_div)
  have "(of_nat n :: u32) \<noteq> 0" using a by (auto simp: word_unat_eq_iff unat_of_nat32)
  then show "hex_loop (of_nat n) num (int i)
      = hex_loop (of_nat (n div 16)) (num[i := hex_map ! (n mod 16)]) (int (Suc i))"
    using a by (subst hex_loop.simps) (simp add: m d arr_set_nat add.commute)
qed (simp_all add: hex_glyph)

section \<open>What the routines print\<close>

lemma put_chars_fun [simp]:
  "put_chars bus [] color = (\<lambda>s. Inr ((), s))"
  "put_chars bus (c # str) color = (\<lambda>s. bindk (put_char bus c color s) (\<lambda>_ s. put_chars bus str color s))"
  by (simp_all add: fun_eq_iff)

lemma put_chars_append:
  "put_chars bus (xs @ ys) color = (\<lambda>s. bindk (put_chars bus xs color s) (\<lambda>_ s. put_chars bus ys color s))"
  by (induction xs) (simp_all add: bindk_assoc)

lemma put_chars_single: "put_chars bus [c] color s = put_char bus c color s"
  by (auto simp: put_char_def bindk_def split: sum.splits)

lemma put_array_string:
  fixes s :: "('d, 'z) io_scheme"
  shows "0 \<notin> set xs \<Longrightarrow> put_array bus (ys @ xs @ 0 # zs) (int (length ys)) color s = put_chars bus xs color s"
proof (induction xs arbitrary: ys s)
  case Nil
  then show ?case by (simp add: put_array.simps [of bus "ys @ 0 # zs"] arr_get_nat nth_append)
next
  case (Cons x xs)
  have "put_array bus ((ys @ [x]) @ xs @ 0 # zs) (int (length (ys @ [x]))) color
      = (put_chars bus xs color :: ('d, 'z) io_scheme \<Rightarrow> _)"
    by (rule ext, rule Cons.IH) (use Cons.prems in simp)
  then show ?case
    using Cons.prems
    by (subst put_array.simps) (simp add: arr_get_nat nth_append add.commute)
qed

lemma dec_nonzero: "0 \<notin> set (dec n)" and dec_8: "8 \<notin> set (dec n)"
  using radix_digit [of 10 _ n] decimal_glyph by (fastforce simp: dec_def)+

lemma hexadecimal_nonzero: "0 \<notin> set (hexadecimal n)" and hexadecimal_8: "8 \<notin> set (hexadecimal n)"
  using radix_digit [of 16 _ n] hex_glyph by (fastforce simp: hexadecimal_def)+

lemma print_nat_int:
  assumes "0 < n" "n < 2 ^ 31"
  shows "(\<lambda>s. case int_digits (int n) (replicate 12 0) 0 of Inl e \<Rightarrow> Inl e | Inr num \<Rightarrow>
          case reverse num of Inl e \<Rightarrow> Inl e | Inr num \<Rightarrow> put_array bus num 0 color s)
    = (put_chars bus (dec n) color :: ('d, 'z) io_scheme \<Rightarrow> _)" (is "?lhs = _")
proof (rule ext)
  fix s :: "('d, 'z) io_scheme"
  have "length (radix 10 n) \<le> Suc 9" using assms by (intro radix_length) auto
  then obtain num zs where "int_digits (int n) (replicate 12 0) 0 = Inr num" "reverse num = Inr (dec n @ 0 # zs)"
    using int_loop.run_reverse [OF assms, of 12] by (auto simp: dec_def)
  then show "?lhs s = put_chars bus (dec n) color s"
    using put_array_string [OF dec_nonzero, of bus "[]" n zs color s] by simp
qed

text \<open>\<^verbatim>\<open>-value\<close> overflows for the least \<^verbatim>\<open>int\<close>; it stays negative and no digit is printed.\<close>

definition int_text :: "int \<Rightarrow> u8 list" where
  "int_text i = (if i = - (2 ^ 31) then [45] else signed_dec i)"

lemma print_int_eq:
  fixes s :: "('d, 'z) io_scheme"
  assumes "- (2 ^ 31) \<le> value" "value < 2 ^ 31"
  shows "print_int bus value color s = put_chars bus (int_text value) color s"
proof -
  consider "value = 0" | "value = - (2 ^ 31)" | "value < 0" "value \<noteq> - (2 ^ 31)" | "0 < value" by linarith
  then show ?thesis
  proof cases
    case 1
    then show ?thesis
      by (simp add: print_int_def int_text_def signed_dec_def dec_def radix_less put_chars_single del: put_chars.simps put_chars_fun)
  next
    case 2
    have z: "reverse (replicate 12 0) = Inr (0 # replicate 11 0)"
      using reverse_string [of "[]" "replicate 11 0"] by (simp add: numeral_eq_Suc)
    have "put_array bus (0 # replicate 11 0) 0 color s' = Inr ((), s')"
      for s' :: "('d, 'z) io_scheme"
      by (subst put_array.simps) (simp add: arr_get_def)
    moreover have "int_digits (- 2147483648) num 0 = Inr num" "wrap32 2147483648 = - 2147483648" for num
      by (simp add: int_digits.simps [of "- 2147483648"]) (simp add: wrap32_def)
    ultimately show ?thesis
      using 2 z by (simp add: print_int_def int_text_def bindk_assoc)
  next
    case 3
    then have "wrap32 (- value) = int (nat (- value))" "nat (- value) < 2 ^ 31" using assms by (auto simp: wrap32_id)
    then have "(case int_digits (- value) (replicate 12 0) 0 of Inl e \<Rightarrow> Inl e | Inr num \<Rightarrow>
          case reverse num of Inl e \<Rightarrow> Inl e | Inr num \<Rightarrow> put_array bus num 0 color s)
        = put_chars bus (dec (nat (- value))) color s" for s :: "('d, 'z) io_scheme"
      using 3 fun_cong [OF print_nat_int [of "nat (- value)" bus color], of s] by simp
    with 3 \<open>wrap32 (- value) = int (nat (- value))\<close> show ?thesis
      by (simp add: print_int_def int_text_def signed_dec_def bindk_assoc)
  next
    case 4
    then show ?thesis
      using assms fun_cong [OF print_nat_int [of "nat value" bus color], of s] by (simp add: print_int_def int_text_def signed_dec_def)
  qed
qed

lemma print_uint_eq: "print_uint bus value color s = put_chars bus (dec (unat value)) color s"
proof (cases "value = 0")
  case True
  then show ?thesis by (simp add: print_uint_def dec_def radix_less put_chars_single del: put_chars.simps put_chars_fun)
next
  case False
  have n: "0 < unat value" "unat value < 2 ^ 32" using False unat_lt32 by (auto simp: unat_gt_0)
  then have "length (radix 10 (unat value)) \<le> Suc 9" by (intro radix_length) auto
  with uint_loop.run_reverse [OF n, of 11] obtain num zs where
    "uint_digits value (replicate 11 0) 0 = Inr num" "reverse num = Inr (dec (unat value) @ 0 # zs)"
    by (auto simp: dec_def)
  with False show ?thesis
    using put_array_string [OF dec_nonzero, of bus "[]" "unat value" zs color s] by (simp add: print_uint_def)
qed

lemma print_hex_eq:
  fixes s :: "('d, 'z) io_scheme"
  shows "print_hex bus value color s = put_chars bus (48 # 120 # hexadecimal (unat value)) color s"
proof (cases "value = 0")
  case True
  have "hexadecimal 0 = [48]" by (simp add: hexadecimal_def radix_less hex_map_def cs_def)
  moreover have "bindk (put_char bus 48 color s) (\<lambda>_ s. Inr ((), s)) = put_char bus 48 color s" for s :: "('d, 'z) io_scheme"
    using put_chars_single [of bus 48 color s] by simp
  ultimately show ?thesis
    using True by (simp add: print_hex_def)
next
  case False
  have n: "0 < unat value" "unat value < 2 ^ 32" using False unat_lt32 by (auto simp: unat_gt_0)
  then have "length (radix 16 (unat value)) \<le> Suc 7" by (intro radix_length) auto
  with hexa_loop.run_reverse [OF n, of 9] obtain num zs where
    "hex_loop value (replicate 9 0) 0 = Inr num" "reverse num = Inr (hexadecimal (unat value) @ 0 # zs)"
    by (auto simp: hexadecimal_def)
  moreover have "put_array bus (hexadecimal (unat value) @ 0 # zs) 0 color s' = put_chars bus (hexadecimal (unat value)) color s'"
    for s' :: "('d, 'z) io_scheme"
    using put_array_string [OF hexadecimal_nonzero, of bus "[]" "unat value" zs color s'] by simp
  ultimately show ?thesis using False by (simp add: print_hex_def)
qed


text \<open>
  The text of a format with its arguments; \<open>None\<close> where the code's behaviour is undefined (an
  argument missing or of another type, a \<^verbatim>\<open>%\<close> as the last character).
\<close>

fun render :: "u8 list \<Rightarrow> va_arg list \<Rightarrow> u8 list option" where
  "render [] args = Some []"
| "render [c] args = (if c = 37 then None else Some [c])"
| "render (c # k # p) args =
     (if c = 37
      then (if k = 37 then map_option (\<lambda>r. 37 # r) (render p args)
            else if k \<in> {99, 120, 100, 105, 117, 115}
            then (case args of
                [] \<Rightarrow> None
              | VInt v # args \<Rightarrow>
                  if k = 115 then None
                  else map_option (\<lambda>r. (if k = 99 then [ucast v]
                      else if k = 120 then 48 # 120 # hexadecimal (unat v)
                      else if k = 117 then dec (unat v)
                      else int_text (sint v)) @ r) (render p args)
              | VStr str # args \<Rightarrow> if k = 115 then map_option (\<lambda>r. str @ r) (render p args) else None)
            else map_option (\<lambda>r. 37 # k # r) (render p args))
      else map_option (\<lambda>r. c # r) (render (k # p) args))"

lemma print_sint_eq: "print_int bus (sint (v :: u32)) color s = put_chars bus (int_text (sint v)) color s"
  using sint_greater_eq [of v] sint_less [of v] by (intro print_int_eq) auto

lemma vformat_renders:
  fixes s :: "('d, 'z) io_scheme"
  shows "render fmt args = Some xs \<Longrightarrow> vformat_print bus fmt args color s = put_chars bus xs color s"
proof (induction fmt args arbitrary: xs s rule: render.induct)
  case (1 args)
  then show ?case by simp
next
  case (2 c args)
  then show ?case by (auto simp: put_chars_single [symmetric] simp del: put_chars.simps put_chars_fun split: if_splits)
next
  case (3 c k p args)
  show ?case
  proof (cases "c = 37")
    case False
    then obtain ys where "render (k # p) args = Some ys" "xs = c # ys" using 3 by auto
    moreover from this have "vformat_print bus (k # p) args color = (put_chars bus ys color :: ('d, 'z) io_scheme \<Rightarrow> _)" using 3(5) False by (intro ext) blast
    ultimately show ?thesis using False by simp
  next
    case c: True
    show ?thesis
    proof (cases "k \<in> {99, 120, 100, 105, 117, 115}")
      case False
      then obtain ys where ys: "render p args = Some ys" "xs = (if k = 37 then 37 # ys else 37 # k # ys)"
        using 3(6) c by (auto split: if_splits)
      then have "vformat_print bus p args color = (put_chars bus ys color :: ('d, 'z) io_scheme \<Rightarrow> _)" using 3(1,4) c False by (cases "k = 37"; intro ext) blast+
      then show ?thesis using ys c False by simp
    next
      case k: True
      then obtain a as where args: "args = a # as" using 3(6) c by (cases args) auto
      show ?thesis
      proof (cases a)
        case (VStr str)
        then obtain ys where ys: "k = 115" "render p as = Some ys" "xs = str @ ys"
          using 3(6) c k args by (auto split: if_splits)
        then have "vformat_print bus p as color = (put_chars bus ys color :: ('d, 'z) io_scheme \<Rightarrow> _)" using 3(3) c args VStr k by (intro ext) auto
        then show ?thesis using ys c args VStr by (simp add: put_chars_append)
      next
        case (VInt v)
        then obtain ys where ys: "k \<noteq> 115" "render p as = Some ys"
          "xs = (if k = 99 then [ucast v] else if k = 120 then 48 # 120 # hexadecimal (unat v)
             else if k = 117 then dec (unat v) else int_text (sint v)) @ ys"
          using 3(6) c k args by (auto split: if_splits)
        then have "vformat_print bus p as color = (put_chars bus ys color :: ('d, 'z) io_scheme \<Rightarrow> _)" using 3(2) c args VInt k by (intro ext) auto
        then show ?thesis using ys c k args VInt
          by (auto simp: put_chars_append print_hex_eq print_uint_eq print_sint_eq bindk_assoc)
      qed
    qed
  qed
qed


section \<open>Printing on a conforming terminal\<close>

definition text_puts :: "u8 list \<Rightarrow> u8 \<Rightarrow> terminal \<Rightarrow> terminal" where
  "text_puts xs attr = fold (\<lambda>c. text_put c (if attr = 0 then WHITE_ON_BLACK else attr)) xs"

text \<open>
  What a printing routine may change: the video memory and the CRT controller. Every component
  that logs uses this relation as its frame.
\<close>

definition screen_only :: "('d \<Rightarrow> pc) \<Rightarrow> ('d, 'z) io_scheme \<Rightarrow> ('d, 'z) io_scheme \<Rightarrow> bool" where
  "screen_only view s s' \<longleftrightarrow> (\<exists>d v. s' = s\<lparr>dev := d, vidmem := v\<rparr> \<and> crtc_only (view (dev s)) (view d) \<and>
     terminal_ok (terminal_of view s'))"

lemma screen_only_refl: "terminal_ok (terminal_of view s) \<Longrightarrow> screen_only view s s"
  unfolding screen_only_def by (intro exI [of _ "dev s"] exI [of _ "vidmem s"]) simp

lemma screen_only_trans: "screen_only view s s' \<Longrightarrow> screen_only view s' s'' \<Longrightarrow> screen_only view s s''"
  unfolding screen_only_def by clarsimp (rule exI, rule conjI, rule exI, rule refl, rule crtc_only_trans)

lemma screen_only_ok: "screen_only view s s' \<Longrightarrow> terminal_ok (terminal_of view s')"
  by (auto simp: screen_only_def)

lemma screen_only_fields:
  assumes "screen_only view s s'"
  shows "mem s' = mem s" "cr0 s' = cr0 s" "cr3 s' = cr3 s" "mem_mngr s' = mem_mngr s"
    "mem_mngr_max_blocks s' = mem_mngr_max_blocks s" "mem_mngr_used_blocks s' = mem_mngr_used_blocks s"
    "mem_mngr_size s' = mem_mngr_size s" "io.more s' = io.more s"
    "ata_state (view (dev s')) = ata_state (view (dev s))" "ata_busy (view (dev s')) = ata_busy (view (dev s))"
    "ata_sectors (view (dev s')) = ata_sectors (view (dev s))"
    "ata_identity (view (dev s')) = ata_identity (view (dev s))"
  using assms by (auto simp: screen_only_def crtc_only_fields)

lemma put_chars_terminal:
  fixes s :: "('d, 'z) io_scheme"
  assumes "pc_conforms bus view" "terminal_ok (terminal_of view s)" "8 \<notin> set xs"
  shows "\<exists>s'. put_chars bus xs color s = Inr ((), s') \<and> screen_only view s s' \<and>
    terminal_of view s' = text_puts xs color (terminal_of view s)"
  using assms(2,3)
proof (induction xs arbitrary: s)
  case Nil
  then show ?case by (simp add: text_puts_def screen_only_refl)
next
  case (Cons c xs)
  let ?t = "text_put c (if color = 0 then WHITE_ON_BLACK else color) (terminal_of view s)"
  obtain d where d: "put_char bus c color s = Inr ((), s\<lparr>dev := d, vidmem := fst ?t\<rparr>)"
    "crtc_only (view (dev s)) (view d)" "cursor_of (view d) = snd ?t"
    by (rule put_char_refines_ex [OF assms(1) Cons.prems(1), of c color]) (use Cons.prems(2) in auto)
  let ?s = "s\<lparr>dev := d, vidmem := fst ?t\<rparr>"
  have t: "terminal_of view ?s = ?t" by (simp add: terminal_of_def d(3))
  moreover have ok: "terminal_ok ?t" using Cons.prems by (intro terminal_ok_text_put) auto
  ultimately have "screen_only view s ?s" using d(2) unfolding screen_only_def by auto
  moreover obtain s' where "put_chars bus xs color ?s = Inr ((), s')" "screen_only view ?s s'"
    "terminal_of view s' = text_puts xs color ?t"
    using Cons.IH [of ?s] Cons.prems ok t by auto
  ultimately show ?case using d(1) by (auto simp: text_puts_def intro: screen_only_trans)
qed

definition log_tag :: "u8 list \<Rightarrow> u8 list" where
  "log_tag module = (if module = [] then [] else 91 # module @ [93, 58])"

lemma printk_core_eq:
  assumes "render fmt args = Some xs" "0 \<le> level" "level < 4"
  shows "printk_core bus level module fmt args s =
    (if level < current_level s then Inr ((), s)
     else put_chars bus (log_tag module @ xs @ [10]) (level_colors ! nat level) s)"
proof -
  have "arr_get level_colors level = Inr (level_colors ! nat level)"
    using assms(2,3) by (simp add: arr_get_def level_colors_def)
  moreover have "vformat_print bus fmt args color = (put_chars bus xs color :: ('a, 'b) kprint_scheme \<Rightarrow> _)" for color
    by (rule ext, rule vformat_renders [OF assms(1)])
  moreover have "bindk (put_char bus 10 color s) (\<lambda>_ s. Inr ((), s)) = put_char bus 10 color s"
    for color and s :: "('a, 'b) kprint_scheme"
    using put_chars_single [of bus 10 color s] by simp
  ultimately show ?thesis
    by (simp add: printk_core_def log_tag_def put_chars_append bindk_assoc)
qed

text \<open>Formats and arguments that print without a backspace; decidable for a literal format.\<close>

fun plain :: "u8 list \<Rightarrow> va_arg list \<Rightarrow> bool" where
  "plain [] args \<longleftrightarrow> True"
| "plain [c] args \<longleftrightarrow> c \<noteq> 37 \<and> c \<noteq> 8"
| "plain (c # k # p) args \<longleftrightarrow>
     (if c = 37
      then if k = 115 then (case args of VStr str # as \<Rightarrow> 8 \<notin> set str \<and> plain p as | _ \<Rightarrow> False)
           else k \<in> {120, 100, 105, 117} \<and> (case args of VInt v # as \<Rightarrow> plain p as | _ \<Rightarrow> False)
      else c \<noteq> 8 \<and> plain (k # p) args)"

lemma int_text_8: "8 \<notin> set (int_text i)"
  by (simp add: int_text_def signed_dec_def dec_8)

lemma plain_render: "plain fmt args \<Longrightarrow> \<exists>xs. render fmt args = Some xs \<and> 8 \<notin> set xs"
proof (induction fmt args rule: plain.induct)
  case (3 c k p args)
  then show ?case
    by (auto split: if_splits list.splits va_arg.splits simp: dec_8 int_text_8 hexadecimal_8)
qed simp_all

lemma vformat_plain:
  fixes s :: "('d, 'z) io_scheme"
  assumes "pc_conforms bus view" "terminal_ok (terminal_of view s)" "plain fmt args"
  shows "\<exists>s'. vformat_print bus fmt args color s = Inr ((), s') \<and> screen_only view s s'"
  using plain_render [OF assms(3)] put_chars_terminal [OF assms(1,2)] by (metis vformat_renders)

lemma pr_plain:
  fixes s :: "('d, 'z) kprint_scheme"
  assumes "pc_conforms bus view" "terminal_ok (terminal_of view s)" "plain (cs fmt) args" "8 \<notin> set (cs module)"
  shows "\<exists>s'. pr bus level module fmt args s = Inr ((), s') \<and> screen_only view s s'"
proof -
  obtain xs where xs: "render (cs fmt) args = Some xs" "8 \<notin> set xs" using plain_render [OF assms(3)] by blast
  have "0 \<le> kern_level level" "kern_level level < 4" by (cases level; simp)+
  note eq = printk_core_eq [OF xs(1) this, of bus "cs module" s]
  have "8 \<notin> set (log_tag (cs module) @ xs @ [10])" using xs(2) assms(4) by (simp add: log_tag_def)
  from put_chars_terminal [OF assms(1,2) this] screen_only_refl [OF assms(2)] show ?thesis
    unfolding pr_def eq by auto
qed


section \<open>Sequences of output\<close>

text \<open>An operation that returns and changes nothing but the screen; such operations compose.\<close>

definition talks :: "('d \<Rightarrow> pc) \<Rightarrow> (('d, 'z) io_scheme \<Rightarrow> ('a, ('d, 'z) io_scheme) result) \<Rightarrow> ('a \<Rightarrow> bool) \<Rightarrow> bool" where
  "talks view f P \<longleftrightarrow>
     (\<forall>s. terminal_ok (terminal_of view s) \<longrightarrow> (\<exists>x s'. f s = Inr (x, s') \<and> P x \<and> screen_only view s s'))"

lemma talksE:
  assumes "talks view f P" "terminal_ok (terminal_of view s)"
  obtains x s' where "f s = Inr (x, s')" "P x" "screen_only view s s'" "terminal_ok (terminal_of view s')"
proof -
  obtain x s' where "f s = Inr (x, s')" "P x" "screen_only view s s'" using assms unfolding talks_def by blast
  then show ?thesis using screen_only_ok by (intro that)
qed

lemma talks_return: "P x \<Longrightarrow> talks view (\<lambda>s. Inr (x, s)) P"
  by (simp add: talks_def screen_only_refl)

lemma talks_bind:
  assumes "talks view f Q" "\<And>x. Q x \<Longrightarrow> talks view (g x) P"
  shows "talks view (\<lambda>s. bindk (f s) g) P"
  unfolding talks_def
proof (intro allI impI)
  fix s :: "('a, 'b) io_scheme"
  assume "terminal_ok (terminal_of view s)"
  with assms(1) obtain x s1 where 1: "f s = Inr (x, s1)" "Q x" "screen_only view s s1"
    "terminal_ok (terminal_of view s1)" by (rule talksE)
  obtain y s2 where "g x s1 = Inr (y, s2)" "P y" "screen_only view s1 s2"
    by (rule talksE [OF assms(2) [OF 1(2)] 1(4)])
  with 1 show "\<exists>x s'. bindk (f s) g = Inr (x, s') \<and> P x \<and> screen_only view s s'"
    by (auto intro: screen_only_trans)
qed

lemma talks_color:
  "pc_conforms bus view \<Longrightarrow> plain fmt args \<Longrightarrow> talks view (printk_color bus color fmt args) (\<lambda>_. True)"
  unfolding talks_def printk_color_def using vformat_plain by blast

lemma talks_printk:
  "pc_conforms bus view \<Longrightarrow> plain fmt args \<Longrightarrow> talks view (printk bus fmt args) (\<lambda>_. True)"
  unfolding talks_def printk_def using vformat_plain by blast

lemma talks_pr:
  "pc_conforms bus view \<Longrightarrow> plain (cs fmt) args \<Longrightarrow> 8 \<notin> set (cs module) \<Longrightarrow>
    talks view (pr bus level module fmt args) (\<lambda>_. True)"
  unfolding talks_def using pr_plain by blast

lemma printk_step:
  fixes s :: "('d, 'z) io_scheme"
  assumes "pc_conforms bus view" "terminal_ok (terminal_of view s)" "plain fmt args"
  obtains s' where "printk bus fmt args s = Inr ((), s')" "screen_only view s s'" "terminal_ok (terminal_of view s')"
  by (rule talksE [OF talks_printk [OF assms(1,3)] assms(2)]) simp

lemma pr_step:
  fixes s :: "('d, 'z) kprint_scheme"
  assumes "pc_conforms bus view" "terminal_ok (terminal_of view s)" "plain (cs fmt) args" "8 \<notin> set (cs module)"
  obtains s' where "pr bus level module fmt args s = Inr ((), s')" "screen_only view s s'"
    "terminal_ok (terminal_of view s')"
  by (rule talksE [OF talks_pr [OF assms(1,3,4)] assms(2)]) simp

section \<open>The digit loop of int\_to\_ascii\<close>

lemma ascii_digits_from:
  assumes "n < 2 ^ 31" "length xs + length (radix 10 n) \<le> length xs + length ys"
  shows "ascii_digits (int n) (xs @ ys) (int (length xs))
    = Inr (xs @ rev (dec n) @ drop (length (radix 10 n)) ys, int (length xs + length (radix 10 n)))"
  using assms
proof (induction n arbitrary: xs ys rule: less_induct)
  case (less n)
  have len: "0 < length (radix 10 n)" by (subst radix.simps) simp
  then obtain y zs where ys: "ys = y # zs" using less.prems(2) by (cases ys) auto
  have m: "int n smod 10 = int (n mod 10)" and d: "int n sdiv 10 = int (n div 10)"
    by (simp_all add: sdiv_nonneg smod_nonneg zdiv_int zmod_int)
  have g: "of_int (int n smod 10 + 48) = (of_nat (n mod 10) + 48 :: u8)"
    by (simp only: m of_int_add of_int_of_nat_eq of_int_numeral)
  have set: "arr_set (xs @ ys) (int (length xs)) (of_nat (n mod 10) + 48)
      = Inr ((xs @ [of_nat (n mod 10) + 48]) @ zs)"
    by (simp add: arr_set_nat ys list_update_append)
  have step: "ascii_digits (int n) (xs @ ys) (int (length xs)) =
      (if 0 < n div 10
       then ascii_digits (int (n div 10)) ((xs @ [of_nat (n mod 10) + 48]) @ zs)
              (int (length (xs @ [of_nat (n mod 10) + 48 :: u8])))
       else Inr ((xs @ [of_nat (n mod 10) + 48]) @ zs, int (length xs) + 1))"
    by (subst ascii_digits.simps) (simp only: g d set sum.case Let_def of_nat_0_less_iff, simp add: add.commute)
  show ?case
  proof (cases "n < 10")
    case True
    then show ?thesis unfolding step by (simp add: dec_def radix_less ys)
  next
    case False
    then have r: "radix 10 n = radix 10 (n div 10) @ [n mod 10]" by (subst radix.simps) simp
    have "ascii_digits (int (n div 10)) ((xs @ [of_nat (n mod 10) + 48]) @ zs)
        (int (length (xs @ [of_nat (n mod 10) + 48 :: u8])))
      = Inr ((xs @ [of_nat (n mod 10) + 48]) @ rev (dec (n div 10)) @ drop (length (radix 10 (n div 10))) zs,
          int (length (xs @ [of_nat (n mod 10) + 48 :: u8]) + length (radix 10 (n div 10))))"
      using False less.prems by (intro less.IH) (auto simp: r ys)
    moreover have "0 < n div 10" using False by (simp add: div_greater_zero_iff)
    ultimately show ?thesis unfolding step by (simp add: r ys dec_def)
  qed
qed

section \<open>Properties of the printing routines\<close>

definition demo_kprint :: "pc kprint" where
  "demo_kprint = io.extend demo_io \<lparr>current_level = 1\<rparr>"

text \<open>
  Formatted printing is faithful: whenever the format and its arguments have a meaning, that
  is, every conversion finds an argument of its type and the format does not end in a single percent
  sign, \<open>vformat_print\<close> puts exactly the characters of the rendered text, one after another, in
  the given colour. The rendering uses decimal and hexadecimal numerals without leading zeros.
\<close>

theorem vformat_print_renders:
  assumes "render fmt args = Some xs"
  shows "vformat_print bus fmt args color s = put_chars bus xs color s"
  using assms by (rule vformat_renders)

theorem vformat_print_renders_witness:
  "vformat_print demo_bus (cs ''%d=%x%%'') [VInt 42, VInt 255] 7 demo_io
    = put_chars demo_bus (cs ''42=0xFF%'') 7 demo_io"
  by (rule vformat_print_renders)
    (simp add: cs_def dec_def hexadecimal_def hex_map_def int_text_def signed_dec_def radix.simps)

text \<open>
  \<open>print_int\<close> prints the signed decimal numeral of every \<^verbatim>\<open>int\<close> but the least one: its negation
  overflows, the digit loop does not run, and only the minus sign is printed.
\<close>

theorem print_int_text:
  assumes "- (2 ^ 31) \<le> value" "value < 2 ^ 31"
  shows "print_int bus value color s
    = put_chars bus (if value = - (2 ^ 31) then cs ''-'' else signed_dec value) color s"
  unfolding print_int_eq [OF assms] by (simp add: int_text_def cs_def)

theorem print_int_text_witness:
  "print_int demo_bus (- 2147483648) 7 demo_io = put_chars demo_bus (cs ''-'') 7 demo_io \<and>
   print_int demo_bus (- 42) 7 demo_io = put_chars demo_bus (cs ''-42'') 7 demo_io"
  using print_int_text [of "- 2147483648" demo_bus 7 demo_io] print_int_text [of "- 42" demo_bus 7 demo_io]
  by (simp add: signed_dec_def dec_def radix.simps cs_def)

text \<open>
  \<open>int_to_ascii\<close> writes the decimal numeral of its argument, NUL-terminated, into any buffer
  of at least 12 bytes; for the least \<^verbatim>\<open>int\<close> it writes a minus sign and an opening parenthesis
  instead, since the negation overflows and the remainder of the division is negative.
\<close>

theorem int_to_ascii_text:
  assumes "- (2 ^ 31) \<le> n" "n < 2 ^ 31" "12 \<le> length str"
  shows "\<exists>zs. int_to_ascii n str = Inr ((if n = - (2 ^ 31) then cs ''-('' else signed_dec n) @ 0 # zs)"
proof (cases "n = - (2 ^ 31)")
  case True
  have "Suc (Suc (Suc 0)) \<le> length str" using assms(3) by simp
  then obtain a b c zs where str: "str = a # b # c # zs" by (metis Suc_le_length_iff)
  have "(- 2147483648 :: int) smod 10 = - 8" "(- 2147483648 :: int) sdiv 10 = - 214748364"
    by (simp_all add: signed_modulo_int_def signed_divide_int_def)
  then have "ascii_digits (- 2147483648) str 0 = Inr (40 # b # c # zs, 1)"
    by (subst ascii_digits.simps) (simp add: str arr_set_def)
  moreover have "wrap32 2147483648 = - 2147483648" by (simp add: wrap32_def)
  moreover have "reverse (40 # 45 # 0 # zs) = Inr (45 # 40 # 0 # zs)"
    using reverse_string [of "[40, 45]" zs] by simp
  ultimately show ?thesis
    using True by (simp add: int_to_ascii_def arr_set_def cs_def)
next
  case False
  define k where "k = nat \<bar>n\<bar>"
  have k: "k < 2 ^ 31" using assms False by (auto simp: k_def)
  then have "length (radix 10 k) \<le> Suc 9" by (intro radix_length) auto
  then have "Suc (Suc 0) \<le> length (drop (length (radix 10 k)) str)" using assms(3) by simp
  then obtain y z zs where d: "drop (length (radix 10 k)) str = y # z # zs"
    by (metis Suc_le_length_iff)
  have l: "length (dec k) = length (radix 10 k)" by (simp add: dec_def)
  have digits: "ascii_digits (int k) str 0 = Inr (rev (dec k) @ y # z # zs, int (length (dec k)))"
    using ascii_digits_from [of k "[]" str] k assms(3) \<open>length (radix 10 k) \<le> Suc 9\<close> by (simp add: d l)
  have sets: "arr_set (rev (dec k) @ y # z # zs) (int (length (dec k))) v = Inr (rev (dec k) @ v # z # zs)"
    "arr_set (rev (dec k) @ y # z # zs) (int (length (dec k)) + 1) v = Inr (rev (dec k) @ y # v # zs)" for v y
    using arr_set_nat [of "length (dec k)" "rev (dec k) @ y # z # zs" v]
      arr_set_nat [of "Suc (length (dec k))" "rev (dec k) @ y # z # zs" v]
    by (simp_all add: list_update_append add.commute)
  have rev1: "reverse (rev (dec k) @ 0 # z # zs) = Inr (dec k @ 0 # z # zs)"
    using reverse_string [of "rev (dec k)" "z # zs"] dec_nonzero by simp
  have rev2: "reverse (rev (dec k) @ 45 # 0 # zs) = Inr (45 # dec k @ 0 # zs)"
    using reverse_string [of "rev (dec k) @ [45]" zs] dec_nonzero by simp
  have neg: "(if n < 0 then wrap32 (- n) else n) = int k"
    using assms False by (simp add: wrap32_id k_def)
  have signed: "signed_dec n = (if n < 0 then 45 # dec k else dec k)" by (simp add: signed_dec_def k_def)
  show ?thesis
    using False rev1 rev2 unfolding int_to_ascii_def Let_def neg digits
    by (simp add: sets signed)
qed

theorem int_to_ascii_text_witness: "\<exists>zs. int_to_ascii 305 (replicate 12 0) = Inr (cs ''305'' @ 0 # zs)"
  using int_to_ascii_text [of 305 "replicate 12 0"] by (simp add: signed_dec_def dec_def radix.simps cs_def)

text \<open>
  The log filter: a message below the current level is dropped without any effect; one at or
  above it is printed in its level's colour, tagged with the module in brackets (no tag for an empty
  module name) and ended by a newline.
\<close>

theorem printk_core_filters:
  assumes "render fmt args = Some xs"
  shows "printk_core bus (kern_level level) module fmt args s =
    (if kern_level level < current_level s then Inr ((), s)
     else put_chars bus ((if module = [] then [] else cs ''['' @ module @ cs '']:'') @ xs @ [10])
       (level_colors ! nat (kern_level level)) s)"
proof -
  have "0 \<le> kern_level level" "kern_level level < 4" by (cases level; simp)+
  note printk_core_eq [OF assms this, of bus module s]
  then show ?thesis by (simp add: log_tag_def cs_def)
qed

theorem printk_core_filters_witness:
  "printk_core demo_bus (kern_level KERN_DEBUG) (cs ''FS'') (cs ''%d'') [VInt 7] demo_kprint = Inr ((), demo_kprint)"
proof -
  have "render (cs ''%d'') [VInt 7] = Some (cs ''7'')"
    by (simp add: cs_def dec_def int_text_def signed_dec_def radix.simps)
  from printk_core_filters [OF this, of demo_bus KERN_DEBUG "cs ''FS''" demo_kprint] show ?thesis
    by (simp add: demo_kprint_def io.defs kprint.defs)
qed

text \<open>
  C26: Printing is total and confined: on conforming hardware, a format whose rendered text holds no
  backspace is printed to the end, the screen becomes what the terminal makes of that text, and
  nothing of the state but the screen and the CRT controller changes.
\<close>

theorem printk_on_terminal:
  fixes s :: "('d, 'z) io_scheme"
  assumes "pc_conforms bus view" "terminal_ok (terminal_of view s)"
    and "render fmt args = Some xs" "8 \<notin> set xs"
  shows "\<exists>s'. printk bus fmt args s = Inr ((), s') \<and>
    terminal_of view s' = text_puts xs WHITE_ON_BLACK (terminal_of view s) \<and> screen_only view s s'"
  using put_chars_terminal [OF assms(1,2,4)] by (auto simp: printk_def vformat_renders [OF assms(3)])

theorem printk_on_terminal_witness:
  "\<exists>s'. printk demo_bus (cs ''%c'') [VInt 65] demo_io = Inr ((), s') \<and> vidmem s' ! 0 = 65"
proof -
  have r: "render (cs ''%c'') [VInt 65] = Some [65]" "8 \<notin> set [65 :: u8]" by (simp_all add: cs_def)
  have "terminal_ok (terminal_of (\<lambda>a. a) demo_io)" by (simp add: demo_terminal terminal_ok_def)
  from printk_on_terminal [OF demo_bus_conforms this r]
  obtain s' where "printk demo_bus (cs ''%c'') [VInt 65] demo_io = Inr ((), s')"
    "terminal_of (\<lambda>a. a) s' = ((replicate 4000 0)[0 := 65, 1 := WHITE_ON_BLACK], 1)"
    by (auto simp: demo_terminal text_puts_def text_put_def)
  then show ?thesis by (auto simp: terminal_of_def)
qed


end
