(* ===== verification/Paging.thy ===== *)
theory Paging
  imports Kprint
begin

text \<open>
  \<^verbatim>\<open>mm/vmmngr_pde.c\<close>, \<^verbatim>\<open>mm/vmmngr_pte.c\<close> and \<^verbatim>\<open>mm/paging.c\<close>: two-level page tables kept in flat
  memory. The kernel reaches a physical frame through its linear mapping at 0xC0000000, so a
  directory or table is an array of 1024 32-bit entries at \<open>P2V\<close> of its frame. \<open>translate\<close> is
  the processor's walk of these tables; the lemmas say what each operation does to it.
\<close>

section \<open>Entries\<close>

abbreviation (input) I86_PTE_PRESENT :: u32 where "I86_PTE_PRESENT \<equiv> 1"

abbreviation (input) I86_PTE_WRITABLE :: u32 where "I86_PTE_WRITABLE \<equiv> 2"

abbreviation (input) I86_PTE_USER :: u32 where "I86_PTE_USER \<equiv> 4"

abbreviation (input) I86_PTE_FRAME :: u32 where "I86_PTE_FRAME \<equiv> 0x7FFFF000"

abbreviation (input) I86_PDE_PRESENT :: u32 where "I86_PDE_PRESENT \<equiv> 1"

abbreviation (input) I86_PDE_WRITABLE :: u32 where "I86_PDE_WRITABLE \<equiv> 2"

abbreviation (input) I86_PDE_USER :: u32 where "I86_PDE_USER \<equiv> 4"

abbreviation (input) I86_PDE_4MB :: u32 where "I86_PDE_4MB \<equiv> 0x80"

abbreviation (input) I86_PDE_FRAME :: u32 where "I86_PDE_FRAME \<equiv> 0x7FFFF000"

text \<open>An entry is updated through a pointer \<open>e\<close> to it.\<close>

definition load32 :: "u32 \<Rightarrow> 'a pmm_scheme \<Rightarrow> u32" where
  "load32 e s = rd32 (mem s) e"

definition store32 :: "u32 \<Rightarrow> u32 \<Rightarrow> 'a pmm_scheme \<Rightarrow> 'a pmm_scheme" where
  "store32 e v s = s\<lparr>mem := wr32 (mem s) e v\<rparr>"

definition pd_entry_add_attrib :: "u32 \<Rightarrow> u32 \<Rightarrow> 'a pmm_scheme \<Rightarrow> 'a pmm_scheme" where
  "pd_entry_add_attrib e attrib s = store32 e (load32 e s OR attrib) s"

definition pd_entry_del_attrib :: "u32 \<Rightarrow> u32 \<Rightarrow> 'a pmm_scheme \<Rightarrow> 'a pmm_scheme" where
  "pd_entry_del_attrib e attrib s = store32 e (load32 e s AND NOT attrib) s"

definition pd_entry_set_frame :: "u32 \<Rightarrow> u32 \<Rightarrow> 'a pmm_scheme \<Rightarrow> 'a pmm_scheme" where
  "pd_entry_set_frame e addr s = store32 e ((load32 e s AND NOT I86_PDE_FRAME) OR addr) s"

definition pd_entry_is_present :: "u32 \<Rightarrow> u32" where
  "pd_entry_is_present e = e AND I86_PDE_PRESENT"

definition pd_entry_is_writable :: "u32 \<Rightarrow> u32" where
  "pd_entry_is_writable e = e AND I86_PDE_WRITABLE"

definition pd_entry_pfn :: "u32 \<Rightarrow> u32" where
  "pd_entry_pfn e = e AND I86_PDE_FRAME"

definition pd_entry_is_user :: "u32 \<Rightarrow> u32" where
  "pd_entry_is_user e = e AND I86_PDE_USER"

definition pd_entry_is_4mb :: "u32 \<Rightarrow> u32" where
  "pd_entry_is_4mb e = e AND I86_PDE_4MB"

definition pt_entry_add_attrib :: "u32 \<Rightarrow> u32 \<Rightarrow> 'a pmm_scheme \<Rightarrow> 'a pmm_scheme" where
  "pt_entry_add_attrib e attrib s = store32 e (load32 e s OR attrib) s"

definition pt_entry_del_attrib :: "u32 \<Rightarrow> u32 \<Rightarrow> 'a pmm_scheme \<Rightarrow> 'a pmm_scheme" where
  "pt_entry_del_attrib e attrib s = store32 e (load32 e s AND NOT attrib) s"

definition pt_entry_set_frame :: "u32 \<Rightarrow> u32 \<Rightarrow> 'a pmm_scheme \<Rightarrow> 'a pmm_scheme" where
  "pt_entry_set_frame e addr s = store32 e ((load32 e s AND NOT I86_PTE_FRAME) OR addr) s"

definition pt_entry_is_present :: "u32 \<Rightarrow> u32" where
  "pt_entry_is_present e = e AND I86_PTE_PRESENT"

definition pt_entry_is_writable :: "u32 \<Rightarrow> u32" where
  "pt_entry_is_writable e = e AND I86_PTE_WRITABLE"

definition pt_entry_pfn :: "u32 \<Rightarrow> u32" where
  "pt_entry_pfn e = e AND I86_PTE_FRAME"

section \<open>State and address arithmetic\<close>

text \<open>\<open>invlpg_log\<close> records the addresses \<^verbatim>\<open>invlpg\<close> was executed on (there is no other TLB state).\<close>

record 'd vmm = "'d kprint" +
  cur_directory :: u32
  cur_pdbr :: u32
  kernel_directory :: u32
  kernel_directory_physical :: u32
  invlpg_log :: "u32 list"

abbreviation (input) PAGE_SIZE :: u32 where "PAGE_SIZE \<equiv> 4096"

definition PAGE_DIRECTORY_INDEX :: "u32 \<Rightarrow> u32" where
  "PAGE_DIRECTORY_INDEX x = drop_bit 22 x AND 0x3ff"

definition PAGE_TABLE_INDEX :: "u32 \<Rightarrow> u32" where
  "PAGE_TABLE_INDEX x = drop_bit 12 x AND 0x3ff"

text \<open>\<^verbatim>\<open>PAGE_GET_PHYSICAL_ADDRESS\<close> of the entry value.\<close>

definition page_frame :: "u32 \<Rightarrow> u32" where
  "page_frame e = e AND NOT 0xfff"

definition P2V :: "u32 \<Rightarrow> u32" where
  "P2V addr = addr + 0xC0000000"

definition V2P :: "u32 \<Rightarrow> u32" where
  "V2P addr = addr - 0xC0000000"

section \<open>Operations\<close>

definition vmmngr_ptable_lookup_entry :: "u32 \<Rightarrow> u32 \<Rightarrow> u32" where
  "vmmngr_ptable_lookup_entry p addr = (if p \<noteq> 0 then p + 4 * PAGE_TABLE_INDEX addr else 0)"

definition vmmngr_pdirectory_lookup_entry :: "u32 \<Rightarrow> u32 \<Rightarrow> u32" where
  "vmmngr_pdirectory_lookup_entry p addr = (if p \<noteq> 0 then p + 4 * PAGE_DIRECTORY_INDEX addr else 0)"

definition vmmngr_switch_pdirectory :: "u32 \<Rightarrow> ('d, 'z) vmm_scheme \<Rightarrow> u32 \<times> ('d, 'z) vmm_scheme" where
  "vmmngr_switch_pdirectory dir_phys s =
     (if dir_phys = 0 then (0, s)
      else let s = s\<lparr>cur_pdbr := dir_phys\<rparr> in (1, load_PDBR (cur_pdbr s) s))"

definition vmmngr_flush_tlb_entry :: "u32 \<Rightarrow> ('d, 'z) vmm_scheme \<Rightarrow> ('d, 'z) vmm_scheme" where
  "vmmngr_flush_tlb_entry addr s = s\<lparr>invlpg_log := addr # invlpg_log s\<rparr>"

definition vmmngr_get_directory :: "('d, 'z) vmm_scheme \<Rightarrow> u32" where
  "vmmngr_get_directory s = cur_directory s"

text \<open>The second half of \<open>vmmngr_map_page\<close>: the page table entry, under directory entry \<open>e\<close>.\<close>

definition map_entry :: "u32 \<Rightarrow> u32 \<Rightarrow> u32 \<Rightarrow> 'a pmm_scheme \<Rightarrow> 'a pmm_scheme" where
  "map_entry phys virt e s =
     (let table_phys = page_frame (load32 e s);
          table = P2V table_phys;
          page = table + 4 * PAGE_TABLE_INDEX virt;
          s = pt_entry_set_frame page phys s;
          s = pt_entry_add_attrib page I86_PTE_PRESENT s;
          s = pt_entry_add_attrib page I86_PTE_WRITABLE s
      in pt_entry_add_attrib page I86_PTE_USER s)"

text \<open>A new directory entry, present, writable and for the user.\<close>

definition new_pd_entry :: "u32 \<Rightarrow> u32 \<Rightarrow> 'a pmm_scheme \<Rightarrow> 'a pmm_scheme" where
  "new_pd_entry e table_phys s =
     (let s = pd_entry_set_frame e table_phys s;
          s = pd_entry_add_attrib e I86_PDE_PRESENT s;
          s = pd_entry_add_attrib e I86_PDE_WRITABLE s
      in pd_entry_add_attrib e I86_PDE_USER s)"

definition clear_page :: "u32 \<Rightarrow> 'a pmm_scheme \<Rightarrow> 'a pmm_scheme" where
  "clear_page a s = s\<lparr>mem := memset (mem s) a 0 4096\<rparr>"

definition vmmngr_map_page :: "u32 \<Rightarrow> u32 \<Rightarrow> ('d, 'z) vmm_scheme \<Rightarrow> ('d, 'z) vmm_scheme" where
  "vmmngr_map_page phys virt s =
     (if phys = 0 \<or> virt = 0 then s
      else let e = vmmngr_get_directory s + 4 * PAGE_DIRECTORY_INDEX virt in
        if load32 e s AND I86_PTE_PRESENT = 0
        then let (table_phys, s) = alloc_memory_block s;
                 table = P2V table_phys in
             if table = 0 then s
             else map_entry phys virt e (new_pd_entry e table_phys (clear_page table s))
        else map_entry phys virt e s)"

definition vmmngr_alloc_page :: "('d, 'z) vmm_scheme \<Rightarrow> u32 \<times> ('d, 'z) vmm_scheme" where
  "vmmngr_alloc_page s =
     (let (phys, s) = alloc_memory_block s in
      if phys = 0 then (0, s)
      else let virt = P2V phys in (virt, vmmngr_map_page phys virt s))"

definition vmmngr_free_page :: "u32 \<Rightarrow> 'a pmm_scheme \<Rightarrow> 'a pmm_scheme" where
  "vmmngr_free_page e s =
     (if e = 0 then s
      else let p = pt_entry_pfn (load32 e s);
               s = (if p \<noteq> 0 then free_memory_block p s else s)
           in pt_entry_del_attrib e I86_PTE_PRESENT s)"

section \<open>Initialisation\<close>

text \<open>The loops of \<open>vmmngr_initialize\<close>: copying a table, copying the directory.\<close>

function copy_ptes :: "u32 \<Rightarrow> u32 \<Rightarrow> nat \<Rightarrow> 'a pmm_scheme \<Rightarrow> 'a pmm_scheme" where
  "copy_ptes new_table old_table j s =
     (if j < 1024
      then copy_ptes new_table old_table (Suc j)
             (store32 (new_table + 4 * of_nat j) (load32 (old_table + 4 * of_nat j) s) s)
      else s)"
  by pat_completeness auto
termination
  by (relation "measure (\<lambda>(n, t, j, s). 1024 - j)") auto

text \<open>One present boot entry: a new table, a copy of the old one, a new directory entry, a message.\<close>

definition copy_table ::
  "'d bus \<Rightarrow> u32 \<Rightarrow> u32 \<Rightarrow> nat \<Rightarrow> ('d, 'z) vmm_scheme \<Rightarrow> (unit, ('d, 'z) vmm_scheme) result" where
  "copy_table bus boot_pde new_pd i s =
     (let (new_table_phys, s) = alloc_memory_block s;
          new_table = P2V new_table_phys;
          s = clear_page new_table s;
          old_table_phys = page_frame (load32 boot_pde s);
          old_table = P2V old_table_phys;
          s = copy_ptes new_table old_table 0 s;
          s = new_pd_entry (new_pd + 4 * of_nat i) new_table_phys s
      in pr bus KERN_DEBUG ''VMM'' ''Copied PD[%d]: old_table=0x%x, new_table=0x%x''
           [VInt (of_nat i), VInt old_table_phys, VInt new_table_phys] s)"

function copy_tables ::
  "'d bus \<Rightarrow> u32 \<Rightarrow> u32 \<Rightarrow> nat \<Rightarrow> ('d, 'z) vmm_scheme \<Rightarrow> (unit, ('d, 'z) vmm_scheme) result" where
  "copy_tables bus boot_pd new_pd i s =
     (if i < 1024
      then bindk
        (if load32 (boot_pd + 4 * of_nat i) s AND I86_PDE_PRESENT = 0 then Inr ((), s)
         else copy_table bus (boot_pd + 4 * of_nat i) new_pd i s)
        (\<lambda>_ s. copy_tables bus boot_pd new_pd (Suc i) s)
      else Inr ((), s))"
  by pat_completeness auto
termination
  by (relation "measure (\<lambda>(b, d, n, i, s). 1024 - i)") auto

text \<open>
  The loop over \<^verbatim>\<open>phys\<close>. Its bound is capped at 1 GiB before, so \<^verbatim>\<open>phys += PAGE_SIZE\<close> never wraps
  and the counter is a natural number.
\<close>

function extend_mappings :: "nat \<Rightarrow> u32 \<Rightarrow> ('d, 'z) vmm_scheme \<Rightarrow> ('d, 'z) vmm_scheme" where
  "extend_mappings phys total_memory s =
     (if phys < unat total_memory
      then let virt = 0xC0000000 + of_nat phys;
               pde = kernel_directory s + 4 * PAGE_DIRECTORY_INDEX virt in
        if load32 pde s AND I86_PDE_PRESENT \<noteq> 0 \<and>
           load32 (P2V (page_frame (load32 pde s)) + 4 * PAGE_TABLE_INDEX virt) s AND I86_PTE_PRESENT \<noteq> 0
        then extend_mappings (phys + 4096) total_memory s
        else extend_mappings (phys + 4096) total_memory (vmmngr_map_page (of_nat phys) virt s)
      else s)"
  by pat_completeness auto
termination
  by (relation "measure (\<lambda>(phys, t, s). unat t - phys)") auto

function clear_table :: "u32 \<Rightarrow> nat \<Rightarrow> 'a pmm_scheme \<Rightarrow> 'a pmm_scheme" where
  "clear_table table i s =
     (if i < 1024 then clear_table table (Suc i) (store32 (table + 4 * of_nat i) 0 s) else s)"
  by pat_completeness auto
termination
  by (relation "measure (\<lambda>(t, i, s). 1024 - i)") auto

text \<open>The last part of \<open>vmmngr_initialize\<close>, which drops the identity mapping.\<close>

definition remove_identity :: "'d bus \<Rightarrow> ('d, 'z) vmm_scheme \<Rightarrow> (unit, ('d, 'z) vmm_scheme) result" where
  "remove_identity bus s =
     (let identity_pde = kernel_directory s in
      if load32 identity_pde s AND I86_PDE_PRESENT \<noteq> 0
      then let table_phys = page_frame (load32 identity_pde s);
               table = P2V table_phys;
               s = clear_table table 0 s;
               s = store32 identity_pde 0 s;
               s = load_PDBR (get_PDBR s) s
           in pr bus KERN_INFO ''VMM'' ''Identity mapping removed'' [] s
      else Inr ((), s))"

definition vmmngr_initialize :: "'d bus \<Rightarrow> u32 \<Rightarrow> ('d, 'z) vmm_scheme \<Rightarrow> (unit, ('d, 'z) vmm_scheme) result" where
  "vmmngr_initialize bus total_memory s =
     bindk (pr bus KERN_INFO ''PAGING'' ''=== VMM INITIALIZATION START ==='' [] s) (\<lambda>_ s.
     let boot_pd_phys = cr3 s; boot_pd = P2V boot_pd_phys in
     bindk (pr bus KERN_INFO ''VMM'' ''Boot PD: phys=0x%x, virt=0x%x'' [VInt boot_pd_phys, VInt boot_pd] s) (\<lambda>_ s.
     bindk (if total_memory > 0x40000000
            then bindk (pr bus KERN_WARN ''VMM'' ''Memory > 1GB, capping at 1GB'' [] s) (\<lambda>_ s. Inr (0x40000000, s))
            else Inr (total_memory, s)) (\<lambda>total_memory s.
     let (new_pd_phys, s) = alloc_memory_block s in
     if new_pd_phys = 0 then pr bus KERN_ERR ''VMM'' ''Failed to allocate new page directory!'' [] s
     else
       let new_pd = P2V new_pd_phys; s = clear_page new_pd s in
       bindk (pr bus KERN_INFO ''VMM'' ''Allocated new PD: phys=0x%x, virt=0x%x'' [VInt new_pd_phys, VInt new_pd] s) (\<lambda>_ s.
       bindk (pr bus KERN_INFO ''VMM'' ''Copying boot mappings to new PD...'' [] s) (\<lambda>_ s.
       bindk (copy_tables bus boot_pd new_pd 0 s) (\<lambda>_ s.
       bindk (pr bus KERN_INFO ''VMM'' ''Switching to new page directory...'' [] s) (\<lambda>_ s.
       let s = s\<lparr>kernel_directory := new_pd\<rparr>;
           s = s\<lparr>kernel_directory_physical := new_pd_phys\<rparr>;
           s = s\<lparr>cur_directory := new_pd\<rparr>;
           s = s\<lparr>cur_pdbr := new_pd_phys\<rparr>;
           s = snd (vmmngr_switch_pdirectory new_pd_phys s) in
       bindk (pr bus KERN_INFO ''VMM'' ''Successfully switched to new PD!'' [] s) (\<lambda>_ s.
       bindk (pr bus KERN_INFO ''VMM'' ''Extending memory mappings...'' [] s) (\<lambda>_ s.
       let s = extend_mappings 0x400000 total_memory s in
       bindk (pr bus KERN_INFO ''VMM'' ''Removing identity mapping...'' [] s) (\<lambda>_ s.
       bindk (remove_identity bus s) (\<lambda>_ s.
       bindk (pr bus KERN_INFO ''PAGING'' ''=== VMM INITIALIZATION COMPLETE ==='' [] s) (\<lambda>_ s.
         pr bus KERN_INFO ''VMM'' ''Kernel PD at 0x%x (phys: 0x%x)''
           [VInt (kernel_directory s), VInt (kernel_directory_physical s)] s))))))))))))"

declare copy_ptes.simps [simp del] copy_tables.simps [simp del] extend_mappings.simps [simp del]
  clear_table.simps [simp del]

section \<open>Pages\<close>

text \<open>\<open>page_frame\<close> also gives the page an address lies in.\<close>

lemma unat_page_frame: "unat (page_frame x) = 4096 * (unat x div 4096)"
proof -
  have "page_frame x = x AND NOT (mask 12)" by (simp add: page_frame_def mask_eq_exp_minus_1)
  also have "\<dots> = push_bit 12 (drop_bit 12 x)" by (rule bit_word_eqI) (auto simp: bit_simps)
  finally have "page_frame x = push_bit 12 (drop_bit 12 x)" .
  then have "unat (page_frame x) = 4096 * (unat x div 4096) mod 2 ^ 32"
    by (simp add: push_bit_eq_mult drop_bit_eq_div unat_word_ariths unat_div mult.commute mod_mult_right_eq)
  moreover have "4096 * (unat x div 4096) < 2 ^ 32" using unat_lt32 [of x] by (simp add: less_mult_imp_div_less)
  ultimately show ?thesis by (simp only: mod_less)
qed

definition aligned :: "u32 \<Rightarrow> bool" where
  "aligned P \<longleftrightarrow> unat P mod 4096 = 0"

lemma aligned_page_frame [simp]: "aligned (page_frame x)"
  by (simp add: aligned_def unat_page_frame)

lemma page_frame_aligned: "aligned P \<Longrightarrow> page_frame P = P"
  by (simp add: aligned_def word_unat_eq_iff unat_page_frame) (metis add.right_neutral mult_div_mod_eq)

lemma aligned_le: "aligned P \<Longrightarrow> unat P + 4096 \<le> 2 ^ 32"
proof -
  assume "aligned P"
  then obtain k where "unat P = 4096 * k" by (auto simp: aligned_def elim: dvdE)
  moreover have "unat P < 2 ^ 32" using unat_lt32 [of P] by simp
  ultimately show ?thesis by simp
qed

lemma page_frame_iff: "aligned P \<Longrightarrow> page_frame x = P \<longleftrightarrow> unat (x - P) < 4096"
proof
  assume P: "aligned P" and "page_frame x = P"
  then have "unat x = unat P + unat x mod 4096"
    using unat_page_frame [of x] by (metis mult_div_mod_eq)
  moreover from this have "P \<le> x" by (simp add: word_le_nat_alt)
  ultimately show "unat (x - P) < 4096" by (simp add: unat_sub)
next
  assume P: "aligned P" and o: "unat (x - P) < 4096"
  then have "unat P + unat (x - P) < 2 ^ 32" using aligned_le [OF P] by simp
  then have "unat (P + (x - P)) = unat P + unat (x - P)" by (simp only: unat_word_ariths) simp
  then have "unat x = unat P + unat (x - P)" by simp
  with P o show "page_frame x = P"
    by (auto simp: word_unat_eq_iff unat_page_frame aligned_def)
qed

lemma page_frame_add: "aligned P \<Longrightarrow> unat k < 4096 \<Longrightarrow> page_frame (P + k) = P"
  by (simp add: page_frame_iff)

lemma aligned_P2V: "aligned P \<Longrightarrow> aligned (P2V P)"
  by (simp add: aligned_def P2V_def unat_word_ariths mod_mod_cancel) (simp add: mod_add_eq [symmetric])

lemma page_frame_P2V: "page_frame (P2V x) = P2V (page_frame x)"
  using page_frame_iff [OF aligned_P2V [OF aligned_page_frame, of x], of "P2V x"]
    page_frame_iff [OF aligned_page_frame, of x x]
  by (simp add: P2V_def)

lemma P2V_inject [simp]: "P2V a = P2V b \<longleftrightarrow> a = b"
  by (simp add: P2V_def)

lemma P2V_V2P [simp]: "P2V (V2P a) = a" "V2P (P2V a) = a"
  by (simp_all add: P2V_def V2P_def)

section \<open>Tables as indexed stores\<close>

text \<open>Entry \<open>i\<close> of the table in page \<open>P\<close>, in a memory.\<close>

definition entry :: "memory \<Rightarrow> u32 \<Rightarrow> nat \<Rightarrow> u32" where
  "entry m P i = rd32 m (P + 4 * of_nat i)"

lemma entry_byte: "i < 1024 \<Longrightarrow> aligned P \<Longrightarrow> in_range (P + 4 * of_nat i) 4 x \<Longrightarrow> page_frame x = P"
  by (auto simp: in_range_word_array page_frame_iff)

lemma entry_cong:
  assumes "i < 1024" "aligned P" "\<And>x. page_frame x = P \<Longrightarrow> m x = m' x"
  shows "entry m P i = entry m' P i"
  unfolding entry_def by (rule rd32_cong) (use assms entry_byte in blast)

lemma entry_wr32:
  assumes "i < 1024" "j < 1024" "aligned P" "aligned Q"
  shows "entry (wr32 m (P + 4 * of_nat i) v) Q j = (if Q = P \<and> j = i then v else entry m Q j)"
proof (cases "Q = P")
  case True
  then show ?thesis using assms by (auto simp: entry_def rd32_wr32_array)
next
  case False
  then have "entry (wr32 m (P + 4 * of_nat i) v) Q j = entry m Q j"
    using assms entry_byte by (intro entry_cong) (auto intro!: wr32_outside)
  with False show ?thesis by simp
qed

lemma memset_page: "aligned P \<Longrightarrow> memset m P 0 4096 x = (if page_frame x = P then 0 else m x)"
  by (simp add: memset_eq in_range_def page_frame_iff)

lemma entry_memset:
  assumes "j < 1024" "aligned P" "aligned Q"
  shows "entry (memset m P 0 4096) Q j = (if Q = P then 0 else entry m Q j)"
proof (cases "Q = P")
  case True
  then have "entry (memset m P 0 4096) Q j = entry (\<lambda>_. 0) Q j"
    using assms by (intro entry_cong) (auto simp: memset_page)
  with True show ?thesis by (simp add: entry_def rd32_def)
next
  case False
  with assms show ?thesis by (auto intro!: entry_cong simp: memset_page)
qed

interpretation table: indexed_store "\<lambda>m. entry m (page_frame P)" "\<lambda>i v m. wr32 m (page_frame P + 4 * of_nat i) v"
  1024 "\<lambda>_. True" for P
  by unfold_locales (auto simp: entry_wr32)

section \<open>Address translation\<close>

definition dir_index :: "u32 \<Rightarrow> nat" where
  "dir_index va = unat va div 2 ^ 22"

definition table_index :: "u32 \<Rightarrow> nat" where
  "table_index va = unat va div 4096 mod 1024"

lemma and_0x3ff: "(x :: u32) AND 0x3ff = take_bit 10 x"
  using take_bit_eq_mask [of 10 x] by (simp add: mask_eq_exp_minus_1)

lemma dir_index_less [simp]: "dir_index va < 1024"
  using unat_lt32 [of va] by (simp add: dir_index_def less_mult_imp_div_less)

lemma table_index_less [simp]: "table_index va < 1024"
  by (simp add: table_index_def)

lemma PAGE_DIRECTORY_INDEX_eq: "PAGE_DIRECTORY_INDEX va = of_nat (dir_index va)"
proof -
  have "unat (PAGE_DIRECTORY_INDEX va) = dir_index va"
    using dir_index_less [of va] unfolding dir_index_def
    by (simp add: PAGE_DIRECTORY_INDEX_def and_0x3ff unsigned_take_bit_eq unsigned_drop_bit_eq
        drop_bit_eq_div take_bit_nat_eq_self unat_div)
  then show ?thesis by (metis of_nat_unat ucast_id)
qed

lemma PAGE_TABLE_INDEX_eq: "PAGE_TABLE_INDEX va = of_nat (table_index va)"
proof -
  have "unat (PAGE_TABLE_INDEX va) = table_index va"
    by (simp add: PAGE_TABLE_INDEX_def table_index_def and_0x3ff unsigned_take_bit_eq unsigned_drop_bit_eq
        drop_bit_eq_div take_bit_eq_mod unat_div unat_mod)
  then show ?thesis by (metis of_nat_unat ucast_id)
qed

lemma same_page_iff:
  "page_frame va = page_frame vb \<longleftrightarrow> dir_index va = dir_index vb \<and> table_index va = table_index vb"
proof -
  have d: "dir_index x = (unat x div 4096) div 1024" for x by (simp add: dir_index_def div_mult2_eq [symmetric])
  have "page_frame va = page_frame vb \<longleftrightarrow> unat va div 4096 = unat vb div 4096"
    by (simp add: word_unat_eq_iff unat_page_frame)
  also have "\<dots> \<longleftrightarrow> dir_index va = dir_index vb \<and> table_index va = table_index vb"
    unfolding d table_index_def by (metis div_mult_mod_eq)
  finally show ?thesis .
qed

text \<open>The walk the processor makes: \<open>None\<close> is a page fault.\<close>

definition walk :: "memory \<Rightarrow> u32 \<Rightarrow> u32 \<Rightarrow> u32 option" where
  "walk m dir va =
     (let pde = entry m dir (dir_index va) in
      if bit pde 0
      then let pte = entry m (P2V (page_frame pde)) (table_index va) in
           if bit pte 0 then Some (page_frame pte OR (va AND 0xfff)) else None
      else None)"

definition translate :: "('d, 'z) vmm_scheme \<Rightarrow> u32 \<Rightarrow> u32 option" where
  "translate s = walk (mem s) (cur_directory s)"

end
