(* ===== verification/Space.thy ===== *)
theory Space
  imports Paging
begin

text \<open>
  Address spaces in which the paging operations work: which frames the next allocations take, that
  the directory, the tables and the bitmap keep clear of them, what each operation does to the
  translation, and the properties of \<^verbatim>\<open>mm/paging.c\<close>.
\<close>

section \<open>The frames of the next allocations\<close>

text \<open>The allocator hands out the lowest free frame, so these are the \<open>n\<close> lowest ones.\<close>

definition next_frames :: "nat \<Rightarrow> 'a pmm_scheme \<Rightarrow> nat set" where
  "next_frames n s = {f. f < frame_limit s \<and> \<not> frame_bit s f \<and> card {b. b < f \<and> \<not> frame_bit s b} < n}"

lemma next_frames_0 [simp]: "next_frames 0 s = {}"
  by (simp add: next_frames_def)

lemma next_frames_mono: "m \<le> n \<Longrightarrow> next_frames m s \<subseteq> next_frames n s"
  by (auto simp: next_frames_def)

lemma next_frames_cong:
  assumes "frame_limit s' = frame_limit s" "\<And>f. f < frame_limit s \<Longrightarrow> frame_bit s' f \<longleftrightarrow> frame_bit s f"
  shows "next_frames n s' = next_frames n s"
proof -
  have "{b. b < f \<and> \<not> frame_bit s' b} = {b. b < f \<and> \<not> frame_bit s b}" if "f < frame_limit s" for f
    using assms(2) that by auto
  then show ?thesis using assms by (auto simp: next_frames_def)
qed

lemma next_frames_alloc:
  assumes "f < frame_limit s" "\<not> frame_bit s f" "\<forall>b<f. frame_bit s b" "frame_limit s' = frame_limit s"
    and "\<And>c. c < frame_limit s \<Longrightarrow> frame_bit s' c \<longleftrightarrow> c = f \<or> frame_bit s c"
  shows "next_frames n s' = next_frames (Suc n) s - {f}" "f \<in> next_frames (Suc n) s"
proof -
  have none: "{b. b < f \<and> \<not> frame_bit s b} = {}" using assms(3) by auto
  then show "f \<in> next_frames (Suc n) s" unfolding next_frames_def mem_Collect_eq none using assms(1,2) by simp
  have rank: "card {b. b < c \<and> \<not> frame_bit s b} = Suc (card {b. b < c \<and> \<not> frame_bit s' b})"
    if "c < frame_limit s" "\<not> frame_bit s c" "c \<noteq> f" for c
  proof -
    have "f < c" using assms(3) that by (meson linorder_neqE_nat)
    then have "{b. b < c \<and> \<not> frame_bit s b} = insert f {b. b < c \<and> \<not> frame_bit s' b}" "\<not> \<not> frame_bit s' f"
      using assms(1,2,5) that by auto
    then show ?thesis by simp
  qed
  show "next_frames n s' = next_frames (Suc n) s - {f}"
    using assms(4,5) rank by (auto simp: next_frames_def)
qed

lemma next_frames_free:
  assumes "frame_limit s' = frame_limit s" "\<And>c. c < frame_limit s \<Longrightarrow> frame_bit s' c \<longleftrightarrow> c \<noteq> f \<and> frame_bit s c"
  shows "next_frames n s' \<subseteq> insert f (next_frames n s)"
proof
  fix c assume c: "c \<in> next_frames n s'"
  have "card {b. b < c \<and> \<not> frame_bit s b} \<le> card {b. b < c \<and> \<not> frame_bit s' b}"
    using assms c by (intro card_mono) (auto simp: next_frames_def)
  with assms c show "c \<in> insert f (next_frames n s)" by (auto simp: next_frames_def)
qed

text \<open>
  A page below 1 GiB, where \<open>P2V\<close> does not wrap to the null pointer and bit 31 of an entry is clear,
  that the next \<open>n\<close> allocations do not take: its frame is in use, or lies above those they take.
\<close>

definition held :: "nat \<Rightarrow> 'a pmm_scheme \<Rightarrow> u32 \<Rightarrow> bool" where
  "held n s p \<longleftrightarrow> aligned p \<and> unat p < 2 ^ 30 \<and> unat p div 4096 \<notin> next_frames n s"

lemma held_mono: "m \<le> n \<Longrightarrow> held n s p \<Longrightarrow> held m s p"
  using next_frames_mono [of m n s] by (auto simp: held_def)

section \<open>Well-formed address spaces\<close>

definition bitmap_byte :: "'a pmm_scheme \<Rightarrow> u32 \<Rightarrow> bool" where
  "bitmap_byte s = in_range (mem_mngr s) (unat (mem_mngr_max_blocks s) div 8)"

text \<open>A frame of the managed memory that is in use.\<close>

definition pooled :: "'a pmm_scheme \<Rightarrow> u32 \<Rightarrow> bool" where
  "pooled s p \<longleftrightarrow> aligned p \<and> unat p div 4096 < frame_limit s \<and> frame_bit s (unat p div 4096)"

definition pde :: "('d, 'z) vmm_scheme \<Rightarrow> nat \<Rightarrow> u32" where
  "pde s i = entry (mem s) (cur_directory s) i"

text \<open>
  The address space is laid out well for \<open>n\<close> allocations: they take frames below 1 GiB, and neither
  the directory nor a table nor a part of the bitmap; the tables are pairwise distinct and none of
  them is the directory, the bitmap lies in none of these pages, and a directory entry that is not
  present is 0.
\<close>

definition table_ok :: "nat \<Rightarrow> ('d, 'z) vmm_scheme \<Rightarrow> u32 \<Rightarrow> bool" where
  "table_ok n s e \<longleftrightarrow>
     (if bit e 0 then held n s (page_frame e) \<and> P2V (page_frame e) \<noteq> cur_directory s \<and>
        (\<forall>x. bitmap_byte s x \<longrightarrow> page_frame x \<noteq> P2V (page_frame e))
      else e = 0)"

definition space_ok :: "nat \<Rightarrow> ('d, 'z) vmm_scheme \<Rightarrow> bool" where
  "space_ok n s \<longleftrightarrow> pmm_ok s \<and> 0 < frame_limit s \<and> (\<forall>f \<in> next_frames n s. f < 2 ^ 18) \<and> held n s (V2P (cur_directory s)) \<and>
     (\<forall>x. bitmap_byte s x \<longrightarrow> held n s (V2P (page_frame x)) \<and> page_frame x \<noteq> cur_directory s) \<and>
     (\<forall>i<1024. table_ok n s (pde s i)) \<and>
     (\<forall>i<1024. \<forall>j<1024. bit (pde s i) 0 \<longrightarrow> bit (pde s j) 0 \<longrightarrow>
        page_frame (pde s i) = page_frame (pde s j) \<longrightarrow> i = j)"

lemma frame_bit_bitmap:
  assumes "f < frame_limit s"
  shows "bitmap_byte s (mem_mngr s + of_nat (f div 8))"
proof -
  have "f div 8 < unat (mem_mngr_max_blocks s) div 8"
  proof -
    have "f < 8 * (4 * (unat (mem_mngr_max_blocks s) div 32))" using assms by (simp add: frame_limit_def)
    then have "f div 8 < 4 * (unat (mem_mngr_max_blocks s) div 32)" by (simp add: less_mult_imp_div_less mult.commute)
    also have "\<dots> \<le> unat (mem_mngr_max_blocks s) div 8"
      using div_mult2_eq [of "unat (mem_mngr_max_blocks s)" 8 4] by simp
    finally show ?thesis .
  qed
  moreover from this have "f div 8 < 2 ^ 32"
    using unat_lt32 [of "mem_mngr_max_blocks s"] by (simp add: div_le_dividend order.strict_trans2)
  ultimately show ?thesis by (simp add: bitmap_byte_def in_range_def unat_of_nat32)
qed

text \<open>Writes that avoid the bitmap leave the frames' state alone.\<close>

lemma frame_bit_cong:
  assumes "mem_mngr s' = mem_mngr s" "\<And>x. bitmap_byte s x \<Longrightarrow> mem s' x = mem s x" "f < frame_limit s"
  shows "frame_bit s' f \<longleftrightarrow> frame_bit s f"
  using assms(2) [OF frame_bit_bitmap [OF assms(3)]] by (simp add: frame_bit_byte assms(1))

lemma bitmap_byte_cong: "mem_mngr s' = mem_mngr s \<Longrightarrow> mem_mngr_max_blocks s' = mem_mngr_max_blocks s \<Longrightarrow>
  bitmap_byte s' = bitmap_byte s"
  by (simp add: bitmap_byte_def)

lemma pooled_cong:
  assumes "mem_mngr s' = mem_mngr s" "mem_mngr_max_blocks s' = mem_mngr_max_blocks s"
    "\<And>x. bitmap_byte s x \<Longrightarrow> mem s' x = mem s x"
  shows "pooled s' p \<longleftrightarrow> pooled s p"
proof -
  have "frame_limit s' = frame_limit s" using assms(2) by (simp add: frame_limit_def)
  then show ?thesis using frame_bit_cong [OF assms(1,3)] by (auto simp: pooled_def)
qed

lemma held_cong:
  assumes "mem_mngr s' = mem_mngr s" "mem_mngr_max_blocks s' = mem_mngr_max_blocks s"
    "\<And>x. bitmap_byte s x \<Longrightarrow> mem s' x = mem s x"
  shows "next_frames n s' = next_frames n s" "held n s' = held n s"
proof -
  have l: "frame_limit s' = frame_limit s" using assms(2) by (simp add: frame_limit_def)
  show "next_frames n s' = next_frames n s" by (rule next_frames_cong [OF l frame_bit_cong [OF assms(1,3)]])
  then show "held n s' = held n s" by (simp add: fun_eq_iff held_def)
qed

lemma pmm_ok_cong:
  assumes "mem_mngr s' = mem_mngr s" "mem_mngr_max_blocks s' = mem_mngr_max_blocks s"
    "\<And>x. bitmap_byte s x \<Longrightarrow> mem s' x = mem s x" "0 < frame_limit s"
  shows "pmm_ok s' \<longleftrightarrow> pmm_ok s"
  using frame_bit_cong [OF assms(1,3,4)] assms(2) by (simp add: pmm_ok_def)

section \<open>Effects of the entry operations\<close>

lemma store32_fields [simp]:
  "mem_mngr (store32 e v s) = mem_mngr s" "mem_mngr_max_blocks (store32 e v s) = mem_mngr_max_blocks s"
  "mem_mngr_used_blocks (store32 e v s) = mem_mngr_used_blocks s"
  "mem (store32 e v s) = wr32 (mem s) e v"
  "pmm.more (store32 e v s) = pmm.more s"
  by (simp_all add: store32_def)

lemma clear_page_fields [simp]:
  "mem_mngr (clear_page P s) = mem_mngr s" "mem_mngr_max_blocks (clear_page P s) = mem_mngr_max_blocks s"
  "mem (clear_page P s) = memset (mem s) P 0 4096"
  "pmm.more (clear_page P s) = pmm.more s"
  by (simp_all add: clear_page_def)

lemma vmm_fields_more:
  "pmm.more s' = pmm.more s \<Longrightarrow> cur_directory s' = cur_directory s"
  "pmm.more s' = pmm.more s \<Longrightarrow> kernel_directory s' = kernel_directory s"
  "pmm.more s' = pmm.more s \<Longrightarrow> dev s' = dev s"
  "pmm.more s' = pmm.more s \<Longrightarrow> vidmem s' = vidmem s"
  by (cases s; cases s'; simp)+

lemma load32_store32 [simp]: "load32 e (store32 e v s) = v"
  by (simp add: load32_def)

lemma store32_store32 [simp]: "store32 e v (store32 e w s) = store32 e v s"
  by (simp add: store32_def wr32_def fun_upd_twist)

text \<open>The value a mapping's entry gets: the frame and the flags present, writable, user.\<close>

definition entry_value :: "u32 \<Rightarrow> u32 \<Rightarrow> u32" where
  "entry_value old frame = ((old AND NOT 0x7FFFF000) OR frame) OR 7"

lemma new_pd_entry_eq: "new_pd_entry e t s = store32 e (entry_value (load32 e s) t) s"
  by (simp add: new_pd_entry_def pd_entry_set_frame_def pd_entry_add_attrib_def entry_value_def or.assoc)

lemma map_entry_eq:
  "map_entry phys virt e s =
     (let page = P2V (page_frame (load32 e s)) + 4 * of_nat (table_index virt)
      in store32 page (entry_value (load32 page s) phys) s)"
  by (simp add: map_entry_def pt_entry_set_frame_def pt_entry_add_attrib_def entry_value_def or.assoc
      PAGE_TABLE_INDEX_eq)

lemma bit_entry_value_0: "bit (entry_value old frame) 0"
  by (simp add: entry_value_def bit_simps)

lemma page_frame_entry_value:
  assumes "aligned frame" "\<not> bit old 31 \<or> bit frame 31"
  shows "page_frame (entry_value old frame) = frame"
proof -
  have f: "\<not> bit frame n" if "n < 12" for n
  proof -
    have "frame = frame AND NOT (mask 12)"
      using page_frame_aligned [OF assms(1)] by (simp add: page_frame_def mask_eq_exp_minus_1)
    then have "bit frame n = bit (frame AND NOT (mask 12)) n" by simp
    with that show ?thesis by (simp add: bit_simps)
  qed
  have m: "(0xfff :: u32) = mask 12" "(0x7FFFF000 :: u32) = mask 31 AND NOT (mask 12)" "(7 :: u32) = mask 3"
    by (simp_all add: mask_eq_exp_minus_1)
  show ?thesis
    unfolding page_frame_def entry_value_def m
  proof (rule bit_word_eqI)
    fix n assume "n < LENGTH(32)"
    then consider "n < 12" | "12 \<le> n" "n < 31" | "n = 31" by fastforce
    then show "bit ((((old AND NOT (mask 31 AND NOT (mask 12))) OR frame) OR mask 3) AND NOT (mask 12)) n
        = bit frame n"
      by cases (use f assms(2) in \<open>auto simp: bit_simps\<close>)
  qed
qed

section \<open>Address spaces under the operations\<close>

lemma table_ok_mono: "m \<le> n \<Longrightarrow> table_ok n s e \<Longrightarrow> table_ok m s e"
  using held_mono by (auto simp: table_ok_def split: if_splits)

lemma space_ok_mono: "m \<le> n \<Longrightarrow> space_ok n s \<Longrightarrow> space_ok m s"
proof -
  assume m: "m \<le> n" "space_ok n s"
  then have "\<forall>f \<in> next_frames m s. f < 2 ^ 18" "held m s (V2P (cur_directory s))"
    "\<forall>i<1024. table_ok m s (pde s i)" "\<And>x. bitmap_byte s x \<Longrightarrow> held m s (V2P (page_frame x))"
    using next_frames_mono [of m n s] by (auto simp: space_ok_def elim!: held_mono table_ok_mono)
  with m(2) show ?thesis by (simp add: space_ok_def)
qed

lemma space_ok_parts:
  assumes "space_ok n s"
  shows "pmm_ok s" "0 < frame_limit s" "f \<in> next_frames n s \<Longrightarrow> f < 2 ^ 18"
  using assms by (simp_all add: space_ok_def)

lemma space_dir:
  assumes "space_ok n s"
  shows "aligned (cur_directory s)" "held n s (V2P (cur_directory s))"
  using assms aligned_P2V [of "V2P (cur_directory s)"] by (simp_all add: space_ok_def held_def)

lemma space_table:
  assumes "space_ok n s" "i < 1024" "bit (pde s i) 0"
  shows "held n s (page_frame (pde s i))" "P2V (page_frame (pde s i)) \<noteq> cur_directory s"
    "bitmap_byte s x \<Longrightarrow> page_frame x \<noteq> P2V (page_frame (pde s i))"
  using assms by (auto simp: space_ok_def table_ok_def dest!: spec [of _ i])

lemma space_inj:
  assumes "space_ok n s" "i < 1024" "j < 1024" "bit (pde s i) 0" "bit (pde s j) 0"
    "page_frame (pde s i) = page_frame (pde s j)"
  shows "i = j"
  using assms unfolding space_ok_def by blast

lemma space_bitmap:
  assumes "space_ok n s" "bitmap_byte s x"
  shows "held n s (V2P (page_frame x))" "page_frame x \<noteq> cur_directory s"
  using assms by (auto simp: space_ok_def)

lemma table_aligned [simp]: "aligned (P2V (page_frame e))"
  by (rule aligned_P2V) simp

lemma pde_cong:
  assumes "space_ok n s" "cur_directory s' = cur_directory s"
    "\<And>x. page_frame x = cur_directory s \<Longrightarrow> mem s' x = mem s x" "i < 1024"
  shows "pde s' i = pde s i"
  unfolding pde_def assms(2) using assms(3,4) space_dir [OF assms(1)] by (intro entry_cong) auto

text \<open>Writes that avoid the bitmap and the directory.\<close>

lemma space_ok_cong:
  assumes "space_ok n s" "mem_mngr s' = mem_mngr s" "mem_mngr_max_blocks s' = mem_mngr_max_blocks s"
    "cur_directory s' = cur_directory s"
    "\<And>x. bitmap_byte s x \<or> page_frame x = cur_directory s \<Longrightarrow> mem s' x = mem s x"
  shows "space_ok n s'" "held m s' = held m s" "next_frames m s' = next_frames m s" "pooled s' = pooled s"
proof -
  show p: "held m s' = held m s" "next_frames m s' = next_frames m s" for m
    using assms(2,3,5) by (intro held_cong; simp)+
  show "pooled s' = pooled s" using assms(2,3,5) by (intro ext pooled_cong) auto
  have b: "bitmap_byte s' = bitmap_byte s" using assms(2,3) by (rule bitmap_byte_cong)
  have e: "pde s' i = pde s i" if "i < 1024" for i
    using assms that by (intro pde_cong) auto
  have "pmm_ok s'"
    using assms by (subst pmm_ok_cong [where s = s]) (auto simp: space_ok_def)
  moreover have "frame_limit s' = frame_limit s" using assms(3) by (simp add: frame_limit_def)
  ultimately show "space_ok n s'"
    using assms(1) by (simp add: space_ok_def table_ok_def p b e assms(4) cong: if_cong)
qed

lemma alloc_frame_facts:
  assumes "pmm_ok s" "alloc_memory_block s = (t, s1)" "t \<noteq> 0"
  shows "pmm_ok s1" "aligned t" "\<not> pooled s t" "pooled s1 p \<longleftrightarrow> p = t \<or> pooled s p"
    "\<not> bitmap_byte s x \<Longrightarrow> mem s1 x = mem s x"
    "mem_mngr s1 = mem_mngr s" "mem_mngr_max_blocks s1 = mem_mngr_max_blocks s" "pmm.more s1 = pmm.more s"
    "unat t div 4096 \<in> next_frames (Suc n) s" "next_frames n s1 = next_frames (Suc n) s - {unat t div 4096}"
    "\<not> held (Suc n) s t" "held (Suc n) s p \<Longrightarrow> held n s1 p"
proof -
  obtain f where f: "0 < f" "f < frame_limit s" "f < 2 ^ 20" "\<not> frame_bit s f"
    "s1 = (mmap_set (int f) s)\<lparr>mem_mngr_used_blocks := mem_mngr_used_blocks s + 1\<rparr>" "t = frame_addr f"
    "\<forall>b<f. frame_bit s b"
    using assms(1)
  proof (cases rule: alloc_memory_block_cases)
    case none
    with assms show ?thesis by simp
  next
    case (frame f)
    with assms(2) that show ?thesis by simp
  qed
  have u: "unat t = 4096 * f" using f by (simp only: unat_frame_addr)
  then show a: "aligned t" by (simp add: aligned_def)
  show "mem_mngr s1 = mem_mngr s" "mem_mngr_max_blocks s1 = mem_mngr_max_blocks s"
    by (simp_all add: f(5))
  show "pmm.more s1 = pmm.more s" by (simp add: f(5) mmap_set_def)
  show "pmm_ok s1" unfolding f(5) using assms(1) f(3) by (rule pmm_ok_alloc)
  show "\<not> pooled s t" using f(4) u by (simp add: pooled_def)
  have l: "frame_limit s1 = frame_limit s" by (simp add: f(5))
  have bits: "frame_bit s1 c \<longleftrightarrow> c = f \<or> frame_bit s c" if "c < frame_limit s" for c
    using that frame_limit_bound(1) [of s] assms(1) alloc_frame_bit [OF f(3), where c = c and s = s]
    by (simp add: f(5) pmm_ok_def)
  have uf: "unat t div 4096 = f" by (simp add: u)
  note up = next_frames_alloc [OF f(2,4,7) l bits, folded uf]
  show "unat t div 4096 \<in> next_frames (Suc n) s" "next_frames n s1 = next_frames (Suc n) s - {unat t div 4096}"
    by (rule up(2), assumption, rule up(1), assumption)
  then show "\<not> held (Suc n) s t" "held (Suc n) s p \<Longrightarrow> held n s1 p" by (simp_all add: held_def)
  note l
  moreover have "unat p div 4096 = f \<longleftrightarrow> p = t" if "aligned p" for p
    using that a by (auto simp: aligned_def word_unat_eq_iff u)
  ultimately show "pooled s1 p \<longleftrightarrow> p = t \<or> pooled s p"
    using a f(2,3) u alloc_frame_bit [OF f(3) unat_div_frame, of p s]
    by (auto simp: pooled_def f(5))
  show "mem s1 x = mem s x" if "\<not> bitmap_byte s x"
  proof -
    have "f div 32 < unat (mem_mngr_max_blocks s) div 32"
      using f(2) by (simp add: frame_limit_def less_mult_imp_div_less mult.commute)
    moreover have "4 * (unat (mem_mngr_max_blocks s) div 32) \<le> unat (mem_mngr_max_blocks s) div 8"
      using div_mult2_eq [of "unat (mem_mngr_max_blocks s)" 8 4] by simp
    ultimately have "\<not> in_range (mem_mngr s) (4 * (f div 32) + 4) x"
      using that by (auto simp: bitmap_byte_def in_range_def)
    then show ?thesis using f(3) mmap_mem_outside(1) [of f s x] by (simp add: f(5))
  qed
qed

lemma walk_cong:
  assumes "aligned dir"
    "\<And>x. page_frame x = dir \<Longrightarrow> m' x = m x"
    "\<And>i x. i < 1024 \<Longrightarrow> bit (entry m dir i) 0 \<Longrightarrow> page_frame x = P2V (page_frame (entry m dir i)) \<Longrightarrow> m' x = m x"
  shows "walk m' dir va = walk m dir va"
proof -
  let ?e = "entry m dir (dir_index va)"
  have e: "entry m' dir (dir_index va) = ?e" using assms(1,2) by (intro entry_cong) auto
  have "entry m' (P2V (page_frame ?e)) (table_index va) = entry m (P2V (page_frame ?e)) (table_index va)" if "bit ?e 0"
    using that assms(3) [of "dir_index va"] by (intro entry_cong) auto
  then show ?thesis by (simp add: walk_def e Let_def)
qed

lemma space_alloc:
  fixes s :: "('d, 'z) vmm_scheme"
  assumes "space_ok (Suc n) s" "alloc_memory_block s = (t, s1)" "t \<noteq> 0"
  shows "space_ok n s1" "translate s1 = translate s" "cur_directory s1 = cur_directory s"
    "i < 1024 \<Longrightarrow> pde s1 i = pde s i"
    "P2V t \<noteq> cur_directory s" "bitmap_byte s x \<Longrightarrow> page_frame x \<noteq> P2V t"
    "i < 1024 \<Longrightarrow> bit (pde s i) 0 \<Longrightarrow> page_frame (pde s i) \<noteq> t"
proof -
  have ok: "pmm_ok s" using assms(1) by (simp add: space_ok_def)
  note a = alloc_frame_facts [OF ok assms(2,3)]
  show dir: "cur_directory s1 = cur_directory s" using a(8) by (rule vmm_fields_more)
  have b: "bitmap_byte s1 = bitmap_byte s" using a(6,7) by (rule bitmap_byte_cong)
  note p = a(12)
  show e: "pde s1 i = pde s i" if "i < 1024" for i
    using that a(5) space_bitmap(2) [OF assms(1)] by (intro pde_cong [OF assms(1) dir]) blast
  have "table_ok n s1 (pde s1 i)" if "i < 1024" for i
    using that assms(1) p by (auto simp: space_ok_def table_ok_def b e dir)
  moreover have "frame_limit s1 = frame_limit s" using a(7) by (simp add: frame_limit_def)
  ultimately show "space_ok n s1" using assms(1) a(1) p a(10) by (auto simp: space_ok_def b e dir)
  show "P2V t \<noteq> cur_directory s"
    using space_dir(2) [OF assms(1)] a(11) by (metis P2V_V2P(2))
  show "page_frame x \<noteq> P2V t" if "bitmap_byte s x" for x
    using space_bitmap(1) [OF assms(1) that] a(11) by (metis P2V_V2P(2))
  show "page_frame (pde s i) \<noteq> t" if "i < 1024" "bit (pde s i) 0" for i
    using space_table(1) [OF assms(1) that] a(11) by metis
  show "translate s1 = translate s"
  proof (rule ext)
    fix va
    show "translate s1 va = translate s va"
      unfolding translate_def dir
      using a(5) space_bitmap(2) [OF assms(1)] space_table(3) [OF assms(1)]
      by (intro walk_cong space_dir [OF assms(1)]) (auto simp: pde_def)
  qed
qed

lemma pde_load: "load32 (cur_directory s + 4 * of_nat i) s = pde s i"
  by (simp add: load32_def pde_def entry_def)

lemma translate_pde:
  "translate s va = (let e = pde s (dir_index va); pte = entry (mem s) (P2V (page_frame e)) (table_index va)
     in if bit e 0 \<and> bit pte 0 then Some (page_frame pte OR (va AND 0xfff)) else None)"
  by (simp add: translate_def walk_def pde_def Let_def)

lemma space_new_table:
  fixes s :: "('d, 'z) vmm_scheme"
  assumes "space_ok (Suc n) s" "alloc_memory_block s = (t, s1)" "t \<noteq> 0" "k < 1024" "\<not> bit (pde s k) 0"
  defines "s3 \<equiv> new_pd_entry (cur_directory s + 4 * of_nat k) t (clear_page (P2V t) s1)"
  shows "space_ok n s3" "translate s3 = translate s" "cur_directory s3 = cur_directory s"
    "i < 1024 \<Longrightarrow> pde s3 i = (if i = k then entry_value 0 t else pde s i)"
    "j < 1024 \<Longrightarrow> entry (mem s3) (P2V t) j = 0"
    "pooled s3 p \<longleftrightarrow> p = t \<or> pooled s p" "next_frames m s3 = next_frames m s1"
    "page_frame x \<noteq> cur_directory s \<Longrightarrow> page_frame x \<noteq> P2V t \<Longrightarrow> \<not> bitmap_byte s x \<Longrightarrow> mem s3 x = mem s x"
proof -
  define s2 where "s2 = clear_page (P2V t) s1"
  have ok: "pmm_ok s" using assms(1) by (simp add: space_ok_def)
  note a = alloc_frame_facts [OF ok assms(2,3)]
  note sa = space_alloc [OF assms(1-3)]
  have T: "aligned (P2V t)" using a(2) by (rule aligned_P2V)
  have D: "aligned (cur_directory s)" by (rule space_dir [OF assms(1)])
  have dir2: "cur_directory s2 = cur_directory s" unfolding s2_def using sa(3) by (metis clear_page_fields(4) vmm_fields_more(1))
  have b1: "bitmap_byte s1 = bitmap_byte s" using a(6,7) by (rule bitmap_byte_cong)
  have m2: "mem s2 x = (if page_frame x = P2V t then 0 else mem s1 x)" for x
    by (simp add: s2_def memset_page [OF T])
  have same2: "mem s2 x = mem s1 x" if "bitmap_byte s1 x \<or> page_frame x = cur_directory s1" for x
    using that sa(3,5,6) by (auto simp: m2 b1)
  have "cur_directory s2 = cur_directory s1" using dir2 sa(3) by simp
  note ok2 = space_ok_cong [OF sa(1) _ _ this same2, unfolded s2_def clear_page_fields, OF refl refl, folded s2_def]
  have e2: "pde s2 i = pde s i" if "i < 1024" for i
  proof -
    have "pde s2 i = pde s1 i"
      using that sa(3,5) by (intro pde_cong [OF sa(1)]) (auto simp: m2 dir2)
    with sa(4) that show ?thesis by simp
  qed
  have zero: "pde s k = 0"
    using assms(1,4,5) by (simp add: space_ok_def table_ok_def)
  have s3: "s3 = store32 (cur_directory s + 4 * of_nat k) (entry_value 0 t) s2"
    using e2 [OF assms(4)] pde_load [of s2 k] zero
    by (simp add: s3_def new_pd_entry_eq s2_def [symmetric] dir2)
  show dir3: "cur_directory s3 = cur_directory s" unfolding s3 using dir2 by (metis store32_fields(5) vmm_fields_more(1))
  have m3: "mem s3 x = mem s2 x" if "page_frame x \<noteq> cur_directory s" for x
    using that entry_byte [OF assms(4) D] by (auto simp: s3 intro!: wr32_outside)
  show keep: "mem s3 x = mem s x" if "page_frame x \<noteq> cur_directory s" "page_frame x \<noteq> P2V t" "\<not> bitmap_byte s x" for x
    using that a(5) by (simp add: m3 m2)
  show e3: "pde s3 i = (if i = k then entry_value 0 t else pde s i)" if "i < 1024" for i
    using that e2 assms(4) D unfolding pde_def dir3 by (simp add: s3 entry_wr32 pde_def dir2 cong: if_cong)
  show zeros: "entry (mem s3) (P2V t) j = 0" if "j < 1024" for j
  proof -
    have "entry (mem s3) (P2V t) j = entry (mem s2) (P2V t) j"
      using that sa(5) m3 T by (intro entry_cong) auto
    also have "\<dots> = entry (\<lambda>_. 0) (P2V t) j"
      using that T by (intro entry_cong) (auto simp: m2)
    finally show ?thesis by (simp add: entry_def rd32_def)
  qed
  have b2: "bitmap_byte s2 = bitmap_byte s" using a(6,7) by (simp add: s2_def bitmap_byte_def)
  have b3: "bitmap_byte s3 = bitmap_byte s" using b2 by (simp add: s3 bitmap_byte_def)
  have far: "mem s3 x = mem s2 x" if "bitmap_byte s2 x" for x
    using that m3 space_bitmap(2) [OF ok2(1)] by (simp add: dir2)
  have p3: "pooled s3 = pooled s2" using far by (intro ext pooled_cong) (simp_all add: s3)
  then show p: "pooled s3 p \<longleftrightarrow> p = t \<or> pooled s p" for p
    by (simp add: ok2(4) a(4))
  have h3: "next_frames m s3 = next_frames m s2" "held m s3 = held m s2" for m
    using far by (intro held_cong; simp add: s3)+
  then show up: "next_frames m s3 = next_frames m s1" for m by (simp add: ok2(3))
  have h: "held n s3 p" if "held (Suc n) s p \<or> p = t" for p
  proof -
    have "unat t div 4096 < 2 ^ 18" using a(9) space_ok_parts(3) [OF assms(1)] by blast
    then have "unat t < 2 ^ 30" by simp
    then have "held n s1 t" using a(2,10) by (simp add: held_def)
    with that a(12) show ?thesis by (auto simp: h3 ok2(2))
  qed
  have pf: "page_frame (entry_value 0 t) = t" using a(2) by (intro page_frame_entry_value) auto
  have "pmm_ok s3" "0 < frame_limit s3"
    using space_ok_parts(1,2) [OF ok2(1)] far
    by (subst pmm_ok_cong [where s = s2]; simp add: s3) (use space_ok_parts(2) [OF ok2(1)] in \<open>simp add: s3 frame_limit_def\<close>)
  moreover have "table_ok n s3 (pde s3 i)" if "i < 1024" for i
  proof (cases "i = k")
    case True
    then show ?thesis
      using that sa(5,6) h by (auto simp: table_ok_def e3 pf b3 dir3 bit_entry_value_0)
  next
    case False
    have "table_ok (Suc n) s (pde s i)" using assms(1) that by (simp add: space_ok_def)
    with False show ?thesis using that h by (auto simp: table_ok_def e3 b3 dir3 split: if_splits)
  qed
  moreover have "i = j" if "i < 1024" "j < 1024" "bit (pde s3 i) 0" "bit (pde s3 j) 0"
    "page_frame (pde s3 i) = page_frame (pde s3 j)" for i j
  proof (cases "i = k \<or> j = k")
    case True
    then show ?thesis using that sa(7) by (auto simp: e3 pf split: if_splits)
  next
    case False
    then show ?thesis using that assms(1) by (auto simp: e3 space_ok_def)
  qed
  moreover have "\<forall>f \<in> next_frames n s3. f < 2 ^ 18"
    using a(10) space_ok_parts(3) [OF assms(1)] by (simp add: up)
  ultimately show "space_ok n s3"
    using assms(1) h unfolding space_ok_def b3 dir3 by blast
  show "translate s3 = translate s"
  proof (rule ext)
    fix va
    let ?i = "dir_index va"
    show "translate s3 va = translate s va"
    proof (cases "?i = k")
      case True
      have "entry (mem s3) (P2V t) (table_index va) = 0"
        by (rule zeros) simp
      then show ?thesis using True assms(4,5) by (simp add: translate_pde Let_def e3 pf)
    next
      case False
      have "entry (mem s3) (P2V (page_frame (pde s ?i))) (table_index va)
          = entry (mem s) (P2V (page_frame (pde s ?i))) (table_index va)" if "bit (pde s ?i) 0"
        using sa(7) [OF dir_index_less that] space_table(2,3) [OF assms(1) dir_index_less that]
        by (intro entry_cong keep) auto
      then show ?thesis using False by (cases "bit (pde s ?i) 0") (simp_all add: translate_pde Let_def e3)
    qed
  qed
qed

lemma space_map_entry:
  fixes s :: "('d, 'z) vmm_scheme"
  assumes "space_ok n s" "bit (pde s (dir_index virt)) 0" "aligned phys"
    "\<not> bit (entry (mem s) (P2V (page_frame (pde s (dir_index virt)))) (table_index virt)) 31 \<or> bit phys 31"
  defines "s' \<equiv> map_entry phys virt (cur_directory s + 4 * of_nat (dir_index virt)) s"
  shows "space_ok n s'" "cur_directory s' = cur_directory s"
    "i < 1024 \<Longrightarrow> pde s' i = pde s i"
    "translate s' va = (if page_frame va = page_frame virt then Some (phys OR (va AND 0xfff)) else translate s va)"
    "pooled s' p \<longleftrightarrow> pooled s p" "next_frames m s' = next_frames m s"
proof -
  let ?k = "dir_index virt" and ?j = "table_index virt"
  let ?P = "P2V (page_frame (pde s ?k))"
  let ?v = "entry_value (entry (mem s) ?P ?j) phys"
  have k: "?k < 1024" by simp
  have s': "s' = store32 (?P + 4 * of_nat ?j) ?v s"
    by (simp only: s'_def map_entry_eq pde_load Let_def) (simp add: load32_def entry_def)
  note tb = space_table [OF assms(1) k assms(2)]
  show dir: "cur_directory s' = cur_directory s" by (rule vmm_fields_more) (simp add: s')
  have m: "mem s' x = mem s x" if "page_frame x \<noteq> ?P" for x
    using that entry_byte [of ?j ?P x] by (auto simp: s' intro!: wr32_outside)
  have "mem_mngr s' = mem_mngr s" "mem_mngr_max_blocks s' = mem_mngr_max_blocks s" by (simp_all add: s')
  moreover have "mem s' x = mem s x" if "bitmap_byte s x \<or> page_frame x = cur_directory s" for x
    using that tb(2,3) by (intro m) auto
  ultimately have "space_ok n s' \<and> next_frames m s' = next_frames m s \<and> pooled s' = pooled s"
    by (intro conjI; rule space_ok_cong [OF assms(1) _ _ dir]; assumption?; blast?)
  then show "space_ok n s'" "next_frames m s' = next_frames m s" "pooled s' p \<longleftrightarrow> pooled s p" by simp_all
  show pde: "pde s' i = pde s i" if "i < 1024" for i
    using that tb(2) by (intro pde_cong [OF assms(1) dir] m) auto
  have val: "bit ?v 0" "page_frame ?v = phys"
    using page_frame_entry_value [OF assms(3,4)] by (simp_all add: bit_entry_value_0)
  show "translate s' va = (if page_frame va = page_frame virt then Some (phys OR (va AND 0xfff)) else translate s va)"
  proof (cases "bit (pde s (dir_index va)) 0")
    case False
    then have "dir_index va \<noteq> ?k" using assms(2) by auto
    with False show ?thesis by (simp add: translate_pde same_page_iff pde Let_def)
  next
    case True
    let ?Q = "P2V (page_frame (pde s (dir_index va)))"
    have "?Q = ?P \<longleftrightarrow> dir_index va = ?k"
      using assms(1,2) True by (auto simp: space_ok_def)
    moreover have "entry (mem s') ?Q (table_index va)
        = (if ?Q = ?P \<and> table_index va = ?j then ?v else entry (mem s) ?Q (table_index va))"
      by (simp add: s' entry_wr32)
    ultimately show ?thesis
      using True val by (cases "dir_index va = ?k \<and> table_index va = ?j")
        (auto simp: translate_pde same_page_iff pde Let_def)
  qed
qed

text \<open>
  \<open>vmmngr_map_page\<close> when its directory entry is present, or when a frame for a new table is left.
\<close>

definition can_map :: "('d, 'z) vmm_scheme \<Rightarrow> u32 \<Rightarrow> bool" where
  "can_map s virt \<longleftrightarrow>
     (if bit (pde s (dir_index virt)) 0
      then \<not> bit (entry (mem s) (P2V (page_frame (pde s (dir_index virt)))) (table_index virt)) 31
      else fst (alloc_memory_block s) \<noteq> 0)"

lemma and_1_eq_0: "(e :: u32) AND 1 = 0 \<longleftrightarrow> \<not> bit e 0"
  by (simp add: and_one_eq bit_0 even_iff_mod_2_eq_zero)

lemma map_page_cases:
  assumes "phys \<noteq> 0" "virt \<noteq> 0"
  shows "vmmngr_map_page phys virt s =
    (let e = cur_directory s + 4 * of_nat (dir_index virt) in
     if bit (pde s (dir_index virt)) 0 then map_entry phys virt e s
     else let t = fst (alloc_memory_block s); s1 = snd (alloc_memory_block s) in
       if P2V t = 0 then s1 else map_entry phys virt e (new_pd_entry e t (clear_page (P2V t) s1)))"
  using assms
  by (simp add: vmmngr_map_page_def vmmngr_get_directory_def PAGE_DIRECTORY_INDEX_eq pde_load and_1_eq_0 Let_def
      split: prod.splits)

lemma alloc_fields [simp]:
  "mem_mngr (snd (alloc_memory_block s)) = mem_mngr s"
  "mem_mngr_max_blocks (snd (alloc_memory_block s)) = mem_mngr_max_blocks s"
  "pmm.more (snd (alloc_memory_block s)) = pmm.more s"
  by (simp_all add: alloc_memory_block_def Let_def) (simp add: mmap_set_def)

lemma map_page_fields [simp]:
  "mem_mngr (vmmngr_map_page phys virt s) = mem_mngr s"
  "mem_mngr_max_blocks (vmmngr_map_page phys virt s) = mem_mngr_max_blocks s"
  "pmm.more (vmmngr_map_page phys virt s) = pmm.more s"
  by (simp_all add: vmmngr_map_page_def map_entry_eq new_pd_entry_eq Let_def split: prod.splits)
    (metis alloc_fields snd_conv)+

lemma map_page_space:
  fixes s :: "('d, 'z) vmm_scheme"
  assumes "space_ok (if bit (pde s (dir_index virt)) 0 then n else Suc n) s" "phys \<noteq> 0" "virt \<noteq> 0" "aligned phys" "can_map s virt"
    and "\<not> bit (pde s (dir_index virt)) 0 \<longrightarrow> P2V (fst (alloc_memory_block s)) \<noteq> 0"
  defines "s' \<equiv> vmmngr_map_page phys virt s"
  shows "space_ok n s' \<and> cur_directory s' = cur_directory s \<and>
    (\<forall>va. translate s' va = (if page_frame va = page_frame virt then Some (phys OR (va AND 0xfff)) else translate s va)) \<and>
    (\<forall>p. pooled s' p \<longleftrightarrow>
      pooled s p \<or> \<not> bit (pde s (dir_index virt)) 0 \<and> p = fst (alloc_memory_block s)) \<and>
    next_frames m s' = (if bit (pde s (dir_index virt)) 0 then next_frames m s else next_frames m (snd (alloc_memory_block s)))"
proof (cases "bit (pde s (dir_index virt)) 0")
  case True
  then have "s' = map_entry phys virt (cur_directory s + 4 * of_nat (dir_index virt)) s"
    using assms(2,3) by (simp add: s'_def map_page_cases)
  with True show ?thesis
    using space_map_entry [OF _ True assms(4)] assms(1,5) by (simp add: can_map_def)
next
  case False
  define t s1 where "t = fst (alloc_memory_block s)" and "s1 = snd (alloc_memory_block s)"
  define s3 where "s3 = new_pd_entry (cur_directory s + 4 * of_nat (dir_index virt)) t (clear_page (P2V t) s1)"
  have a: "alloc_memory_block s = (t, s1)" "t \<noteq> 0" "P2V t \<noteq> 0"
    using assms(5,6) False by (auto simp: t_def s1_def can_map_def)
  have ok: "space_ok (Suc n) s" using assms(1) False by simp
  note n = space_new_table [OF ok a(1,2) dir_index_less False, folded s3_def]
  have pf: "page_frame (entry_value 0 t) = t"
    using alloc_frame_facts(2) [OF space_ok_parts(1) [OF ok] a(1,2)] by (intro page_frame_entry_value) simp_all
  have e: "pde s3 (dir_index virt) = entry_value 0 t" using n(4) by simp
  have b: "bit (pde s3 (dir_index virt)) 0" by (simp add: e bit_entry_value_0)
  have "\<not> bit (entry (mem s3) (P2V (page_frame (pde s3 (dir_index virt)))) (table_index virt)) 31"
    by (simp add: e pf n(5))
  note m0 = space_map_entry [OF n(1) b assms(4) disjI1 [OF this]]
  have s': "s' = map_entry phys virt (cur_directory s3 + 4 * of_nat (dir_index virt)) s3"
    using assms(2,3) a False by (simp add: s'_def map_page_cases s3_def [symmetric] n(3))
  note m = m0 [folded s']
  show ?thesis
    unfolding m(2,4,5,6) n(2,3,6,7) using m(1) False by (auto simp: t_def s1_def)
qed

section \<open>Freeing a page\<close>

lemma free_frame_facts:
  assumes "pmm_ok s" "pooled s t" "t \<noteq> 0"
  shows "pmm_ok (free_memory_block t s)" "pooled (free_memory_block t s) p \<longleftrightarrow> p \<noteq> t \<and> pooled s p"
    "\<not> bitmap_byte s x \<Longrightarrow> mem (free_memory_block t s) x = mem s x"
    "mem_mngr (free_memory_block t s) = mem_mngr s"
    "mem_mngr_max_blocks (free_memory_block t s) = mem_mngr_max_blocks s"
    "pmm.more (free_memory_block t s) = pmm.more s"
    "next_frames n (free_memory_block t s) \<subseteq> insert (unat t div 4096) (next_frames n s)"
proof -
  define f where "f = unat t div 4096"
  have f: "f < 2 ^ 20" "f < frame_limit s" unfolding f_def using unat_div_frame assms(2) by (auto simp: pooled_def)
  have t: "t = frame_addr f" using assms(2) frame_addr_unat [of t] by (simp add: f_def pooled_def aligned_def)
  have f0: "f \<noteq> 0" using assms(3) f(1) by (auto simp: t frame_addr_0_iff)
  have eq: "free_memory_block t s = (mmap_unset (int f) s)\<lparr>mem_mngr_used_blocks := mem_mngr_used_blocks s - 1\<rparr>"
    unfolding t by (rule free_memory_block_frame [OF f(1)])
  show "pmm_ok (free_memory_block t s)" unfolding t by (rule pmm_ok_free [OF assms(1) f(1) f0])
  show "mem_mngr (free_memory_block t s) = mem_mngr s"
    "mem_mngr_max_blocks (free_memory_block t s) = mem_mngr_max_blocks s"
    "pmm.more (free_memory_block t s) = pmm.more s"
    by (simp_all add: eq) (simp add: mmap_unset_def)
  have l: "frame_limit (free_memory_block t s) = frame_limit s" by (simp add: eq)
  have bits: "frame_bit (free_memory_block t s) c \<longleftrightarrow> c \<noteq> f \<and> frame_bit s c" if "c < frame_limit s" for c
    using that frame_limit_bound(1) [of s] assms(1) frame_bit_unset [of f c s] f(1) by (simp add: eq pmm_ok_def)
  show "next_frames n (free_memory_block t s) \<subseteq> insert (unat t div 4096) (next_frames n s)"
    using next_frames_free [OF l bits] by (simp add: f_def)
  note l
  moreover have "unat p div 4096 = f \<longleftrightarrow> p = t" if "aligned p" for p
    using that t f(1) frame_addr_unat [of p] by (auto simp: aligned_def f_def)
  ultimately show "pooled (free_memory_block t s) p \<longleftrightarrow> p \<noteq> t \<and> pooled s p"
    using frame_bit_unset [of f "unat p div 4096" s] unat_div_frame [of p] f(1) by (auto simp: pooled_def eq)
  show "mem (free_memory_block t s) x = mem s x" if "\<not> bitmap_byte s x"
  proof -
    have "f div 32 < unat (mem_mngr_max_blocks s) div 32"
      using f(2) by (simp add: frame_limit_def less_mult_imp_div_less mult.commute)
    moreover have "4 * (unat (mem_mngr_max_blocks s) div 32) \<le> unat (mem_mngr_max_blocks s) div 8"
      using div_mult2_eq [of "unat (mem_mngr_max_blocks s)" 8 4] by simp
    ultimately have "\<not> in_range (mem_mngr s) (4 * (f div 32) + 4) x"
      using that by (auto simp: bitmap_byte_def in_range_def)
    then show ?thesis using f(1) mmap_mem_outside(2) [of f s x] by (simp add: eq)
  qed
qed

text \<open>A frame the kernel's own structures use: the directory, a table, or a part of the bitmap.\<close>

definition structural :: "('d, 'z) vmm_scheme \<Rightarrow> u32 \<Rightarrow> bool" where
  "structural s p \<longleftrightarrow> P2V p = cur_directory s \<or> (\<exists>i<1024. bit (pde s i) 0 \<and> page_frame (pde s i) = p) \<or>
     (\<exists>x. bitmap_byte s x \<and> page_frame x = P2V p)"

text \<open>The entry that maps \<open>va\<close>.\<close>

definition pte_of :: "('d, 'z) vmm_scheme \<Rightarrow> u32 \<Rightarrow> u32" where
  "pte_of s va = entry (mem s) (P2V (page_frame (pde s (dir_index va)))) (table_index va)"

definition pte_addr :: "('d, 'z) vmm_scheme \<Rightarrow> u32 \<Rightarrow> u32" where
  "pte_addr s va = vmmngr_ptable_lookup_entry
     (P2V (page_frame (load32 (vmmngr_pdirectory_lookup_entry (cur_directory s) va) s))) va"

lemma translate_pte:
  "translate s va = (if bit (pde s (dir_index va)) 0 \<and> bit (pte_of s va) 0
     then Some (page_frame (pte_of s va) OR (va AND 0xfff)) else None)"
  by (simp add: translate_pde pte_of_def Let_def)

lemma pte_addr_eq:
  assumes "cur_directory s \<noteq> 0" "P2V (page_frame (pde s (dir_index va))) \<noteq> 0"
  shows "pte_addr s va = P2V (page_frame (pde s (dir_index va))) + 4 * of_nat (table_index va)"
  using assms
  by (simp add: pte_addr_def vmmngr_ptable_lookup_entry_def vmmngr_pdirectory_lookup_entry_def
      PAGE_DIRECTORY_INDEX_eq PAGE_TABLE_INDEX_eq pde_load)

lemma pfn_low: "\<not> bit e 31 \<Longrightarrow> pt_entry_pfn e = page_frame e"
proof -
  assume h: "\<not> bit e 31"
  have m: "(0xfff :: u32) = mask 12" "(0x7FFFF000 :: u32) = mask 31 AND NOT (mask 12)"
    by (simp_all add: mask_eq_exp_minus_1)
  show ?thesis unfolding pt_entry_pfn_def page_frame_def m
  proof (rule bit_word_eqI)
    fix n assume "n < LENGTH(32)"
    then consider "n < 31" | "n = 31" by fastforce
    then show "bit (e AND (mask 31 AND NOT (mask 12))) n = bit (e AND NOT (mask 12)) n"
      by cases (use h in \<open>auto simp: bit_simps\<close>)
  qed
qed

lemma bit_del_present: "bit (e AND NOT 1) n \<longleftrightarrow> bit (e :: u32) n \<and> n \<noteq> 0"
  by (auto simp: bit_simps dest: bit_imp_le_length)

lemma free_page_space:
  fixes s :: "('d, 'z) vmm_scheme"
  assumes "space_ok n s" "bit (pde s (dir_index va)) 0" "\<not> bit (pte_of s va) 31"
    "pooled s (page_frame (pte_of s va))" "page_frame (pte_of s va) \<noteq> 0"
    "unat (page_frame (pte_of s va)) < 2 ^ 30" "\<not> structural s (page_frame (pte_of s va))"
    and e: "e = P2V (page_frame (pde s (dir_index va))) + 4 * of_nat (table_index va)" "e \<noteq> 0"
  defines "s' \<equiv> vmmngr_free_page e s"
  shows "space_ok n s'" "pooled s' p \<longleftrightarrow> p \<noteq> page_frame (pte_of s va) \<and> pooled s p"
    "translate s' vb = (if page_frame vb = page_frame va then None else translate s vb)"
proof -
  let ?k = "dir_index va" and ?j = "table_index va" and ?p = "page_frame (pte_of s va)"
  let ?P = "P2V (page_frame (pde s ?k))"
  define s1 where "s1 = free_memory_block ?p s"
  have k: "?k < 1024" by simp
  have ok: "pmm_ok s" using assms(1) by (simp add: space_ok_def)
  note fr = free_frame_facts [OF ok assms(4,5), folded s1_def]
  note tb = space_table [OF assms(1) k assms(2)]
  have ld: "load32 e s = pte_of s va" by (simp add: e load32_def pte_of_def entry_def)
  have ns: "P2V ?p \<noteq> cur_directory s" "\<And>i. i < 1024 \<Longrightarrow> bit (pde s i) 0 \<Longrightarrow> page_frame (pde s i) \<noteq> ?p"
    "\<And>x. bitmap_byte s x \<Longrightarrow> page_frame x \<noteq> P2V ?p"
    using assms(7) by (auto simp: structural_def)
  have dir1: "cur_directory s1 = cur_directory s" using fr(6) by (rule vmm_fields_more)
  have b1: "bitmap_byte s1 = bitmap_byte s" using fr(4,5) by (rule bitmap_byte_cong)
  have e1: "pde s1 i = pde s i" if "i < 1024" for i
    using that fr(3) space_bitmap(2) [OF assms(1)] by (intro pde_cong [OF assms(1) dir1]) blast
  have "V2P (page_frame x) \<noteq> ?p" if "bitmap_byte s x" for x
    using ns(3) [OF that] by (metis P2V_V2P(1))
  moreover have "held n s1 q" if "held n s q" "q \<noteq> ?p" for q
  proof -
    have "unat q div 4096 \<noteq> unat ?p div 4096"
      using that by (auto simp: held_def aligned_def word_unat_eq_iff unat_page_frame)
    with that(1) fr(7) [of n] show ?thesis by (auto simp: held_def)
  qed
  moreover have "\<forall>f \<in> next_frames n s1. f < 2 ^ 18"
    using fr(7) [of n] space_ok_parts(3) [OF assms(1)] assms(6) by auto
  moreover have "frame_limit s1 = frame_limit s" using fr(5) by (simp add: frame_limit_def)
  ultimately have ok1: "space_ok n s1"
    using assms(1) fr(1) ns(1,2)
    by (auto simp: space_ok_def b1 dir1 e1 table_ok_def) (metis P2V_V2P(1))
  have pte1: "entry (mem s1) ?P ?j = pte_of s va" unfolding pte_of_def
    using fr(3) tb(3) by (intro entry_cong) auto
  have s': "s' = store32 e (pte_of s va AND NOT 1) s1"
  proof -
    have "pt_entry_pfn (pte_of s va) = ?p" using assms(3) by (rule pfn_low)
    moreover have "load32 e s1 = pte_of s va" using pte1 by (simp add: e load32_def entry_def)
    ultimately show ?thesis
      using assms(5) e(2) by (simp add: s'_def vmmngr_free_page_def ld pt_entry_del_attrib_def s1_def [symmetric] Let_def)
  qed
  have dir: "cur_directory s' = cur_directory s" using dir1 by (metis s' store32_fields(5) vmm_fields_more(1))
  have m: "mem s' x = mem s1 x" if "page_frame x \<noteq> ?P" for x
    using that entry_byte [of ?j ?P x] by (auto simp: s' e intro!: wr32_outside)
  show "space_ok n s'"
  proof (rule space_ok_cong [OF ok1])
    show "mem s' x = mem s1 x" if "bitmap_byte s1 x \<or> page_frame x = cur_directory s1" for x
      using that tb(2,3) by (intro m) (auto simp: b1 dir1)
    show "cur_directory s' = cur_directory s1" using dir dir1 by simp
  qed (simp_all add: s')
  have e': "pde s' i = pde s i" if "i < 1024" for i
  proof -
    have "pde s' i = pde s1 i" using that tb(2) dir dir1 by (intro pde_cong [OF ok1] m) auto
    with e1 that show ?thesis by simp
  qed
  have "pooled s' p \<longleftrightarrow> pooled s1 p"
    using tb(3) by (intro pooled_cong m) (auto simp: s' b1)
  with fr(2) show "pooled s' p \<longleftrightarrow> p \<noteq> ?p \<and> pooled s p" by simp
  show "translate s' vb = (if page_frame vb = page_frame va then None else translate s vb)"
  proof (cases "bit (pde s (dir_index vb)) 0")
    case False
    then show ?thesis using assms(2) by (simp add: translate_pde e' Let_def)
  next
    case True
    let ?Q = "P2V (page_frame (pde s (dir_index vb)))"
    have same: "?Q = ?P \<longleftrightarrow> dir_index vb = ?k"
      using assms(1,2) True by (auto simp: space_ok_def)
    have "entry (mem s1) ?Q (table_index vb) = entry (mem s) ?Q (table_index vb)"
      using fr(3) space_table(3) [OF assms(1) dir_index_less True] by (intro entry_cong) auto
    then have "entry (mem s') ?Q (table_index vb)
        = (if ?Q = ?P \<and> table_index vb = ?j then pte_of s va AND NOT 1 else entry (mem s) ?Q (table_index vb))"
      by (simp add: s' e entry_wr32)
    then show ?thesis
      using True same bit_del_present [of "pte_of s va" 0]
      by (cases "dir_index vb = ?k \<and> table_index vb = ?j")
        (auto simp: translate_pde same_page_iff e' Let_def)
  qed
qed

section \<open>Allocating a page\<close>

lemma low_frame:
  assumes "unat p < 2 ^ 30"
  shows "P2V p \<noteq> 0" "\<not> bit p 31"
proof -
  have "unat (P2V p) = unat p + 0xC0000000"
    using assms unfolding P2V_def by (subst unat_plus_simple [THEN iffD1]) (simp_all add: word_le_nat_alt unat_word_ariths)
  then show "P2V p \<noteq> 0" by (metis add_is_0 unat_0 zero_neq_numeral)
  have "take_bit 31 (unat p) = unat p" using assms by (simp add: take_bit_nat_eq_self)
  then have "\<not> bit (unat p) 31" by (metis bit_take_bit_iff order_less_irrefl)
  then show "\<not> bit p 31" by (simp add: bit_unsigned_iff)
qed

lemma alloc_low:
  assumes "space_ok (Suc n) s" "fst (alloc_memory_block s) \<noteq> 0"
  shows "unat (fst (alloc_memory_block s)) < 2 ^ 30"
  using alloc_frame_facts(9) [OF space_ok_parts(1) [OF assms(1)] prod.collapse [symmetric] assms(2)]
    space_ok_parts(3) [OF assms(1)] by fastforce

lemma alloc_page_space:
  fixes s :: "('d, 'z) vmm_scheme"
  assumes "vmmngr_alloc_page s = (v, s')" "v \<noteq> 0" "can_map (snd (alloc_memory_block s)) v"
    and "space_ok (Suc (if bit (pde s (dir_index v)) 0 then n else Suc n)) s"
  shows "space_ok n s'" "cur_directory s' = cur_directory s" "aligned (V2P v)" "V2P v \<noteq> 0"
    "\<not> pooled s (V2P v)" "V2P v = fst (alloc_memory_block s)"
    "translate s' va = (if page_frame va = v then Some (V2P v OR (va AND 0xfff)) else translate s va)"
    "pooled s' q \<longleftrightarrow> pooled s q \<or> q = V2P v \<or>
       \<not> bit (pde s (dir_index v)) 0 \<and> q = fst (alloc_memory_block (snd (alloc_memory_block s)))"
    "\<not> structural s' (V2P v)" "held n s' (V2P v)"
proof -
  define t s1 where "t = fst (alloc_memory_block s)" and "s1 = snd (alloc_memory_block s)"
  let ?n = "if bit (pde s (dir_index v)) 0 then n else Suc n"
  have ok: "pmm_ok s" using space_ok_parts(1) [OF assms(4)] .
  have al: "alloc_memory_block s = (t, s1)" by (simp add: t_def s1_def)
  have t0: "t \<noteq> 0" using assms(1,2) by (auto simp: vmmngr_alloc_page_def al split: if_splits)
  then have v: "v = P2V t" "s' = vmmngr_map_page t v s1"
    using assms(1) by (auto simp: vmmngr_alloc_page_def al Let_def)
  note a = alloc_frame_facts [OF ok al t0]
  note sa = space_alloc [OF assms(4) al t0]
  have pf: "page_frame v = v" using a(2) v(1) by (simp add: aligned_P2V page_frame_aligned)
  have dx: "pde s1 (dir_index v) = pde s (dir_index v)" by (rule sa(4)) simp
  have ok1: "space_ok (if bit (pde s1 (dir_index v)) 0 then n else Suc n) s1" using sa(1) by (simp add: dx)
  have second: "\<not> bit (pde s1 (dir_index v)) 0 \<longrightarrow> P2V (fst (alloc_memory_block s1)) \<noteq> 0"
    using assms(3) [folded s1_def] ok1 low_frame(1) [OF alloc_low [of n s1]] by (auto simp: can_map_def)
  note m = map_page_space [OF ok1 t0 assms(2) a(2) assms(3) [folded s1_def] second, folded v(2)]
  have vt: "V2P v = t" by (simp add: v(1))
  show "space_ok n s'" "cur_directory s' = cur_directory s" using m sa(3) by auto
  show "aligned (V2P v)" "V2P v \<noteq> 0" "\<not> pooled s (V2P v)" "V2P v = fst (alloc_memory_block s)"
    using a(2,3) t0 by (simp_all add: v(1) t_def)
  show "translate s' va = (if page_frame va = v then Some (V2P v OR (va AND 0xfff)) else translate s va)"
    using m by (simp add: pf sa(2)) (simp add: v(1))
  show p: "pooled s' q \<longleftrightarrow> pooled s q \<or> q = V2P v \<or>
       \<not> bit (pde s (dir_index v)) 0 \<and> q = fst (alloc_memory_block (snd (alloc_memory_block s)))" for q
    using m [unfolded dx] a(4) vt by (auto simp: s1_def [symmetric])
  have "unat t < 2 ^ 30" using alloc_low [OF assms(4)] t0 by (simp add: t_def)
  moreover have "unat t div 4096 \<notin> next_frames n s'"
  proof (cases "bit (pde s (dir_index v)) 0")
    case True
    then show ?thesis using m a(10) by (simp add: dx)
  next
    case False
    then have u: "fst (alloc_memory_block s1) \<noteq> 0" using assms(3) dx by (simp add: can_map_def s1_def)
    note a1 = alloc_frame_facts [OF a(1) prod.collapse [symmetric] u]
    show ?thesis using False m a(10) a1(10) by (simp add: dx)
  qed
  ultimately show "held n s' (V2P v)" using a(2) by (simp add: held_def vt)
  show "\<not> structural s' (V2P v)"
  proof
    assume "structural s' (V2P v)"
    then consider "P2V t = cur_directory s'" | i where "i < 1024" "bit (pde s' i) 0" "page_frame (pde s' i) = t"
      | x where "bitmap_byte s' x" "page_frame x = P2V t"
      by (auto simp: structural_def v(1))
    then show False
    proof cases
      case 1
      with sa(5) show False using m sa(3) by simp
    next
      case (2 i)
      show False
      proof (cases "bit (pde s1 (dir_index v)) 0")
        case True
        then have "s' = map_entry t v (cur_directory s1 + 4 * of_nat (dir_index v)) s1"
          using t0 assms(2) by (simp add: v(2) map_page_cases)
        then have "pde s' i = pde s1 i"
          using space_map_entry(3) [OF sa(1) True a(2) _ 2(1)] assms(3) [folded s1_def] True by (simp add: can_map_def)
        with 2 sa(4,7) show False by simp
      next
        case False
        define u s2 where "u = fst (alloc_memory_block s1)" and "s2 = snd (alloc_memory_block s1)"
        have al1: "alloc_memory_block s1 = (u, s2)" and u0: "u \<noteq> 0"
          using assms(3) False by (auto simp: u_def s2_def can_map_def s1_def)
        define s3 where "s3 = new_pd_entry (cur_directory s1 + 4 * of_nat (dir_index v)) u (clear_page (P2V u) s2)"
        have "space_ok (Suc n) s1" using ok1 False by simp
        note n = space_new_table [OF this al1 u0 dir_index_less False, folded s3_def]
        have "pmm_ok s1" by (rule a(1))
        note a1 = alloc_frame_facts [OF this al1 u0]
        have pfu: "page_frame (entry_value 0 u) = u" using a1(2) by (intro page_frame_entry_value) auto
        have b3: "bit (pde s3 (dir_index v)) 0" by (simp add: n(4) bit_entry_value_0)
        have o3: "\<not> bit (entry (mem s3) (P2V (page_frame (pde s3 (dir_index v)))) (table_index v)) 31 \<or> bit t 31"
          by (simp add: n(4,5) pfu)
        have "s' = map_entry t v (cur_directory s3 + 4 * of_nat (dir_index v)) s3"
          using t0 assms(2) False second by (simp add: v(2) map_page_cases al1 s3_def [symmetric] n(3))
        then have e: "pde s' i = pde s3 i"
          using space_map_entry(3) [OF n(1) b3 a(2) o3 2(1)] by simp
        have "t \<noteq> u" using a(4) a1(3) by auto
        then show False
          using 2 e sa(4,7) by (auto simp: n(4) pfu split: if_splits)
      qed
    next
      case (3 x)
      have "bitmap_byte s' x \<longleftrightarrow> bitmap_byte s x"
      proof -
        have "mem_mngr s' = mem_mngr s1" "mem_mngr_max_blocks s' = mem_mngr_max_blocks s1"
          by (simp_all add: v(2))
        then show ?thesis using a(6,7) by (simp add: bitmap_byte_def)
      qed
      with 3 sa(6) show False by simp
    qed
  qed
qed

section \<open>Loops over tables\<close>

lemma clear_table_fold:
  "clear_table P i s = s\<lparr>mem := fold (\<lambda>i m. wr32 m (P + 4 * of_nat i) 0) [i..<1024] (mem s)\<rparr>"
proof (induction P i s rule: clear_table.induct)
  case (1 P i s)
  show ?case
  proof (cases "i < 1024")
    case True
    then have "[i..<1024] = i # [Suc i..<1024]" by (simp add: upt_conv_Cons)
    with 1 True show ?thesis by (subst clear_table.simps) (simp add: store32_def)
  qed (simp add: clear_table.simps)
qed

lemma fold_wr32_outside:
  assumes "aligned P" "page_frame x \<noteq> P" "n \<le> 1024"
  shows "fold (\<lambda>i m. wr32 m (P + 4 * of_nat i) (f i)) [i..<n] m x = m x"
  using assms(3)
proof (induction "n - i" arbitrary: i m)
  case (Suc k)
  then have i: "i < n" by simp
  then have "fold (\<lambda>i m. wr32 m (P + 4 * of_nat i) (f i)) [i..<n] m x
      = wr32 m (P + 4 * of_nat i) (f i) x"
    using Suc by (simp add: upt_conv_Cons)
  also have "\<dots> = m x" using entry_byte [of i P x] assms i Suc.prems by (auto intro!: wr32_outside)
  finally show ?case .
qed simp

lemma clear_table_effect:
  assumes "aligned P"
  shows "j < 1024 \<Longrightarrow> entry (mem (clear_table P 0 s)) P j = 0"
    and "page_frame x \<noteq> P \<Longrightarrow> mem (clear_table P 0 s) x = mem s x"
    and "mem_mngr (clear_table P 0 s) = mem_mngr s"
    and "mem_mngr_max_blocks (clear_table P 0 s) = mem_mngr_max_blocks s"
    and "pmm.more (clear_table P 0 s) = pmm.more s" "cr3 (clear_table P 0 s) = cr3 s"
  using table.get_fill [where n = 1024 and f = "\<lambda>_. 0" and j = j and P = P and i = 0 and s = "mem s"] fold_wr32_outside [OF assms, of x 1024 "\<lambda>_. 0" 0 "mem s"]
  by (simp_all add: clear_table_fold page_frame_aligned [OF assms])

text \<open>The copy of a table into another page.\<close>

lemma copy_ptes_step:
  assumes "aligned P" "aligned Q" "P \<noteq> Q" "j \<le> 1024"
  shows "copy_ptes P Q j s =
    s\<lparr>mem := fold (\<lambda>i m. wr32 m (P + 4 * of_nat i) (entry (mem s) Q i)) [j..<1024] (mem s)\<rparr>"
  using assms(4)
proof (induction "1024 - j" arbitrary: j s)
  case 0
  then show ?case by (simp add: copy_ptes.simps)
next
  case (Suc k)
  then have j: "j < 1024" by simp
  let ?s = "store32 (P + 4 * of_nat j) (load32 (Q + 4 * of_nat j) s) s"
  have e: "entry (mem ?s) Q i = entry (mem s) Q i" if "i < 1024" for i
    using that j assms by (simp add: entry_wr32)
  have "copy_ptes P Q (Suc j) ?s =
      ?s\<lparr>mem := fold (\<lambda>i m. wr32 m (P + 4 * of_nat i) (entry (mem ?s) Q i)) [Suc j..<1024] (mem ?s)\<rparr>"
    using Suc j by (intro Suc.hyps) auto
  also have "fold (\<lambda>i m. wr32 m (P + 4 * of_nat i) (entry (mem ?s) Q i)) [Suc j..<1024] (mem ?s)
      = fold (\<lambda>i m. wr32 m (P + 4 * of_nat i) (entry (mem s) Q i)) [Suc j..<1024] (mem ?s)"
    using e by (intro fold_cong) auto
  finally show ?case
    using j by (subst copy_ptes.simps) (simp add: upt_conv_Cons store32_def load32_def entry_def)
qed

lemma copy_ptes_effect:
  assumes "aligned P" "aligned Q" "P \<noteq> Q"
  shows "j < 1024 \<Longrightarrow> entry (mem (copy_ptes P Q 0 s)) P j = entry (mem s) Q j"
    and "page_frame x \<noteq> P \<Longrightarrow> mem (copy_ptes P Q 0 s) x = mem s x"
    and "pmm.more (copy_ptes P Q 0 s) = pmm.more s"
  using table.get_fill [where n = 1024 and f = "entry (mem s) Q" and j = j and P = P and i = 0 and s = "mem s"]
    fold_wr32_outside [OF assms(1), of x 1024 "entry (mem s) Q" 0 "mem s"]
  by (simp_all add: copy_ptes_step [OF assms] page_frame_aligned [OF assms(1)])

section \<open>Removing the identity mapping\<close>

lemma space_screen:
  fixes s :: "('d, 'z) vmm_scheme"
  assumes "screen_only view s s'"
  shows "space_ok n s' \<longleftrightarrow> space_ok n s" "translate s' = translate s" "pooled s' = pooled s"
    "cur_directory s' = cur_directory s" "kernel_directory s' = kernel_directory s" "pde s' = pde s"
    "next_frames n s' = next_frames n s"
proof -
  obtain d v where s': "s' = s\<lparr>dev := d, vidmem := v\<rparr>" using assms by (auto simp: screen_only_def)
  have f: "frame_bit s' = frame_bit s" "frame_limit s' = frame_limit s" "pde s' = pde s" "bitmap_byte s' = bitmap_byte s"
    by (simp_all add: s' fun_eq_iff frame_bit_def mem_mngr_at_def frame_limit_def pde_def bitmap_byte_def)
  then show p: "pooled s' = pooled s" by (simp add: fun_eq_iff pooled_def)
  show c: "cur_directory s' = cur_directory s" "kernel_directory s' = kernel_directory s" by (simp_all add: s')
  show "pde s' = pde s" by (rule f(3))
  show u: "next_frames n s' = next_frames n s" for n by (simp add: next_frames_def f)
  then have "held n s' = held n s" for n by (simp add: fun_eq_iff held_def)
  moreover have "pmm_ok s' \<longleftrightarrow> pmm_ok s" by (simp add: pmm_ok_def f) (simp add: s')
  ultimately show "space_ok n s' \<longleftrightarrow> space_ok n s" by (simp add: space_ok_def table_ok_def u c f)
  show "translate s' = translate s" by (simp add: translate_def fun_eq_iff s')
qed

text \<open>A directory entry set to 0.\<close>

lemma space_drop_pde:
  fixes s :: "('d, 'z) vmm_scheme"
  assumes "space_ok n s" "k < 1024"
  defines "s' \<equiv> store32 (cur_directory s + 4 * of_nat k) 0 s"
  shows "space_ok n s'" "i < 1024 \<Longrightarrow> pde s' i = (if i = k then 0 else pde s i)"
    "page_frame x \<noteq> cur_directory s \<Longrightarrow> mem s' x = mem s x" "next_frames m s' = next_frames m s"
proof -
  have D: "aligned (cur_directory s)" by (rule space_dir [OF assms(1)])
  have dir: "cur_directory s' = cur_directory s" by (rule vmm_fields_more) (simp add: s'_def)
  show m: "mem s' x = mem s x" if "page_frame x \<noteq> cur_directory s" for x
    using that entry_byte [OF assms(2) D] by (auto simp: s'_def intro!: wr32_outside)
  show e: "pde s' i = (if i = k then 0 else pde s i)" if "i < 1024" for i
    using that assms(2) D unfolding pde_def dir by (simp add: s'_def entry_wr32)
  have b: "bitmap_byte s' = bitmap_byte s" by (rule bitmap_byte_cong) (simp_all add: s'_def)
  have far: "mem s' x = mem s x" if "bitmap_byte s x" for x using that m space_bitmap(2) [OF assms(1)] by simp
  show p: "next_frames m s' = next_frames m s" for m using far by (intro held_cong; simp add: s'_def)
  have h: "held n s' = held n s" using far by (intro held_cong; simp add: s'_def)
  have "pmm_ok s'" "frame_limit s' = frame_limit s"
    using far space_ok_parts(1,2) [OF assms(1)]
    by (subst pmm_ok_cong [where s = s]; simp add: s'_def) (simp add: s'_def frame_limit_def)
  then show "space_ok n s'"
    using assms(1) by (auto simp: space_ok_def table_ok_def b p h dir e)
qed

text \<open>The writes of \<open>remove_identity\<close>: the first table cleared, then its directory entry.\<close>

lemma drop_identity:
  fixes s :: "('d, 'z) vmm_scheme"
  assumes "space_ok n s" "bit (pde s 0) 0"
  defines "s' \<equiv> store32 (cur_directory s) 0 (clear_table (P2V (page_frame (pde s 0))) 0 s)"
  shows "space_ok n s'" "i < 1024 \<Longrightarrow> pde s' i = (if i = 0 then 0 else pde s i)"
    "dir_index va \<noteq> 0 \<Longrightarrow> bit (pde s (dir_index va)) 0 \<Longrightarrow> pte_of s' va = pte_of s va"
    "next_frames m s' = next_frames m s" "mem_mngr s' = mem_mngr s" "mem_mngr_max_blocks s' = mem_mngr_max_blocks s"
    "mem_mngr_used_blocks s' = mem_mngr_used_blocks s" "cr3 s' = cr3 s" "pmm.more s' = pmm.more s"
proof -
  let ?P = "P2V (page_frame (pde s 0))"
  define s1 where "s1 = clear_table ?P 0 s"
  have P: "aligned ?P" by simp
  note ct = clear_table_effect [OF P, where s = s, folded s1_def]
  note tb = space_table [OF assms(1) _ assms(2)]
  have dir1: "cur_directory s1 = cur_directory s" using ct(5) by (rule vmm_fields_more)
  have "mem s1 x = mem s x" if "bitmap_byte s x \<or> page_frame x = cur_directory s" for x
    using that tb(2,3) by (auto intro!: ct(2))
  note sp = space_ok_cong [OF assms(1) ct(3,4) dir1 this]
  have e1: "pde s1 i = pde s i" if "i < 1024" for i
    using that tb(2) by (intro pde_cong [OF assms(1) dir1] ct(2)) auto
  have "s' = store32 (cur_directory s1 + 4 * of_nat 0) 0 s1" by (simp add: s'_def dir1 flip: s1_def)
  note dp = space_drop_pde [OF sp(1), of 0, folded this]
  show "space_ok n s'" "next_frames m s' = next_frames m s" using dp(1,4) sp(3) by simp_all
  show e: "pde s' i = (if i = 0 then 0 else pde s i)" if "i < 1024" for i using dp(2) that e1 by simp
  show "mem_mngr s' = mem_mngr s" "mem_mngr_max_blocks s' = mem_mngr_max_blocks s" "pmm.more s' = pmm.more s"
    using ct(3-5) by (simp_all add: s'_def s1_def)
  show "mem_mngr_used_blocks s' = mem_mngr_used_blocks s" "cr3 s' = cr3 s"
    by (simp_all add: s'_def store32_def clear_table_fold)
  show "pte_of s' va = pte_of s va" if va: "dir_index va \<noteq> 0" "bit (pde s (dir_index va)) 0"
  proof -
    let ?Q = "P2V (page_frame (pde s (dir_index va)))"
    have "?P \<noteq> ?Q" using space_inj [OF assms(1) _ dir_index_less assms(2) va(2)] va(1) by auto
    then have "entry (mem s') ?Q (table_index va) = entry (mem s) ?Q (table_index va)"
      using space_table(2) [OF assms(1) dir_index_less va(2)] dp(3) ct(2) by (intro entry_cong) (simp_all add: dir1)
    with va(1) show ?thesis by (simp add: pte_of_def e)
  qed
qed

text \<open>What is left of a state when its identity mapping is gone.\<close>

definition identity_dropped :: "('d, 'z) vmm_scheme \<Rightarrow> ('d, 'z) vmm_scheme \<Rightarrow> bool" where
  "identity_dropped s s' \<longleftrightarrow> (\<forall>i<1024. pde s' i = (if i = 0 then 0 else pde s i)) \<and>
     (\<forall>va. dir_index va \<noteq> 0 \<longrightarrow> bit (pde s (dir_index va)) 0 \<longrightarrow> pte_of s' va = pte_of s va) \<and>
     (\<forall>m. next_frames m s' = next_frames m s) \<and> mem_mngr s' = mem_mngr s \<and>
     mem_mngr_max_blocks s' = mem_mngr_max_blocks s \<and> mem_mngr_used_blocks s' = mem_mngr_used_blocks s \<and>
     cr3 s' = cr3 s \<and> io.more s' = io.more s"

lemma identity_dropped_translate:
  assumes "identity_dropped s s'"
  shows "translate s' va = (if dir_index va = 0 then None else translate s va)"
proof -
  have "pde s' (dir_index va) = (if dir_index va = 0 then 0 else pde s (dir_index va))"
    "dir_index va \<noteq> 0 \<longrightarrow> bit (pde s (dir_index va)) 0 \<longrightarrow> pte_of s' va = pte_of s va"
    using assms dir_index_less [of va] unfolding identity_dropped_def by blast+
  then show ?thesis by (auto simp: translate_pte)
qed

lemma remove_identity_space:
  fixes s :: "('d, 'z) vmm_scheme"
  assumes "pc_conforms bus view" "terminal_ok (terminal_of view s)" "space_ok n s" "kernel_directory s = cur_directory s"
  shows "\<exists>s'. remove_identity bus s = Inr ((), s') \<and> space_ok n s' \<and> identity_dropped s s' \<and>
    terminal_ok (terminal_of view s') \<and> crtc_only (view (dev s)) (view (dev s'))"
proof -
  have ld: "load32 (cur_directory s) s = pde s 0" using pde_load [of s 0] by simp
  show ?thesis
  proof (cases "bit (pde s 0) 0")
    case False
    moreover have "table_ok n s (pde s 0)" using assms(3) by (simp add: space_ok_def)
    ultimately show ?thesis
      using assms by (auto simp: remove_identity_def identity_dropped_def ld and_1_eq_0 table_ok_def)
  next
    case True
    define s2 where "s2 = store32 (cur_directory s) 0 (clear_table (P2V (page_frame (pde s 0))) 0 s)"
    note d = drop_identity [OF assms(3) True, folded s2_def]
    have cr: "load_PDBR (get_PDBR s2) s2 = s2" by (simp add: load_PDBR_def get_PDBR_def)
    have t2: "terminal_ok (terminal_of view s2)" using assms(2) vmm_fields_more(3,4) [OF d(9)] by (simp add: terminal_of_def)
    have "talks view (pr bus KERN_INFO ''VMM'' ''Identity mapping removed'' []) (\<lambda>_. True)"
      by (rule talks_pr [OF assms(1)]) (simp_all add: cs_def)
    then obtain s' where s': "pr bus KERN_INFO ''VMM'' ''Identity mapping removed'' [] s2 = Inr ((), s')" "screen_only view s2 s'"
      by (rule talksE [OF _ t2]) auto
    have "remove_identity bus s = Inr ((), s')"
      using True s'(1) by (simp add: remove_identity_def assms(4) ld and_1_eq_0 Let_def s2_def [symmetric] cr)
    moreover have "identity_dropped s s'"
    proof -
      have "io.more s2 = io.more s" using d(9) by (cases s2; cases s; simp)
      moreover have "pte_of s' = pte_of s2"
        by (simp add: fun_eq_iff pte_of_def space_screen(6) [OF s'(2)] screen_only_fields(1) [OF s'(2)])
      ultimately show ?thesis
        using d(2-8) by (simp add: identity_dropped_def screen_only_fields [OF s'(2)] space_screen [OF s'(2)])
    qed
    moreover have "crtc_only (view (dev s)) (view (dev s'))"
      using s'(2) vmm_fields_more(3) [OF d(9)] by (auto simp: screen_only_def)
    ultimately show ?thesis
      using d(1) screen_only_ok [OF s'(2)] by (auto simp: space_screen [OF s'(2)])
  qed
qed

section \<open>Properties of the virtual memory manager\<close>

text \<open>
  A machine for the witnesses: 64 frames, the bitmap in frame 5, the directory in frame 1, one
  table in frame 2 for the region from 0xC0000000, nothing mapped yet.
\<close>

definition demo_vmm :: "pc vmm" where
  "demo_vmm = \<lparr>mem = wr32 ((\<lambda>_. 0)(0xC0005000 := 0x67)) (0xC0001000 + 4 * of_nat 768) 0x2007,
     cr0 = 0x80000000, cr3 = 0x1000, mem_mngr = 0xC0005000, mem_mngr_max_blocks = 64,
     mem_mngr_used_blocks = 5, mem_mngr_size = 256, dev = demo_pc, vidmem = replicate 4000 0,
     current_level = 1, cur_directory = 0xC0001000, cur_pdbr = 0x1000, kernel_directory = 0xC0001000,
     kernel_directory_physical = 0x1000, invlpg_log = []\<rparr>"

lemma page_frame_num [simp]: "page_frame (numeral n) = numeral n AND NOT 0xfff" "page_frame 0 = 0"
  by (simp_all add: page_frame_def)

lemma aligned_num [simp]: "aligned (numeral n) \<longleftrightarrow> unat (numeral n :: u32) mod 4096 = 0" "aligned 0"
  by (simp_all add: aligned_def)

lemma demo_pde: "i < 1024 \<Longrightarrow> pde demo_vmm i = (if i = 768 then 0x2007 else 0)"
proof -
  assume i: "i < 1024"
  have "entry ((\<lambda>_. 0)(0xC0005000 := 0x67)) 0xC0001000 i = entry (\<lambda>_. 0) 0xC0001000 i"
    using i by (intro entry_cong) auto
  then have "entry ((\<lambda>_. 0)(0xC0005000 := 0x67)) 0xC0001000 i = 0" by (simp add: entry_def rd32_def)
  with i show ?thesis by (simp add: pde_def demo_vmm_def entry_wr32 del: of_nat_numeral)
qed

lemma demo_vmm_fields [simp]:
  "mem_mngr demo_vmm = 0xC0005000" "mem_mngr_max_blocks demo_vmm = 64" "cur_directory demo_vmm = 0xC0001000"
  "kernel_directory demo_vmm = 0xC0001000" "dev demo_vmm = demo_pc" "vidmem demo_vmm = replicate 4000 0"
  "mem_mngr_used_blocks demo_vmm = 5"
  by (simp_all add: demo_vmm_def)

lemma demo_vmm_mem: "page_frame x \<noteq> 0xC0001000 \<Longrightarrow> mem demo_vmm x = (if x = 0xC0005000 then 0x67 else 0)"
proof -
  assume "page_frame x \<noteq> 0xC0001000"
  then have "\<not> in_range (0xC0001000 + 4 * of_nat 768) 4 x" using entry_byte [of 768 "0xC0001000" x] by auto
  from wr32_outside [OF this, of "(\<lambda>_. 0)(0xC0005000 := 0x67)" "0x2007"] show ?thesis by (simp add: demo_vmm_def)
qed

lemma demo_bitmap_byte: "bitmap_byte demo_vmm x \<Longrightarrow> page_frame x = 0xC0005000"
  by (simp add: bitmap_byte_def in_range_def page_frame_iff)

lemma demo_vmm_bit: "b < 64 \<Longrightarrow> frame_bit demo_vmm b \<longleftrightarrow> b \<in> {0, 1, 2, 5, 6}"
proof -
  assume b: "b < 64"
  have "unat (of_nat (b div 8) :: u32) = b div 8" using b by (intro unat_of_nat32) simp
  then have "page_frame (0xC0005000 + of_nat (b div 8)) = 0xC0005000"
    using b by (intro page_frame_add) auto
  moreover have "(of_nat (b div 8) :: u32) = 0 \<longleftrightarrow> b < 8"
    using b by (subst word_unat_eq_iff) (simp add: unat_of_nat take_bit_nat_eq_self div_eq_0_iff)
  moreover have "bit (0x67 :: u8) n \<longleftrightarrow> n \<in> {0, 1, 2, 5, 6}" if "n < 8" for n
    using that by (auto simp: bit_numeral_rec less_Suc_eq numeral_eq_Suc bit_simps)
  ultimately show ?thesis using b by (auto simp: frame_bit_byte demo_vmm_mem)
qed

lemma demo_pooled: "aligned p \<Longrightarrow> pooled demo_vmm p \<longleftrightarrow> unat p div 4096 \<in> {0, 1, 2, 5, 6}"
  using demo_vmm_bit [of "unat p div 4096"] by (auto simp: pooled_def frame_limit_def)

lemma demo_held: "aligned p \<Longrightarrow> unat p div 4096 \<in> {0, 1, 2, 5, 6} \<Longrightarrow> held n demo_vmm p"
  using demo_vmm_bit [of "unat p div 4096"] by (auto simp: held_def next_frames_def frame_limit_def)

lemma demo_space: "space_ok n demo_vmm"
proof -
  have bit0: "bit (0x2007 :: u32) 0" by simp
  have "pmm_ok demo_vmm" by (simp add: pmm_ok_def demo_vmm_bit)
  then show "space_ok n demo_vmm"
    by (auto simp: space_ok_def table_ok_def demo_pde demo_held V2P_def P2V_def next_frames_def frame_limit_def
        dest!: demo_bitmap_byte split: if_splits)
qed

lemma demo_vmm_terminal: "terminal_ok (terminal_of (\<lambda>a. a) demo_vmm)"
  using demo_terminal by (simp add: terminal_ok_def terminal_of_def)

lemma demo_table_zero: "j < 1024 \<Longrightarrow> entry (mem demo_vmm) 0xC0002000 j = 0"
proof -
  assume "j < 1024"
  then have "entry (mem demo_vmm) 0xC0002000 j = entry (\<lambda>_. 0) 0xC0002000 j"
    by (intro entry_cong) (auto simp: demo_vmm_mem)
  then show ?thesis by (simp add: entry_def rd32_def)
qed

lemma demo_can_map: "can_map demo_vmm 0xC0003000"
proof -
  have "dir_index 0xC0003000 = 768" "table_index 0xC0003000 = 3" by (simp_all add: dir_index_def table_index_def)
  moreover have "entry (mem demo_vmm) 0xC0002000 3 = 0" by (simp add: demo_table_zero)
  ultimately show ?thesis by (simp add: can_map_def demo_pde P2V_def)
qed

lemma demo_alloc:
  "alloc_memory_block demo_vmm = (0x3000, snd (alloc_memory_block demo_vmm))"
  "can_map (snd (alloc_memory_block demo_vmm)) 0xC0003000"
proof -
  have ok: "pmm_ok demo_vmm" using space_ok_parts(1) [OF demo_space] .
  have free3: "\<not> frame_bit demo_vmm 3" "frame_limit demo_vmm = 64" by (simp_all add: demo_vmm_bit frame_limit_def)
  from ok show a: "alloc_memory_block demo_vmm = (0x3000, snd (alloc_memory_block demo_vmm))"
  proof (cases rule: alloc_memory_block_cases)
    case none
    with free3 show ?thesis by auto
  next
    case (frame f)
    have "f = 3"
    proof (rule ccontr)
      assume "f \<noteq> 3"
      moreover have "\<not> 3 < f" using frame(5) free3 by auto
      ultimately have "f \<in> {0, 1, 2}" by auto
      with frame(4) show False by (auto simp: demo_vmm_bit)
    qed
    with frame show ?thesis by (simp add: frame_addr_def)
  qed
  have d: "dir_index 0xC0003000 = 768" "table_index 0xC0003000 = 3" by (simp_all add: dir_index_def table_index_def)
  have t0: "(0x3000 :: u32) \<noteq> 0" by simp
  note sa = space_alloc [OF demo_space a t0]
  note fr = alloc_frame_facts [OF ok a t0]
  have "entry (mem (snd (alloc_memory_block demo_vmm))) 0xC0002000 3 = entry (\<lambda>_. 0) 0xC0002000 3"
  proof (rule entry_cong)
    fix x :: u32
    assume x: "page_frame x = 0xC0002000"
    then have "\<not> bitmap_byte demo_vmm x" by (auto dest: demo_bitmap_byte)
    with x show "mem (snd (alloc_memory_block demo_vmm)) x = 0"
      by (subst fr(5)) (auto simp: demo_vmm_mem)
  qed simp_all
  then show "can_map (snd (alloc_memory_block demo_vmm)) 0xC0003000"
    by (simp add: can_map_def d sa(4) demo_pde P2V_def entry_def [of "\<lambda>_. 0"] rd32_def)
qed

text \<open>
  C6: \<open>vmmngr_map_page\<close> installs exactly the mapping it is asked for: in an address space that is
  well formed for one allocation more, and with a frame left for a new table if one is needed,
  every address of the page translates to the same offset of the given frame afterwards, the
  translation of every other address is as before, and the space is still well formed.
\<close>

theorem map_page_correct:
  fixes s :: "('d, 'z) vmm_scheme"
  assumes "space_ok (Suc n) s" "phys \<noteq> 0" "virt \<noteq> 0" "aligned phys" "can_map s virt"
  shows "space_ok n (vmmngr_map_page phys virt s) \<and>
    (\<forall>va. translate (vmmngr_map_page phys virt s) va =
      (if page_frame va = page_frame virt then Some (phys OR (va AND 0xfff)) else translate s va))"
proof -
  have "\<not> bit (pde s (dir_index virt)) 0 \<longrightarrow> P2V (fst (alloc_memory_block s)) \<noteq> 0"
    using assms(5) low_frame(1) [OF alloc_low [OF assms(1)]] by (simp add: can_map_def)
  moreover have "space_ok (if bit (pde s (dir_index virt)) 0 then n else Suc n) s"
    using assms(1) space_ok_mono [of n "Suc n" s] by simp
  ultimately show ?thesis using map_page_space [OF _ assms(2-5)] by blast
qed

theorem map_page_correct_witness:
  "translate (vmmngr_map_page 0x3000 0xC0003000 demo_vmm) 0xC0003004 = Some 0x3004"
  using map_page_correct [OF demo_space, of "0x3000" "0xC0003000"] demo_can_map by simp

text \<open>
  C16: \<open>vmmngr_alloc_page\<close> hands out a frame nobody uses and maps it: when it answers a nonzero
  address \<open>v\<close>, the frame \<open>V2P v\<close> was free and is in use now, out of reach of later allocations, the
  page at \<open>v\<close> translates to it, every other address translates as before, and at most one more
  frame, for a page table, has been taken. When it answers 0, nothing has changed.
\<close>

theorem alloc_page_fresh:
  fixes s :: "('d, 'z) vmm_scheme"
  assumes "space_ok (Suc (Suc n)) s" "vmmngr_alloc_page s = (v, s')"
    and "v \<noteq> 0 \<longrightarrow> can_map (snd (alloc_memory_block s)) v"
  shows "if v = 0 then s' = s
    else space_ok n s' \<and> \<not> pooled s (V2P v) \<and> pooled s' (V2P v) \<and> held n s' (V2P v) \<and>
      (\<forall>va. translate s' va = (if page_frame va = v then Some (V2P v OR (va AND 0xfff)) else translate s va)) \<and>
      (\<exists>u. \<forall>q. pooled s' q \<longrightarrow> pooled s q \<or> q = V2P v \<or> q = u)"
proof (cases "v = 0")
  case True
  have "fst (alloc_memory_block s) = 0"
  proof (rule ccontr)
    assume t: "fst (alloc_memory_block s) \<noteq> 0"
    then have "P2V (fst (alloc_memory_block s)) \<noteq> 0" by (rule low_frame(1) [OF alloc_low [OF assms(1)]])
    with assms(2) True t show False
      by (simp add: vmmngr_alloc_page_def Let_def split: prod.splits)
  qed
  moreover from this have "snd (alloc_memory_block s) = s"
    using fa.alloc_none [OF space_ok_parts(1) [OF assms(1)]] by simp
  ultimately show ?thesis using assms(2) True by (simp add: vmmngr_alloc_page_def split: prod.splits)
next
  case False
  have "space_ok (Suc (if bit (pde s (dir_index v)) 0 then n else Suc n)) s"
    using assms(1) space_ok_mono [of "Suc n" "Suc (Suc n)" s] by simp
  note a = alloc_page_space [OF assms(2) False _ this]
  from assms(3) False have "can_map (snd (alloc_memory_block s)) v" by simp
  from a [OF this] False show ?thesis
    by (auto intro!: exI [of _ "fst (alloc_memory_block (snd (alloc_memory_block s)))"])
qed

lemma demo_alloc_page: "vmmngr_alloc_page demo_vmm = (0xC0003000, snd (vmmngr_alloc_page demo_vmm))"
proof -
  have "fst (vmmngr_alloc_page demo_vmm) = 0xC0003000"
    unfolding vmmngr_alloc_page_def by (subst demo_alloc(1)) (simp add: P2V_def)
  then show ?thesis by (metis prod.collapse)
qed

theorem alloc_page_fresh_witness:
  "fst (vmmngr_alloc_page demo_vmm) = 0xC0003000 \<and>
   translate (snd (vmmngr_alloc_page demo_vmm)) 0xC0003008 = Some 0x3008"
  using alloc_page_fresh [OF demo_space demo_alloc_page] demo_alloc(2) demo_alloc_page
  by (simp add: V2P_def) (metis fst_conv)

text \<open>
  C32: Freeing an allocated page through its page table entry undoes the allocation: the frame is
  free again, the page faults, and every other address translates as before the allocation; only
  the frame of a page table that was created on the way stays in use.
\<close>

theorem alloc_free_page_roundtrip:
  fixes s :: "('d, 'z) vmm_scheme"
  assumes "space_ok (Suc (Suc n)) s" "vmmngr_alloc_page s = (v, s')" "v \<noteq> 0"
    and "can_map (snd (alloc_memory_block s)) v"
  defines "s'' \<equiv> vmmngr_free_page (pte_addr s' v) s'"
  shows "space_ok n s'' \<and> \<not> pooled s'' (V2P v) \<and>
    (\<forall>va. translate s'' va = (if page_frame va = v then None else translate s va)) \<and>
    (bit (pde s (dir_index v)) 0 \<longrightarrow> (\<forall>q. pooled s'' q \<longleftrightarrow> pooled s q))"
proof -
  have "space_ok (Suc (if bit (pde s (dir_index v)) 0 then n else Suc n)) s"
    using assms(1) space_ok_mono [of "Suc n" "Suc (Suc n)" s] by simp
  note a = alloc_page_space [OF assms(2-4) this]
  have v: "aligned v" "page_frame v = v" using aligned_P2V [OF a(3)] page_frame_aligned by simp_all
  have off: "v AND 0xfff = 0"
  proof -
    have "v = v AND NOT (mask 12)" using v(2) by (simp add: page_frame_def mask_eq_exp_minus_1)
    then have "v AND mask 12 = 0" by (metis bit.conj_cancel_left bit.conj_zero_right word_bw_assocs(1))
    then show ?thesis by (simp add: mask_eq_exp_minus_1)
  qed
  have "translate s' v = Some (V2P v)" using a(7) [of v] v(2) off by simp
  then have tr: "bit (pde s' (dir_index v)) 0" "bit (pte_of s' v) 0" "page_frame (pte_of s' v) = V2P v"
    using off by (auto simp: translate_pte split: if_splits)
  have p: "pooled s' (V2P v)" using a(8) by simp
  have low: "unat (V2P v) < 2 ^ 30" using a(10) by (simp add: held_def)
  have b31: "\<not> bit (pte_of s' v) 31"
  proof
    assume b: "bit (pte_of s' v) 31"
    have "V2P v = pte_of s' v AND NOT (mask 12)" using tr(3) by (simp add: page_frame_def mask_eq_exp_minus_1)
    with b have "bit (V2P v) 31" by (simp add: bit_simps)
    with low_frame(2) low show False by blast
  qed
  have dir0: "cur_directory s' \<noteq> 0"
    using low_frame(1) [of "V2P (cur_directory s')"] space_dir(2) [OF a(1)] by (simp add: held_def)
  have tab0: "P2V (page_frame (pde s' (dir_index v))) \<noteq> 0"
    using low_frame(1) space_table(1) [OF a(1) dir_index_less tr(1)] by (simp add: held_def)
  have e: "pte_addr s' v = P2V (page_frame (pde s' (dir_index v))) + 4 * of_nat (table_index v)"
    by (rule pte_addr_eq [OF dir0 tab0])
  have e0: "pte_addr s' v \<noteq> 0"
  proof
    assume "pte_addr s' v = 0"
    moreover have "page_frame (pte_addr s' v) = P2V (page_frame (pde s' (dir_index v)))"
      unfolding e by (rule entry_byte [OF table_index_less [of v] table_aligned]) simp
    ultimately show False using tab0 by simp
  qed
  have ns: "\<not> structural s' (page_frame (pte_of s' v))" using a(9) by (simp add: tr(3))
  note f = free_page_space [OF a(1) tr(1) b31 _ _ _ ns e e0, unfolded tr(3), OF p a(4) low, folded s''_def]
  have "translate s'' va = (if page_frame va = v then None else translate s va)" for va
    unfolding f(3) v(2) a(7) by simp
  moreover have "pooled s'' q \<longleftrightarrow> pooled s q" if "bit (pde s (dir_index v)) 0" for q
    using that a(5,8) by (auto simp: f(2))
  ultimately show ?thesis using f(1,2) by auto
qed

theorem alloc_free_page_roundtrip_witness:
  "\<not> pooled (vmmngr_free_page (pte_addr (snd (vmmngr_alloc_page demo_vmm)) 0xC0003000)
     (snd (vmmngr_alloc_page demo_vmm))) 0x3000"
  using alloc_free_page_roundtrip [OF demo_space demo_alloc_page _ demo_alloc(2)] by (simp add: V2P_def)

text \<open>
  C33: The out-of-memory check of \<open>vmmngr_map_page\<close> cannot fire: it tests \<open>P2V\<close> of the frame,
  and \<open>P2V 0\<close> is 0xC0000000. When no frame is left for a new page table, the function does not
  return but zeroes the 4 KiB at 0xC0000000, the kernel's mapping of frame 0, makes them the page
  table, and installs the mapping there.
\<close>

theorem map_page_out_of_memory:
  fixes s :: "('d, 'z) vmm_scheme"
  assumes "space_ok n s" "phys \<noteq> 0" "virt \<noteq> 0" "aligned phys" "cur_directory s \<noteq> 0xC0000000"
    and "\<not> bit (pde s (dir_index virt)) 0" "fst (alloc_memory_block s) = 0"
  defines "s' \<equiv> vmmngr_map_page phys virt s"
  shows "page_frame (pde s' (dir_index virt)) = 0 \<and> translate s' virt = Some (phys OR (virt AND 0xfff)) \<and>
    (\<forall>j<1024. j \<noteq> table_index virt \<longrightarrow> entry (mem s') 0xC0000000 j = 0)"
proof -
  let ?k = "dir_index virt" and ?j = "table_index virt"
  have D: "aligned (cur_directory s)" by (rule space_dir [OF assms(1)])
  have K: "aligned (0xC0000000 :: u32)" by simp
  have pf0: "page_frame (entry_value 0 0) = 0" by (rule page_frame_entry_value) simp_all
  have "table_ok n s (pde s ?k)" using assms(1) by (simp add: space_ok_def)
  then have zero: "pde s ?k = 0" using assms(6) by (simp add: table_ok_def)
  have none: "snd (alloc_memory_block s) = s"
    using assms(1,7) by (intro fa.alloc_none) (simp_all add: space_ok_def)
  define s2 where "s2 = store32 (cur_directory s + 4 * of_nat ?k) (entry_value 0 0) (clear_page 0xC0000000 s)"
  have e2: "load32 (cur_directory s + 4 * of_nat ?k) (clear_page 0xC0000000 s) = 0"
  proof -
    have "entry (mem (clear_page 0xC0000000 s)) (cur_directory s) ?k = entry (mem s) (cur_directory s) ?k"
      using D assms(5) by (simp add: entry_memset)
    with zero show ?thesis by (simp add: load32_def entry_def pde_def)
  qed
  have s': "s' = map_entry phys virt (cur_directory s + 4 * of_nat ?k) s2"
    using assms(2,3,6,7) none e2 by (simp add: s'_def map_page_cases new_pd_entry_eq P2V_def s2_def Let_def)
  have l2: "load32 (cur_directory s + 4 * of_nat ?k) s2 = entry_value 0 0" by (simp add: s2_def)
  have t2: "entry (mem s2) 0xC0000000 j = 0" if "j < 1024" for j
    using that D K assms(5) by (simp add: s2_def entry_wr32 entry_memset)
  have s'2: "s' = store32 (0xC0000000 + 4 * of_nat ?j) (entry_value 0 phys) s2"
    using t2 [of ?j] unfolding s' map_entry_eq l2 pf0 Let_def by (simp add: P2V_def load32_def entry_def)
  have dir: "cur_directory s' = cur_directory s"
    by (rule vmm_fields_more) (simp add: s'2 s2_def)
  have "pde s' ?k = entry_value 0 0"
    unfolding pde_def dir using D K assms(5) by (simp add: s'2 s2_def entry_wr32)
  moreover have "entry (mem s') 0xC0000000 j = (if j = ?j then entry_value 0 phys else 0)" if "j < 1024" for j
    using that t2 K by (simp add: s'2 entry_wr32)
  moreover have "page_frame (entry_value 0 phys) = phys" using assms(4) by (intro page_frame_entry_value) simp_all
  ultimately show ?thesis
    by (simp add: translate_pde Let_def pf0 bit_entry_value_0 P2V_def)
qed

text \<open>The demo machine with every frame counted as used.\<close>

lemma full_vmm: "space_ok n (demo_vmm\<lparr>mem_mngr_used_blocks := 64\<rparr>)"
  "alloc_memory_block (demo_vmm\<lparr>mem_mngr_used_blocks := 64\<rparr>) = (0, demo_vmm\<lparr>mem_mngr_used_blocks := 64\<rparr>)"
  "pde (demo_vmm\<lparr>mem_mngr_used_blocks := 64\<rparr>) i = pde demo_vmm i"
  by (rule space_ok_cong [OF demo_space]; simp)
    (simp_all add: alloc_memory_block_def get_free_block_count_def pde_def)

theorem map_page_out_of_memory_witness:
  "translate (vmmngr_map_page 0x3000 0x400000 (demo_vmm\<lparr>mem_mngr_used_blocks := 64\<rparr>)) 0x400000 = Some 0x3000"
  using map_page_out_of_memory [OF full_vmm(1), of "0x3000" "0x400000"]
  by (simp add: full_vmm demo_pde dir_index_def)

text \<open>
  The last step of \<open>vmmngr_initialize\<close> removes the identity mapping and nothing else: on a
  conforming terminal it returns, no address of the first 4 MiB translates any more, every other
  address translates as before, and the directory in CR3 is the same.
\<close>

theorem remove_identity_unmaps:
  fixes s :: "('d, 'z) vmm_scheme"
  assumes "pc_conforms bus view" "terminal_ok (terminal_of view s)" "space_ok n s" "kernel_directory s = cur_directory s"
  shows "\<exists>s'. remove_identity bus s = Inr ((), s') \<and> space_ok n s' \<and> cr3 s' = cr3 s \<and>
    (\<forall>va. translate s' va = (if unat va < 0x400000 then None else translate s va))"
proof -
  have "dir_index va = 0 \<longleftrightarrow> unat va < 0x400000" for va by (auto simp: dir_index_def div_eq_0_iff)
  moreover obtain s' where "remove_identity bus s = Inr ((), s')" "space_ok n s'" "identity_dropped s s'"
    using remove_identity_space [OF assms] by blast
  moreover from this(3) have "cr3 s' = cr3 s" by (simp add: identity_dropped_def)
  ultimately show ?thesis by (auto simp: identity_dropped_translate)
qed

theorem remove_identity_unmaps_witness:
  "\<exists>s'. remove_identity demo_bus demo_vmm = Inr ((), s') \<and> cr3 s' = 0x1000"
proof -
  have "cr3 demo_vmm = 0x1000" by (simp add: demo_vmm_def)
  then show ?thesis
    using remove_identity_unmaps [OF demo_bus_conforms demo_vmm_terminal demo_space] by auto
qed

end
