(* ===== verification/Ata.thy ===== *)
theory Ata
  imports Space
begin

text \<open>
  \<^verbatim>\<open>drivers/ata.c\<close>: the PIO driver for the primary ATA drive. The polling loops are partial
  functions: a drive that never shows the awaited status is \<open>Hang\<close>. The lemmas show that on
  conforming hardware they end and that reading and writing sectors are what the drive's contents
  say.
\<close>

abbreviation (input) ATA_PRIMARY_IO :: u16 where "ATA_PRIMARY_IO \<equiv> 0x1F0"

abbreviation (input) ATA_PRIMARY_CONTROL :: u16 where "ATA_PRIMARY_CONTROL \<equiv> 0x3F6"

abbreviation (input) ATA_REG_STATUS :: u16 where "ATA_REG_STATUS \<equiv> 0x1F7"

abbreviation (input) ATA_SR_BSY :: u8 where "ATA_SR_BSY \<equiv> 0x80"

abbreviation (input) ATA_SR_DRDY :: u8 where "ATA_SR_DRDY \<equiv> 0x40"

abbreviation (input) ATA_SR_DF :: u8 where "ATA_SR_DF \<equiv> 0x20"

abbreviation (input) ATA_SR_DRQ :: u8 where "ATA_SR_DRQ \<equiv> 0x08"

abbreviation (input) ATA_SR_ERR :: u8 where "ATA_SR_ERR \<equiv> 0x01"

section \<open>Waiting\<close>

definition io_wait :: "'d bus \<Rightarrow> ('d, 'z) io_scheme \<Rightarrow> ('d, 'z) io_scheme" where
  "io_wait bus s =
     (let s = snd (port_byte_in bus ATA_PRIMARY_CONTROL s);
          s = snd (port_byte_in bus ATA_PRIMARY_CONTROL s);
          s = snd (port_byte_in bus ATA_PRIMARY_CONTROL s)
      in snd (port_byte_in bus ATA_PRIMARY_CONTROL s))"

text \<open>\<^verbatim>\<open>do status = port_byte_in(...); while (again(status))\<close>.\<close>

partial_function (option) poll ::
  "'d bus \<Rightarrow> (u8 \<Rightarrow> bool) \<Rightarrow> ('d, 'z) io_scheme \<Rightarrow> ('d, 'z) io_scheme option" where
  "poll bus again s =
     (let r = port_byte_in bus ATA_REG_STATUS s in if again (fst r) then poll bus again (snd r) else Some (snd r))"

definition returned :: "'s option \<Rightarrow> (unit, 's) result" where
  "returned r = (case r of None \<Rightarrow> Inl Hang | Some s \<Rightarrow> Inr ((), s))"

definition ata_wait_bsy :: "'d bus \<Rightarrow> ('d, 'z) io_scheme \<Rightarrow> (unit, ('d, 'z) io_scheme) result" where
  "ata_wait_bsy bus s = returned (poll bus (\<lambda>status. status AND ATA_SR_BSY \<noteq> 0) s)"

definition ata_wait_drq :: "'d bus \<Rightarrow> ('d, 'z) io_scheme \<Rightarrow> (unit, ('d, 'z) io_scheme) result" where
  "ata_wait_drq bus s = returned (poll bus (\<lambda>status. status AND ATA_SR_DRQ = 0) s)"

definition ata_wait_ready :: "'d bus \<Rightarrow> ('d, 'z) io_scheme \<Rightarrow> (unit, ('d, 'z) io_scheme) result" where
  "ata_wait_ready bus s =
     returned (poll bus (\<lambda>status. status AND ATA_SR_DRDY = 0 \<or> status AND ATA_SR_BSY \<noteq> 0) s)"

definition ata_check_error :: "'d bus \<Rightarrow> ('d, 'z) kprint_scheme \<Rightarrow> (bool, ('d, 'z) kprint_scheme) result" where
  "ata_check_error bus s =
     (let (status, s) = port_byte_in bus ATA_REG_STATUS s in
      if status AND ATA_SR_ERR \<noteq> 0
      then let (err, s) = port_byte_in bus 0x1F1 s in
        bindk (pr bus KERN_ERR ''ATA'' ''ATA Error: %x'' [VInt (ucast err)] s) (\<lambda>_ s. Inr (True, s))
      else if status AND ATA_SR_DF \<noteq> 0
      then bindk (pr bus KERN_ERR ''ATA'' ''Drive Fault!\<newline>'' [] s) (\<lambda>_ s. Inr (True, s))
      else Inr (False, s))"

section \<open>Initialisation\<close>

definition ata_init :: "'d bus \<Rightarrow> ('d, 'z) io_scheme \<Rightarrow> (unit, ('d, 'z) io_scheme) result" where
  "ata_init bus s =
     bindk (printk bus (cs ''Initializing ATA controller...\<newline>'') [] s) (\<lambda>_ s.
     let s = port_byte_out bus ATA_PRIMARY_CONTROL 0x04 s;
         s = io_wait bus s;
         s = port_byte_out bus ATA_PRIMARY_CONTROL 0x00 s in
     bindk (ata_wait_ready bus s) (\<lambda>_ s.
       printk bus (cs ''ATA controller initialized\<newline>'') [] s))"

function identify_words :: "'d bus \<Rightarrow> u16 list \<Rightarrow> int \<Rightarrow> ('d, 'z) io_scheme \<Rightarrow> (u16 list, ('d, 'z) io_scheme) result" where
  "identify_words bus identify_data i s =
     (if i < 256
      then let (w, s) = port_word_in bus ATA_PRIMARY_IO s in
        (case arr_set identify_data i w of Inl e \<Rightarrow> Inl e | Inr identify_data \<Rightarrow>
           identify_words bus identify_data (i + 1) s)
      else Inr (identify_data, s))"
  by pat_completeness auto
termination
  by (relation "measure (\<lambda>(bus, d, i, s). nat (256 - i))") auto

definition ata_identify :: "'d bus \<Rightarrow> ('d, 'z) kprint_scheme \<Rightarrow> (int, ('d, 'z) kprint_scheme) result" where
  "ata_identify bus s =
     bindk (printk bus (cs ''Identifying ATA drive...\<newline>'') [] s) (\<lambda>_ s.
     let s = port_byte_out bus 0x1F6 0xE0 s;
         s = io_wait bus s;
         s = port_byte_out bus 0x1F2 0 s;
         s = port_byte_out bus 0x1F3 0 s;
         s = port_byte_out bus 0x1F4 0 s;
         s = port_byte_out bus 0x1F5 0 s;
         s = port_byte_out bus 0x1F7 0xEC s;
         s = io_wait bus s;
         (status, s) = port_byte_in bus ATA_REG_STATUS s in
     if status = 0
     then bindk (pr bus KERN_ERR ''ATA'' ''No drive detected\<newline>'' [] s) (\<lambda>_ s. Inr (-1, s))
     else
       bindk (ata_wait_bsy bus s) (\<lambda>_ s.
       bindk (ata_check_error bus s) (\<lambda>err s.
       if err
       then bindk (pr bus KERN_ERR ''ATA'' ''Drive detectction error\<newline>'' [] s) (\<lambda>_ s. Inr (-1, s))
       else
         bindk (ata_wait_drq bus s) (\<lambda>_ s.
         bindk (identify_words bus (replicate 256 0) 0 s) (\<lambda>identify_data s.
         let sectors = ucast (identify_data ! 60) OR push_bit 16 (ucast (identify_data ! 61)) in
         bindk (printk bus (cs ''Drive Selected: \<newline>'') [] s) (\<lambda>_ s.
         bindk (printk bus (cs ''Total Sectors %d\<newline>'') [VInt sectors] s) (\<lambda>_ s.
           Inr (0, s))))))))"

section \<open>Sectors\<close>

text \<open>
  A buffer argument is an array with the offset the pointer has in it. The task file setup is the
  same for reading and writing.
\<close>

definition ata_setup :: "'d bus \<Rightarrow> u32 \<Rightarrow> u8 \<Rightarrow> ('d, 'z) io_scheme \<Rightarrow> ('d, 'z) io_scheme" where
  "ata_setup bus lba command s =
     (let s = port_byte_out bus 0x1F6 (ucast (0xE0 OR 0x40 OR (drop_bit 24 lba AND 0x0F))) s;
          s = port_byte_out bus 0x1F2 1 s;
          s = port_byte_out bus 0x1F3 (ucast (lba AND 0xFF)) s;
          s = port_byte_out bus 0x1F4 (ucast (drop_bit 8 lba AND 0xFF)) s;
          s = port_byte_out bus 0x1F5 (ucast (drop_bit 16 lba AND 0xFF)) s
      in port_byte_out bus 0x1F7 command s)"

function read_words :: "'d bus \<Rightarrow> u8 list \<Rightarrow> int \<Rightarrow> int \<Rightarrow> ('d, 'z) io_scheme \<Rightarrow> (u8 list, ('d, 'z) io_scheme) result" where
  "read_words bus buffer off i s =
     (if i < 256
      then let (w, s) = port_word_in bus ATA_PRIMARY_IO s in
        (case arr_set buffer (off + 2 * i) (ucast w) of Inl e \<Rightarrow> Inl e | Inr buffer \<Rightarrow>
         case arr_set buffer (off + 2 * i + 1) (ucast (drop_bit 8 w)) of Inl e \<Rightarrow> Inl e | Inr buffer \<Rightarrow>
           read_words bus buffer off (i + 1) s)
      else Inr (buffer, s))"
  by pat_completeness auto
termination
  by (relation "measure (\<lambda>(bus, b, off, i, s). nat (256 - i))") auto

definition ata_read_sector ::
  "'d bus \<Rightarrow> u32 \<Rightarrow> u8 list \<Rightarrow> int \<Rightarrow> ('d, 'z) kprint_scheme \<Rightarrow> (u8 list, ('d, 'z) kprint_scheme) result" where
  "ata_read_sector bus lba buffer off s =
     bindk (ata_wait_bsy bus s) (\<lambda>_ s.
     let s = ata_setup bus lba 0x20 s in
     bindk (ata_wait_drq bus s) (\<lambda>_ s.
     bindk (ata_check_error bus s) (\<lambda>err s.
     if err
     then bindk (pr bus KERN_ERR ''ATA'' ''Error reading sector %d\<newline>'' [VInt lba] s) (\<lambda>_ s. Inr (buffer, s))
     else
       bindk (read_words bus buffer off 0 s) (\<lambda>buffer s. Inr (buffer, io_wait bus s)))))"

function write_words :: "'d bus \<Rightarrow> u8 list \<Rightarrow> int \<Rightarrow> int \<Rightarrow> ('d, 'z) io_scheme \<Rightarrow> (unit, ('d, 'z) io_scheme) result" where
  "write_words bus buffer off i s =
     (if i < 256
      then (case arr_get buffer (off + 2 * i) of Inl e \<Rightarrow> Inl e | Inr lo \<Rightarrow>
            case arr_get buffer (off + 2 * i + 1) of Inl e \<Rightarrow> Inl e | Inr hi \<Rightarrow>
              write_words bus buffer off (i + 1)
                (port_word_out bus ATA_PRIMARY_IO (ucast lo OR push_bit 8 (ucast hi)) s))
      else Inr ((), s))"
  by pat_completeness auto
termination
  by (relation "measure (\<lambda>(bus, b, off, i, s). nat (256 - i))") auto

definition ata_write_sector ::
  "'d bus \<Rightarrow> u32 \<Rightarrow> u8 list \<Rightarrow> int \<Rightarrow> ('d, 'z) kprint_scheme \<Rightarrow> (unit, ('d, 'z) kprint_scheme) result" where
  "ata_write_sector bus lba buffer off s =
     bindk (ata_wait_bsy bus s) (\<lambda>_ s.
     let s = ata_setup bus lba 0x30 s in
     bindk (ata_wait_drq bus s) (\<lambda>_ s.
     bindk (write_words bus buffer off 0 s) (\<lambda>_ s.
     let s = io_wait bus s;
         s = port_byte_out bus 0x1F7 0xE7 s in
     bindk (ata_wait_bsy bus s) (\<lambda>_ s.
     bindk (ata_check_error bus s) (\<lambda>err s.
     if err then pr bus KERN_ERR ''ATA'' ''Error writing sector %d\<newline>'' [VInt lba] s
     else Inr ((), s))))))"

text \<open>Several sectors; the \<^verbatim>\<open>u8\<close> counter stays below \<^verbatim>\<open>sector_count\<close> and does not wrap.\<close>

function read_sectors_from ::
  "'d bus \<Rightarrow> u32 \<Rightarrow> nat \<Rightarrow> u8 list \<Rightarrow> nat \<Rightarrow> ('d, 'z) kprint_scheme \<Rightarrow> (u8 list, ('d, 'z) kprint_scheme) result" where
  "read_sectors_from bus lba count buffer i s =
     (if i < count
      then bindk (ata_read_sector bus (lba + of_nat i) buffer (int i * 512) s)
             (\<lambda>buffer s. read_sectors_from bus lba count buffer (Suc i) s)
      else Inr (buffer, s))"
  by pat_completeness auto
termination
  by (relation "measure (\<lambda>(bus, lba, count, b, i, s). count - i)") auto

definition ata_read_sectors ::
  "'d bus \<Rightarrow> u32 \<Rightarrow> u8 \<Rightarrow> u8 list \<Rightarrow> ('d, 'z) kprint_scheme \<Rightarrow> (u8 list, ('d, 'z) kprint_scheme) result" where
  "ata_read_sectors bus lba sector_count buffer s = read_sectors_from bus lba (unat sector_count) buffer 0 s"

function write_sectors_from ::
  "'d bus \<Rightarrow> u32 \<Rightarrow> nat \<Rightarrow> u8 list \<Rightarrow> nat \<Rightarrow> ('d, 'z) kprint_scheme \<Rightarrow> (unit, ('d, 'z) kprint_scheme) result" where
  "write_sectors_from bus lba count buffer i s =
     (if i < count
      then bindk (ata_write_sector bus (lba + of_nat i) buffer (int i * 512) s)
             (\<lambda>_ s. write_sectors_from bus lba count buffer (Suc i) s)
      else Inr ((), s))"
  by pat_completeness auto
termination
  by (relation "measure (\<lambda>(bus, lba, count, b, i, s). count - i)") auto

definition ata_write_sectors ::
  "'d bus \<Rightarrow> u32 \<Rightarrow> u8 \<Rightarrow> u8 list \<Rightarrow> ('d, 'z) kprint_scheme \<Rightarrow> (unit, ('d, 'z) kprint_scheme) result" where
  "ata_write_sectors bus lba sector_count buffer s = write_sectors_from bus lba (unat sector_count) buffer 0 s"

definition read_sector ::
  "'d bus \<Rightarrow> u32 \<Rightarrow> u8 list \<Rightarrow> int \<Rightarrow> ('d, 'z) kprint_scheme \<Rightarrow> (u8 list, ('d, 'z) kprint_scheme) result" where
  "read_sector bus lba buffer off s = ata_read_sector bus lba buffer off s"

definition write_sector ::
  "'d bus \<Rightarrow> u32 \<Rightarrow> u8 list \<Rightarrow> int \<Rightarrow> ('d, 'z) kprint_scheme \<Rightarrow> (unit, ('d, 'z) kprint_scheme) result" where
  "write_sector bus lba buffer off s = ata_write_sector bus lba buffer off s"

declare identify_words.simps [simp del] read_words.simps [simp del] write_words.simps [simp del]
  read_sectors_from.simps [simp del] write_sectors_from.simps [simp del]

section \<open>The polling loops end\<close>

lemma poll_spec:
  fixes s :: "('d, 'z) io_scheme"
  assumes "pc_conforms bus view"
    and busy: "\<And>v. bit v 7 \<Longrightarrow> \<not> bit v 3 \<Longrightarrow> again v"
    and free: "\<And>v. \<not> bit v 7 \<Longrightarrow> bit v 6 \<Longrightarrow> (bit v 3 \<longleftrightarrow> ata_state (view (dev s)) \<noteq> Idle) \<Longrightarrow> \<not> again v"
  shows "\<exists>d. poll bus again s = Some (s\<lparr>dev := d\<rparr>) \<and> view d = (view (dev s))\<lparr>ata_busy := 0\<rparr>"
  using free
proof (induction "ata_busy (view (dev s))" arbitrary: s)
  case 0
  have "\<not> again (fst (bus_inb bus 0x1F7 (dev s)))"
    using status_in [OF assms(1), of "dev s"] 0 by (auto simp: ata_status_def)
  then have "poll bus again s = Some (s\<lparr>dev := snd (bus_inb bus 0x1F7 (dev s))\<rparr>)"
    by (subst poll.simps) (simp add: port_byte_in_def)
  with 0 show ?case by (intro exI conjI) (assumption, simp add: view_status_in [OF assms(1)])
next
  case (Suc n)
  let ?s = "s\<lparr>dev := snd (bus_inb bus 0x1F7 (dev s))\<rparr>"
  have "again (fst (bus_inb bus 0x1F7 (dev s)))"
    using status_in [OF assms(1), of "dev s"] Suc.hyps(2) busy by (auto simp: ata_status_def split: if_splits)
  then have step: "poll bus again s = poll bus again ?s"
    by (subst poll.simps) (simp add: port_byte_in_def)
  have v: "view (snd (bus_inb bus 0x1F7 (dev s))) = (view (dev s))\<lparr>ata_busy := n\<rparr>"
    by (simp add: view_status_in [OF assms(1)] flip: Suc.hyps(2))
  have "\<exists>d. poll bus again ?s = Some (?s\<lparr>dev := d\<rparr>) \<and> view d = (view (dev ?s))\<lparr>ata_busy := 0\<rparr>"
    using Suc.prems by (intro Suc.hyps(1)) (auto simp: v)
  then show ?case using step v by simp
qed

text \<open>A status byte against the masks the code uses.\<close>

lemma status_masks:
  "(v :: u8) AND 0x80 \<noteq> 0 \<longleftrightarrow> bit v 7" "v AND 0x40 = 0 \<longleftrightarrow> \<not> bit v 6" "v AND 0x20 \<noteq> 0 \<longleftrightarrow> bit v 5"
  "v AND 0x08 = 0 \<longleftrightarrow> \<not> bit v 3" "v AND 0x01 \<noteq> 0 \<longleftrightarrow> bit v 0"
proof -
  have m: "v AND push_bit n 1 \<noteq> 0 \<longleftrightarrow> bit v n" for n by (simp only: bit_iff_and_push_bit_not_eq_0)
  from m [of 7] m [of 6] m [of 5] m [of 3] m [of 0]
  show "v AND 0x80 \<noteq> 0 \<longleftrightarrow> bit v 7" "v AND 0x40 = 0 \<longleftrightarrow> \<not> bit v 6" "v AND 0x20 \<noteq> 0 \<longleftrightarrow> bit v 5"
    "v AND 0x08 = 0 \<longleftrightarrow> \<not> bit v 3" "v AND 0x01 \<noteq> 0 \<longleftrightarrow> bit v 0"
    by (simp_all del: bit_0) blast+
qed

lemma wait_bsy_spec:
  fixes s :: "('d, 'z) io_scheme"
  assumes "pc_conforms bus view"
  obtains d where "ata_wait_bsy bus s = Inr ((), s\<lparr>dev := d\<rparr>)" "view d = (view (dev s))\<lparr>ata_busy := 0\<rparr>"
proof -
  have "\<exists>d. poll bus (\<lambda>status. status AND 0x80 \<noteq> 0) s = Some (s\<lparr>dev := d\<rparr>) \<and>
      view d = (view (dev s))\<lparr>ata_busy := 0\<rparr>"
    by (rule poll_spec [OF assms]) (simp_all only: status_masks not_not not_False_eq_True)
  then show thesis using that by (auto simp: ata_wait_bsy_def returned_def)
qed

lemma wait_drq_spec:
  fixes s :: "('d, 'z) io_scheme"
  assumes "pc_conforms bus view" "ata_state (view (dev s)) \<noteq> Idle"
  obtains d where "ata_wait_drq bus s = Inr ((), s\<lparr>dev := d\<rparr>)" "view d = (view (dev s))\<lparr>ata_busy := 0\<rparr>"
proof -
  have "\<exists>d. poll bus (\<lambda>status. status AND 0x08 = 0) s = Some (s\<lparr>dev := d\<rparr>) \<and>
      view d = (view (dev s))\<lparr>ata_busy := 0\<rparr>"
    by (rule poll_spec [OF assms(1)]) (use assms(2) in \<open>simp_all only: status_masks not_not simp_thms\<close>)
  then show thesis using that by (auto simp: ata_wait_drq_def returned_def)
qed

lemma wait_ready_spec:
  fixes s :: "('d, 'z) io_scheme"
  assumes "pc_conforms bus view"
  obtains d where "ata_wait_ready bus s = Inr ((), s\<lparr>dev := d\<rparr>)" "view d = (view (dev s))\<lparr>ata_busy := 0\<rparr>"
proof -
  have "\<exists>d. poll bus (\<lambda>status. status AND 0x40 = 0 \<or> status AND 0x80 \<noteq> 0) s = Some (s\<lparr>dev := d\<rparr>) \<and>
      view d = (view (dev s))\<lparr>ata_busy := 0\<rparr>"
    by (rule poll_spec [OF assms(1)]) (simp_all only: status_masks simp_thms)
  then show thesis using that by (auto simp: ata_wait_ready_def returned_def)
qed

lemma check_error_spec:
  fixes s :: "('d, 'z) kprint_scheme"
  assumes "pc_conforms bus view" "ata_busy (view (dev s)) = 0"
  obtains d where "ata_check_error bus s = Inr (False, s\<lparr>dev := d\<rparr>)" "view d = view (dev s)"
proof
  let ?r = "bus_inb bus 0x1F7 (dev s)"
  have "\<not> bit (fst ?r) 0 \<and> \<not> bit (fst ?r) 5"
    using status_in [OF assms(1), of "dev s"] assms(2) by (auto simp: ata_status_def)
  then show "ata_check_error bus s = Inr (False, s\<lparr>dev := snd ?r\<rparr>)"
    by (simp add: ata_check_error_def port_byte_in_def status_masks del: bit_0)
  show "view (snd ?r) = view (dev s)"
    using assms(2) by (simp add: view_status_in [OF assms(1)])
qed

lemma io_wait_spec:
  fixes s :: "('d, 'z) io_scheme"
  assumes "pc_conforms bus view"
  obtains d where "io_wait bus s = s\<lparr>dev := d\<rparr>" "view d = view (dev s)"
proof
  let ?n = "\<lambda>d. snd (bus_inb bus 0x3F6 d)"
  show "io_wait bus s = s\<lparr>dev := ?n (?n (?n (?n (dev s))))\<rparr>"
    by (simp add: io_wait_def port_byte_in_def)
  show "view (?n (?n (?n (?n (dev s))))) = view (dev s)"
    by (simp add: view_inb [OF assms])
qed

section \<open>The task file\<close>

text \<open>The drive addresses a sector by the low 28 bits of the LBA.\<close>

definition sector_index :: "u32 \<Rightarrow> nat" where
  "sector_index lba = unat lba mod 2 ^ 28"

lemma ata_setup_spec:
  fixes s :: "('d, 'z) io_scheme"
  assumes "pc_conforms bus view"
  obtains d n a where "ata_setup bus lba c s = s\<lparr>dev := d\<rparr>"
    "view d = a\<lparr>ata_state := ata_command c a, ata_busy := n\<rparr>"
    "ata_lba a = sector_index lba" "ata_sectors a = ata_sectors (view (dev s))"
    "ata_state a = ata_state (view (dev s))" "ata_identity a = ata_identity (view (dev s))"
    "crtc_index a = crtc_index (view (dev s))" "crtc_regs a = crtc_regs (view (dev s))"
proof -
  let ?h = "ucast (0xE0 OR 0x40 OR (drop_bit 24 lba AND 0x0F)) :: u8"
  let ?l = "ucast (lba AND 0xFF) :: u8" and ?m = "ucast (drop_bit 8 lba AND 0xFF) :: u8"
  let ?g = "ucast (drop_bit 16 lba AND 0xFF) :: u8"
  define a where "a = (view (dev s))\<lparr>ata_drive_head := ?h, ata_lba_low := ?l, ata_lba_mid := ?m, ata_lba_high := ?g\<rparr>"
  define d where "d = bus_outb bus 0x1F5 ?g (bus_outb bus 0x1F4 ?m (bus_outb bus 0x1F3 ?l
    (bus_outb bus 0x1F2 1 (bus_outb bus 0x1F6 ?h (dev s)))))"
  have d: "view d = a"
    by (simp add: d_def a_def view_outb_quiet [OF assms] pc_outb_def)
  obtain n where "view (bus_outb bus 0x1F7 c d) = pc_outb 0x1F7 c n (view d)"
    using view_outb [OF assms] by blast
  then have v: "view (bus_outb bus 0x1F7 c d) = a\<lparr>ata_state := ata_command c a, ata_busy := n\<rparr>"
    by (simp add: d pc_outb_def)
  have s: "ata_setup bus lba c s = s\<lparr>dev := bus_outb bus 0x1F7 c d\<rparr>"
    by (simp add: ata_setup_def port_byte_out_def Let_def d_def)
  have ff: "(x :: u32) AND 0xFF = take_bit 8 x" "x AND 0x0F = take_bit 4 x" for x
    using take_bit_eq_mask [of 8 x] take_bit_eq_mask [of 4 x] by (simp_all add: mask_eq_exp_minus_1)
  have byte: "unat (ucast (drop_bit k lba AND 0xFF) :: u8) = unat lba div 2 ^ k mod 256" for k
    unfolding ff by (simp only: unsigned_ucast_eq unsigned_take_bit_eq unsigned_drop_bit_eq)
      (simp add: drop_bit_eq_div take_bit_eq_mod mod_less [OF unat_lt32])
  have head: "unat (?h AND 0x0F) = unat lba div 2 ^ 24 mod 16"
  proof -
    have "?h AND 0x0F = take_bit 4 ?h" using take_bit_eq_mask [of 4 ?h] by (simp add: mask_eq_exp_minus_1)
    also have "\<dots> = ucast (take_bit 4 (0xE0 OR 0x40 OR (drop_bit 24 lba AND 0x0F)))"
    proof -
      have "take_bit 4 (ucast w :: u8) = ucast (take_bit 4 w)" for w :: u32
        by (rule bit_word_eqI) (auto simp: bit_simps)
      then show ?thesis .
    qed
    also have "\<dots> = ucast (take_bit 4 (drop_bit 24 lba))"
      unfolding ff by (simp only: take_bit_or take_bit_take_bit) simp
    finally have h: "?h AND 0x0F = (ucast (take_bit 4 (drop_bit 24 lba)) :: u8)" .
    show ?thesis
      unfolding h by (simp only: unsigned_ucast_eq unsigned_take_bit_eq unsigned_drop_bit_eq)
        (simp add: drop_bit_eq_div take_bit_eq_mod mod_less [OF unat_lt32] mod_mod_cancel)
  qed
  have "ata_lba a = unat lba mod 256 + 256 * (unat lba div 2 ^ 8 mod 256)
      + 65536 * (unat lba div 2 ^ 16 mod 256) + 16777216 * (unat lba div 2 ^ 24 mod 16)"
    using byte [of 0] byte [of 8] byte [of 16] head by (simp add: ata_lba_def a_def)
  also have "\<dots> = unat lba mod 2 ^ 28"
    by (simp add: mod_mult2_eq [of _ 256 1048576, simplified] mod_mult2_eq [of _ 256 4096, simplified]
        mod_mult2_eq [of _ 256 16, simplified] div_mult2_eq [symmetric])
  finally have "ata_lba a = unat lba mod 2 ^ 28" .
  then show thesis by (intro that [OF s v]) (simp_all add: a_def sector_index_def)
qed

section \<open>The data phase\<close>

definition bytes_of :: "u16 list \<Rightarrow> u8 list" where
  "bytes_of ws = concat (map (\<lambda>w. [ucast w, ucast (drop_bit 8 w)]) ws)"

fun words_of :: "u8 list \<Rightarrow> u16 list" where
  "words_of (a # b # xs) = (ucast a OR push_bit 8 (ucast b)) # words_of xs"
| "words_of xs = []"

lemma bytes_of_simps [simp]:
  "bytes_of [] = []" "bytes_of (w # ws) = ucast w # ucast (drop_bit 8 w) # bytes_of ws"
  "length (bytes_of ws) = 2 * length ws"
  by (simp_all add: bytes_of_def) (induction ws; simp)

lemma bytes_of_words_of: "even (length xs) \<Longrightarrow> bytes_of (words_of xs) = xs"
proof (induction xs rule: words_of.induct)
  case (1 a b xs)
  have "ucast (ucast a OR push_bit 8 (ucast b) :: u16) = a" "ucast (drop_bit 8 (ucast a OR push_bit 8 (ucast b) :: u16)) = b"
    by (rule bit_word_eqI; auto simp: bit_simps dest: bit_imp_le_length)+
  with 1 show ?case by simp
qed simp_all

lemma words_of_length: "length (words_of xs) = length xs div 2"
  by (induction xs rule: words_of.induct) simp_all

lemma words_of_step:
  "Suc (2 * i) < length xs \<Longrightarrow> words_of xs ! i = (ucast (xs ! (2 * i)) OR push_bit 8 (ucast (xs ! Suc (2 * i))))"
proof (induction xs arbitrary: i rule: words_of.induct)
  case (1 a b xs)
  then show ?case by (cases i) simp_all
qed simp_all

definition data_phase :: "u16 list \<Rightarrow> ata_phase" where
  "data_phase ws = (if ws = [] then Idle else Reading ws)"

lemma ata_data_in_phase: "ata_data_in (data_phase (w # ws)) = (w, data_phase ws)"
  by (simp add: data_phase_def)

lemma read_words_spec:
  fixes s :: "('d, 'z) io_scheme"
  assumes "pc_conforms bus view" "ata_state (view (dev s)) = data_phase ws" "length ws = 256 - i" "i \<le> 256"
    "off + 512 \<le> length buffer"
  shows "\<exists>d. read_words bus buffer (int off) (int i) s
      = Inr (take (off + 2 * i) buffer @ bytes_of ws @ drop (off + 512) buffer, s\<lparr>dev := d\<rparr>) \<and>
    view d = (view (dev s))\<lparr>ata_state := Idle\<rparr>"
  using assms(2-5)
proof (induction ws arbitrary: i buffer s)
  case Nil
  then have "i = 256" "ata_state (view (dev s)) = Idle" by (simp_all add: data_phase_def)
  then show ?case
    by (intro exI [of _ "dev s"]) (simp add: read_words.simps)
next
  case (Cons w ws)
  then have i: "i < 256" by simp
  let ?d = "snd (bus_inw bus 0x1F0 (dev s))"
  have p: "port_word_in bus 0x1F0 s = (w, s\<lparr>dev := ?d\<rparr>)"
    using Cons.prems(1) by (simp add: port_word_in_def data_in [OF assms(1)] ata_data_in_phase)
  have v: "view ?d = (view (dev s))\<lparr>ata_state := data_phase ws\<rparr>"
    using Cons.prems(1) by (simp add: view_data_in [OF assms(1)] ata_data_in_phase)
  let ?k = "off + 2 * i"
  let ?b = "buffer[?k := ucast w, Suc ?k := ucast (drop_bit 8 w)]"
  have k: "Suc ?k < length buffer" using Cons.prems(4) i by simp
  have sets: "arr_set buffer (int off + 2 * int i) (ucast w) = Inr (buffer[?k := ucast w])"
    "arr_set (buffer[?k := ucast w]) (int off + 2 * int i + 1) (ucast (drop_bit 8 w)) = Inr ?b"
    using k arr_set_nat [of ?k buffer "ucast w"] arr_set_nat [of "Suc ?k" "buffer[?k := ucast w]" "ucast (drop_bit 8 w)"]
    by (simp_all add: algebra_simps)
  have "\<exists>d. read_words bus ?b (int off) (int (Suc i)) (s\<lparr>dev := ?d\<rparr>)
      = Inr (take (off + 2 * Suc i) ?b @ bytes_of ws @ drop (off + 512) ?b, s\<lparr>dev := ?d\<rparr>\<lparr>dev := d\<rparr>) \<and>
      view d = (view (dev (s\<lparr>dev := ?d\<rparr>)))\<lparr>ata_state := Idle\<rparr>"
    using Cons.prems i by (intro Cons.IH) (simp_all add: v)
  then obtain d where d: "read_words bus ?b (int off) (int (Suc i)) (s\<lparr>dev := ?d\<rparr>)
      = Inr (take (off + 2 * Suc i) ?b @ bytes_of ws @ drop (off + 512) ?b, s\<lparr>dev := d\<rparr>)"
    "view d = (view (dev s))\<lparr>ata_state := Idle\<rparr>" by (auto simp: v)
  have "read_words bus buffer (int off) (int i) s = read_words bus ?b (int off) (int (Suc i)) (s\<lparr>dev := ?d\<rparr>)"
    unfolding of_nat_Suc add.commute [of 1] using i by (subst read_words.simps) (simp add: p sets)
  moreover have "take (off + 2 * Suc i) ?b = take ?k buffer @ [ucast w, ucast (drop_bit 8 w)]"
    using k by (simp add: take_Suc_conv_app_nth take_update_cancel)
  moreover have "drop (off + 512) ?b = drop (off + 512) buffer" using i by simp
  ultimately show ?case using d by (intro exI [of _ d]) simp
qed

lemma write_words_spec:
  fixes s :: "('d, 'z) io_scheme"
  assumes "pc_conforms bus view" "off + 512 \<le> length buffer"
    "ata_state (view (dev s)) = Writing l (take i (words_of (take 512 (drop off buffer))))" "i < 256"
  shows "\<exists>d n. write_words bus buffer (int off) (int i) s = Inr ((), s\<lparr>dev := d\<rparr>) \<and>
    view d = (view (dev s))\<lparr>ata_state := Idle, ata_busy := n,
      ata_sectors := (ata_sectors (view (dev s)))(l := words_of (take 512 (drop off buffer)))\<rparr>"
  using assms(3,4)
proof (induction "255 - i" arbitrary: i s)
  case k: 0
  then have i: "i = 255" by simp
  let ?ws = "words_of (take 512 (drop off buffer))"
  have len: "length ?ws = 256" using assms(2) by (simp add: words_of_length)
  let ?w = "ucast (buffer ! (off + 510)) OR push_bit 8 (ucast (buffer ! (off + 511))) :: u16"
  have w: "?ws ! 255 = ?w" using assms(2) words_of_step [of 255 "take 512 (drop off buffer)"] by simp
  have all: "take 255 ?ws @ [?w] = ?ws" using len w take_Suc_conv_app_nth [of 255 ?ws] by simp
  let ?d = "bus_outw bus 0x1F0 ?w (dev s)"
  obtain n where "view ?d = ata_data_out ?w n (view (dev s))" using view_data_out [OF assms(1)] by blast
  then have v: "view ?d = (view (dev s))\<lparr>ata_state := Idle, ata_busy := n,
      ata_sectors := (ata_sectors (view (dev s)))(l := ?ws)\<rparr>"
    using k(2) len all by (simp add: ata_data_out_def i)
  have gets: "arr_get buffer (int off + 510) = Inr (buffer ! (off + 510))"
    "arr_get buffer (int off + 511) = Inr (buffer ! (off + 511))"
    using assms(2) arr_get_nat [of "off + 510" buffer] arr_get_nat [of "off + 511" buffer] by simp_all
  have "write_words bus buffer (int off) (int i) s = Inr ((), s\<lparr>dev := ?d\<rparr>)"
    unfolding i by (subst write_words.simps) (simp add: gets add.assoc write_words.simps [of _ _ _ 256] port_word_out_def)
  with v show ?case by blast
next
  case (Suc k)
  then have i: "i < 255" by simp
  let ?ws = "words_of (take 512 (drop off buffer))"
  have len: "length ?ws = 256" using assms(2) by (simp add: words_of_length)
  let ?w = "ucast (buffer ! (off + 2 * i)) OR push_bit 8 (ucast (buffer ! Suc (off + 2 * i))) :: u16"
  have w: "?ws ! i = ?w" using i assms(2) words_of_step [of i "take 512 (drop off buffer)"] by simp
  have all: "take i ?ws @ [?w] = take (Suc i) ?ws" using len w i by (simp add: take_Suc_conv_app_nth)
  let ?d = "bus_outw bus 0x1F0 ?w (dev s)"
  obtain n where "view ?d = ata_data_out ?w n (view (dev s))" using view_data_out [OF assms(1)] by blast
  then have v: "view ?d = (view (dev s))\<lparr>ata_state := Writing l (take (Suc i) ?ws)\<rparr>"
    using Suc.prems(1) len all i by (simp add: ata_data_out_def)
  have gets: "arr_get buffer (int off + 2 * int i) = Inr (buffer ! (off + 2 * i))"
    "arr_get buffer (int off + 2 * int i + 1) = Inr (buffer ! Suc (off + 2 * i))"
    using i assms(2) arr_get_nat [of "off + 2 * i" buffer] arr_get_nat [of "Suc (off + 2 * i)" buffer]
    by (simp_all add: algebra_simps)
  have step: "write_words bus buffer (int off) (int i) s = write_words bus buffer (int off) (int (Suc i)) (s\<lparr>dev := ?d\<rparr>)"
    unfolding of_nat_Suc add.commute [of 1] using i by (subst write_words.simps) (simp add: gets port_word_out_def)
  have "\<exists>d n. write_words bus buffer (int off) (int (Suc i)) (s\<lparr>dev := ?d\<rparr>) = Inr ((), s\<lparr>dev := ?d\<rparr>\<lparr>dev := d\<rparr>) \<and>
    view d = (view (dev (s\<lparr>dev := ?d\<rparr>)))\<lparr>ata_state := Idle, ata_busy := n,
      ata_sectors := (ata_sectors (view (dev (s\<lparr>dev := ?d\<rparr>))))(l := ?ws)\<rparr>"
    using Suc i by (intro Suc.hyps(1)) (simp_all add: v)
  then show ?case unfolding step by (auto simp: v)
qed

section \<open>Reading and writing a sector\<close>

definition drive_ok :: "pc \<Rightarrow> bool" where
  "drive_ok a \<longleftrightarrow> ata_state a = Idle \<and> (\<forall>l. length (ata_sectors a l) = 256)"

definition sector_at :: "pc \<Rightarrow> u32 \<Rightarrow> u8 list" where
  "sector_at a lba = bytes_of (ata_sectors a (sector_index lba))"

text \<open>Everything but the task file, the busy count and the sectors is the same.\<close>

definition drive_only :: "pc \<Rightarrow> pc \<Rightarrow> bool" where
  "drive_only a b \<longleftrightarrow> crtc_index b = crtc_index a \<and> crtc_regs b = crtc_regs a \<and> ata_identity b = ata_identity a"

lemma drive_only_trans: "drive_only a b \<Longrightarrow> drive_only b c \<Longrightarrow> drive_only a c"
  and drive_only_refl [simp]: "drive_only a a"
  by (simp_all add: drive_only_def)

lemma sector_at_length: "drive_ok a \<Longrightarrow> length (sector_at a lba) = 512"
  by (simp add: drive_ok_def sector_at_def)

lemma read_sector_spec:
  fixes s :: "('d, 'z) kprint_scheme"
  assumes "pc_conforms bus view" "drive_ok (view (dev s))" "off + 512 \<le> length buffer"
  obtains d where
    "ata_read_sector bus lba buffer (int off) s
      = Inr (take off buffer @ sector_at (view (dev s)) lba @ drop (off + 512) buffer, s\<lparr>dev := d\<rparr>)"
    "drive_ok (view d)" "ata_sectors (view d) = ata_sectors (view (dev s))" "drive_only (view (dev s)) (view d)"
proof -
  let ?ws = "ata_sectors (view (dev s)) (sector_index lba)"
  obtain d1 where d1: "ata_wait_bsy bus s = Inr ((), s\<lparr>dev := d1\<rparr>)" "view d1 = (view (dev s))\<lparr>ata_busy := 0\<rparr>"
    using wait_bsy_spec [OF assms(1)] by blast
  obtain d2 n a where d2: "ata_setup bus lba 0x20 (s\<lparr>dev := d1\<rparr>) = s\<lparr>dev := d2\<rparr>"
    "view d2 = a\<lparr>ata_state := ata_command 0x20 a, ata_busy := n\<rparr>" "ata_lba a = sector_index lba"
    "ata_sectors a = ata_sectors (view d1)" "ata_identity a = ata_identity (view d1)"
    "crtc_index a = crtc_index (view d1)" "crtc_regs a = crtc_regs (view d1)"
    by (rule ata_setup_spec [OF assms(1), of lba "0x20" "s\<lparr>dev := d1\<rparr>"]) auto
  have len: "length ?ws = 256" using assms(2) by (simp add: drive_ok_def)
  have st: "ata_state (view d2) = Reading ?ws" using d2 d1 by (simp add: ata_command_def)
  obtain d3 where d3: "ata_wait_drq bus (s\<lparr>dev := d2\<rparr>) = Inr ((), s\<lparr>dev := d3\<rparr>)" "view d3 = (view d2)\<lparr>ata_busy := 0\<rparr>"
    using wait_drq_spec [OF assms(1), of "s\<lparr>dev := d2\<rparr>"] st by auto
  obtain d4 where d4: "ata_check_error bus (s\<lparr>dev := d3\<rparr>) = Inr (False, s\<lparr>dev := d4\<rparr>)" "view d4 = view d3"
    using check_error_spec [OF assms(1), of "s\<lparr>dev := d3\<rparr>"] d3(2) by auto
  have "?ws \<noteq> []" using len by auto
  then have "ata_state (view (dev (s\<lparr>dev := d4\<rparr>))) = data_phase ?ws" using st d3 d4 by (simp add: data_phase_def)
  from read_words_spec [OF assms(1) this, of 0 off buffer] len assms(3)
  obtain d5 where d5: "read_words bus buffer (int off) 0 (s\<lparr>dev := d4\<rparr>)
      = Inr (take off buffer @ bytes_of ?ws @ drop (off + 512) buffer, s\<lparr>dev := d5\<rparr>)"
    "view d5 = (view d4)\<lparr>ata_state := Idle\<rparr>" by auto
  obtain d6 where d6: "io_wait bus (s\<lparr>dev := d5\<rparr>) = s\<lparr>dev := d6\<rparr>" "view d6 = view d5"
    using io_wait_spec [OF assms(1), of "s\<lparr>dev := d5\<rparr>"] by auto
  have "ata_read_sector bus lba buffer (int off) s
      = Inr (take off buffer @ sector_at (view (dev s)) lba @ drop (off + 512) buffer, s\<lparr>dev := d6\<rparr>)"
    by (simp add: ata_read_sector_def d1(1) d2(1) d3(1) d4(1) d5(1) d6(1) Let_def sector_at_def)
  moreover have "view d6 = a\<lparr>ata_state := Idle, ata_busy := 0\<rparr>"
    by (simp add: d6(2) d5(2) d4(2) d3(2) d2(2))
  ultimately show thesis
    using assms(2) d1(2) d2(4-7) by (intro that [of d6]) (simp_all add: drive_ok_def drive_only_def)
qed

lemma write_sector_spec:
  fixes s :: "('d, 'z) kprint_scheme"
  assumes "pc_conforms bus view" "drive_ok (view (dev s))" "off + 512 \<le> length buffer"
  obtains d where "ata_write_sector bus lba buffer (int off) s = Inr ((), s\<lparr>dev := d\<rparr>)" "drive_ok (view d)"
    "ata_sectors (view d) = (ata_sectors (view (dev s)))(sector_index lba := words_of (take 512 (drop off buffer)))"
    "drive_only (view (dev s)) (view d)"
proof -
  let ?ws = "words_of (take 512 (drop off buffer))"
  obtain d1 where d1: "ata_wait_bsy bus s = Inr ((), s\<lparr>dev := d1\<rparr>)" "view d1 = (view (dev s))\<lparr>ata_busy := 0\<rparr>"
    using wait_bsy_spec [OF assms(1)] by blast
  obtain d2 n a where d2: "ata_setup bus lba 0x30 (s\<lparr>dev := d1\<rparr>) = s\<lparr>dev := d2\<rparr>"
    "view d2 = a\<lparr>ata_state := ata_command 0x30 a, ata_busy := n\<rparr>" "ata_lba a = sector_index lba"
    "ata_sectors a = ata_sectors (view d1)" "ata_identity a = ata_identity (view d1)"
    "crtc_index a = crtc_index (view d1)" "crtc_regs a = crtc_regs (view d1)"
    by (rule ata_setup_spec [OF assms(1), of lba "0x30" "s\<lparr>dev := d1\<rparr>"]) auto
  have st: "ata_state (view d2) = Writing (sector_index lba) []" using d2 by (simp add: ata_command_def)
  obtain d3 where d3: "ata_wait_drq bus (s\<lparr>dev := d2\<rparr>) = Inr ((), s\<lparr>dev := d3\<rparr>)" "view d3 = (view d2)\<lparr>ata_busy := 0\<rparr>"
    using wait_drq_spec [OF assms(1), of "s\<lparr>dev := d2\<rparr>"] st by auto
  obtain d4 m where d4: "write_words bus buffer (int off) 0 (s\<lparr>dev := d3\<rparr>) = Inr ((), s\<lparr>dev := d4\<rparr>)"
    "view d4 = (view d3)\<lparr>ata_state := Idle, ata_busy := m,
      ata_sectors := (ata_sectors (view d3))(sector_index lba := ?ws)\<rparr>"
    using write_words_spec [OF assms(1,3), of "s\<lparr>dev := d3\<rparr>" "sector_index lba" 0] st d3(2) by auto
  obtain d5 where d5: "io_wait bus (s\<lparr>dev := d4\<rparr>) = s\<lparr>dev := d5\<rparr>" "view d5 = view d4"
    using io_wait_spec [OF assms(1), of "s\<lparr>dev := d4\<rparr>"] by auto
  let ?d6 = "bus_outb bus 0x1F7 0xE7 d5"
  obtain k where "view ?d6 = pc_outb 0x1F7 0xE7 k (view d5)" using view_outb [OF assms(1)] by blast
  then have d6: "view ?d6 = (view d5)\<lparr>ata_busy := k\<rparr>" by (simp add: pc_outb_def ata_command_def)
  obtain d7 where d7: "ata_wait_bsy bus (s\<lparr>dev := ?d6\<rparr>) = Inr ((), s\<lparr>dev := d7\<rparr>)" "view d7 = (view ?d6)\<lparr>ata_busy := 0\<rparr>"
    using wait_bsy_spec [OF assms(1), of "s\<lparr>dev := ?d6\<rparr>"] by auto
  obtain d8 where d8: "ata_check_error bus (s\<lparr>dev := d7\<rparr>) = Inr (False, s\<lparr>dev := d8\<rparr>)" "view d8 = view d7"
    using check_error_spec [OF assms(1), of "s\<lparr>dev := d7\<rparr>"] d7(2) by auto
  have "ata_write_sector bus lba buffer (int off) s = Inr ((), s\<lparr>dev := d8\<rparr>)"
    by (simp add: ata_write_sector_def d1(1) d2(1) d3(1) d4(1) d5(1) d7(1) d8(1) port_byte_out_def Let_def)
  moreover have "view d8 = a\<lparr>ata_state := Idle, ata_busy := 0,
      ata_sectors := (ata_sectors a)(sector_index lba := ?ws)\<rparr>"
    by (simp add: d8(2) d7(2) d6 d5(2) d4(2) d3(2) d2(2))
  moreover have "length ?ws = 256" using assms(3) by (simp add: words_of_length)
  ultimately show thesis
    using assms(2) d1(2) d2(4-7) by (intro that [of d8]) (simp_all add: drive_ok_def drive_only_def)
qed

section \<open>Several sectors\<close>

lemma read_sectors_spec:
  fixes s :: "('d, 'z) kprint_scheme"
  assumes "pc_conforms bus view" "drive_ok (view (dev s))" "length buffer = 512 * count" "i \<le> count"
  shows "\<exists>d. read_sectors_from bus lba count buffer i s
      = Inr (take (512 * i) buffer @ concat (map (\<lambda>j. sector_at (view (dev s)) (lba + of_nat j)) [i..<count]), s\<lparr>dev := d\<rparr>) \<and>
    drive_ok (view d) \<and> ata_sectors (view d) = ata_sectors (view (dev s)) \<and> drive_only (view (dev s)) (view d)"
  using assms(2-4)
proof (induction "count - i" arbitrary: i buffer s)
  case 0
  then show ?case by (intro exI [of _ "dev s"]) (simp add: read_sectors_from.simps)
next
  case (Suc k)
  then have i: "i < count" by simp
  then have room: "512 * i + 512 \<le> length buffer" using Suc.prems(2) by simp
  let ?x = "sector_at (view (dev s)) (lba + of_nat i)"
  let ?b = "take (512 * i) buffer @ ?x @ drop (512 * i + 512) buffer"
  have len: "length ?x = 512" by (rule sector_at_length [OF Suc.prems(1)])
  obtain d where d: "ata_read_sector bus (lba + of_nat i) buffer (int (512 * i)) s = Inr (?b, s\<lparr>dev := d\<rparr>)"
    "drive_ok (view d)" "ata_sectors (view d) = ata_sectors (view (dev s))" "drive_only (view (dev s)) (view d)"
    using read_sector_spec [OF assms(1) Suc.prems(1) room] by blast
  have off: "int i * 512 = int (512 * i)" by simp
  have same: "sector_at (view d) = sector_at (view (dev s))" by (simp add: fun_eq_iff sector_at_def d(3))
  have b: "length ?b = 512 * count" "take (512 * Suc i) ?b = take (512 * i) buffer @ ?x"
    using room Suc.prems(2) len by auto
  have "\<exists>d'. read_sectors_from bus lba count ?b (Suc i) (s\<lparr>dev := d\<rparr>)
      = Inr (take (512 * Suc i) ?b @ concat (map (\<lambda>j. sector_at (view (dev (s\<lparr>dev := d\<rparr>))) (lba + of_nat j)) [Suc i..<count]),
          s\<lparr>dev := d\<rparr>\<lparr>dev := d'\<rparr>) \<and>
      drive_ok (view d') \<and> ata_sectors (view d') = ata_sectors (view (dev (s\<lparr>dev := d\<rparr>))) \<and>
      drive_only (view (dev (s\<lparr>dev := d\<rparr>))) (view d')"
    using Suc.hyps(2) i b(1) d(2) by (intro Suc.hyps(1)) simp_all
  note IH = this [unfolded b(2)]
  obtain d' where d': "read_sectors_from bus lba count ?b (Suc i) (s\<lparr>dev := d\<rparr>)
      = Inr ((take (512 * i) buffer @ ?x) @ concat (map (\<lambda>j. sector_at (view (dev s)) (lba + of_nat j)) [Suc i..<count]),
          s\<lparr>dev := d'\<rparr>)"
      "drive_ok (view d')" "ata_sectors (view d') = ata_sectors (view (dev s))" "drive_only (view d) (view d')"
    using IH by (auto simp: same d(3))
  have "read_sectors_from bus lba count buffer i s = read_sectors_from bus lba count ?b (Suc i) (s\<lparr>dev := d\<rparr>)"
    using i unfolding read_sectors_from.simps [of bus lba count buffer i s] off d(1) by simp
  with d' d(4) show ?case
    using i by (intro exI [of _ d']) (simp add: upt_conv_Cons drive_only_trans [OF d(4)])
qed

lemma write_sectors_spec:
  fixes s :: "('d, 'z) kprint_scheme"
  assumes "pc_conforms bus view" "drive_ok (view (dev s))" "length buffer = 512 * count" "i \<le> count"
    "unat lba + count \<le> 2 ^ 28"
  shows "\<exists>d. write_sectors_from bus lba count buffer i s = Inr ((), s\<lparr>dev := d\<rparr>) \<and> drive_ok (view d) \<and>
    (\<forall>l. ata_sectors (view d) l =
      (if unat lba + i \<le> l \<and> l < unat lba + count then words_of (take 512 (drop (512 * (l - unat lba)) buffer))
       else ata_sectors (view (dev s)) l)) \<and>
    drive_only (view (dev s)) (view d)"
  using assms(2,4)
proof (induction "count - i" arbitrary: i s)
  case 0
  then show ?case by (intro exI [of _ "dev s"]) (auto simp: write_sectors_from.simps)
next
  case (Suc k)
  then have i: "i < count" by simp
  have k: "k = count - Suc i" using Suc.hyps(2) by simp
  from i have room: "512 * i + 512 \<le> length buffer" using assms(3) by simp
  obtain d where d: "ata_write_sector bus (lba + of_nat i) buffer (int (512 * i)) s = Inr ((), s\<lparr>dev := d\<rparr>)"
    "drive_ok (view d)"
    "ata_sectors (view d) = (ata_sectors (view (dev s)))(sector_index (lba + of_nat i) := words_of (take 512 (drop (512 * i) buffer)))"
    "drive_only (view (dev s)) (view d)"
    using write_sector_spec [OF assms(1) Suc.prems(1) room] by blast
  have idx: "sector_index (lba + of_nat i) = unat lba + i"
  proof -
    have "unat (of_nat i :: u32) = i" using i assms(5) by (intro unat_of_nat32) simp
    then have "unat (lba + of_nat i) = unat lba + i"
      using i assms(5) by (simp add: unat_word_ariths)
    then show ?thesis using i assms(5) by (simp add: sector_index_def)
  qed
  have off: "int i * 512 = int (512 * i)" by simp
  obtain d' where d': "write_sectors_from bus lba count buffer (Suc i) (s\<lparr>dev := d\<rparr>) = Inr ((), s\<lparr>dev := d'\<rparr>)"
    "drive_ok (view d')"
    "\<forall>l. ata_sectors (view d') l =
      (if unat lba + Suc i \<le> l \<and> l < unat lba + count then words_of (take 512 (drop (512 * (l - unat lba)) buffer))
       else ata_sectors (view d) l)"
    "drive_only (view d) (view d')"
    using Suc.hyps(1) [OF k, of "s\<lparr>dev := d\<rparr>"] i d(2) by auto
  have "write_sectors_from bus lba count buffer i s = write_sectors_from bus lba count buffer (Suc i) (s\<lparr>dev := d\<rparr>)"
    using i unfolding write_sectors_from.simps [of bus lba count buffer i s] off d(1) by simp
  moreover have "ata_sectors (view d') l =
      (if unat lba + i \<le> l \<and> l < unat lba + count then words_of (take 512 (drop (512 * (l - unat lba)) buffer))
       else ata_sectors (view (dev s)) l)" for l
    using d'(3) i by (cases "l = unat lba + i") (auto simp: d(3) idx)
  ultimately show ?case
    using d'(1,2) drive_only_trans [OF d(4) d'(4)] by (intro exI [of _ d']) simp
qed

section \<open>The drive as a sector store\<close>

definition drive_inv :: "'d bus \<Rightarrow> ('d \<Rightarrow> pc) \<Rightarrow> ('d, 'z) io_scheme \<Rightarrow> bool" where
  "drive_inv bus view s \<longleftrightarrow> pc_conforms bus view \<and> drive_ok (view (dev s))"

definition drive_frame :: "('d \<Rightarrow> pc) \<Rightarrow> ('d, 'z) io_scheme \<Rightarrow> ('d, 'z) io_scheme \<Rightarrow> bool" where
  "drive_frame view s s' \<longleftrightarrow> (\<exists>d. s' = s\<lparr>dev := d\<rparr> \<and> drive_only (view (dev s)) (view d))"

definition disk_content :: "('d \<Rightarrow> pc) \<Rightarrow> ('d, 'z) io_scheme \<Rightarrow> nat \<Rightarrow> u8 list" where
  "disk_content view s l = bytes_of (ata_sectors (view (dev s)) l)"

interpretation disk: sector_store "\<lambda>lba buf. ata_read_sector bus lba buf 0" "\<lambda>lba buf. ata_write_sector bus lba buf 0"
  "disk_content view" sector_index "drive_inv bus view" "drive_frame view" for bus view
proof (unfold_locales, goal_cases)
  case (1 s buf lba)
  then obtain d where "ata_read_sector bus lba buf 0 s = Inr (sector_at (view (dev s)) lba, s\<lparr>dev := d\<rparr>)"
    "drive_ok (view d)" "ata_sectors (view d) = ata_sectors (view (dev s))" "drive_only (view (dev s)) (view d)"
    using read_sector_spec [of bus view s 0 buf lba] by (auto simp: drive_inv_def)
  with 1 show ?case
    by (auto simp: drive_inv_def drive_frame_def disk_content_def sector_at_def fun_eq_iff)
next
  case (2 s buf lba)
  then obtain d where "ata_write_sector bus lba buf 0 s = Inr ((), s\<lparr>dev := d\<rparr>)" "drive_ok (view d)"
    "ata_sectors (view d) = (ata_sectors (view (dev s)))(sector_index lba := words_of buf)"
    "drive_only (view (dev s)) (view d)"
    using write_sector_spec [of bus view s 0 buf lba] by (auto simp: drive_inv_def)
  with 2 show ?case
    by (auto simp: drive_inv_def drive_frame_def disk_content_def fun_eq_iff bytes_of_words_of)
next
  case (3 s l)
  then show ?case by (simp add: drive_inv_def disk_content_def drive_ok_def)
next
  case (4 s)
  then show ?case unfolding drive_frame_def by (intro exI [of _ "dev s"]) simp
next
  case (5 s s' s'')
  then show ?case unfolding drive_frame_def by clarsimp (rule exI, rule conjI, rule refl, rule drive_only_trans)
qed

section \<open>Properties of the driver\<close>

lemma demo_drive: "drive_inv demo_bus (\<lambda>a. a) demo_kprint"
  by (simp add: drive_inv_def demo_bus_conforms drive_ok_def demo_kprint_def demo_pc_def io.defs kprint.defs demo_io_def
      pmm.defs demo_pmm_def)

text \<open>
  C34: Reading a sector is total and right: on conforming hardware the polling loops end, the 512
  bytes at the buffer's offset become the content of the addressed sector (LBA modulo 2^28), the
  rest of the buffer, every sector and everything else in the state but the drive's registers stay
  as they were.
\<close>

theorem ata_read_sector_correct:
  fixes s :: "('d, 'z) kprint_scheme"
  assumes "drive_inv bus view s" "off + 512 \<le> length buffer"
  shows "\<exists>s'. ata_read_sector bus lba buffer (int off) s
      = Inr (take off buffer @ disk_content view s (sector_index lba) @ drop (off + 512) buffer, s') \<and>
    disk_content view s' = disk_content view s \<and> drive_inv bus view s' \<and> drive_frame view s s'"
proof -
  obtain d where "ata_read_sector bus lba buffer (int off) s
      = Inr (take off buffer @ sector_at (view (dev s)) lba @ drop (off + 512) buffer, s\<lparr>dev := d\<rparr>)"
    "drive_ok (view d)" "ata_sectors (view d) = ata_sectors (view (dev s))" "drive_only (view (dev s)) (view d)"
    using read_sector_spec [of bus view s off buffer lba] assms by (auto simp: drive_inv_def)
  with assms(1) show ?thesis
    by (auto simp: drive_inv_def drive_frame_def disk_content_def sector_at_def fun_eq_iff)
qed

theorem ata_read_sector_correct_witness:
  "\<exists>s'. ata_read_sector demo_bus 7 (replicate 600 1) (int 50) demo_kprint
    = Inr (replicate 50 1 @ disk_content (\<lambda>a. a) demo_kprint 7 @ replicate 38 1, s')"
  using ata_read_sector_correct [OF demo_drive, of 50 "replicate 600 1" 7] by (auto simp: sector_index_def)

text \<open>
  C35: Writing a sector is total and right: the addressed sector becomes the 512 bytes at the
  buffer's offset, and no other sector changes.
\<close>

theorem ata_write_sector_correct:
  fixes s :: "('d, 'z) kprint_scheme"
  assumes "drive_inv bus view s" "off + 512 \<le> length buffer"
  shows "\<exists>s'. ata_write_sector bus lba buffer (int off) s = Inr ((), s') \<and>
    disk_content view s' = (disk_content view s)(sector_index lba := take 512 (drop off buffer)) \<and>
    drive_inv bus view s' \<and> drive_frame view s s'"
proof -
  obtain d where "ata_write_sector bus lba buffer (int off) s = Inr ((), s\<lparr>dev := d\<rparr>)" "drive_ok (view d)"
    "ata_sectors (view d) = (ata_sectors (view (dev s)))(sector_index lba := words_of (take 512 (drop off buffer)))"
    "drive_only (view (dev s)) (view d)"
    using write_sector_spec [of bus view s off buffer lba] assms by (auto simp: drive_inv_def)
  with assms show ?thesis
    by (auto simp: drive_inv_def drive_frame_def disk_content_def fun_eq_iff bytes_of_words_of)
qed

theorem ata_write_sector_correct_witness:
  "\<exists>s'. ata_write_sector demo_bus 7 (replicate 512 1) (int 0) demo_kprint = Inr ((), s') \<and>
    disk_content (\<lambda>a. a) s' 7 = replicate 512 1"
  using ata_write_sector_correct [OF demo_drive, of 0 "replicate 512 1" 7] by (auto simp: sector_index_def)

text \<open>
  C20: The multi-sector operations round-trip: writing \<open>n\<close> sectors from a buffer and reading them
  into any buffer of the same length gives the written bytes, for every count and every range of
  28-bit addresses.
\<close>

theorem ata_sectors_roundtrip:
  fixes s :: "('d, 'z) kprint_scheme"
  assumes "drive_inv bus view s" "length buffer = 512 * unat n" "length buffer' = 512 * unat n"
    "unat lba + unat n \<le> 2 ^ 28"
  shows "\<exists>s'. bindk (ata_write_sectors bus lba n buffer s) (\<lambda>_ s. ata_read_sectors bus lba n buffer' s)
    = Inr (buffer, s')"
proof -
  have inv: "pc_conforms bus view" "drive_ok (view (dev s))" using assms(1) by (simp_all add: drive_inv_def)
  obtain d where d: "ata_write_sectors bus lba n buffer s = Inr ((), s\<lparr>dev := d\<rparr>)" "drive_ok (view d)"
    "\<And>l. ata_sectors (view d) l =
      (if unat lba \<le> l \<and> l < unat lba + unat n then words_of (take 512 (drop (512 * (l - unat lba)) buffer))
       else ata_sectors (view (dev s)) l)"
    using write_sectors_spec [OF inv assms(2) _ assms(4), of 0] by (auto simp: ata_write_sectors_def)
  have sec: "sector_at (view d) (lba + of_nat j) = take 512 (drop (512 * j) buffer)" if "j < unat n" for j
  proof -
    have "unat (of_nat j :: u32) = j" using that assms(4) by (intro unat_of_nat32) simp
    then have "unat (lba + of_nat j) = unat lba + j" using that assms(4) by (simp add: unat_word_ariths)
    then have "sector_index (lba + of_nat j) = unat lba + j" using that assms(4) by (simp add: sector_index_def)
    moreover have "even (length (take 512 (drop (512 * j) buffer)))" using that assms(2) by simp
    ultimately show ?thesis using that by (simp add: sector_at_def d(3) bytes_of_words_of)
  qed
  have cat: "concat (map (\<lambda>j. take 512 (drop (512 * j) xs)) [0..<k]) = xs" if "length xs = 512 * k" for xs :: "u8 list" and k
    using that
  proof (induction k arbitrary: xs)
    case (Suc k)
    have "concat (map (\<lambda>j. take 512 (drop (512 * j) (drop 512 xs))) [0..<k]) = drop 512 xs"
      using Suc.prems by (intro Suc.IH) simp
    moreover have "[0..<Suc k] = 0 # map Suc [0..<k]" by (simp add: map_Suc_upt upt_conv_Cons del: upt_Suc)
    ultimately show ?case by (simp add: comp_def add.commute del: upt_Suc)
  qed simp
  obtain d' where "read_sectors_from bus lba (unat n) buffer' 0 (s\<lparr>dev := d\<rparr>)
      = Inr (concat (map (\<lambda>j. sector_at (view d) (lba + of_nat j)) [0..<unat n]), s\<lparr>dev := d'\<rparr>)"
    using read_sectors_spec [OF inv(1) _ assms(3), of "s\<lparr>dev := d\<rparr>" 0 lba] d(2) by auto
  moreover have "map (\<lambda>j. sector_at (view d) (lba + of_nat j)) [0..<unat n]
      = map (\<lambda>j. take 512 (drop (512 * j) buffer)) [0..<unat n]" by (simp add: sec)
  ultimately show ?thesis
    using cat [OF assms(2)] by (simp add: d(1) ata_read_sectors_def)
qed

theorem ata_sectors_roundtrip_witness:
  "\<exists>s'. bindk (ata_write_sectors demo_bus 5 2 (replicate 1024 9) demo_kprint)
     (\<lambda>_ s. ata_read_sectors demo_bus 5 2 (replicate 1024 0) s) = Inr (replicate 1024 9, s')"
  by (rule ata_sectors_roundtrip [OF demo_drive]) simp_all

end
