(* ===== verification/Fat.thy ===== *)
theory Fat
  imports Ata
begin

text \<open>
  \<^verbatim>\<open>fs/fs.c\<close>, first part: the state of the FAT12 file system, mounting, and the cluster table.
  \<open>sector_buffer\<close> is the static 512-byte buffer, the cached
  FAT lives in flat memory at \<open>fat_buffer\<close>, a file handle is a page of flat memory with the fields
  of \<^verbatim>\<open>FAT12_File\<close> at their offsets. A file name is given as the bytes the pointer reaches
  (\<open>nat \<Rightarrow> u8\<close>): \<open>fat12_open\<close> copies 256 of them whatever the length of the caller's array.
\<close>

section \<open>State\<close>

record FAT12_MountInfo =
  fat_start :: u32
  root_start :: u32
  root_size :: u32
  data_start :: u32
  sectors_per_fat :: u16
  bytes_per_sector :: u16
  sectors_per_cluster :: u8
  root_entries :: u16
  fat_buffer :: u32

record 'd fs = "'d vmm" +
  mount_info :: FAT12_MountInfo
  sector_buffer :: "u8 list"

abbreviation (input) ATTR_VOLUME_ID :: u8 where "ATTR_VOLUME_ID \<equiv> 0x08"

abbreviation (input) ATTR_DIRECTORY :: u8 where "ATTR_DIRECTORY \<equiv> 0x10"

abbreviation (input) ATTR_ARCHIVE :: u8 where "ATTR_ARCHIVE \<equiv> 0x20"

abbreviation (input) FAT12_FREE :: u16 where "FAT12_FREE \<equiv> 0"

abbreviation (input) FAT12_EOF_MIN :: u16 where "FAT12_EOF_MIN \<equiv> 0xFF8"

abbreviation (input) FAT12_EOF :: u16 where "FAT12_EOF \<equiv> 0xFFF"

text \<open>Little-endian fields of a byte array.\<close>

definition buf16 :: "u8 list \<Rightarrow> nat \<Rightarrow> u16" where
  "buf16 b i = ucast (b ! i) OR push_bit 8 (ucast (b ! (i + 1)))"

definition buf32 :: "u8 list \<Rightarrow> nat \<Rightarrow> u32" where
  "buf32 b i = ucast (b ! i) OR push_bit 8 (ucast (b ! (i + 1)))
     OR push_bit 16 (ucast (b ! (i + 2))) OR push_bit 24 (ucast (b ! (i + 3)))"

definition put16 :: "nat \<Rightarrow> u16 \<Rightarrow> u8 list \<Rightarrow> u8 list" where
  "put16 i v b = b[i := ucast v, i + 1 := ucast (drop_bit 8 v)]"

definition put32 :: "nat \<Rightarrow> u32 \<Rightarrow> u8 list \<Rightarrow> u8 list" where
  "put32 i v b = b[i := ucast v, i + 1 := ucast (drop_bit 8 v), i + 2 := ucast (drop_bit 16 v),
     i + 3 := ucast (drop_bit 24 v)]"

text \<open>The fields of the boot sector (\<^verbatim>\<open>BPB\<close>) the code uses, at their packed offsets.\<close>

definition bpb_bytes_per_sector :: "u8 list \<Rightarrow> u16" where
  "bpb_bytes_per_sector b = buf16 b 0x0B"

definition bpb_sectors_per_cluster :: "u8 list \<Rightarrow> u8" where
  "bpb_sectors_per_cluster b = b ! 0x0D"

definition bpb_reserved_sectors :: "u8 list \<Rightarrow> u16" where
  "bpb_reserved_sectors b = buf16 b 0x0E"

definition bpb_num_fats :: "u8 list \<Rightarrow> u8" where
  "bpb_num_fats b = b ! 0x10"

definition bpb_root_entries :: "u8 list \<Rightarrow> u16" where
  "bpb_root_entries b = buf16 b 0x11"

definition bpb_sectors_per_fat :: "u8 list \<Rightarrow> u16" where
  "bpb_sectors_per_fat b = buf16 b 0x16"

definition bpb_filesystem_type :: "u8 list \<Rightarrow> u8 list" where
  "bpb_filesystem_type b = drop 0x36 b"

text \<open>The fields of directory entry \<open>i\<close> of the sector in \<open>b\<close> (\<^verbatim>\<open>DirectoryEntry\<close>, 32 bytes).\<close>

definition ent_filename :: "u8 list \<Rightarrow> nat \<Rightarrow> u8 list" where
  "ent_filename b i = drop (32 * i) b"

definition ent_attributes :: "u8 list \<Rightarrow> nat \<Rightarrow> u8" where
  "ent_attributes b i = b ! (32 * i + 11)"

definition ent_first_cluster :: "u8 list \<Rightarrow> nat \<Rightarrow> u16" where
  "ent_first_cluster b i = buf16 b (32 * i + 26)"

definition ent_file_size :: "u8 list \<Rightarrow> nat \<Rightarrow> u32" where
  "ent_file_size b i = buf32 b (32 * i + 28)"

text \<open>The fields of a file handle (\<^verbatim>\<open>FAT12_File\<close>) at address \<open>f\<close>.\<close>

definition file_first_cluster :: "u32 \<Rightarrow> 'a pmm_scheme \<Rightarrow> u16" where
  "file_first_cluster f s = rd16 (mem s) (f + 256)"

definition file_current_cluster :: "u32 \<Rightarrow> 'a pmm_scheme \<Rightarrow> u16" where
  "file_current_cluster f s = rd16 (mem s) (f + 258)"

definition file_file_size :: "u32 \<Rightarrow> 'a pmm_scheme \<Rightarrow> u32" where
  "file_file_size f s = rd32 (mem s) (f + 260)"

definition file_position :: "u32 \<Rightarrow> 'a pmm_scheme \<Rightarrow> u32" where
  "file_position f s = rd32 (mem s) (f + 264)"

definition file_eof :: "u32 \<Rightarrow> 'a pmm_scheme \<Rightarrow> u32" where
  "file_eof f s = rd32 (mem s) (f + 272)"

definition set_current_cluster :: "u32 \<Rightarrow> u16 \<Rightarrow> 'a pmm_scheme \<Rightarrow> 'a pmm_scheme" where
  "set_current_cluster f v s = s\<lparr>mem := wr16 (mem s) (f + 258) v\<rparr>"

definition set_position :: "u32 \<Rightarrow> u32 \<Rightarrow> 'a pmm_scheme \<Rightarrow> 'a pmm_scheme" where
  "set_position f v s = s\<lparr>mem := wr32 (mem s) (f + 264) v\<rparr>"

definition set_eof :: "u32 \<Rightarrow> u32 \<Rightarrow> 'a pmm_scheme \<Rightarrow> 'a pmm_scheme" where
  "set_eof f v s = s\<lparr>mem := wr32 (mem s) (f + 272) v\<rparr>"

section \<open>Sectors and buffers\<close>

text \<open>\<^verbatim>\<open>read_sector(lba, sector_buffer)\<close>, and transfers from and to flat memory.\<close>

definition load_sector :: "'d bus \<Rightarrow> u32 \<Rightarrow> ('d, 'z) fs_scheme \<Rightarrow> (unit, ('d, 'z) fs_scheme) result" where
  "load_sector bus lba s =
     bindk (read_sector bus lba (sector_buffer s) 0 s) (\<lambda>b s. Inr ((), s\<lparr>sector_buffer := b\<rparr>))"

definition store_sector :: "'d bus \<Rightarrow> u32 \<Rightarrow> ('d, 'z) fs_scheme \<Rightarrow> (unit, ('d, 'z) fs_scheme) result" where
  "store_sector bus lba s = write_sector bus lba (sector_buffer s) 0 s"

definition load_sector_at :: "'d bus \<Rightarrow> u32 \<Rightarrow> u32 \<Rightarrow> ('d, 'z) fs_scheme \<Rightarrow> (unit, ('d, 'z) fs_scheme) result" where
  "load_sector_at bus lba a s =
     bindk (read_sector bus lba (rd_bytes (mem s) a 512) 0 s) (\<lambda>b s. Inr ((), s\<lparr>mem := wr_bytes (mem s) a b\<rparr>))"

definition store_sector_at :: "'d bus \<Rightarrow> u32 \<Rightarrow> u32 \<Rightarrow> ('d, 'z) fs_scheme \<Rightarrow> (unit, ('d, 'z) fs_scheme) result" where
  "store_sector_at bus lba a s = write_sector bus lba (rd_bytes (mem s) a 512) 0 s"

section \<open>Mounting\<close>

function load_fat :: "'d bus \<Rightarrow> nat \<Rightarrow> nat \<Rightarrow> ('d, 'z) fs_scheme \<Rightarrow> (unit, ('d, 'z) fs_scheme) result" where
  "load_fat bus i n s =
     (if i < n
      then bindk (load_sector_at bus (fat_start (mount_info s) + of_nat i)
                    (fat_buffer (mount_info s) + of_nat i * 512) s)
             (\<lambda>_ s. load_fat bus (Suc i) n s)
      else Inr ((), s))"
  by pat_completeness auto
termination
  by (relation "measure (\<lambda>(bus, i, n, s). n - i)") auto

definition mount_report :: "'d bus \<Rightarrow> ('d, 'z) fs_scheme \<Rightarrow> (int, ('d, 'z) fs_scheme) result" where
  "mount_report bus s =
     bindk (printk bus (cs ''FAT12 initialized:\<newline>'') [] s) (\<lambda>_ s.
     bindk (pr bus KERN_INFO ''FS'' ''  FAT start: %d\<newline>'' [VInt (fat_start (mount_info s))] s) (\<lambda>_ s.
     bindk (pr bus KERN_INFO ''FS'' ''  Root start: %d\<newline>'' [VInt (root_start (mount_info s))] s) (\<lambda>_ s.
     bindk (pr bus KERN_INFO ''FS'' ''  Data start: %d\<newline>'' [VInt (data_start (mount_info s))] s) (\<lambda>_ s.
       Inr (0, s)))))"

text \<open>
  The mount information up to \<^verbatim>\<open>data_start\<close>, from the boot sector \<open>b\<close>; \<^verbatim>\<open>root_entries * 32\<close> is
  divided by the sector size the boot sector claims.
\<close>

definition mount_from :: "u8 list \<Rightarrow> FAT12_MountInfo \<Rightarrow> stop + FAT12_MountInfo" where
  "mount_from b m =
     (let m = m\<lparr>bytes_per_sector := bpb_bytes_per_sector b\<rparr>;
          m = m\<lparr>sectors_per_cluster := bpb_sectors_per_cluster b\<rparr>;
          m = m\<lparr>sectors_per_fat := bpb_sectors_per_fat b\<rparr>;
          m = m\<lparr>root_entries := bpb_root_entries b\<rparr>;
          m = m\<lparr>fat_start := ucast (bpb_reserved_sectors b)\<rparr>;
          m = m\<lparr>root_start := fat_start m + ucast (bpb_num_fats b) * ucast (sectors_per_fat m)\<rparr>
      in if bpb_bytes_per_sector b = 0 then Inl DivZero
         else let m = m\<lparr>root_size := ucast (bpb_root_entries b) * 32 div ucast (bpb_bytes_per_sector b)\<rparr>
              in Inr (m\<lparr>data_start := root_start m + root_size m\<rparr>))"

definition fat12_init :: "'d bus \<Rightarrow> ('d, 'z) fs_scheme \<Rightarrow> (int, ('d, 'z) fs_scheme) result" where
  "fat12_init bus s =
     bindk (load_sector bus 0 s) (\<lambda>_ s.
     case memcmp (bpb_filesystem_type (sector_buffer s)) (cs ''FAT12   '') 8 0 of Inl e \<Rightarrow> Inl e | Inr c \<Rightarrow>
     if c \<noteq> 0 then Inr (-1, s)
     else case mount_from (sector_buffer s) (mount_info s) of Inl e \<Rightarrow> Inl e | Inr m \<Rightarrow>
       let s = s\<lparr>mount_info := m\<rparr>;
           (p, s) = vmmngr_alloc_page s;
           s = s\<lparr>mount_info := (mount_info s)\<lparr>fat_buffer := p\<rparr>\<rparr> in
       if p = 0 then Inr (-1, s)
       else bindk (load_fat bus 0 (unat (sectors_per_fat (mount_info s))) s) (\<lambda>_ s. mount_report bus s))"

section \<open>The cluster table\<close>

definition fat_offset :: "u16 \<Rightarrow> u32" where
  "fat_offset cluster = ucast cluster + ucast (cluster div 2)"

definition get_next_cluster :: "u16 \<Rightarrow> ('d, 'z) fs_scheme \<Rightarrow> u16" where
  "get_next_cluster cluster s =
     (let next_cluster = rd16 (mem s) (fat_buffer (mount_info s) + fat_offset cluster)
      in if cluster AND 1 \<noteq> 0 then drop_bit 4 next_cluster else next_cluster AND 0x0FFF)"

definition set_cluster_value :: "u16 \<Rightarrow> u16 \<Rightarrow> ('d, 'z) fs_scheme \<Rightarrow> ('d, 'z) fs_scheme" where
  "set_cluster_value cluster value s =
     (let fat_entry = fat_buffer (mount_info s) + fat_offset cluster;
          old = rd16 (mem s) fat_entry
      in s\<lparr>mem := wr16 (mem s) fat_entry
             (if cluster AND 1 \<noteq> 0 then (old AND 0x000F) OR push_bit 4 value
              else (old AND 0xF000) OR (value AND 0x0FFF))\<rparr>)"

text \<open>\<^verbatim>\<open>sync_fat\<close>: sector \<open>i\<close> of the cache to both copies on disk, for every \<open>i\<close>.\<close>

function sync_from :: "'d bus \<Rightarrow> nat \<Rightarrow> nat \<Rightarrow> ('d, 'z) fs_scheme \<Rightarrow> (unit, ('d, 'z) fs_scheme) result" where
  "sync_from bus i n s =
     (if i < n
      then bindk (store_sector_at bus (fat_start (mount_info s) + of_nat i)
                    (fat_buffer (mount_info s) + of_nat i * 512) s) (\<lambda>_ s.
           bindk (store_sector_at bus (fat_start (mount_info s) + ucast (sectors_per_fat (mount_info s)) + of_nat i)
                    (fat_buffer (mount_info s) + of_nat i * 512) s) (\<lambda>_ s.
             sync_from bus (Suc i) n s))
      else Inr ((), s))"
  by pat_completeness auto
termination
  by (relation "measure (\<lambda>(bus, i, n, s). n - i)") auto

definition sync_fat :: "'d bus \<Rightarrow> ('d, 'z) fs_scheme \<Rightarrow> (unit, ('d, 'z) fs_scheme) result" where
  "sync_fat bus s = sync_from bus 0 (unat (sectors_per_fat (mount_info s))) s"

text \<open>The loop of \<^verbatim>\<open>find_free_cluster\<close>, from cluster 2 to 4083.\<close>

function free_cluster_from :: "nat \<Rightarrow> ('d, 'z) fs_scheme \<Rightarrow> u16" where
  "free_cluster_from cluster s =
     (if cluster < 4084
      then if get_next_cluster (of_nat cluster) s = FAT12_FREE then of_nat cluster
           else free_cluster_from (Suc cluster) s
      else 0)"
  by pat_completeness auto
termination
  by (relation "measure (\<lambda>(cluster, s). 4084 - cluster)") auto

definition find_free_cluster :: "('d, 'z) fs_scheme \<Rightarrow> u16" where
  "find_free_cluster s = free_cluster_from 2 s"

declare load_fat.simps [simp del] sync_from.simps [simp del] free_cluster_from.simps [simp del]

section \<open>The table as a bit stream\<close>

text \<open>
  Entry \<open>c\<close> is the twelve bits from \<open>12 * c\<close> on, counting from the least significant bit of the
  first byte.
\<close>

definition fat_bit :: "('d, 'z) fs_scheme \<Rightarrow> nat \<Rightarrow> bool" where
  "fat_bit s p = bit (mem s (fat_buffer (mount_info s) + of_nat (p div 8))) (p mod 8)"

lemma bit_rd16: "n < 16 \<Longrightarrow> bit (rd16 m a) n = bit (m (a + of_nat (n div 8))) (n mod 8)"
proof -
  assume n: "n < 16"
  show ?thesis
  proof (cases "n < 8")
    case True
    then show ?thesis by (auto simp: rd16_def bit_simps)
  next
    case False
    with n have "n div 8 = 1" "n mod 8 = n - 8" by (auto simp: mod_if)
    with n False show ?thesis by (auto simp: rd16_def bit_simps dest: bit_imp_le_length)
  qed
qed

lemma wr16_byte:
  "wr16 m a v x = (if x = a + 1 then ucast (drop_bit 8 v) else if x = a then ucast v else m x)"
  by (simp add: wr16_def)

lemma unat_fat_offset: "unat (fat_offset c) = unat c + unat c div 2"
proof -
  have c: "unat c < 65536" using unsigned_less [of c] by simp
  then show ?thesis
    by (simp add: fat_offset_def unat_word_ariths unat_div unsigned_ucast_eq take_bit_nat_eq_self)
qed

lemma fat_offset_nat: "fat_offset c = of_nat (unat c + unat c div 2)"
  using unat_fat_offset [of c] by (metis of_nat_unat ucast_id)

lemma odd_cluster: "c AND 1 \<noteq> 0 \<longleftrightarrow> odd (unat (c :: u16))"
proof -
  have "c AND 1 \<noteq> 0 \<longleftrightarrow> bit c 0" using bit_iff_and_push_bit_not_eq_0 [of c 0] by (simp del: bit_0)
  also have "\<dots> \<longleftrightarrow> bit (unat c) 0" by (simp add: bit_unsigned_iff del: bit_0)
  finally show ?thesis by (simp only: bit_0)
qed

lemma bit_get_next_cluster:
  assumes "n < 12"
  shows "bit (get_next_cluster c s) n = fat_bit s (12 * unat c + n)"
proof -
  let ?B = "fat_buffer (mount_info s)"
  have m: "(0x0FFF :: u16) = mask 12" by (simp add: mask_eq_exp_minus_1)
  show ?thesis
  proof (cases "odd (unat c)")
    case True
    then obtain k where k: "unat c = 2 * k + 1" by (elim oddE)
    have "bit (get_next_cluster c s) n = bit (rd16 (mem s) (?B + fat_offset c)) (n + 4)"
      using True by (simp add: get_next_cluster_def odd_cluster bit_simps add.commute)
    also have "\<dots> = bit (mem s (?B + of_nat (3 * k + 1 + (n + 4) div 8))) ((n + 4) mod 8)"
      using assms by (subst bit_rd16) (simp_all add: fat_offset_nat k algebra_simps)
    also have "\<dots> = fat_bit s (12 * unat c + n)"
    proof -
      have p: "12 * unat c + n = (n + 4) + 8 * (3 * k + 1)" by (simp add: k)
      show ?thesis unfolding fat_bit_def p by (simp only: div_mult_self2 mod_mult_self2)
    qed
    finally show ?thesis .
  next
    case False
    then obtain k where k: "unat c = 2 * k" by (auto elim: evenE)
    have "bit (get_next_cluster c s) n = bit (rd16 (mem s) (?B + fat_offset c)) n"
      using False assms unfolding get_next_cluster_def m Let_def odd_cluster by (simp add: bit_simps)
    also have "\<dots> = bit (mem s (?B + of_nat (3 * k + n div 8))) (n mod 8)"
      using assms by (subst bit_rd16) (simp_all add: fat_offset_nat k algebra_simps)
    also have "\<dots> = fat_bit s (12 * unat c + n)"
    proof -
      have p: "12 * unat c + n = n + 8 * (3 * k)" by (simp add: k)
      show ?thesis unfolding fat_bit_def p by (simp only: div_mult_self2 mod_mult_self2)
    qed
    finally show ?thesis .
  qed
qed

lemma get_next_cluster_high: "12 \<le> n \<Longrightarrow> \<not> bit (get_next_cluster c s) n"
proof -
  have m: "(0x0FFF :: u16) = mask 12" by (simp add: mask_eq_exp_minus_1)
  show "12 \<le> n \<Longrightarrow> \<not> bit (get_next_cluster c s) n"
    unfolding get_next_cluster_def m Let_def by (auto simp: bit_simps dest: bit_imp_le_length)
qed

text \<open>A write of entry \<open>c\<close>, bit by bit; positions below \<open>2 ^ 32\<close> name distinct bytes.\<close>

lemma fat_byte_inject:
  "a < 2 ^ 32 \<Longrightarrow> b < 2 ^ 32 \<Longrightarrow> (B :: u32) + of_nat a = B + of_nat b \<longleftrightarrow> a = b"
  by (metis add_left_cancel unat_of_nat32)

lemma div12: "r < 12 \<Longrightarrow> (12 * q + r) div 12 = q" "r < 12 \<Longrightarrow> (12 * q + r) mod 12 = (r :: nat)"
  by simp_all

lemma fat_bit_set:
  assumes "p < 2 ^ 32"
  shows "fat_bit (set_cluster_value c v s) p =
    (if p div 12 = unat c then bit v (p mod 12) else fat_bit s p)"
proof -
  let ?B = "fat_buffer (mount_info s)"
  define b where "b = p div 8"
  define r where "r = p mod 8"
  have pbr: "p = 8 * b + r" "r < 8" by (simp_all add: b_def r_def)
  have b: "b < 2 ^ 32" "Suc b < 2 ^ 32" using assms by (simp_all add: b_def)
  have c: "unat c < 65536" using unsigned_less [of c] by simp
  have m: "(0x0FFF :: u16) = mask 12" "(0x000F :: u16) = mask 4" "(0xF000 :: u16) = NOT (mask 12)"
    by (simp_all add: mask_eq_exp_minus_1)
  define off where "off = unat c + unat c div 2"
  have off: "off < 2 ^ 32" "Suc off < 2 ^ 32" using c by (simp_all add: off_def)
  let ?old = "rd16 (mem s) (?B + fat_offset c)"
  let ?new = "if odd (unat c) then (?old AND mask 4) OR push_bit 4 v else (?old AND NOT (mask 12)) OR (v AND mask 12)"
  have set: "set_cluster_value c v s = s\<lparr>mem := wr16 (mem s) (?B + of_nat off) ?new\<rparr>"
    by (simp add: set_cluster_value_def Let_def odd_cluster m fat_offset_nat off_def)
  have old: "bit ?old n = bit (mem s (?B + of_nat (off + n div 8))) (n mod 8)" if "n < 16" for n
    using that by (simp add: bit_rd16 fat_offset_nat off_def algebra_simps)
  have byte: "r < 8 \<Longrightarrow> bit (ucast (drop_bit 8 w) :: u8) r \<longleftrightarrow> bit w (r + 8)" "r < 8 \<Longrightarrow> bit (ucast w :: u8) r \<longleftrightarrow> bit w r"
    for w :: u16 and r
    by (auto simp: bit_simps add.commute)
  have lhs: "fat_bit (set_cluster_value c v s) p =
      (if b = Suc off then bit ?new (r + 8) else if b = off then bit ?new r else fat_bit s p)"
  proof -
    have e1: "?B + of_nat b = ?B + of_nat off + 1 \<longleftrightarrow> b = Suc off"
      using fat_byte_inject [OF b(1) off(2), of ?B] by (simp add: add.assoc add.commute)
    have e2: "?B + of_nat b = ?B + of_nat off \<longleftrightarrow> b = off" by (rule fat_byte_inject [OF b(1) off(1)])
    have "fat_bit (set_cluster_value c v s) p = bit (wr16 (mem s) (?B + of_nat off) ?new (?B + of_nat b)) r"
      by (simp add: fat_bit_def set b_def r_def)
    also have "\<dots> = bit (if b = Suc off then ucast (drop_bit 8 ?new) else if b = off then ucast ?new
        else mem s (?B + of_nat b)) r"
      unfolding wr16_byte e1 e2 ..
    finally show ?thesis
      using pbr(2) byte [of r ?new] by (simp add: fat_bit_def b_def [symmetric] r_def [symmetric])
  qed
  consider "b = off" | "b = Suc off" | "b \<noteq> off" "b \<noteq> Suc off" by blast
  then show ?thesis
  proof cases
    case 1
    have o: "bit ?old r = fat_bit s p" using old [of r] pbr(2) 1 by (simp add: fat_bit_def b_def [symmetric] r_def [symmetric])
    show ?thesis
    proof (cases "odd (unat c)")
      case True
      then obtain k where k: "unat c = 2 * k + 1" by (elim oddE)
      then have p: "p = 24 * k + 8 + r" using 1 pbr by (simp add: off_def)
      have "p div 12 = unat c \<longleftrightarrow> 4 \<le> r" "4 \<le> r \<Longrightarrow> p mod 12 = r - 4"
        using pbr(2) div12 [of "r - 4" "2 * k + 1"] div12 [of "8 + r" "2 * k"]
        by (cases "4 \<le> r"; simp add: p k algebra_simps)+
      with True 1 lhs o pbr(2) show ?thesis by (auto simp: bit_simps)
    next
      case False
      then obtain k where k: "unat c = 2 * k" by (auto elim: evenE)
      then have p: "p = 24 * k + r" using 1 pbr by (simp add: off_def)
      have "p div 12 = unat c" "p mod 12 = r" using pbr(2) div12 [of r "2 * k"] by (simp_all add: p k)
      with False 1 lhs o pbr(2) show ?thesis by (auto simp: bit_simps)
    qed
  next
    case 2
    have "(r + 8) div 8 = 1" "(r + 8) mod 8 = r" using pbr(2) by simp_all
    then have o: "bit ?old (r + 8) = fat_bit s p"
      using old [of "r + 8"] pbr(2) 2 by (simp add: fat_bit_def b_def [symmetric] r_def [symmetric] add.commute)
    show ?thesis
    proof (cases "odd (unat c)")
      case True
      then obtain k where k: "unat c = 2 * k + 1" by (elim oddE)
      then have p: "p = 24 * k + 16 + r" using 2 pbr by (simp add: off_def)
      have "p div 12 = unat c" "p mod 12 = r + 4"
        using pbr(2) div12 [of "r + 4" "2 * k + 1"] by (simp_all add: p k algebra_simps)
      with True 2 lhs o pbr(2) show ?thesis by (auto simp: bit_simps add.commute)
    next
      case False
      then obtain k where k: "unat c = 2 * k" by (auto elim: evenE)
      then have p: "p = 24 * k + 8 + r" using 2 pbr by (simp add: off_def)
      have "p div 12 = unat c \<longleftrightarrow> r < 4" "r < 4 \<Longrightarrow> p mod 12 = r + 8"
        using pbr(2) div12 [of "r + 8" "2 * k"] div12 [of "r - 4" "2 * k + 1"]
        by (cases "r < 4"; simp add: p k algebra_simps)+
      with False 2 lhs o pbr(2) show ?thesis by (auto simp: bit_simps)
    qed
  next
    case 3
    have "p div 12 \<noteq> unat c"
    proof
      assume e: "p div 12 = unat c"
      then have p: "p = 12 * unat c + p mod 12" by (metis mult_div_mod_eq)
      have "b = off \<or> b = Suc off"
      proof (cases "odd (unat c)")
        case True
        then obtain k where k: "unat c = 2 * k + 1" by (elim oddE)
        have "p mod 12 < 12" by simp
        with p have "3 * k + 1 \<le> b" "b \<le> 3 * k + 2" by (simp_all add: k b_def)
        then show ?thesis by (auto simp: off_def k)
      next
        case False
        then obtain k where k: "unat c = 2 * k" by (auto elim: evenE)
        have "p mod 12 < 12" by simp
        with p have "3 * k \<le> b" "b \<le> 3 * k + 1" by (simp_all add: k b_def)
        then show ?thesis by (auto simp: off_def k)
      qed
      with 3 show False by blast
    qed
    with 3 lhs show ?thesis by simp
  qed
qed

lemma get_set_cluster:
  "get_next_cluster d (set_cluster_value c v s) = (if d = c then v AND 0xFFF else get_next_cluster d s)"
proof (rule bit_word_eqI)
  fix n assume "n < LENGTH(16)"
  have d: "unat d < 65536" using unsigned_less [of d] by simp
  have m: "(0xFFF :: u16) = mask 12" by (simp add: mask_eq_exp_minus_1)
  show "bit (get_next_cluster d (set_cluster_value c v s)) n
      = bit (if d = c then v AND 0xFFF else get_next_cluster d s) n"
  proof (cases "n < 12")
    case True
    then have "bit (get_next_cluster d (set_cluster_value c v s)) n
        = (if unat d = unat c then bit v n else bit (get_next_cluster d s) n)"
      using d by (simp add: bit_get_next_cluster fat_bit_set div12)
    moreover have "unat d = unat c \<longleftrightarrow> d = c" by (simp add: word_unat_eq_iff)
    ultimately show ?thesis using True by (simp add: m bit_simps)
  next
    case False
    then show ?thesis by (simp add: get_next_cluster_high m bit_simps)
  qed
qed

interpretation clusters: indexed_store "\<lambda>s i. get_next_cluster (of_nat i) s" "\<lambda>i v. set_cluster_value (of_nat i) v"
  65536 "\<lambda>v. v AND 0xFFF = v"
proof (unfold_locales, goal_cases)
  case (1 i j v s)
  then have "(of_nat j :: u16) = of_nat i \<longleftrightarrow> j = i"
    by (auto simp: word_unat_eq_iff unat_of_nat take_bit_nat_eq_self)
  with 1 show ?case by (simp add: get_set_cluster)
qed

lemma set_cluster_value_fields [simp]:
  "mount_info (set_cluster_value c v s) = mount_info s" "sector_buffer (set_cluster_value c v s) = sector_buffer s"
  "dev (set_cluster_value c v s) = dev s" "vidmem (set_cluster_value c v s) = vidmem s"
  "pmm.more (set_cluster_value c v s) = pmm.more s"
  by (simp_all add: set_cluster_value_def Let_def)

lemma get_next_cluster_cong:
  "mem s' = mem s \<Longrightarrow> fat_buffer (mount_info s') = fat_buffer (mount_info s) \<Longrightarrow> get_next_cluster c s' = get_next_cluster c s"
  by (simp add: get_next_cluster_def)

text \<open>The search for a free cluster.\<close>

lemma free_cluster_from_eq:
  "free_cluster_from c s =
     (case find (\<lambda>c. get_next_cluster (of_nat c) s = 0) [c..<4084] of Some c \<Rightarrow> of_nat c | None \<Rightarrow> 0)"
proof (induction "4084 - c" arbitrary: c)
  case 0
  then show ?case by (simp add: free_cluster_from.simps)
next
  case (Suc n)
  then have "c < 4084" "n = 4084 - Suc c" by simp_all
  with Suc.hyps(1) [of "Suc c"] show ?case
    by (simp add: free_cluster_from.simps [of c] upt_conv_Cons)
qed

section \<open>Frames\<close>

text \<open>
  What the disk and printing operations leave alone: everything but the hardware, the screen and
  the sector buffer. \<open>fs_ok\<close> is what they need and keep.
\<close>

definition io_only :: "('d, 'z) fs_scheme \<Rightarrow> ('d, 'z) fs_scheme \<Rightarrow> bool" where
  "io_only s s' \<longleftrightarrow> (\<exists>d v b. s' = s\<lparr>dev := d, vidmem := v, sector_buffer := b\<rparr>)"

definition fs_ok :: "'d bus \<Rightarrow> ('d \<Rightarrow> pc) \<Rightarrow> ('d, 'z) fs_scheme \<Rightarrow> bool" where
  "fs_ok bus view s \<longleftrightarrow> drive_inv bus view s \<and> terminal_ok (terminal_of view s) \<and> length (sector_buffer s) = 512"

lemma io_only_refl [simp]: "io_only s s"
  unfolding io_only_def by (intro exI [of _ "dev s"] exI [of _ "vidmem s"] exI [of _ "sector_buffer s"]) simp

lemma io_only_trans: "io_only s s' \<Longrightarrow> io_only s' s'' \<Longrightarrow> io_only s s''"
  unfolding io_only_def by clarsimp (rule exI, rule exI, rule exI, rule refl)

lemma io_only_fields:
  assumes "io_only s s'"
  shows "mem s' = mem s" "mount_info s' = mount_info s" "mem_mngr s' = mem_mngr s"
    "mem_mngr_max_blocks s' = mem_mngr_max_blocks s" "mem_mngr_used_blocks s' = mem_mngr_used_blocks s"
    "cur_directory s' = cur_directory s" "current_level s' = current_level s"
    "get_next_cluster c s' = get_next_cluster c s"
  using assms by (auto simp: io_only_def get_next_cluster_def)

lemma io_only_mem:
  assumes "io_only s s'" shows "io_only (s\<lparr>mem := m\<rparr>) (s'\<lparr>mem := m\<rparr>)"
proof -
  obtain d v b where "s' = s\<lparr>dev := d, vidmem := v, sector_buffer := b\<rparr>"
    using assms by (auto simp: io_only_def)
  then show ?thesis unfolding io_only_def by (intro exI [of _ d] exI [of _ v] exI [of _ b]) simp
qed

lemma fs_ok_conforms: "fs_ok bus view s \<Longrightarrow> pc_conforms bus view"
  by (simp add: fs_ok_def drive_inv_def)

lemma fs_ok_mem [simp]: "fs_ok bus view (s\<lparr>mem := m\<rparr>) = fs_ok bus view s"
  by (simp add: fs_ok_def drive_inv_def terminal_of_def)

lemma disk_content_mem [simp]: "disk_content view (s\<lparr>mem := m\<rparr>) = disk_content view s"
  by (simp add: disk_content_def fun_eq_iff)

lemma disk_content_buffer [simp]: "disk_content view (s\<lparr>sector_buffer := b\<rparr>) = disk_content view s"
  by (simp add: disk_content_def fun_eq_iff)

lemma screen_io:
  fixes s :: "('d, 'z) fs_scheme"
  assumes "screen_only view s s'" "fs_ok bus view s"
  shows "io_only s s'" "fs_ok bus view s'" "disk_content view s' = disk_content view s"
    "sector_buffer s' = sector_buffer s"
proof -
  obtain d v where s': "s' = s\<lparr>dev := d, vidmem := v\<rparr>" "crtc_only (view (dev s)) (view d)"
    using assms(1) by (auto simp: screen_only_def)
  show "io_only s s'" unfolding s' io_only_def
    by (intro exI [of _ d] exI [of _ v] exI [of _ "sector_buffer s"]) simp
  show "sector_buffer s' = sector_buffer s" by (simp add: s')
  then show "fs_ok bus view s'"
    using assms(2) screen_only_ok [OF assms(1)] screen_only_fields(9,11) [OF assms(1)]
    by (simp add: fs_ok_def drive_inv_def drive_ok_def)
  show "disk_content view s' = disk_content view s"
    using screen_only_fields(11) [OF assms(1)] by (simp add: disk_content_def fun_eq_iff)
qed

lemma fs_pr:
  fixes s :: "('d, 'z) fs_scheme"
  assumes "fs_ok bus view s" "plain (cs fmt) args" "8 \<notin> set (cs module)"
  shows "\<exists>s'. pr bus level module fmt args s = Inr ((), s') \<and> io_only s s' \<and> fs_ok bus view s' \<and>
    disk_content view s' = disk_content view s \<and> sector_buffer s' = sector_buffer s"
  using pr_plain [OF fs_ok_conforms [OF assms(1)] _ assms(2,3)] assms(1) screen_io [OF _ assms(1)]
  by (metis fs_ok_def)

lemma fs_printk:
  fixes s :: "('d, 'z) fs_scheme"
  assumes "fs_ok bus view s" "plain fmt args"
  shows "\<exists>s'. printk bus fmt args s = Inr ((), s') \<and> io_only s s' \<and> fs_ok bus view s' \<and>
    disk_content view s' = disk_content view s \<and> sector_buffer s' = sector_buffer s"
  using vformat_plain [OF fs_ok_conforms [OF assms(1)] _ assms(2)] assms(1) screen_io [OF _ assms(1)]
  unfolding printk_def by (metis fs_ok_def)

lemma drive_frame_ok:
  fixes s :: "('d, 'z) fs_scheme"
  assumes "drive_frame view s s'" "fs_ok bus view s" "drive_inv bus view s'"
  shows "io_only s s'" "fs_ok bus view s'" "sector_buffer s' = sector_buffer s" "length b = 512 \<Longrightarrow> fs_ok bus view (s'\<lparr>sector_buffer := b\<rparr>)"
proof -
  obtain d where d: "s' = s\<lparr>dev := d\<rparr>" "drive_only (view (dev s)) (view d)"
    using assms(1) by (auto simp: drive_frame_def)
  then have t: "terminal_of view s' = terminal_of view s"
    by (simp add: terminal_of_def cursor_of_def drive_only_def)
  show "io_only s s'" unfolding d io_only_def
    by (intro exI [of _ d] exI [of _ "vidmem s"] exI [of _ "sector_buffer s"]) simp
  show "sector_buffer s' = sector_buffer s" by (simp add: d)
  then show "fs_ok bus view s'" using assms(2,3) t by (simp add: fs_ok_def)
  show "length b = 512 \<Longrightarrow> fs_ok bus view (s'\<lparr>sector_buffer := b\<rparr>)"
    using assms(2,3) t by (simp add: fs_ok_def drive_inv_def terminal_of_def)
qed

section \<open>Sector transfers\<close>

lemma load_sector_spec:
  fixes s :: "('d, 'z) fs_scheme"
  assumes "fs_ok bus view s"
  shows "\<exists>s'. load_sector bus lba s = Inr ((), s') \<and> io_only s s' \<and> fs_ok bus view s' \<and>
    disk_content view s' = disk_content view s \<and> sector_buffer s' = disk_content view s (sector_index lba)"
proof -
  have inv: "drive_inv bus view s" "length (sector_buffer s) = 512" using assms by (simp_all add: fs_ok_def)
  let ?b = "disk_content view s (sector_index lba)"
  obtain s1 where s1: "ata_read_sector bus lba (sector_buffer s) 0 s = Inr (?b, s1)" "drive_inv bus view s1"
    "disk_content view s1 = disk_content view s" "drive_frame view s s1"
    using disk.rd [OF inv] by blast
  have "length ?b = 512" by (rule disk.content_length [OF inv(1)])
  moreover have "io_only s (s1\<lparr>sector_buffer := ?b\<rparr>)"
    using s1(4) unfolding drive_frame_def io_only_def
    by clarsimp (rule exI, rule exI [of _ "vidmem s"], rule exI, simp)
  ultimately show ?thesis
    using s1 drive_frame_ok(4) [OF s1(4) assms s1(2)]
    by (auto simp: load_sector_def read_sector_def)
qed

lemma store_sector_spec:
  fixes s :: "('d, 'z) fs_scheme"
  assumes "fs_ok bus view s"
  shows "\<exists>s'. store_sector bus lba s = Inr ((), s') \<and> io_only s s' \<and> fs_ok bus view s' \<and>
    disk_content view s' = (disk_content view s)(sector_index lba := sector_buffer s) \<and>
    sector_buffer s' = sector_buffer s"
proof -
  have inv: "drive_inv bus view s" "length (sector_buffer s) = 512" using assms by (simp_all add: fs_ok_def)
  obtain s1 where s1: "ata_write_sector bus lba (sector_buffer s) 0 s = Inr ((), s1)" "drive_inv bus view s1"
    "disk_content view s1 = (disk_content view s)(sector_index lba := sector_buffer s)" "drive_frame view s s1"
    using disk.wr [OF inv] by blast
  then show ?thesis
    using drive_frame_ok [OF s1(4) assms s1(2)] by (auto simp: store_sector_def write_sector_def)
qed

lemma load_sector_at_spec:
  fixes s :: "('d, 'z) fs_scheme"
  assumes "fs_ok bus view s"
  shows "\<exists>s'. load_sector_at bus lba a s = Inr ((), s') \<and>
    io_only (s\<lparr>mem := wr_bytes (mem s) a (disk_content view s (sector_index lba))\<rparr>) s' \<and> fs_ok bus view s' \<and>
    disk_content view s' = disk_content view s"
proof -
  have inv: "drive_inv bus view s" using assms by (simp add: fs_ok_def)
  let ?b = "disk_content view s (sector_index lba)"
  obtain s1 where s1: "ata_read_sector bus lba (rd_bytes (mem s) a 512) 0 s = Inr (?b, s1)" "drive_inv bus view s1"
    "disk_content view s1 = disk_content view s" "drive_frame view s s1"
    using disk.rd [OF inv, of "rd_bytes (mem s) a 512"] by auto
  note fr = drive_frame_ok [OF s1(4) assms s1(2)]
  show ?thesis
    using s1(1,3) fr(2) io_only_mem [OF fr(1), of "wr_bytes (mem s) a ?b"] io_only_fields(1) [OF fr(1)]
    by (simp add: load_sector_at_def read_sector_def)
qed

lemma store_sector_at_spec:
  fixes s :: "('d, 'z) fs_scheme"
  assumes "fs_ok bus view s"
  shows "\<exists>s'. store_sector_at bus lba a s = Inr ((), s') \<and> io_only s s' \<and> fs_ok bus view s' \<and>
    disk_content view s' = (disk_content view s)(sector_index lba := rd_bytes (mem s) a 512) \<and>
    sector_buffer s' = sector_buffer s"
proof -
  have inv: "drive_inv bus view s" using assms by (simp add: fs_ok_def)
  obtain s1 where s1: "ata_write_sector bus lba (rd_bytes (mem s) a 512) 0 s = Inr ((), s1)" "drive_inv bus view s1"
    "disk_content view s1 = (disk_content view s)(sector_index lba := rd_bytes (mem s) a 512)" "drive_frame view s s1"
    using disk.wr [OF inv, of "rd_bytes (mem s) a 512"] by auto
  then show ?thesis
    using drive_frame_ok [OF s1(4) assms s1(2)] by (auto simp: store_sector_at_def write_sector_def)
qed

end
