(* ===== verification/Mount.thy ===== *)
theory Mount
  imports Fat
begin

text \<open>
  What mounting and syncing do: the cached FAT is the FAT on disk after \<open>fat12_init\<close>, and both
  copies on disk are the cached FAT after \<open>sync_fat\<close>. Also the properties of the cluster table and
  the machine the witnesses of the file system run on.
\<close>

section \<open>Loading the FAT\<close>

text \<open>The sectors of the FAT on disk, and sector \<open>k\<close> of its cached image.\<close>

definition fat_on_disk :: "('d \<Rightarrow> pc) \<Rightarrow> u32 \<Rightarrow> nat \<Rightarrow> nat \<Rightarrow> ('d, 'z) fs_scheme \<Rightarrow> u8 list" where
  "fat_on_disk view start i n s = concat (map (\<lambda>k. disk_content view s (sector_index (start + of_nat k))) [i..<n])"

definition fat_image :: "('d, 'z) fs_scheme \<Rightarrow> nat \<Rightarrow> u8 list" where
  "fat_image s k = rd_bytes (mem s) (fat_buffer (mount_info s) + of_nat k * 512) 512"

lemma fat_on_disk_Suc:
  "i < n \<Longrightarrow> fat_on_disk view start i n s
    = disk_content view s (sector_index (start + of_nat i)) @ fat_on_disk view start (Suc i) n s"
  by (simp add: fat_on_disk_def upt_conv_Cons)

lemma fs_ok_content: "fs_ok bus view s \<Longrightarrow> length (disk_content view s l) = 512"
  unfolding fs_ok_def by (blast intro: disk.content_length)

lemma fat_on_disk_length: "fs_ok bus view s \<Longrightarrow> length (fat_on_disk view start i n s) = 512 * (n - i)"
  by (simp add: fat_on_disk_def length_concat comp_def fs_ok_content sum_list_triv)

lemma load_fat_spec:
  fixes s :: "('d, 'z) fs_scheme"
  assumes "fs_ok bus view s"
  shows "\<exists>s'. load_fat bus i n s = Inr ((), s') \<and>
    io_only (s\<lparr>mem := wr_bytes (mem s) (fat_buffer (mount_info s) + of_nat i * 512)
      (fat_on_disk view (fat_start (mount_info s)) i n s)\<rparr>) s' \<and>
    fs_ok bus view s' \<and> disk_content view s' = disk_content view s"
  using assms
proof (induction "n - i" arbitrary: i s)
  case 0
  then show ?case by (simp add: load_fat.simps fat_on_disk_def)
next
  case (Suc m)
  then have i: "i < n" "m = n - Suc i" by simp_all
  let ?B = "fat_buffer (mount_info s) + of_nat i * 512" and ?F = "fat_start (mount_info s)"
  let ?c = "disk_content view s (sector_index (?F + of_nat i))"
  obtain s1 where s1: "load_sector_at bus (?F + of_nat i) ?B s = Inr ((), s1)"
    "io_only (s\<lparr>mem := wr_bytes (mem s) ?B ?c\<rparr>) s1" "fs_ok bus view s1" "disk_content view s1 = disk_content view s"
    using load_sector_at_spec [OF Suc.prems] by blast
  note f = io_only_fields [OF s1(2)]
  obtain s' where s': "load_fat bus (Suc i) n s1 = Inr ((), s')"
    "io_only (s1\<lparr>mem := wr_bytes (mem s1) (fat_buffer (mount_info s1) + of_nat (Suc i) * 512)
      (fat_on_disk view (fat_start (mount_info s1)) (Suc i) n s1)\<rparr>) s'"
    "fs_ok bus view s'" "disk_content view s' = disk_content view s1"
    using Suc.hyps(1) [OF i(2) s1(3)] by blast
  have len: "length ?c = 512" by (rule fs_ok_content [OF Suc.prems])
  have "fat_on_disk view ?F (Suc i) n s1 = fat_on_disk view ?F (Suc i) n s"
    by (simp add: fat_on_disk_def s1(4))
  moreover have "?B + of_nat (length ?c) = fat_buffer (mount_info s) + of_nat (Suc i) * 512"
    unfolding len by (simp add: algebra_simps)
  ultimately have "wr_bytes (mem s1) (fat_buffer (mount_info s1) + of_nat (Suc i) * 512)
        (fat_on_disk view (fat_start (mount_info s1)) (Suc i) n s1) = wr_bytes (mem s) ?B (fat_on_disk view ?F i n s)"
    using f(1,2) by (simp only: fat_on_disk_Suc [OF i(1)] wr_bytes_append) simp
  with io_only_mem [OF s1(2), of "wr_bytes (mem s) ?B (fat_on_disk view ?F i n s)"]
  have "io_only (s\<lparr>mem := wr_bytes (mem s) ?B (fat_on_disk view ?F i n s)\<rparr>)
      (s1\<lparr>mem := wr_bytes (mem s1) (fat_buffer (mount_info s1) + of_nat (Suc i) * 512)
        (fat_on_disk view (fat_start (mount_info s1)) (Suc i) n s1)\<rparr>)" by simp
  then have "io_only (s\<lparr>mem := wr_bytes (mem s) ?B (fat_on_disk view ?F i n s)\<rparr>) s'"
    using s'(2) by (rule io_only_trans)
  with s1 s' i(1) show ?case by (subst load_fat.simps) simp
qed

section \<open>Writing the FAT back\<close>

definition both_copies :: "u32 \<Rightarrow> u32 \<Rightarrow> (nat \<Rightarrow> u8 list) \<Rightarrow> nat \<Rightarrow> (nat \<Rightarrow> u8 list) \<Rightarrow> nat \<Rightarrow> u8 list" where
  "both_copies start sz img k D = D(sector_index (start + of_nat k) := img k, sector_index (start + sz + of_nat k) := img k)"

lemma sync_from_spec:
  fixes s :: "('d, 'z) fs_scheme"
  assumes "fs_ok bus view s"
  shows "\<exists>s'. sync_from bus i n s = Inr ((), s') \<and> io_only s s' \<and> fs_ok bus view s' \<and> sector_buffer s' = sector_buffer s \<and>
    disk_content view s' = fold (both_copies (fat_start (mount_info s)) (ucast (sectors_per_fat (mount_info s))) (fat_image s))
      [i..<n] (disk_content view s)"
  using assms
proof (induction "n - i" arbitrary: i s)
  case 0
  then show ?case by (simp add: sync_from.simps)
next
  case (Suc m)
  then have i: "i < n" "m = n - Suc i" by simp_all
  let ?m = "mount_info s"
  let ?B = "fat_buffer ?m + of_nat i * 512"
  obtain s1 where s1: "store_sector_at bus (fat_start ?m + of_nat i) ?B s = Inr ((), s1)"
    "io_only s s1" "fs_ok bus view s1" "sector_buffer s1 = sector_buffer s"
    "disk_content view s1 = (disk_content view s)(sector_index (fat_start ?m + of_nat i) := fat_image s i)"
    using store_sector_at_spec [OF Suc.prems] by (auto simp: fat_image_def)
  note f1 = io_only_fields [OF s1(2)]
  obtain s2 where s2: "store_sector_at bus (fat_start ?m + ucast (sectors_per_fat ?m) + of_nat i) ?B s1 = Inr ((), s2)"
    "io_only s1 s2" "fs_ok bus view s2" "sector_buffer s2 = sector_buffer s1"
    "disk_content view s2 = (disk_content view s1)(sector_index (fat_start ?m + ucast (sectors_per_fat ?m) + of_nat i)
      := fat_image s i)"
    using store_sector_at_spec [OF s1(3)] f1(1) by (auto simp: fat_image_def)
  note f2 = io_only_fields [OF s2(2)]
  have img: "fat_image s2 = fat_image s" by (simp add: fat_image_def fun_eq_iff f1 f2)
  obtain s' where "sync_from bus (Suc i) n s2 = Inr ((), s')" "io_only s2 s'" "fs_ok bus view s'"
    "sector_buffer s' = sector_buffer s2"
    "disk_content view s' = fold (both_copies (fat_start ?m) (ucast (sectors_per_fat ?m)) (fat_image s)) [Suc i..<n]
      (disk_content view s2)"
    using Suc.hyps(1) [OF i(2) s2(3)] by (auto simp: img f1 f2)
  moreover have "disk_content view s2
      = both_copies (fat_start ?m) (ucast (sectors_per_fat ?m)) (fat_image s) i (disk_content view s)"
    by (simp add: both_copies_def s1(5) s2(5))
  ultimately show ?case
    using s1 s2 i(1) f1
    by (subst sync_from.simps) (auto simp: upt_conv_Cons intro: io_only_trans)
qed

lemma sector_index_add:
  assumes "unat start + k < 2 ^ 28"
  shows "sector_index (start + of_nat k) = unat start + k"
proof -
  have "unat (of_nat k :: u32) = k" using assms by (simp add: unat_of_nat take_bit_nat_eq_self)
  then show ?thesis using assms by (simp add: sector_index_def unat_word_ariths)
qed

lemma both_copies_fold:
  assumes "unat start + 2 * n \<le> 2 ^ 28" "unat sz = n" "i \<le> n"
  shows "fold (both_copies start sz img) [0..<i] D j
    = (if unat start \<le> j \<and> j < unat start + i then img (j - unat start)
       else if unat start + n \<le> j \<and> j < unat start + n + i then img (j - unat start - n) else D j)"
  using assms(3)
proof (induction i)
  case 0
  then show ?case by auto
next
  case (Suc i)
  have "sector_index (start + of_nat i) = unat start + i"
    using assms Suc.prems by (intro sector_index_add) auto
  moreover have "unat (start + sz) = unat start + n"
    using assms Suc.prems by (simp add: unat_word_ariths)
  then have "sector_index (start + sz + of_nat i) = unat start + n + i"
    using assms Suc.prems sector_index_add [of "start + sz" i] by simp
  ultimately show ?case
    using Suc by (auto simp: both_copies_def less_Suc_eq)
qed

section \<open>A mounted machine\<close>

text \<open>
  For the witnesses: the demo machine with the FAT cached at 0xC0006000, one sector per FAT, the two
  copies from sector 1 on, a root directory of one sector and data from sector 4 on.
\<close>

definition demo_fs :: "pc fs" where
  "demo_fs = vmm.extend demo_vmm (fs.fields
     \<lparr>fat_start = 1, root_start = 3, root_size = 1, data_start = 4, sectors_per_fat = 1, bytes_per_sector = 512,
      sectors_per_cluster = 1, root_entries = 16, fat_buffer = 0xC0006000\<rparr> (replicate 512 0))"

lemma demo_fs_fields [simp]:
  "mem demo_fs = mem demo_vmm" "dev demo_fs = demo_pc" "vidmem demo_fs = replicate 4000 0" "sector_buffer demo_fs = replicate 512 0"
  "fat_start (mount_info demo_fs) = 1" "root_start (mount_info demo_fs) = 3" "root_size (mount_info demo_fs) = 1"
  "data_start (mount_info demo_fs) = 4" "sectors_per_fat (mount_info demo_fs) = 1"
  "sectors_per_cluster (mount_info demo_fs) = 1" "fat_buffer (mount_info demo_fs) = 0xC0006000"
  by (simp_all add: demo_fs_def vmm.defs fs.defs demo_vmm_def)

lemma demo_fs_ok: "fs_ok demo_bus (\<lambda>a. a) demo_fs"
  by (simp add: fs_ok_def drive_inv_def demo_bus_conforms drive_ok_def demo_pc_def terminal_ok_def terminal_of_def cursor_of_def)

lemma demo_fat: "unat c < 2048 \<Longrightarrow> get_next_cluster c demo_fs = 0"
proof -
  assume c: "unat c < 2048"
  have "page_frame (0xC0006000 + of_nat k) = 0xC0006000" if "k < 4096" for k
    using that by (intro page_frame_add) (auto simp: unat_of_nat take_bit_nat_eq_self)
  then have "mem demo_vmm (0xC0006000 + of_nat k) = 0" if "k < 4096" for k
  proof -
    have pf: "page_frame (0xC0006000 + of_nat k) = 0xC0006000" using that by fact
    have "0xC0006000 + of_nat k \<noteq> (0xC0005000 :: u32)"
    proof
      assume e: "0xC0006000 + of_nat k = (0xC0005000 :: u32)"
      from pf show False unfolding e by simp
    qed
    with pf demo_vmm_mem [of "0xC0006000 + of_nat k"] show ?thesis by simp
  qed
  from this [of "unat c + unat c div 2"] this [of "Suc (unat c + unat c div 2)"] c
  have "rd16 (mem demo_fs) (0xC0006000 + fat_offset c) = 0"
    by (simp add: rd16_def fat_offset_nat add.assoc add.commute)
  then show ?thesis by (simp add: get_next_cluster_def)
qed

section \<open>Properties of the cluster table\<close>

lemma find_upt:
  "case find P [a..<n] of None \<Rightarrow> \<forall>c \<in> {a..<n}. \<not> P c
   | Some c \<Rightarrow> c \<in> {a..<n} \<and> P c \<and> (\<forall>d \<in> {a..<c}. \<not> P d)"
proof (induction "n - a" arbitrary: a)
  case 0
  then show ?case by simp
next
  case (Suc m)
  then have a: "[a..<n] = a # [Suc a..<n]" "{a..<n} = insert a {Suc a..<n}" "m = n - Suc a"
    by (auto simp: upt_conv_Cons)
  moreover have "{a..<c} = insert a {Suc a..<c}" if "c \<in> {Suc a..<n}" for c using that by auto
  ultimately show ?case
    using Suc.hyps(1) [OF a(3)] by (auto split: option.splits)
qed

text \<open>
  C19: The packed cluster table is a table of independent 12-bit entries: whatever the parity of the
  two cluster numbers, after \<open>set_cluster_value\<close> an entry reads the low twelve bits of the value if it is the
  one written and its old value otherwise, although neighbouring entries share a byte.
\<close>

theorem set_cluster_value_correct:
  "get_next_cluster d (set_cluster_value c v s) = (if d = c then v AND 0xFFF else get_next_cluster d s)"
  by (rule get_set_cluster)

text \<open>
  \<open>find_free_cluster\<close> answers the least cluster from 2 to 4083 whose entry is free, and 0
  exactly when there is none.
\<close>

theorem find_free_cluster_least:
  "if find_free_cluster s = 0 then \<forall>c \<in> {2..<4084}. get_next_cluster (of_nat c) s \<noteq> FAT12_FREE
   else unat (find_free_cluster s) \<in> {2..<4084} \<and> get_next_cluster (find_free_cluster s) s = FAT12_FREE \<and>
     (\<forall>c \<in> {2..<unat (find_free_cluster s)}. get_next_cluster (of_nat c) s \<noteq> FAT12_FREE)"
proof -
  have u: "unat (of_nat c :: u16) = c" "(of_nat c :: u16) = 0 \<longleftrightarrow> c = 0" if "c < 4084" for c
    using that by (simp_all add: unat_of_nat take_bit_nat_eq_self word_unat_eq_iff)
  note find_upt [where P = "\<lambda>c. get_next_cluster (of_nat c) s = 0" and a = 2 and n = 4084]
  then show ?thesis
    unfolding find_free_cluster_def free_cluster_from_eq
    by (auto simp: u simp del: upt_rec_numeral split: option.splits)
qed

theorem find_free_cluster_least_witness:
  "find_free_cluster demo_fs = 2 \<and> find_free_cluster (set_cluster_value 2 FAT12_EOF demo_fs) = 3"
proof -
  have a: "get_next_cluster 2 demo_fs = 0" "get_next_cluster 3 demo_fs = 0" by (simp_all add: demo_fat)
  let ?s = "set_cluster_value 2 FAT12_EOF demo_fs"
  have b: "get_next_cluster 2 ?s = 0xFFF" "get_next_cluster 3 ?s = 0" by (simp_all add: get_set_cluster a)
  have least: "unat (find_free_cluster s) = n"
    if "get_next_cluster (of_nat n) s = 0" "\<forall>m \<in> {2..<n}. get_next_cluster (of_nat m) s \<noteq> 0" "n \<in> {2..<4084}"
    for n and s :: "pc fs"
  proof -
    let ?f = "find_free_cluster s"
    note l = find_free_cluster_least [of s]
    have "?f \<noteq> 0" using l that(1,3) by auto
    with l have r: "unat ?f \<in> {2..<4084}" "get_next_cluster ?f s = 0"
      "\<forall>c \<in> {2..<unat ?f}. get_next_cluster (of_nat c) s \<noteq> 0" by simp_all
    have "\<not> n < unat ?f" using r(3) that(1,3) by auto
    moreover have "(of_nat (unat ?f) :: u16) = ?f" by simp
    with r(1,2) that(2) have "\<not> unat ?f < n" by (metis atLeastLessThan_iff)
    ultimately show ?thesis by simp
  qed
  have "unat (find_free_cluster demo_fs) = 2" by (rule least) (simp_all add: a)
  moreover have "{2..<3} = {2 :: nat}" by auto
  then have "unat (find_free_cluster ?s) = 3" by (intro least) (simp_all add: b)
  ultimately show ?thesis by (simp add: word_unat_eq_iff)
qed

section \<open>Properties of syncing and mounting\<close>

lemma sync_fat_spec:
  fixes s :: "('d, 'z) fs_scheme"
  assumes "fs_ok bus view s"
    and "unat (fat_start (mount_info s)) + 2 * unat (sectors_per_fat (mount_info s)) \<le> 2 ^ 28"
  shows "\<exists>s'. sync_fat bus s = Inr ((), s') \<and> io_only s s' \<and> fs_ok bus view s' \<and>
    (\<forall>j. disk_content view s' j =
      (let b = unat (fat_start (mount_info s)); n = unat (sectors_per_fat (mount_info s))
       in if b \<le> j \<and> j < b + 2 * n then fat_image s ((j - b) mod n) else disk_content view s j))"
proof -
  let ?b = "unat (fat_start (mount_info s))" and ?n = "unat (sectors_per_fat (mount_info s))"
  obtain s' where s': "sync_fat bus s = Inr ((), s')" "io_only s s'" "fs_ok bus view s'"
    "disk_content view s' = fold (both_copies (fat_start (mount_info s)) (ucast (sectors_per_fat (mount_info s)))
      (fat_image s)) [0..<?n] (disk_content view s)"
    using sync_from_spec [OF assms(1), of 0 ?n] by (auto simp: sync_fat_def)
  have "?n < 65536" using unsigned_less [of "sectors_per_fat (mount_info s)"] by simp
  then have u: "unat (ucast (sectors_per_fat (mount_info s)) :: u32) = ?n"
    by (simp add: unsigned_ucast_eq take_bit_nat_eq_self)
  have "disk_content view s' j = (if ?b \<le> j \<and> j < ?b + 2 * ?n then fat_image s ((j - ?b) mod ?n)
      else disk_content view s j)" for j
  proof (cases "?b + ?n \<le> j \<and> j < ?b + 2 * ?n")
    case True
    then obtain r where "j = ?b + ?n + r" "r < ?n"
      by (metis add.assoc le_iff_add mult_2 nat_add_left_cancel_less)
    then have "(j - ?b) mod ?n = j - ?b - ?n" by simp
    with True show ?thesis unfolding s'(4) both_copies_fold [OF assms(2) u order_refl] by auto
  next
    case False
    then show ?thesis unfolding s'(4) both_copies_fold [OF assms(2) u order_refl] by auto
  qed
  with s' show ?thesis by (auto simp: Let_def)
qed

text \<open>
  C36: \<open>sync_fat\<close> is total on a healthy drive and writes the cached table to both copies on disk,
  sector by sector; every other sector, the memory and the rest of the state stay as they are (when
  the copies lie below the 28-bit LBA limit).
\<close>

theorem sync_fat_writes_both_copies:
  fixes s :: "('d, 'z) fs_scheme"
  assumes "fs_ok bus view s"
    and "unat (fat_start (mount_info s)) + 2 * unat (sectors_per_fat (mount_info s)) \<le> 2 ^ 28"
  shows "\<exists>s'. sync_fat bus s = Inr ((), s') \<and> io_only s s' \<and> fs_ok bus view s' \<and>
    (\<forall>j. disk_content view s' j =
      (let b = unat (fat_start (mount_info s)); n = unat (sectors_per_fat (mount_info s))
       in if b \<le> j \<and> j < b + 2 * n then fat_image s ((j - b) mod n) else disk_content view s j))"
  using assms by (rule sync_fat_spec)

theorem sync_fat_writes_both_copies_witness:
  "\<exists>s'. sync_fat demo_bus demo_fs = Inr ((), s') \<and> disk_content (\<lambda>a. a) s' 1 = fat_image demo_fs 0 \<and>
     disk_content (\<lambda>a. a) s' 2 = fat_image demo_fs 0"
proof -
  have "unat (fat_start (mount_info demo_fs)) + 2 * unat (sectors_per_fat (mount_info demo_fs)) \<le> 2 ^ 28" by simp
  from sync_fat_writes_both_copies [OF demo_fs_ok this] show ?thesis by (auto simp: Let_def)
qed

lemma fs_fields_more:
  fixes s :: "('d, 'z) fs_scheme"
  assumes "pmm.more s' = pmm.more s"
  shows "mount_info s' = mount_info s" "sector_buffer s' = sector_buffer s" "fs_ok bus view s' = fs_ok bus view s"
    "disk_content view s' = disk_content view s"
proof -
  from assms show "mount_info s' = mount_info s" and b: "sector_buffer s' = sector_buffer s"
    by (cases s; cases s'; simp)+
  have "dev s' = dev s" "vidmem s' = vidmem s" using assms by (rule vmm_fields_more)+
  with b show "fs_ok bus view s' = fs_ok bus view s" "disk_content view s' = disk_content view s"
    by (simp_all add: fs_ok_def drive_inv_def terminal_of_def disk_content_def fun_eq_iff)
qed

lemma alloc_page_more: "pmm.more (snd (vmmngr_alloc_page s)) = pmm.more s"
  using map_page_fields(3) [of _ _ "snd (alloc_memory_block s)"]
  by (simp add: vmmngr_alloc_page_def Let_def split: prod.splits) (metis alloc_fields(3) snd_conv)

text \<open>The head of \<open>fat12_init\<close>: what it answers for the boot sector on disk.\<close>

lemma fat12_init_head:
  fixes s :: "('d, 'z) fs_scheme"
  assumes "fs_ok bus view s"
  defines "b \<equiv> disk_content view s 0"
  obtains s1 where "io_only s s1" "fs_ok bus view s1" "disk_content view s1 = disk_content view s" "sector_buffer s1 = b"
    "fat12_init bus s =
       (if take 8 (bpb_filesystem_type b) \<noteq> cs ''FAT12   '' then Inr (-1, s1)
        else case mount_from b (mount_info s) of Inl e \<Rightarrow> Inl e | Inr m \<Rightarrow>
          let (p, s2) = vmmngr_alloc_page (s1\<lparr>mount_info := m\<rparr>);
              s2 = s2\<lparr>mount_info := (mount_info s2)\<lparr>fat_buffer := p\<rparr>\<rparr> in
          if p = 0 then Inr (-1, s2)
          else bindk (load_fat bus 0 (unat (sectors_per_fat (mount_info s2))) s2) (\<lambda>_ s. mount_report bus s))"
proof -
  obtain s1 where s1: "load_sector bus 0 s = Inr ((), s1)" "io_only s s1" "fs_ok bus view s1"
    "disk_content view s1 = disk_content view s" "sector_buffer s1 = b"
    using load_sector_spec [OF assms(1), of 0] by (auto simp: b_def sector_index_def)
  have len: "length b = 512" unfolding b_def by (rule fs_ok_content [OF assms(1)])
  have l8: "length (cs ''FAT12   '') = 8" by (simp add: cs_def)
  obtain c where c: "memcmp (bpb_filesystem_type b) (cs ''FAT12   '') (int 8) 0 = Inr c"
    "c = 0 \<longleftrightarrow> take 8 (bpb_filesystem_type b) = take 8 (cs ''FAT12   '')"
    by (rule memcmp_eq [of 8 "bpb_filesystem_type b" "cs ''FAT12   ''"]) (simp_all add: l8 len bpb_filesystem_type_def)
  have e: "memcmp (bpb_filesystem_type b) (cs ''FAT12   '') 8 0 = Inr c" using c(1) by simp
  show thesis
  proof (rule that [OF s1(2-5)], goal_cases)
    case 1
    show ?case
      unfolding fat12_init_def s1(1) bindk_simps fst_conv snd_conv s1(5) io_only_fields(2) [OF s1(2)] e sum.case
      using c(2) by (simp add: l8 Let_def split: sum.split prod.split)
  qed
qed

text \<open>Operations that return, and leave disk and memory as they are, compose.\<close>

definition silent :: "'d bus \<Rightarrow> ('d \<Rightarrow> pc) \<Rightarrow> (('d, 'z) fs_scheme \<Rightarrow> ('a, ('d, 'z) fs_scheme) result) \<Rightarrow> ('a \<Rightarrow> bool) \<Rightarrow> bool" where
  "silent bus view f P \<longleftrightarrow> (\<forall>s. fs_ok bus view s \<longrightarrow> (\<exists>x s'. f s = Inr (x, s') \<and> P x \<and> io_only s s' \<and>
     fs_ok bus view s' \<and> disk_content view s' = disk_content view s))"

lemma silentE:
  assumes "silent bus view f P" "fs_ok bus view s"
  obtains x s' where "f s = Inr (x, s')" "P x" "io_only s s'" "fs_ok bus view s'" "disk_content view s' = disk_content view s"
  using assms unfolding silent_def by blast

lemma silent_return: "P x \<Longrightarrow> silent bus view (\<lambda>s. Inr (x, s)) P"
  by (simp add: silent_def)

lemma silent_bind:
  assumes "silent bus view f Q" "\<And>x. Q x \<Longrightarrow> silent bus view (g x) P"
  shows "silent bus view (\<lambda>s. bindk (f s) g) P"
  unfolding silent_def
proof (intro allI impI)
  fix s :: "('a, 'b) fs_scheme"
  assume "fs_ok bus view s"
  with assms(1) obtain x s1 where 1: "f s = Inr (x, s1)" "Q x" "io_only s s1" "fs_ok bus view s1"
    "disk_content view s1 = disk_content view s" by (rule silentE)
  obtain y s2 where "g x s1 = Inr (y, s2)" "P y" "io_only s1 s2" "fs_ok bus view s2"
    "disk_content view s2 = disk_content view s1" by (rule silentE [OF assms(2) [OF 1(2)] 1(4)])
  with 1 show "\<exists>x s'. bindk (f s) g = Inr (x, s') \<and> P x \<and> io_only s s' \<and> fs_ok bus view s' \<and>
      disk_content view s' = disk_content view s" by (auto intro: io_only_trans)
qed

lemma silent_pr:
  "(\<And>s. plain (cs fmt) (args s)) \<Longrightarrow> 8 \<notin> set (cs module) \<Longrightarrow>
    silent bus view (\<lambda>s. pr bus level module fmt (args s) s) (\<lambda>_. True)"
  unfolding silent_def using fs_pr by blast

lemma silent_printk:
  "(\<And>s. plain fmt (args s)) \<Longrightarrow> silent bus view (\<lambda>s. printk bus fmt (args s) s) (\<lambda>_. True)"
  unfolding silent_def using fs_printk by blast

lemma silent_pr_then:
  "silent bus view g P \<Longrightarrow> (\<And>s. plain (cs fmt) (args s)) \<Longrightarrow> 8 \<notin> set (cs module) \<Longrightarrow>
    silent bus view (\<lambda>s. bindk (pr bus level module fmt (args s) s) (\<lambda>_. g)) P"
  by (rule silent_bind [OF silent_pr])

lemma silent_printk_then:
  "silent bus view g P \<Longrightarrow> (\<And>s. plain fmt (args s)) \<Longrightarrow>
    silent bus view (\<lambda>s. bindk (printk bus fmt (args s) s) (\<lambda>_. g)) P"
  by (rule silent_bind [OF silent_printk])

lemma mount_report_silent: "silent bus view (mount_report bus) (\<lambda>r. r = 0)"
proof -
  have e: "mount_report bus = (\<lambda>s. bindk (printk bus (cs ''FAT12 initialized:\<newline>'') [] s) (\<lambda>_ s.
     bindk (pr bus KERN_INFO ''FS'' ''  FAT start: %d\<newline>'' [VInt (fat_start (mount_info s))] s) (\<lambda>_ s.
     bindk (pr bus KERN_INFO ''FS'' ''  Root start: %d\<newline>'' [VInt (root_start (mount_info s))] s) (\<lambda>_ s.
     bindk (pr bus KERN_INFO ''FS'' ''  Data start: %d\<newline>'' [VInt (data_start (mount_info s))] s) (\<lambda>_ s.
       Inr (0, s))))))"
    by (simp add: mount_report_def fun_eq_iff)
  show ?thesis
    unfolding e by (intro silent_printk_then silent_pr_then silent_return) (simp_all add: cs_def)
qed

text \<open>A boot sector for the witnesses: the layout of the mounted machine above.\<close>

definition demo_boot :: "u8 list" where
  "demo_boot = replicate 11 0 @ [0, 2, 1, 1, 0, 2, 16, 0] @ replicate 3 0 @ [1, 0] @ replicate 30 0 @
     [70, 65, 84, 49, 50, 32, 32, 32] @ replicate 450 0"

definition demo_disk :: "pc fs" where
  "demo_disk = demo_fs\<lparr>dev := demo_pc\<lparr>ata_sectors := (\<lambda>_. replicate 256 0)(0 := words_of demo_boot)\<rparr>\<rparr>"

lemma demo_disk_ok: "fs_ok demo_bus (\<lambda>a. a) demo_disk" "disk_content (\<lambda>a. a) demo_disk 0 = demo_boot"
proof -
  have "length demo_boot = 512" by (simp add: demo_boot_def)
  moreover from this have "length (words_of demo_boot) = 256" by (simp add: words_of_length)
  ultimately show "fs_ok demo_bus (\<lambda>a. a) demo_disk" "disk_content (\<lambda>a. a) demo_disk 0 = demo_boot"
    using demo_fs_ok
    by (simp_all add: demo_disk_def fs_ok_def drive_inv_def drive_ok_def terminal_of_def cursor_of_def demo_pc_def
        disk_content_def bytes_of_words_of)
qed

lemma demo_boot_fields:
  "take 8 (bpb_filesystem_type demo_boot) = cs ''FAT12   ''" "bpb_bytes_per_sector demo_boot = 512"
  "bpb_reserved_sectors demo_boot = 1" "bpb_num_fats demo_boot = 2" "bpb_sectors_per_fat demo_boot = 1"
  "bpb_root_entries demo_boot = 16"
  by (simp_all add: demo_boot_def bpb_filesystem_type_def bpb_bytes_per_sector_def bpb_reserved_sectors_def
      bpb_num_fats_def bpb_sectors_per_fat_def bpb_root_entries_def buf16_def cs_def nth_append drop_append)

text \<open>
  \<open>fat12_init\<close> checks the volume's label only: with another label it answers -1 and has only
  filled the sector buffer; with a FAT12 label and a sector size of 0 it divides by zero.
\<close>

theorem fat12_init_rejects:
  fixes s :: "('d, 'z) fs_scheme"
  assumes "fs_ok bus view s"
    and "take 8 (bpb_filesystem_type (disk_content view s 0)) \<noteq> cs ''FAT12   ''
      \<or> bpb_bytes_per_sector (disk_content view s 0) = 0"
  shows "\<exists>s'. io_only s s' \<and> disk_content view s' = disk_content view s \<and>
    fat12_init bus s = (if take 8 (bpb_filesystem_type (disk_content view s 0)) \<noteq> cs ''FAT12   ''
      then Inr (-1, s') else Inl DivZero)"
  using assms(2) by (rule_tac fat12_init_head [OF assms(1)]) (auto simp: mount_from_def Let_def)

theorem fat12_init_rejects_witness:
  "\<exists>s'. io_only demo_fs s' \<and> fat12_init demo_bus demo_fs = Inr (-1, s')"
proof -
  have "disk_content (\<lambda>a. a) demo_fs 0 ! 0x36 \<in> set (disk_content (\<lambda>a. a) demo_fs 0)"
    by (intro nth_mem) (simp add: fs_ok_content [OF demo_fs_ok])
  moreover have "set (disk_content (\<lambda>a. a) demo_fs 0) = {0}" by (simp add: disk_content_def demo_pc_def bytes_of_def)
  ultimately have "disk_content (\<lambda>a. a) demo_fs 0 ! 0x36 = 0" by simp
  then have "take 8 (bpb_filesystem_type (disk_content (\<lambda>a. a) demo_fs 0)) \<noteq> cs ''FAT12   ''"
    using fs_ok_content [OF demo_fs_ok, of 0]
    by (auto simp: bpb_filesystem_type_def cs_def dest: arg_cong [where f = "\<lambda>xs. xs ! 0"])
  with fat12_init_rejects [OF demo_fs_ok] show ?thesis by auto
qed

lemma fat12_init_spec:
  fixes s :: "('d, 'z) fs_scheme"
  assumes "fs_ok bus view s" "b = disk_content view s 0"
    and "take 8 (bpb_filesystem_type b) = cs ''FAT12   ''" "bpb_bytes_per_sector b \<noteq> 0"
  shows "\<exists>s1 m. io_only s s1 \<and> fs_ok bus view s1 \<and> mount_from b (mount_info s) = Inr m \<and>
    fat_start m = ucast (bpb_reserved_sectors b) \<and>
    root_start m = fat_start m + ucast (bpb_num_fats b) * ucast (bpb_sectors_per_fat b) \<and>
    data_start m = root_start m + ucast (bpb_root_entries b) * 32 div ucast (bpb_bytes_per_sector b) \<and>
    (case vmmngr_alloc_page (s1\<lparr>mount_info := m\<rparr>) of (p, s2) \<Rightarrow>
      if p = 0 then fat12_init bus s = Inr (-1, s2\<lparr>mount_info := m\<lparr>fat_buffer := p\<rparr>\<rparr>)
      else \<exists>s'. fat12_init bus s = Inr (0, s') \<and> fs_ok bus view s' \<and>
        io_only (s2\<lparr>mount_info := m\<lparr>fat_buffer := p\<rparr>,
          mem := wr_bytes (mem s2) p (fat_on_disk view (fat_start m) 0 (unat (sectors_per_fat m)) s)\<rparr>) s' \<and>
        disk_content view s' = disk_content view s)"
proof -
  obtain s1 where s1: "io_only s s1" "fs_ok bus view s1" "disk_content view s1 = disk_content view s" "sector_buffer s1 = b"
    and init: "fat12_init bus s = (case mount_from b (mount_info s) of Inl e \<Rightarrow> Inl e | Inr m \<Rightarrow>
          let (p, s2) = vmmngr_alloc_page (s1\<lparr>mount_info := m\<rparr>);
              s2 = s2\<lparr>mount_info := (mount_info s2)\<lparr>fat_buffer := p\<rparr>\<rparr> in
          if p = 0 then Inr (-1, s2)
          else bindk (load_fat bus 0 (unat (sectors_per_fat (mount_info s2))) s2) (\<lambda>_ s. mount_report bus s))"
    using assms by (rule_tac fat12_init_head [OF assms(1)]) auto
  obtain m where m: "mount_from b (mount_info s) = Inr m" "fat_start m = ucast (bpb_reserved_sectors b)"
    "root_start m = fat_start m + ucast (bpb_num_fats b) * ucast (bpb_sectors_per_fat b)"
    "data_start m = root_start m + ucast (bpb_root_entries b) * 32 div ucast (bpb_bytes_per_sector b)"
    using assms(4) by (simp add: mount_from_def Let_def)
  obtain p s2 where a: "vmmngr_alloc_page (s1\<lparr>mount_info := m\<rparr>) = (p, s2)" by force
  note f = fs_fields_more [OF alloc_page_more [of "s1\<lparr>mount_info := m\<rparr>"], unfolded a snd_conv]
  have ok: "fs_ok bus view (s\<lparr>mount_info := m'\<rparr>) = fs_ok bus view s"
    "disk_content view (s\<lparr>mount_info := m'\<rparr>) = disk_content view s" for m' and s :: "('d, 'z) fs_scheme"
    by (simp_all add: fs_ok_def drive_inv_def terminal_of_def disk_content_def fun_eq_iff)
  let ?s = "s2\<lparr>mount_info := m\<lparr>fat_buffer := p\<rparr>\<rparr>"
  have oks: "fs_ok bus view ?s" using f(3) s1(2) by (simp add: ok)
  obtain s3 where s3: "load_fat bus 0 (unat (sectors_per_fat m)) ?s = Inr ((), s3)"
    "io_only (?s\<lparr>mem := wr_bytes (mem ?s) p (fat_on_disk view (fat_start m) 0 (unat (sectors_per_fat m)) ?s)\<rparr>) s3"
    "fs_ok bus view s3" "disk_content view s3 = disk_content view ?s"
    using load_fat_spec [OF oks, of 0 "unat (sectors_per_fat m)"] by auto
  obtain s' where s': "mount_report bus s3 = Inr (0, s')" "io_only s3 s'" "fs_ok bus view s'"
    "disk_content view s' = disk_content view s3"
    using mount_report_silent s3(3) by (rule silentE) simp
  have dc: "disk_content view ?s = disk_content view s" by (simp add: ok f(4) s1(3))
  then have "fat_on_disk view (fat_start m) 0 n ?s = fat_on_disk view (fat_start m) 0 n s" for n
    by (simp add: fat_on_disk_def)
  with s' s3 dc io_only_trans [OF s3(2) s'(2)] s1(1,2) m a f(1) show ?thesis
    by (intro exI [of _ s1] exI [of _ m]) (simp add: init)
qed

text \<open>
  C15: Mounting: for a boot sector with the FAT12 label and a sector size, \<open>fat12_init\<close> computes
  the layout (FAT after the reserved sectors, root directory after all copies, data after the root
  directory), asks for a page, answers -1 if there is none, and otherwise returns 0 with the whole
  first copy of the FAT in memory from that page on. Nothing limits it to the page: a FAT of more
  than eight sectors overwrites what follows.
\<close>

theorem fat12_init_mounts:
  fixes s :: "('d, 'z) fs_scheme"
  assumes "fs_ok bus view s" "b = disk_content view s 0"
    and "take 8 (bpb_filesystem_type b) = cs ''FAT12   ''" "bpb_bytes_per_sector b \<noteq> 0"
  shows "\<exists>s1 m. io_only s s1 \<and> mount_from b (mount_info s) = Inr m \<and>
    fat_start m = ucast (bpb_reserved_sectors b) \<and>
    root_start m = fat_start m + ucast (bpb_num_fats b) * ucast (bpb_sectors_per_fat b) \<and>
    data_start m = root_start m + ucast (bpb_root_entries b) * 32 div ucast (bpb_bytes_per_sector b) \<and>
    (case vmmngr_alloc_page (s1\<lparr>mount_info := m\<rparr>) of (p, s2) \<Rightarrow>
      if p = 0 then fat12_init bus s = Inr (-1, s2\<lparr>mount_info := m\<lparr>fat_buffer := p\<rparr>\<rparr>)
      else \<exists>s'. fat12_init bus s = Inr (0, s') \<and> fs_ok bus view s' \<and> mount_info s' = m\<lparr>fat_buffer := p\<rparr> \<and>
        mem s' = wr_bytes (mem s2) p (fat_on_disk view (fat_start m) 0 (unat (sectors_per_fat m)) s) \<and>
        disk_content view s' = disk_content view s)"
proof -
  obtain s1 m where s1: "io_only s s1" "mount_from b (mount_info s) = Inr m" "fat_start m = ucast (bpb_reserved_sectors b)"
    "root_start m = fat_start m + ucast (bpb_num_fats b) * ucast (bpb_sectors_per_fat b)"
    "data_start m = root_start m + ucast (bpb_root_entries b) * 32 div ucast (bpb_bytes_per_sector b)"
    and r: "case vmmngr_alloc_page (s1\<lparr>mount_info := m\<rparr>) of (p, s2) \<Rightarrow>
      if p = 0 then fat12_init bus s = Inr (-1, s2\<lparr>mount_info := m\<lparr>fat_buffer := p\<rparr>\<rparr>)
      else \<exists>s'. fat12_init bus s = Inr (0, s') \<and> fs_ok bus view s' \<and>
        io_only (s2\<lparr>mount_info := m\<lparr>fat_buffer := p\<rparr>,
          mem := wr_bytes (mem s2) p (fat_on_disk view (fat_start m) 0 (unat (sectors_per_fat m)) s)\<rparr>) s' \<and>
        disk_content view s' = disk_content view s"
    using fat12_init_spec [OF assms] by (elim exE conjE) (rule that)
  from r have "case vmmngr_alloc_page (s1\<lparr>mount_info := m\<rparr>) of (p, s2) \<Rightarrow>
      if p = 0 then fat12_init bus s = Inr (-1, s2\<lparr>mount_info := m\<lparr>fat_buffer := p\<rparr>\<rparr>)
      else \<exists>s'. fat12_init bus s = Inr (0, s') \<and> fs_ok bus view s' \<and> mount_info s' = m\<lparr>fat_buffer := p\<rparr> \<and>
        mem s' = wr_bytes (mem s2) p (fat_on_disk view (fat_start m) 0 (unat (sectors_per_fat m)) s) \<and>
        disk_content view s' = disk_content view s"
    using io_only_fields(1,2) by (fastforce split: prod.splits if_splits)
  with s1 show ?thesis by (intro exI [of _ s1] exI [of _ m] conjI)
qed

theorem fat12_init_mounts_witness:
  "\<exists>s1 m. io_only demo_disk s1 \<and> fat_start m = 1 \<and> root_start m = 3 \<and> data_start m = 4 \<and>
     (case vmmngr_alloc_page (s1\<lparr>mount_info := m\<rparr>) of (p, s2) \<Rightarrow>
        if p = 0 then fat12_init demo_bus demo_disk = Inr (-1, s2\<lparr>mount_info := m\<lparr>fat_buffer := p\<rparr>\<rparr>)
        else \<exists>s'. fat12_init demo_bus demo_disk = Inr (0, s') \<and> fat_buffer (mount_info s') = p)"
proof -
  have "take 8 (bpb_filesystem_type demo_boot) = cs ''FAT12   ''" "bpb_bytes_per_sector demo_boot \<noteq> 0"
    by (simp_all add: demo_boot_fields)
  from fat12_init_mounts [OF demo_disk_ok(1) demo_disk_ok(2) [symmetric] this]
  show ?thesis by (auto simp: demo_boot_fields split: prod.splits if_splits) (fastforce split: prod.splits)+
qed

end
