(* ===== verification/Dir.thy ===== *)
theory Dir
  imports Mount
begin

text \<open>
  \<^verbatim>\<open>fs/fs.c\<close>, second part: 8.3 file names and the root directory. The directory is scanned
  sector by sector through \<open>sector_buffer\<close>. A file name is given as the bytes its pointer reaches
  (\<open>nat \<Rightarrow> u8\<close>): \<open>fat12_open\<close> copies 256 of them, whatever the length of the caller's array.
\<close>

section \<open>File names\<close>

definition upper :: "u8 \<Rightarrow> u8" where
  "upper c = (if 97 \<le> c \<and> c \<le> 122 then c - 32 else c)"

text \<open>The three loops of \<^verbatim>\<open>to_dos_filename\<close>: the name part, the search for the dot, the extension.\<close>

function dos_name_part :: "(nat \<Rightarrow> u8) \<Rightarrow> nat \<Rightarrow> u8 list \<Rightarrow> nat \<Rightarrow> stop + nat \<times> u8 list" where
  "dos_name_part input i output j =
     (if input i \<noteq> 0 \<and> input i \<noteq> 46 \<and> j < 8
      then (case arr_set output (int j) (upper (input i)) of Inl e \<Rightarrow> Inl e | Inr output \<Rightarrow>
              dos_name_part input (Suc i) output (Suc j))
      else Inr (i, output))"
  by pat_completeness auto
termination
  by (relation "measure (\<lambda>(input, i, output, j). 8 - j)") auto

partial_function (option) find_dot :: "(nat \<Rightarrow> u8) \<Rightarrow> nat \<Rightarrow> nat option" where
  "find_dot input i = (if input i \<noteq> 0 \<and> input i \<noteq> 46 then find_dot input (Suc i) else Some i)"

function dos_extension :: "(nat \<Rightarrow> u8) \<Rightarrow> nat \<Rightarrow> u8 list \<Rightarrow> nat \<Rightarrow> stop + u8 list" where
  "dos_extension input i output j =
     (if input i \<noteq> 0 \<and> j < 11
      then (case arr_set output (int j) (upper (input i)) of Inl e \<Rightarrow> Inl e | Inr output \<Rightarrow>
              dos_extension input (Suc i) output (Suc j))
      else Inr output)"
  by pat_completeness auto
termination
  by (relation "measure (\<lambda>(input, i, output, j). 11 - j)") auto

definition to_dos_filename :: "(nat \<Rightarrow> u8) \<Rightarrow> u8 list \<Rightarrow> stop + u8 list" where
  "to_dos_filename input output =
     (case memset_arr output 0 32 11 of Inl e \<Rightarrow> Inl e | Inr output \<Rightarrow>
      case dos_name_part input 0 output 0 of Inl e \<Rightarrow> Inl e | Inr (i, output) \<Rightarrow>
      case find_dot input i of None \<Rightarrow> Inl Hang | Some i \<Rightarrow>
        if input i = 46 then dos_extension input (Suc i) output 8 else Inr output)"

declare dos_name_part.simps [simp del] dos_extension.simps [simp del]

section \<open>Opening a file\<close>

text \<open>A new handle for entry \<open>i\<close> of the sector in the buffer.\<close>

definition open_entry :: "'d bus \<Rightarrow> (nat \<Rightarrow> u8) \<Rightarrow> nat \<Rightarrow> ('d, 'z) fs_scheme \<Rightarrow> (u32, ('d, 'z) fs_scheme) result" where
  "open_entry bus filename i s =
     bindk (pr bus KERN_DEBUG ''FS'' ''FILE FOUND\<newline>'' [] s) (\<lambda>_ s.
     let (f, s) = vmmngr_alloc_page s in
     if f = 0 then Inr (0, s)
     else
       let b = sector_buffer s;
           m = wr_bytes (mem s) f (map filename [0..<256]);
           m = wr16 m (f + 256) (ent_first_cluster b i);
           m = wr16 m (f + 258) (ent_first_cluster b i);
           m = wr32 m (f + 260) (ent_file_size b i);
           m = wr32 m (f + 264) 0;
           m = m(f + 268 := ent_attributes b i);
           m = wr32 m (f + 272) 0
       in Inr (f, s\<lparr>mem := m\<rparr>))"

text \<open>
  The loop over the 16 entries: \<open>Some\<close> of the index of the first match, an end mark, or the next
  sector. A \<^verbatim>\<open>char\<close> is signed, so the comparison with 0xE5 is between a value of at most 127
  and 229.
\<close>

datatype scan = Found nat | Ended | Next_sector

function scan_entries :: "u8 list \<Rightarrow> u8 list \<Rightarrow> nat \<Rightarrow> stop + scan" where
  "scan_entries b dos_name i =
     (if i < 16
      then if ent_filename b i ! 0 = 0 then Inr Ended
           else if sint (ent_filename b i ! 0) = 0xE5 then scan_entries b dos_name (Suc i)
           else (case memcmp (ent_filename b i) dos_name 11 0 of Inl e \<Rightarrow> Inl e | Inr c \<Rightarrow>
                   if c = 0 then Inr (Found i) else scan_entries b dos_name (Suc i))
      else Inr Next_sector)"
  by pat_completeness auto
termination
  by (relation "measure (\<lambda>(b, d, i). 16 - i)") auto

function open_from ::
  "'d bus \<Rightarrow> (nat \<Rightarrow> u8) \<Rightarrow> u8 list \<Rightarrow> nat \<Rightarrow> nat \<Rightarrow> ('d, 'z) fs_scheme \<Rightarrow> (u32, ('d, 'z) fs_scheme) result" where
  "open_from bus filename dos_name sector n s =
     (if sector < n
      then bindk (load_sector bus (root_start (mount_info s) + of_nat sector) s) (\<lambda>_ s.
           case scan_entries (sector_buffer s) dos_name 0 of
             Inl e \<Rightarrow> Inl e
           | Inr (Found i) \<Rightarrow> open_entry bus filename i s
           | Inr Ended \<Rightarrow> Inr (0, s)
           | Inr Next_sector \<Rightarrow> open_from bus filename dos_name (Suc sector) n s)
      else Inr (0, s))"
  by pat_completeness auto
termination
  by (relation "measure (\<lambda>(bus, f, d, sector, n, s). n - sector)") auto

definition fat12_open :: "'d bus \<Rightarrow> (nat \<Rightarrow> u8) \<Rightarrow> ('d, 'z) fs_scheme \<Rightarrow> (u32, ('d, 'z) fs_scheme) result" where
  "fat12_open bus filename s =
     (case to_dos_filename filename (replicate 11 0) of Inl e \<Rightarrow> Inl e | Inr dos_name \<Rightarrow>
        open_from bus filename dos_name 0 (unat (root_size (mount_info s))) s)"

section \<open>Creating a file\<close>

function free_entry_index :: "u8 list \<Rightarrow> nat \<Rightarrow> nat option" where
  "free_entry_index b i =
     (if i < 16
      then if ent_filename b i ! 0 = 0 \<or> sint (ent_filename b i ! 0) = 0xE5 then Some i
           else free_entry_index b (Suc i)
      else None)"
  by pat_completeness auto
termination
  by (relation "measure (\<lambda>(b, i). 16 - i)") auto

function free_entry_from ::
  "'d bus \<Rightarrow> nat \<Rightarrow> nat \<Rightarrow> ('d, 'z) fs_scheme \<Rightarrow> ((nat \<times> nat) option, ('d, 'z) fs_scheme) result" where
  "free_entry_from bus sector n s =
     (if sector < n
      then bindk (load_sector bus (root_start (mount_info s) + of_nat sector) s) (\<lambda>_ s.
           case free_entry_index (sector_buffer s) 0 of
             Some i \<Rightarrow> Inr (Some (sector, i), s)
           | None \<Rightarrow> free_entry_from bus (Suc sector) n s)
      else Inr (None, s))"
  by pat_completeness auto
termination
  by (relation "measure (\<lambda>(bus, sector, n, s). n - sector)") auto

definition find_free_dir_entry :: "'d bus \<Rightarrow> ('d, 'z) fs_scheme \<Rightarrow> ((nat \<times> nat) option, ('d, 'z) fs_scheme) result" where
  "find_free_dir_entry bus s = free_entry_from bus 0 (unat (root_size (mount_info s))) s"

text \<open>
  The allocation loop of \<^verbatim>\<open>fat12_create\<close>, from cluster number \<open>i\<close> of \<open>n\<close>; \<open>None\<close> when no free
  cluster is found.
\<close>

function alloc_clusters ::
  "nat \<Rightarrow> nat \<Rightarrow> u16 \<Rightarrow> u16 \<Rightarrow> ('d, 'z) fs_scheme \<Rightarrow> u16 option \<times> ('d, 'z) fs_scheme" where
  "alloc_clusters i n first_cluster prev_cluster s =
     (if i < n
      then let cluster = find_free_cluster s in
        if cluster = 0 then (None, s)
        else let s = (if i = 0 then s else set_cluster_value prev_cluster cluster s);
                 s = set_cluster_value cluster (if i = n - 1 then FAT12_EOF else 0) s
             in alloc_clusters (Suc i) n (if i = 0 then cluster else first_cluster) cluster s
      else (Some first_cluster, s))"
  by pat_completeness auto
termination
  by (relation "measure (\<lambda>(i, n, f, p, s). n - i)") auto

definition clusters_needed :: "u32 \<Rightarrow> u32" where
  "clusters_needed sz = (sz + 511) div 512"

text \<open>The directory entry: name, attributes, first cluster and size, in the sector buffer.\<close>

definition put_entry :: "nat \<Rightarrow> u8 list \<Rightarrow> u16 \<Rightarrow> u32 \<Rightarrow> u8 list \<Rightarrow> stop + u8 list" where
  "put_entry i dos_name first_cluster sz b =
     (case memcpy b (int (32 * i)) dos_name 0 11 0 of Inl e \<Rightarrow> Inl e | Inr b \<Rightarrow>
        Inr (put32 (32 * i + 28) sz (put16 (32 * i + 26) first_cluster (b[32 * i + 11 := ATTR_ARCHIVE]))))"

text \<open>The last part of \<^verbatim>\<open>fat12_create\<close>: the entry is written into its sector on disk.\<close>

definition write_entry ::
  "'d bus \<Rightarrow> nat \<Rightarrow> nat \<Rightarrow> u8 list \<Rightarrow> u16 \<Rightarrow> u32 \<Rightarrow> ('d, 'z) fs_scheme \<Rightarrow> (int, ('d, 'z) fs_scheme) result" where
  "write_entry bus dir_sector dir_idx dos_name first_cluster sz s =
     bindk (load_sector bus (root_start (mount_info s) + of_nat dir_sector) s) (\<lambda>_ s.
     (case put_entry dir_idx dos_name first_cluster sz (sector_buffer s) of Inl e \<Rightarrow> Inl e | Inr b \<Rightarrow>
        bindk (store_sector bus (root_start (mount_info s) + of_nat dir_sector) (s\<lparr>sector_buffer := b\<rparr>))
          (\<lambda>_ s. Inr (0, s))))"

definition fat12_create :: "'d bus \<Rightarrow> (nat \<Rightarrow> u8) \<Rightarrow> u32 \<Rightarrow> ('d, 'z) fs_scheme \<Rightarrow> (int, ('d, 'z) fs_scheme) result" where
  "fat12_create bus filename sz s =
     (case to_dos_filename filename (replicate 11 0) of Inl e \<Rightarrow> Inl e | Inr dos_name \<Rightarrow>
      bindk (fat12_open bus filename s) (\<lambda>existing s.
      if existing \<noteq> 0 then Inr (-1, s)
      else bindk (find_free_dir_entry bus s) (\<lambda>entry s.
        (case entry of
           None \<Rightarrow> Inr (-1, s)
         | Some e \<Rightarrow>
             (case alloc_clusters 0 (unat (clusters_needed sz)) 0 0 s of
                (None, s) \<Rightarrow> Inr (-1, s)
              | (Some first_cluster, s) \<Rightarrow>
                  bindk (sync_fat bus s) (\<lambda>_ s.
                    write_entry bus (fst e) (snd e) dos_name first_cluster sz s))))))"

section \<open>Listing the directory\<close>

text \<open>The printed name of entry \<open>i\<close>: the array \<^verbatim>\<open>name[13]\<close> up to its NUL.\<close>

definition entry_name :: "u8 list \<Rightarrow> nat \<Rightarrow> u8 list" where
  "entry_name b i =
     (let filename = take 8 (ent_filename b i);
          extension = take 3 (drop 8 (ent_filename b i));
          name = takeWhile (\<lambda>c. c \<noteq> 32) filename;
          name = (if extension ! 0 \<noteq> 32 then name @ [46] @ takeWhile (\<lambda>c. c \<noteq> 32) extension else name)
      in takeWhile (\<lambda>c. c \<noteq> 0) name)"

text \<open>The loop over the entries of one sector; the flag says that the end mark was met.\<close>

function list_entries ::
  "'d bus \<Rightarrow> nat \<Rightarrow> int \<Rightarrow> ('d, 'z) fs_scheme \<Rightarrow> (bool \<times> int, ('d, 'z) fs_scheme) result" where
  "list_entries bus i count s =
     (if i < 16
      then if ent_filename (sector_buffer s) i ! 0 = 0 then Inr ((True, count), s)
           else if sint (ent_filename (sector_buffer s) i ! 0) = 0xE5 \<or>
              ent_attributes (sector_buffer s) i AND (ATTR_VOLUME_ID OR ATTR_DIRECTORY) \<noteq> 0
           then list_entries bus (Suc i) count s
           else
             bindk (printk bus (cs ''%s'') [VStr (entry_name (sector_buffer s) i)] s) (\<lambda>_ s.
             bindk (printk bus (cs ''                    '') [] s) (\<lambda>_ s.
             bindk (printk bus (cs ''%d'') [VInt (ent_file_size (sector_buffer s) i)] s) (\<lambda>_ s.
             bindk (printk bus (cs ''\<newline>'') [] s) (\<lambda>_ s.
               list_entries bus (Suc i) (count + 1) s))))
      else Inr ((False, count), s))"
  by pat_completeness auto
termination
  by (relation "measure (\<lambda>(bus, i, count, s). 16 - i)") auto

function list_from ::
  "'d bus \<Rightarrow> nat \<Rightarrow> nat \<Rightarrow> int \<Rightarrow> ('d, 'z) fs_scheme \<Rightarrow> (int, ('d, 'z) fs_scheme) result" where
  "list_from bus sector n count s =
     (if sector < n
      then bindk (load_sector bus (root_start (mount_info s) + of_nat sector) s) (\<lambda>_ s.
           bindk (list_entries bus 0 count s) (\<lambda>r s.
             if fst r then Inr (snd r, s) else list_from bus (Suc sector) n (snd r) s))
      else Inr (count, s))"
  by pat_completeness auto
termination
  by (relation "measure (\<lambda>(bus, sector, n, count, s). n - sector)") auto

definition fat12_list_root :: "'d bus \<Rightarrow> ('d, 'z) fs_scheme \<Rightarrow> (int, ('d, 'z) fs_scheme) result" where
  "fat12_list_root bus s =
     bindk (printk bus (cs ''Root directory contents:\<newline>'') [] s) (\<lambda>_ s.
     bindk (printk bus (cs ''Name                   Size\<newline>'') [] s) (\<lambda>_ s.
     bindk (list_from bus 0 (unat (root_size (mount_info s))) 0 s) (\<lambda>count s.
     bindk (printk bus (cs ''\<newline>Total files: %d\<newline>'') [VInt (of_int count)] s) (\<lambda>_ s.
       Inr (count, s)))))"

definition fat12_close :: "u32 \<Rightarrow> int" where
  "fat12_close file = (if file \<noteq> 0 then 0 else -1)"

declare scan_entries.simps [simp del] open_from.simps [simp del] free_entry_index.simps [simp del]
  free_entry_from.simps [simp del] alloc_clusters.simps [simp del] list_entries.simps [simp del]
  list_from.simps [simp del]

section \<open>File names: lemmas\<close>

text \<open>The bytes of a C string at a pointer, and its 8.3 form: both parts cut, in upper case, padded.\<close>

definition c_string :: "(nat \<Rightarrow> u8) \<Rightarrow> u8 list \<Rightarrow> bool" where
  "c_string f xs \<longleftrightarrow> 0 \<notin> set xs \<and> (\<forall>i < length xs. f i = xs ! i) \<and> f (length xs) = 0"

definition pad :: "nat \<Rightarrow> u8 list \<Rightarrow> u8 list" where
  "pad n xs = map upper (take n xs) @ replicate (n - length xs) 32"

definition dos_8_3 :: "u8 list \<Rightarrow> u8 list" where
  "dos_8_3 xs = pad 8 (takeWhile (\<lambda>c. c \<noteq> 46) xs) @ pad 3 (drop 1 (dropWhile (\<lambda>c. c \<noteq> 46) xs))"

lemma pad_length [simp]: "length (pad n xs) = n"
  by (simp add: pad_def)

lemma dos_8_3_length [simp]: "length (dos_8_3 xs) = 11"
  by (simp add: dos_8_3_def)

lemma c_string_base:
  assumes "c_string f xs" "i \<le> length (takeWhile (\<lambda>c. c \<noteq> 46) xs)"
  shows "f i \<noteq> 0 \<and> f i \<noteq> 46 \<longleftrightarrow> i < length (takeWhile (\<lambda>c. c \<noteq> 46) xs)"
    and "i < length (takeWhile (\<lambda>c. c \<noteq> 46) xs) \<Longrightarrow> f i = takeWhile (\<lambda>c. c \<noteq> 46) xs ! i"
proof -
  let ?b = "takeWhile (\<lambda>c. c \<noteq> 46) xs"
  have l: "length ?b \<le> length xs" by (rule length_takeWhile_le)
  show e: "f i = ?b ! i" if "i < length ?b"
    using assms(1) that l by (simp add: c_string_def takeWhile_nth)
  show "f i \<noteq> 0 \<and> f i \<noteq> 46 \<longleftrightarrow> i < length ?b"
  proof (cases "i < length ?b")
    case True
    then have "?b ! i \<in> set ?b" by simp
    then have "?b ! i \<in> set xs" "?b ! i \<noteq> 46" by (blast dest: set_takeWhileD)+
    with assms(1) e [OF True] True show ?thesis by (auto simp: c_string_def)
  next
    case False
    with assms(2) have i: "i = length ?b" by simp
    show ?thesis
    proof (cases "length ?b < length xs")
      case True
      from nth_length_takeWhile [OF True] have "xs ! i = 46" by (simp add: i)
      with assms(1) True i show ?thesis by (simp add: c_string_def)
    next
      case False
      with l i assms(1) show ?thesis by (simp add: c_string_def)
    qed
  qed
qed

lemma pad_grow: "i < length b \<Longrightarrow> i < n \<Longrightarrow>
  (map upper (take i b) @ replicate (n - i) 32)[i := upper (b ! i)] = map upper (take (Suc i) b) @ replicate (n - Suc i) 32"
  by (simp add: list_update_append take_Suc_conv_app_nth Suc_diff_Suc [symmetric])

lemma dos_name_part_spec:
  assumes "c_string f xs" "b = takeWhile (\<lambda>c. c \<noteq> 46) xs" "i \<le> length b" "i \<le> 8"
  shows "dos_name_part f i (map upper (take i b) @ replicate (11 - i) 32) i
    = Inr (min 8 (length b), map upper (take 8 b) @ replicate (11 - min 8 (length b)) 32)"
  using assms(3,4)
proof (induction "8 - i" arbitrary: i)
  case 0
  then show ?case by (simp add: dos_name_part.simps)
next
  case (Suc m)
  note c = c_string_base [OF assms(1), folded assms(2), OF Suc.prems(1)]
  show ?case
  proof (cases "i < length b")
    case True
    let ?o = "map upper (take i b) @ replicate (11 - i) (32 :: u8)"
    have "arr_set ?o (int i) (upper (f i)) = Inr (map upper (take (Suc i) b) @ replicate (11 - Suc i) 32)"
      using True Suc.prems Suc.hyps(2) c(2) pad_grow [of i b 11] by (simp add: arr_set_nat)
    then show ?thesis
      using True Suc c(1) Suc.hyps(1) [of "Suc i"] by (subst dos_name_part.simps) simp
  next
    case False
    then have i: "i = length b" using Suc.prems by simp
    then have "\<not> (f i \<noteq> 0 \<and> f i \<noteq> 46)" using c(1) by simp
    with i Suc.prems Suc.hyps(2) show ?thesis by (subst dos_name_part.simps) (auto simp: min_def)
  qed
qed

lemma find_dot_spec:
  assumes "c_string f xs" "b = takeWhile (\<lambda>c. c \<noteq> 46) xs" "i \<le> length b"
  shows "find_dot f i = Some (length b)"
  using assms(3)
proof (induction "length b - i" arbitrary: i)
  case 0
  then have "i = length b" by simp
  with c_string_base(1) [OF assms(1), folded assms(2), of i] show ?case by (subst find_dot.simps) auto
next
  case (Suc m)
  with c_string_base(1) [OF assms(1), folded assms(2), of i] show ?case by (subst find_dot.simps) simp
qed

lemma dos_extension_spec:
  assumes "c_string f (us @ e)" "length o8 = 8" "k \<le> length e" "k \<le> 3"
  shows "dos_extension f (length us + k) (o8 @ map upper (take k e) @ replicate (3 - k) 32) (8 + k)
    = Inr (o8 @ pad 3 e)"
  using assms(3,4)
proof (induction "3 - k" arbitrary: k)
  case 0
  then have "k = 3" by simp
  with 0 show ?case by (simp add: dos_extension.simps pad_def)
next
  case (Suc m)
  then have k: "k < 3" by simp
  show ?case
  proof (cases "k < length e")
    case True
    let ?o = "o8 @ map upper (take k e) @ replicate (3 - k) (32 :: u8)"
    have f: "f (length us + k) = e ! k" "e ! k \<noteq> 0"
      using assms(1) True by (auto simp: c_string_def nth_append dest: nth_mem)
    have "arr_set ?o (int (8 + k)) (upper (e ! k)) = Inr (o8 @ map upper (take (Suc k) e) @ replicate (3 - Suc k) 32)"
      using True Suc assms(2) pad_grow [of k e 3] by (subst arr_set_nat) (simp_all add: list_update_append)
    then show ?thesis
      using True k Suc f Suc.hyps(1) [of "Suc k"] by (subst dos_extension.simps) simp
  next
    case False
    then have "k = length e" using Suc.prems by simp
    moreover from this have "f (length us + k) = 0" using assms(1) by (simp add: c_string_def)
    ultimately show ?thesis using k by (subst dos_extension.simps) (simp add: pad_def)
  qed
qed

lemma to_dos_filename_eq:
  assumes "c_string f xs" "length out = 11"
  shows "to_dos_filename f out = Inr (dos_8_3 xs)"
proof -
  define b where "b = takeWhile (\<lambda>c. c \<noteq> 46) xs"
  let ?o = "map upper (take 8 b) @ replicate (11 - min 8 (length b)) 32"
  have ms: "memset_arr out 0 32 11 = Inr (replicate 11 32)"
    using memset_arr_eq [of 0 11 out 32] assms(2) by simp
  have np: "dos_name_part f 0 (replicate 11 32) 0 = Inr (min 8 (length b), ?o)"
    using dos_name_part_spec [OF assms(1) b_def, of 0] by simp
  have fd: "find_dot f (min 8 (length b)) = Some (length b)" by (rule find_dot_spec [OF assms(1) b_def]) simp
  have o: "?o = pad 8 b @ replicate 3 32"
    by (simp add: pad_def replicate_add [symmetric] min_def)
  show ?thesis
  proof (cases "length b < length xs")
    case True
    from nth_length_takeWhile [of "\<lambda>c. c \<noteq> 46" xs] True have n: "xs ! length b = 46" by (simp add: b_def)
    then have dot: "f (length b) = 46" using assms(1) True by (simp add: c_string_def)
    have dw: "dropWhile (\<lambda>c. c \<noteq> 46) xs = 46 # drop (Suc (length b)) xs"
      using n Cons_nth_drop_Suc [OF True] by (simp add: dropWhile_eq_drop b_def [symmetric])
    let ?us = "take (Suc (length b)) xs" and ?e = "drop (Suc (length b)) xs"
    have l: "length ?us = Suc (length b)" using True by simp
    have "dos_extension f (Suc (length b)) (pad 8 b @ replicate 3 32) 8 = Inr (pad 8 b @ pad 3 ?e)"
      using dos_extension_spec [of f ?us ?e "pad 8 b" 0] assms(1) l by simp
    then show ?thesis
      by (simp add: to_dos_filename_def ms np fd dot o dos_8_3_def dw b_def [symmetric])
  next
    case False
    then have bl: "length b = length xs" unfolding b_def by (metis length_takeWhile_le le_neq_implies_less)
    then have f0: "f (length b) = 0" using assms(1) by (simp add: c_string_def)
    have dw: "dropWhile (\<lambda>c. c \<noteq> 46) xs = []" by (simp only: dropWhile_eq_drop b_def [symmetric] bl) simp
    have p0: "pad 3 [] = replicate 3 32" by (simp add: pad_def)
    show ?thesis
      by (simp add: to_dos_filename_def ms np fd f0 o dos_8_3_def dw p0 b_def [symmetric])
  qed
qed

section \<open>The directory as a list of entries\<close>

definition entries_of :: "u8 list \<Rightarrow> u8 list list" where
  "entries_of b = map (\<lambda>i. take 32 (drop (32 * i) b)) [0..<16]"

definition root_entries_from :: "('d \<Rightarrow> pc) \<Rightarrow> nat \<Rightarrow> nat \<Rightarrow> ('d, 'z) fs_scheme \<Rightarrow> u8 list list" where
  "root_entries_from view k n s =
     concat (map (\<lambda>k. entries_of (disk_content view s (sector_index (root_start (mount_info s) + of_nat k)))) [k..<n])"

definition directory :: "('d \<Rightarrow> pc) \<Rightarrow> ('d, 'z) fs_scheme \<Rightarrow> u8 list list" where
  "directory view s = root_entries_from view 0 (unat (root_size (mount_info s))) s"

text \<open>The first entry of that name before the end mark.\<close>

definition dir_lookup :: "u8 list \<Rightarrow> u8 list list \<Rightarrow> u8 list option" where
  "dir_lookup name es = find (\<lambda>e. take 11 e = name) (takeWhile (\<lambda>e. e ! 0 \<noteq> 0) es)"

lemma dir_lookup_simps [simp]:
  "dir_lookup name [] = None"
  "dir_lookup name (e # es) = (if e ! 0 = 0 then None else if take 11 e = name then Some e else dir_lookup name es)"
  by (simp_all add: dir_lookup_def)

lemma sint_u8: "sint (c :: u8) \<noteq> 0xE5"
  using sint_lt [of c] by simp

lemma entry_parts:
  assumes "length b = 512" "i < 16"
  shows "ent_filename b i ! 0 = take 32 (drop (32 * i) b) ! 0" "take 11 (ent_filename b i) = take 11 (take 32 (drop (32 * i) b))"
    "32 \<le> length (ent_filename b i)"
  using assms by (simp_all add: ent_filename_def)

text \<open>Scanning one sector and then \<open>rest\<close> is a lookup in the entries of both.\<close>

lemma scan_entries_spec:
  assumes "length b = 512" "length name = 11" "i \<le> 16"
  shows "\<exists>r. scan_entries b name i = Inr r \<and>
    (case r of
       Found j \<Rightarrow> j < 16 \<and> dir_lookup name (map (\<lambda>i. take 32 (drop (32 * i) b)) [i..<16] @ rest) = Some (take 32 (drop (32 * j) b))
     | Ended \<Rightarrow> dir_lookup name (map (\<lambda>i. take 32 (drop (32 * i) b)) [i..<16] @ rest) = None
     | Next_sector \<Rightarrow> dir_lookup name (map (\<lambda>i. take 32 (drop (32 * i) b)) [i..<16] @ rest) = dir_lookup name rest)"
  using assms(3)
proof (induction "16 - i" arbitrary: i)
  case 0
  then have "i = 16" by simp
  then show ?case by (simp add: scan_entries.simps)
next
  case (Suc m)
  then have i: "i < 16" "m = 16 - Suc i" by simp_all
  note e = entry_parts [OF assms(1) i(1)]
  obtain c where c: "memcmp (ent_filename b i) name 11 0 = Inr c" "c = 0 \<longleftrightarrow> take 11 (ent_filename b i) = name"
    using memcmp_eq [of 11 "ent_filename b i" name] e(3) assms(2) by auto
  obtain r where "scan_entries b name (Suc i) = Inr r"
    "case r of
       Found j \<Rightarrow> j < 16 \<and> dir_lookup name (map (\<lambda>i. take 32 (drop (32 * i) b)) [Suc i..<16] @ rest) = Some (take 32 (drop (32 * j) b))
     | Ended \<Rightarrow> dir_lookup name (map (\<lambda>i. take 32 (drop (32 * i) b)) [Suc i..<16] @ rest) = None
     | Next_sector \<Rightarrow> dir_lookup name (map (\<lambda>i. take 32 (drop (32 * i) b)) [Suc i..<16] @ rest) = dir_lookup name rest"
    using Suc.hyps(1) [OF i(2)] i by auto
  moreover have "[i..<16] = i # [Suc i..<16]" using i by (simp only: upt_conv_Cons)
  then have "dir_lookup name (map (\<lambda>i. take 32 (drop (32 * i) b)) [i..<16] @ rest)
      = (if ent_filename b i ! 0 = 0 then None else if c = 0 then Some (take 32 (drop (32 * i) b))
         else dir_lookup name (map (\<lambda>i. take 32 (drop (32 * i) b)) [Suc i..<16] @ rest))"
    using e c(2) by (simp del: upt_rec_numeral)
  ultimately show ?case
    using i c(1) by (subst scan_entries.simps) (cases r; simp add: sint_u8 del: upt_rec_numeral)
qed

lemma root_entries_Suc:
  "k < n \<Longrightarrow> root_entries_from view k n s
    = entries_of (disk_content view s (sector_index (root_start (mount_info s) + of_nat k))) @ root_entries_from view (Suc k) n s"
  by (simp add: root_entries_from_def upt_conv_Cons)

lemma root_entries_io:
  "io_only s s' \<Longrightarrow> disk_content view s' = disk_content view s \<Longrightarrow> root_entries_from view k n s' = root_entries_from view k n s"
  by (simp add: root_entries_from_def io_only_fields)

text \<open>The search of \<open>fat12_open\<close>, up to the entry it finds.\<close>

lemma open_from_spec:
  fixes s :: "('d, 'z) fs_scheme"
  assumes "fs_ok bus view s" "length name = 11"
  shows "\<exists>s'. io_only s s' \<and> fs_ok bus view s' \<and> disk_content view s' = disk_content view s \<and>
    (case dir_lookup name (root_entries_from view k n s) of
       None \<Rightarrow> open_from bus filename name k n s = Inr (0, s')
     | Some e \<Rightarrow> \<exists>i < 16. open_from bus filename name k n s = open_entry bus filename i s' \<and>
         take 32 (drop (32 * i) (sector_buffer s')) = e)"
  using assms(1)
proof (induction "n - k" arbitrary: k s)
  case 0
  then show ?case by (intro exI [of _ s]) (simp add: open_from.simps root_entries_from_def)
next
  case (Suc m)
  then have k: "k < n" "m = n - Suc k" by simp_all
  let ?b = "disk_content view s (sector_index (root_start (mount_info s) + of_nat k))"
  obtain s1 where s1: "load_sector bus (root_start (mount_info s) + of_nat k) s = Inr ((), s1)" "io_only s s1"
    "fs_ok bus view s1" "disk_content view s1 = disk_content view s" "sector_buffer s1 = ?b"
    using load_sector_spec [OF Suc.prems] by blast
  have len: "length ?b = 512" by (rule fs_ok_content [OF Suc.prems])
  obtain r where r: "scan_entries ?b name 0 = Inr r"
    "case r of
       Found j \<Rightarrow> j < 16 \<and> dir_lookup name (root_entries_from view k n s) = Some (take 32 (drop (32 * j) ?b))
     | Ended \<Rightarrow> dir_lookup name (root_entries_from view k n s) = None
     | Next_sector \<Rightarrow> dir_lookup name (root_entries_from view k n s) = dir_lookup name (root_entries_from view (Suc k) n s)"
    using scan_entries_spec [OF len assms(2), of 0 "root_entries_from view (Suc k) n s"]
    unfolding root_entries_Suc [OF k(1)] entries_of_def by auto
  have st: "open_from bus filename name k n s = (case r of Found i \<Rightarrow> open_entry bus filename i s1 | Ended \<Rightarrow> Inr (0, s1)
      | Next_sector \<Rightarrow> open_from bus filename name (Suc k) n s1)"
    using k(1) r(1) s1(1,5) by (subst open_from.simps) simp
  show ?case
  proof (cases r)
    case (Found i)
    with r(2) s1 st show ?thesis by (intro exI [of _ s1]) (auto intro!: exI [of _ i])
  next
    case Ended
    with r(2) s1 st show ?thesis by (intro exI [of _ s1]) simp
  next
    case Next_sector
    have "root_entries_from view (Suc k) n s1 = root_entries_from view (Suc k) n s"
      using s1(2,4) by (rule root_entries_io)
    moreover obtain s' where "io_only s1 s'" "fs_ok bus view s'" "disk_content view s' = disk_content view s1"
      "case dir_lookup name (root_entries_from view (Suc k) n s1) of
         None \<Rightarrow> open_from bus filename name (Suc k) n s1 = Inr (0, s')
       | Some e \<Rightarrow> \<exists>i < 16. open_from bus filename name (Suc k) n s1 = open_entry bus filename i s' \<and>
           take 32 (drop (32 * i) (sector_buffer s')) = e"
      using Suc.hyps(1) [OF k(2) s1(3)] by blast
    moreover have "open_from bus filename name k n s = open_from bus filename name (Suc k) n s1"
      using st Next_sector by simp
    ultimately show ?thesis
      using Next_sector r(2) s1(4) io_only_trans [OF s1(2)]
      by (intro exI [of _ s']) (simp split: option.splits)
  qed
qed

lemma bytes16: "ucast (ucast v :: u8) OR push_bit 8 (ucast (ucast (drop_bit 8 v) :: u8)) = (v :: u16)"
  using rd16_wr16_same [of "\<lambda>_. 0" 0 v] by (simp add: rd16_def wr16_def)

lemma bytes32:
  "ucast (ucast v :: u8) OR push_bit 8 (ucast (ucast (drop_bit 8 v) :: u8)) OR push_bit 16 (ucast (ucast (drop_bit 16 v) :: u8))
     OR push_bit 24 (ucast (ucast (drop_bit 24 v) :: u8)) = (v :: u32)"
  using rd32_wr32_same [of "\<lambda>_. 0" 0 v] by (simp add: rd32_def wr32_def)

text \<open>A handle: the fields of an open file at address \<open>f\<close>.\<close>

definition handle :: "u32 \<Rightarrow> u16 \<Rightarrow> u16 \<Rightarrow> u32 \<Rightarrow> u32 \<Rightarrow> u32 \<Rightarrow> 'a pmm_scheme \<Rightarrow> bool" where
  "handle f first cur sz pos eof s \<longleftrightarrow> file_first_cluster f s = first \<and> file_current_cluster f s = cur \<and>
     file_file_size f s = sz \<and> file_position f s = pos \<and> file_eof f s = eof"

lemma open_entry_spec:
  fixes s :: "('d, 'z) fs_scheme"
  assumes "fs_ok bus view s"
  shows "\<exists>s1. io_only s s1 \<and> fs_ok bus view s1 \<and> disk_content view s1 = disk_content view s \<and>
    (case vmmngr_alloc_page s1 of (f, s2) \<Rightarrow>
      if f = 0 then open_entry bus filename i s = Inr (0, s2)
      else \<exists>m. open_entry bus filename i s = Inr (f, s2\<lparr>mem := m\<rparr>) \<and>
        (\<forall>x. \<not> in_range f 276 x \<longrightarrow> m x = mem s2 x) \<and> rd_bytes m f 256 = map filename [0..<256] \<and>
        handle f (ent_first_cluster (sector_buffer s) i) (ent_first_cluster (sector_buffer s) i)
          (ent_file_size (sector_buffer s) i) 0 0 (s2\<lparr>mem := m\<rparr>))"
proof -
  obtain s1 where s1: "pr bus KERN_DEBUG ''FS'' ''FILE FOUND\<newline>'' [] s = Inr ((), s1)" "io_only s s1" "fs_ok bus view s1"
    "disk_content view s1 = disk_content view s" "sector_buffer s1 = sector_buffer s"
    using fs_pr [OF assms, of "''FILE FOUND\<newline>''" "[]" "''FS''"] by (auto simp: cs_def)
  obtain f s2 where a: "vmmngr_alloc_page s1 = (f, s2)" by force
  have b: "sector_buffer s2 = sector_buffer s"
    using fs_fields_more(2) [OF alloc_page_more [of s1]] by (simp add: a s1(5))
  let ?c = "ent_first_cluster (sector_buffer s) i" and ?sz = "ent_file_size (sector_buffer s) i"
  let ?w = "wr_bytes (mem s2) f (map filename [0..<256])"
  let ?m = "wr32 ((wr32 (wr32 (wr16 (wr16 ?w (f + 256) ?c) (f + 258) ?c) (f + 260) ?sz) (f + 264) 0)
      (f + 268 := ent_attributes (sector_buffer s) i)) (f + 272) 0"
  have "if f = 0 then open_entry bus filename i s = Inr (0, s2)
    else \<exists>m. open_entry bus filename i s = Inr (f, s2\<lparr>mem := m\<rparr>) \<and>
        (\<forall>x. \<not> in_range f 276 x \<longrightarrow> m x = mem s2 x) \<and> rd_bytes m f 256 = map filename [0..<256] \<and>
        handle f ?c ?c ?sz 0 0 (s2\<lparr>mem := m\<rparr>)"
  proof (cases "f = 0")
    case True
    then show ?thesis by (simp add: open_entry_def s1(1) a)
  next
    case False
    then have "open_entry bus filename i s = Inr (f, s2\<lparr>mem := ?m\<rparr>)"
      by (simp add: open_entry_def s1(1) a b Let_def)
    moreover have "?m x = mem s2 x" if "\<not> in_range f 276 x" for x
    proof -
      have "x \<noteq> f + k" if "unat k < 276" for k using in_range_offset [OF that] \<open>\<not> in_range f 276 x\<close> by auto
      moreover have "\<not> in_range f (length (map filename [0..<256])) x" using that by (simp add: in_range_def)
      ultimately show ?thesis by (simp add: wr32_def wr16_def wr_bytes_outside add.assoc)
    qed
    moreover have "rd_bytes ?m f 256 = rd_bytes ?w f 256"
    proof (rule rd_bytes_cong)
      fix x assume "in_range f 256 x"
      then have "x \<noteq> f + k" if "256 \<le> unat k" for k using that by (auto simp: in_range_def)
      then show "?m x = ?w x" by (simp add: wr32_def wr16_def add.assoc)
    qed simp
    moreover have "handle f ?c ?c ?sz 0 0 (s2\<lparr>mem := ?m\<rparr>)"
      by (simp add: handle_def file_first_cluster_def file_current_cluster_def file_file_size_def file_position_def
          file_eof_def rd16_def rd32_def wr16_def wr32_def add.assoc bytes16 bytes32)
    moreover have "rd_bytes ?w f 256 = map filename [0..<256]"
      using rd_bytes_wr_bytes [of "map filename [0..<256]" "mem s2" f]
      by (simp only: length_map length_upt diff_zero) simp
    ultimately show ?thesis unfolding if_not_P [OF False] by (intro exI [of _ ?m]) simp
  qed
  with s1 a show ?thesis by (intro exI [of _ s1]) simp
qed

end
