(* ===== verification/Create.thy ===== *)
theory Create
  imports Dir
begin

text \<open>
  What opening and creating a file do to the abstract directory (the list of 32-byte entries on
  disk) and to the cluster table.
\<close>

section \<open>Opening\<close>

lemma entry_fields:
  assumes "length b = 512" "i < 16" "take 32 (drop (32 * i) b) = e"
  shows "ent_first_cluster b i = buf16 e 26" "ent_file_size b i = buf32 e 28"
  using assms(1,2) by (simp_all add: ent_first_cluster_def ent_file_size_def buf16_def buf32_def assms(3) [symmetric] add.commute)

lemma fs_ok_buffer: "fs_ok bus view s \<Longrightarrow> length (sector_buffer s) = 512"
  by (simp add: fs_ok_def)

lemma fat12_open_spec:
  fixes s :: "('d, 'z) fs_scheme"
  assumes "fs_ok bus view s" "c_string filename xs"
  shows "\<exists>s1. io_only s s1 \<and> fs_ok bus view s1 \<and> disk_content view s1 = disk_content view s \<and>
    (case dir_lookup (dos_8_3 xs) (directory view s) of
       None \<Rightarrow> fat12_open bus filename s = Inr (0, s1)
     | Some e \<Rightarrow>
         (case vmmngr_alloc_page s1 of (f, s2) \<Rightarrow>
            if f = 0 then fat12_open bus filename s = Inr (0, s2)
            else \<exists>m. fat12_open bus filename s = Inr (f, s2\<lparr>mem := m\<rparr>) \<and>
              (\<forall>x. \<not> in_range f 276 x \<longrightarrow> m x = mem s2 x) \<and> rd_bytes m f 256 = map filename [0..<256] \<and>
              handle f (buf16 e 26) (buf16 e 26) (buf32 e 28) 0 0 (s2\<lparr>mem := m\<rparr>)))"
proof -
  let ?r = "dir_lookup (dos_8_3 xs) (directory view s)"
  have o: "fat12_open bus filename s = open_from bus filename (dos_8_3 xs) 0 (unat (root_size (mount_info s))) s"
    using to_dos_filename_eq [OF assms(2)] by (simp add: fat12_open_def)
  obtain s1 where s1: "io_only s s1" "fs_ok bus view s1" "disk_content view s1 = disk_content view s"
    "case ?r of None \<Rightarrow> fat12_open bus filename s = Inr (0, s1)
     | Some e \<Rightarrow> \<exists>i < 16. fat12_open bus filename s = open_entry bus filename i s1 \<and>
         take 32 (drop (32 * i) (sector_buffer s1)) = e"
    using open_from_spec [OF assms(1) dos_8_3_length] unfolding o directory_def by blast
  show ?thesis
  proof (cases ?r)
    case None
    with s1 show ?thesis by (intro exI [of _ s1]) simp
  next
    case (Some e)
    with s1(4) obtain i where i: "i < 16" "fat12_open bus filename s = open_entry bus filename i s1"
      "take 32 (drop (32 * i) (sector_buffer s1)) = e" by auto
    note e = entry_fields [OF fs_ok_buffer [OF s1(2)] i(1,3)]
    obtain s2 where "io_only s1 s2" "fs_ok bus view s2" "disk_content view s2 = disk_content view s1"
      "case vmmngr_alloc_page s2 of (f, s3) \<Rightarrow>
        if f = 0 then fat12_open bus filename s = Inr (0, s3)
        else \<exists>m. fat12_open bus filename s = Inr (f, s3\<lparr>mem := m\<rparr>) \<and>
          (\<forall>x. \<not> in_range f 276 x \<longrightarrow> m x = mem s3 x) \<and> rd_bytes m f 256 = map filename [0..<256] \<and>
          handle f (buf16 e 26) (buf16 e 26) (buf32 e 28) 0 0 (s3\<lparr>mem := m\<rparr>)"
      using open_entry_spec [OF s1(2), of filename i] unfolding e i(2) [symmetric] by (elim exE conjE) (rule that)
    with s1(1,3) show ?thesis by (intro exI [of _ s2]) (simp add: Some io_only_trans [OF s1(1)])
  qed
qed

section \<open>A free directory entry\<close>

lemma free_entry_index_eq: "free_entry_index b i = find (\<lambda>k. ent_filename b k ! 0 = 0) [i..<16]"
proof (induction "16 - i" arbitrary: i)
  case 0
  then show ?case by (simp add: free_entry_index.simps)
next
  case (Suc m)
  then have "i < 16" "m = 16 - Suc i" by simp_all
  with Suc.hyps(1) [of "Suc i"] show ?case
    by (subst free_entry_index.simps, subst upt_conv_Cons) (simp_all add: sint_u8 del: upt_rec_numeral)
qed

lemma entries_of_length [simp]: "length (entries_of b) = 16"
  by (simp add: entries_of_def)

lemma entries_of_nth: "i < 16 \<Longrightarrow> entries_of b ! i = take 32 (drop (32 * i) b)"
  by (simp add: entries_of_def del: upt_rec_numeral)

lemma free_entry_index_spec:
  assumes "length b = 512"
  shows "case free_entry_index b 0 of
      None \<Rightarrow> \<forall>e \<in> set (entries_of b). e ! 0 \<noteq> 0
    | Some i \<Rightarrow> i < 16 \<and> (entries_of b ! i) ! 0 = 0 \<and> (\<forall>e \<in> set (take i (entries_of b)). e ! 0 \<noteq> 0)"
proof -
  have "ent_filename b k ! 0 = (entries_of b ! k) ! 0" if "k < 16" for k
    using entry_parts(1) [OF assms that] that by (simp add: entries_of_nth)
  with find_upt [where P = "\<lambda>k. ent_filename b k ! 0 = 0" and a = 0 and n = 16] show ?thesis
    unfolding free_entry_index_eq
    by (auto simp: in_set_conv_nth Ball_def simp del: upt_rec_numeral split: option.splits)
qed

text \<open>The first entry whose first byte is 0; \<open>pre\<close> is what comes before it.\<close>

lemma free_entry_from_spec:
  fixes s :: "('d, 'z) fs_scheme"
  assumes "fs_ok bus view s"
  shows "\<exists>r s'. free_entry_from bus k n s = Inr (r, s') \<and> io_only s s' \<and> fs_ok bus view s' \<and>
    disk_content view s' = disk_content view s \<and>
    (case r of
       None \<Rightarrow> \<forall>e \<in> set (root_entries_from view k n s). e ! 0 \<noteq> 0
     | Some (j, i) \<Rightarrow> k \<le> j \<and> j < n \<and> i < 16 \<and> (\<exists>pre e post. root_entries_from view k n s = pre @ e # post \<and>
         length pre = 16 * (j - k) + i \<and> e ! 0 = 0 \<and> (\<forall>e \<in> set pre. e ! 0 \<noteq> 0)))"
  using assms
proof (induction "n - k" arbitrary: k s)
  case 0
  then show ?case by (intro exI [of _ None] exI [of _ s]) (simp add: free_entry_from.simps root_entries_from_def)
next
  case (Suc m)
  then have k: "k < n" "m = n - Suc k" by simp_all
  let ?b = "disk_content view s (sector_index (root_start (mount_info s) + of_nat k))"
  obtain s1 where s1: "load_sector bus (root_start (mount_info s) + of_nat k) s = Inr ((), s1)" "io_only s s1"
    "fs_ok bus view s1" "disk_content view s1 = disk_content view s" "sector_buffer s1 = ?b"
    using load_sector_spec [OF Suc.prems] by blast
  have len: "length ?b = 512" by (rule fs_ok_content [OF Suc.prems])
  note f = free_entry_index_spec [OF len]
  show ?case
  proof (cases "free_entry_index ?b 0")
    case (Some i)
    then have st: "free_entry_from bus k n s = Inr (Some (k, i), s1)"
      using k s1(1,5) by (subst free_entry_from.simps) simp
    have i: "i < 16" "(entries_of ?b ! i) ! 0 = 0" "\<forall>e \<in> set (take i (entries_of ?b)). e ! 0 \<noteq> 0"
      using f by (simp_all add: Some)
    have "root_entries_from view k n s = take i (entries_of ?b) @ entries_of ?b ! i #
        (drop (Suc i) (entries_of ?b) @ root_entries_from view (Suc k) n s)"
      using i(1) by (simp add: root_entries_Suc [OF k(1)] id_take_nth_drop [symmetric])
    with i k st s1 show ?thesis
      by (intro exI [of _ "Some (k, i)"] exI [of _ s1]) (auto intro!: exI [of _ "take i (entries_of ?b)"])
  next
    case None
    obtain r s' where r: "free_entry_from bus (Suc k) n s1 = Inr (r, s')" "io_only s1 s'" "fs_ok bus view s'"
      "disk_content view s' = disk_content view s1"
      "case r of
         None \<Rightarrow> \<forall>e \<in> set (root_entries_from view (Suc k) n s1). e ! 0 \<noteq> 0
       | Some (j, i) \<Rightarrow> Suc k \<le> j \<and> j < n \<and> i < 16 \<and> (\<exists>pre e post. root_entries_from view (Suc k) n s1 = pre @ e # post \<and>
           length pre = 16 * (j - Suc k) + i \<and> e ! 0 = 0 \<and> (\<forall>e \<in> set pre. e ! 0 \<noteq> 0))"
      using Suc.hyps(1) [OF k(2) s1(3)] by blast
    have st: "free_entry_from bus k n s = Inr (r, s')"
      using k None s1(1,5) r(1) by (subst free_entry_from.simps) simp
    have d: "root_entries_from view k n s = entries_of ?b @ root_entries_from view (Suc k) n s1"
      using root_entries_io [OF s1(2,4)] by (simp add: root_entries_Suc [OF k(1)])
    have b: "\<forall>e \<in> set (entries_of ?b). e ! 0 \<noteq> 0" using f by (simp add: None)
    have "case r of
         None \<Rightarrow> \<forall>e \<in> set (root_entries_from view k n s). e ! 0 \<noteq> 0
       | Some (j, i) \<Rightarrow> k \<le> j \<and> j < n \<and> i < 16 \<and> (\<exists>pre e post. root_entries_from view k n s = pre @ e # post \<and>
           length pre = 16 * (j - k) + i \<and> e ! 0 = 0 \<and> (\<forall>e \<in> set pre. e ! 0 \<noteq> 0))"
    proof (cases r)
      case None
      with r(5) b show ?thesis by (auto simp: d)
    next
      case (Some p)
      obtain j i where p: "p = (j, i)" by force
      from r(5) Some p obtain pre e post where q: "Suc k \<le> j" "j < n" "i < 16" "root_entries_from view (Suc k) n s1 = pre @ e # post"
        "length pre = 16 * (j - Suc k) + i" "e ! 0 = 0" "\<forall>e \<in> set pre. e ! 0 \<noteq> 0" by auto
      have "length (entries_of ?b @ pre) = 16 * (j - k) + i" using q(1,5) by simp
      with q b show ?thesis unfolding Some p d by (auto intro!: exI [of _ "entries_of ?b @ pre"])
    qed
    with st r s1 show ?thesis by (intro exI [of _ r] exI [of _ s']) (auto intro: io_only_trans)
  qed
qed

section \<open>Clusters for a new file\<close>

lemma find_free_cluster_cong:
  "(\<And>c. get_next_cluster c s' = get_next_cluster c s) \<Longrightarrow> find_free_cluster s' = find_free_cluster s"
  by (simp add: find_free_cluster_def free_cluster_from_eq)

text \<open>In memory, only the two bytes of a cluster's entry change.\<close>

definition entry_frame :: "u16 \<Rightarrow> ('d, 'z) fs_scheme \<Rightarrow> memory \<Rightarrow> bool" where
  "entry_frame c s m \<longleftrightarrow> (\<forall>x. \<not> in_range (fat_buffer (mount_info s) + fat_offset c) 2 x \<longrightarrow> m x = mem s x)"

lemma set_cluster_value_mem: "\<exists>m. set_cluster_value c v s = s\<lparr>mem := m\<rparr> \<and> entry_frame c s m"
  by (auto simp: set_cluster_value_def Let_def entry_frame_def wr16_outside)

lemma entry_frame_trans: "entry_frame c s m \<Longrightarrow> entry_frame c (s\<lparr>mem := m\<rparr>) m' \<Longrightarrow> entry_frame c s m'"
  by (simp add: entry_frame_def)

lemma entry_frame_refl: "entry_frame c s (mem s)"
  by (simp add: entry_frame_def)

text \<open>
  Every round of the loop finds the same cluster again: its entry is 0 (free) until the last round
  marks the end of the file.
\<close>

lemma alloc_clusters_from:
  assumes "i < n" "find_free_cluster s = c" "c \<noteq> 0" "get_next_cluster c s = 0" "0 < i \<longrightarrow> first = c \<and> prev = c"
  shows "\<exists>m. alloc_clusters i n first prev s = (Some c, s\<lparr>mem := m\<rparr>) \<and> entry_frame c s m \<and>
    (\<forall>d. get_next_cluster d (s\<lparr>mem := m\<rparr>) = (if d = c then FAT12_EOF else get_next_cluster d s))"
  using assms
proof (induction "n - i" arbitrary: i s first prev)
  case 0
  then show ?case by simp
next
  case (Suc k)
  then have k: "k = n - Suc i" by simp
  define s1 where "s1 = (if i = 0 then s else set_cluster_value prev c s)"
  define s2 where "s2 = set_cluster_value c (if i = n - 1 then FAT12_EOF else 0) s1"
  have st: "alloc_clusters i n first prev s = alloc_clusters (Suc i) n c c s2"
    using Suc.prems by (subst alloc_clusters.simps) (auto simp: Let_def s1_def s2_def)
  have g: "get_next_cluster d s2 = (if d = c then if i = n - 1 then FAT12_EOF else 0 else get_next_cluster d s)" for d
    using Suc.prems(5) by (simp add: s1_def s2_def get_set_cluster)
  obtain m1 where m1: "s1 = s\<lparr>mem := m1\<rparr>" "entry_frame c s m1"
  proof (cases "i = 0")
    case True
    then show ?thesis using that [of "mem s"] by (simp add: s1_def entry_frame_refl)
  next
    case False
    then show ?thesis using that set_cluster_value_mem [of prev c s] Suc.prems(5) by (auto simp: s1_def)
  qed
  then obtain m2 where m2: "s2 = s\<lparr>mem := m2\<rparr>" "entry_frame c s m2"
    using set_cluster_value_mem [of c "if i = n - 1 then FAT12_EOF else 0" s1] entry_frame_trans [OF m1(2)]
    by (auto simp: s2_def)
  show ?case
  proof (cases "Suc i < n")
    case False
    with Suc.prems(1) have "i = n - 1" by simp
    moreover have "alloc_clusters (Suc i) n c c s2 = (Some c, s2)"
      using False by (subst alloc_clusters.simps) simp
    ultimately show ?thesis using st g m2 by (intro exI [of _ m2]) auto
  next
    case True
    then have "get_next_cluster d s2 = get_next_cluster d s" for d using g Suc.prems(4) by auto
    then have "find_free_cluster s2 = c" "get_next_cluster c s2 = 0"
      using Suc.prems(2,4) find_free_cluster_cong by auto
    then obtain m where "alloc_clusters (Suc i) n c c s2 = (Some c, s2\<lparr>mem := m\<rparr>)" "entry_frame c s2 m"
      "\<forall>d. get_next_cluster d (s2\<lparr>mem := m\<rparr>) = (if d = c then FAT12_EOF else get_next_cluster d s2)"
      using Suc.hyps(1) [of "Suc i" s2 c c] k True Suc.prems(3) by blast
    with st m2 entry_frame_trans [OF m2(2)] \<open>\<And>d. get_next_cluster d s2 = get_next_cluster d s\<close> show ?thesis
      by (intro exI [of _ m]) simp
  qed
qed

lemma find_free_cluster_free: "find_free_cluster s \<noteq> 0 \<Longrightarrow> get_next_cluster (find_free_cluster s) s = 0"
  using find_upt [where P = "\<lambda>c. get_next_cluster (of_nat c) s = 0" and a = 2 and n = 4084]
  by (auto simp: find_free_cluster_def free_cluster_from_eq simp del: upt_rec_numeral split: option.splits)

lemma find_free_cluster_range: "find_free_cluster s \<noteq> 0 \<Longrightarrow> 2 \<le> unat (find_free_cluster s) \<and> unat (find_free_cluster s) < 4084"
  using find_upt [where P = "\<lambda>c. get_next_cluster (of_nat c) s = 0" and a = 2 and n = 4084]
  by (auto simp: find_free_cluster_def free_cluster_from_eq unat_of_nat take_bit_nat_eq_self
      simp del: upt_rec_numeral split: option.splits)

section \<open>Writing the entry\<close>

definition new_entry :: "u8 list \<Rightarrow> u16 \<Rightarrow> u32 \<Rightarrow> u8 list \<Rightarrow> u8 list" where
  "new_entry name cluster sz e = name @ ATTR_ARCHIVE # take 14 (drop 12 e) @ [ucast cluster, ucast (drop_bit 8 cluster),
     ucast sz, ucast (drop_bit 8 sz), ucast (drop_bit 16 sz), ucast (drop_bit 24 sz)]"

lemma new_entry_length: "length name = 11 \<Longrightarrow> length e = 32 \<Longrightarrow> length (new_entry name c sz e) = 32"
  by (simp add: new_entry_def)

lemma new_entry_fields:
  assumes "length name = 11" "length e = 32"
  shows "take 11 (new_entry name c sz e) = name" "new_entry name c sz e ! 0 = name ! 0"
    "buf16 (new_entry name c sz e) 26 = c" "buf32 (new_entry name c sz e) 28 = sz"
  using assms bytes16 [of c] bytes32 [of sz] by (simp_all add: new_entry_def buf16_def buf32_def nth_append)

lemma length_6: "length v = 6 \<Longrightarrow> \<exists>v1 v2 v3 v4 v5 v6. v = [v1, v2, v3, v4, v5, v6]"
  by (auto simp: numeral_eq_Suc length_Suc_conv)

lemma split_entry:
  assumes "length (e :: u8 list) = 32"
  obtains v1 v2 v3 v4 v5 v6 where "drop 11 e = e ! 11 # take 14 (drop 12 e) @ [v1, v2, v3, v4, v5, v6]"
proof -
  have "length (drop 26 e) = 6" using assms by simp
  then obtain v1 v2 v3 v4 v5 v6 where v: "drop 26 e = [v1, v2, v3, v4, v5, v6]"
    using length_6 by blast
  have "drop 11 e = e ! 11 # drop 12 e" using Cons_nth_drop_Suc [of 11 e] assms by simp
  moreover have "drop 12 e = take 14 (drop 12 e) @ drop 26 e"
    using append_take_drop_id [of 14 "drop 12 e"] by simp
  ultimately show thesis using that v by metis
qed

lemma put_entry_eq:
  assumes "length b = 512" "i < 16" "length name = 11"
  shows "put_entry i name c sz b
    = Inr (take (32 * i) b @ new_entry name c sz (take 32 (drop (32 * i) b)) @ drop (32 * i + 32) b)"
proof -
  define p e q where "p = take (32 * i) b" and "e = take 32 (drop (32 * i) b)" and "q = drop (32 * i + 32) b"
  have l: "length p = 32 * i" "length e = 32" using assms by (simp_all add: p_def e_def)
  have b: "b = p @ e @ q" unfolding p_def e_def q_def by (metis append_take_drop_id drop_drop add.commute)
  obtain v1 v2 v3 v4 v5 v6 where v: "drop 11 e = e ! 11 # take 14 (drop 12 e) @ [v1, v2, v3, v4, v5, v6]"
    by (rule split_entry [OF l(2)])
  have "memcpy b (int (32 * i)) name 0 11 0 = Inr (p @ name @ drop (32 * i + 11) b)"
    using memcpy_eq [of 0 11 name "32 * i" b] assms by (simp add: p_def)
  moreover have "drop (32 * i + 11) b = drop 11 e @ q" by (simp add: b l)
  ultimately show ?thesis
    unfolding p_def [symmetric] e_def [symmetric] q_def [symmetric]
    using assms l by (simp add: put_entry_def put32_def put16_def new_entry_def v list_update_append)
qed

lemma entries_of_put:
  assumes "length b = 512" "i < 16" "length e = 32"
  shows "entries_of (take (32 * i) b @ e @ drop (32 * i + 32) b) = (entries_of b)[i := e]"
proof (rule nth_equalityI)
  fix j assume "j < length (entries_of (take (32 * i) b @ e @ drop (32 * i + 32) b))"
  then have j: "j < 16" by simp
  consider "j < i" | "j = i" | "i < j" by linarith
  then show "entries_of (take (32 * i) b @ e @ drop (32 * i + 32) b) ! j = (entries_of b)[i := e] ! j"
  proof cases
    case 1
    then have "32 * j + 32 \<le> 32 * i" by simp
    then have "take 32 (drop (32 * j) (take (32 * i) b @ e @ drop (32 * i + 32) b)) = take 32 (drop (32 * j) b)"
      using assms by (simp add: drop_take)
    with 1 j show ?thesis by (simp add: entries_of_nth)
  next
    case 2
    with assms j show ?thesis by (simp add: entries_of_nth)
  next
    case 3
    then have "32 * i + 32 \<le> 32 * j" by simp
    then have "drop (32 * j) (take (32 * i) b @ e @ drop (32 * i + 32) b) = drop (32 * j) b"
      using assms by simp
    with 3 j show ?thesis by (simp add: entries_of_nth)
  qed
qed simp

lemma concat_uniform:
  assumes "\<forall>xs \<in> set xss. length xs = d"
  shows "length (concat xss) = d * length xss" "k < length xss \<Longrightarrow> i < d \<Longrightarrow> concat xss ! (d * k + i) = xss ! k ! i"
proof -
  show l: "length (concat xss) = d * length xss" using assms by (induction xss) auto
  show "concat xss ! (d * k + i) = xss ! k ! i" if "k < length xss" "i < d"
    using assms that
  proof (induction xss arbitrary: k)
    case (Cons xs xss)
    then show ?case by (cases k) (auto simp: nth_append algebra_simps)
  qed simp
qed

lemma root_entries_nth:
  fixes view :: "'d \<Rightarrow> pc" and s :: "('d, 'z) fs_scheme"
  shows "length (root_entries_from view 0 n s) = 16 * n"
    and "k < n \<Longrightarrow> i < 16 \<Longrightarrow> root_entries_from view 0 n s ! (16 * k + i)
      = entries_of (disk_content view s (sector_index (root_start (mount_info s) + of_nat k))) ! i"
proof -
  let ?xss = "map (\<lambda>k. entries_of (disk_content view s (sector_index (root_start (mount_info s) + of_nat k)))) [0..<n]"
  have u: "\<forall>xs \<in> set ?xss. length xs = 16" by simp
  show "length (root_entries_from view 0 n s) = 16 * n"
    unfolding root_entries_from_def concat_uniform(1) [OF u] by simp
  show "root_entries_from view 0 n s ! (16 * k + i)
      = entries_of (disk_content view s (sector_index (root_start (mount_info s) + of_nat k))) ! i" if "k < n" "i < 16"
    unfolding root_entries_from_def using concat_uniform(2) [OF u, of k i] that by simp
qed

lemma root_entries_update:
  fixes s s' :: "('d, 'z) fs_scheme"
  assumes "unat (root_start (mount_info s)) + n \<le> 2 ^ 28" "k < n" "i < 16" "mount_info s' = mount_info s"
    and "\<And>j. j < n \<Longrightarrow> j \<noteq> k \<Longrightarrow> disk_content view s' (unat (root_start (mount_info s)) + j)
      = disk_content view s (unat (root_start (mount_info s)) + j)"
    and "entries_of (disk_content view s' (unat (root_start (mount_info s)) + k))
      = (entries_of (disk_content view s (unat (root_start (mount_info s)) + k)))[i := e]"
  shows "root_entries_from view 0 n s' = (root_entries_from view 0 n s)[16 * k + i := e]"
proof (rule nth_equalityI)
  show "length (root_entries_from view 0 n s') = length ((root_entries_from view 0 n s)[16 * k + i := e])"
    by (simp add: root_entries_nth(1))
  fix q assume "q < length (root_entries_from view 0 n s')"
  then have q: "q < 16 * n" by (simp add: root_entries_nth(1))
  define j r where "j = q div 16" and "r = q mod 16"
  have jr: "q = 16 * j + r" "j < n" "r < 16" using q by (auto simp: j_def r_def)
  have x: "sector_index (root_start (mount_info s) + of_nat j) = unat (root_start (mount_info s)) + j" if "j < n" for j
    using assms(1) that by (intro sector_index_add) simp
  have "16 * k + i = 16 * j + r \<longleftrightarrow> k = j \<and> i = r" using assms(3) jr(3) by presburger
  then show "root_entries_from view 0 n s' ! q = (root_entries_from view 0 n s)[16 * k + i := e] ! q"
    using jr assms(2,3,4,5,6)
    by (cases "j = k") (simp_all add: root_entries_nth x nth_list_update)
qed

section \<open>Creating\<close>

lemma write_entry_spec:
  fixes s :: "('d, 'z) fs_scheme" and k :: nat
  assumes "fs_ok bus view s" "i < 16" "length name = 11"
  defines "x \<equiv> sector_index (root_start (mount_info s) + of_nat k)"
  shows "\<exists>s'. write_entry bus k i name c sz s = Inr (0, s') \<and> io_only s s' \<and> fs_ok bus view s' \<and>
    disk_content view s' = (disk_content view s)(x := take (32 * i) (disk_content view s x) @
      new_entry name c sz (entries_of (disk_content view s x) ! i) @ drop (32 * i + 32) (disk_content view s x))"
proof -
  let ?b = "disk_content view s x"
  let ?b' = "take (32 * i) ?b @ new_entry name c sz (entries_of ?b ! i) @ drop (32 * i + 32) ?b"
  obtain s1 where s1: "load_sector bus (root_start (mount_info s) + of_nat k) s = Inr ((), s1)" "io_only s s1"
    "fs_ok bus view s1" "disk_content view s1 = disk_content view s" "sector_buffer s1 = ?b"
    using load_sector_spec [OF assms(1)] unfolding x_def by blast
  have len: "length ?b = 512" by (rule fs_ok_content [OF assms(1)])
  have "length ?b' = 512"
    using len assms(2,3) by (simp add: new_entry_length entries_of_nth)
  then have ok: "fs_ok bus view (s1\<lparr>sector_buffer := ?b'\<rparr>)"
    using s1(3) by (simp add: fs_ok_def drive_inv_def terminal_of_def)
  obtain s2 where s2: "store_sector bus (root_start (mount_info s) + of_nat k) (s1\<lparr>sector_buffer := ?b'\<rparr>) = Inr ((), s2)"
    "io_only (s1\<lparr>sector_buffer := ?b'\<rparr>) s2" "fs_ok bus view s2"
    "disk_content view s2 = (disk_content view s1)(x := ?b')"
    using store_sector_spec [OF ok, of "root_start (mount_info s) + of_nat k"] by (auto simp: x_def)
  have "io_only s (s1\<lparr>sector_buffer := ?b'\<rparr>)"
    using s1(2) by (auto simp: io_only_def) (metis select_convs(1))
  then have "io_only s s2" using s2(2) by (rule io_only_trans)
  moreover have "put_entry i name c sz ?b = Inr ?b'"
    using put_entry_eq [OF len assms(2,3)] assms(2) by (simp add: entries_of_nth)
  ultimately show ?thesis
    using s1 s2 by (intro exI [of _ s2]) (simp add: write_entry_def io_only_fields(2) [OF s1(2)])
qed

text \<open>The area of the disk the file system's tables occupy does not wrap or overlap.\<close>

definition layout_ok :: "FAT12_MountInfo \<Rightarrow> bool" where
  "layout_ok m \<longleftrightarrow> unat (fat_start m) + 2 * unat (sectors_per_fat m) \<le> unat (root_start m) \<and>
     unat (root_start m) + unat (root_size m) \<le> 2 ^ 28"

lemma clusters_needed_pos: "0 < sz \<Longrightarrow> sz \<le> 0xFFFFFE00 \<Longrightarrow> 0 < unat (clusters_needed sz)"
proof -
  assume "0 < sz" "sz \<le> 0xFFFFFE00"
  then have "0 < unat sz" "unat sz \<le> 0xFFFFFE00" by (simp_all add: word_less_nat_alt word_le_nat_alt)
  then have "unat (sz + 511) = unat sz + 511" by (simp add: unat_word_ariths)
  with \<open>0 < unat sz\<close> show ?thesis by (simp add: clusters_needed_def unat_div)
qed

lemma fat12_create_spec:
  fixes s :: "('d, 'z) fs_scheme"
  assumes ok: "fs_ok bus view s" "c_string filename xs" "layout_ok (mount_info s)"
    and new: "dir_lookup (dos_8_3 xs) (directory view s) = None"
    and free: "directory view s = pre @ e # post" "\<forall>d \<in> set pre. d ! 0 \<noteq> 0" "e ! 0 = 0"
    and cluster: "find_free_cluster s = c" "c \<noteq> 0"
    and size: "0 < sz" "sz \<le> 0xFFFFFE00"
  shows "\<exists>s'. fat12_create bus filename sz s = Inr (0, s') \<and> fs_ok bus view s' \<and> mount_info s' = mount_info s \<and>
    directory view s' = pre @ new_entry (dos_8_3 xs) c sz e # post \<and>
    (\<forall>d. get_next_cluster d s' = (if d = c then FAT12_EOF else get_next_cluster d s)) \<and>
    (\<forall>j < unat (sectors_per_fat (mount_info s)). disk_content view s' (unat (fat_start (mount_info s)) + j) = fat_image s' j \<and>
       disk_content view s' (unat (fat_start (mount_info s)) + unat (sectors_per_fat (mount_info s)) + j) = fat_image s' j) \<and>
    (\<forall>j. j < unat (fat_start (mount_info s)) \<or> unat (root_start (mount_info s)) + unat (root_size (mount_info s)) \<le> j \<longrightarrow>
       disk_content view s' j = disk_content view s j) \<and>
    (\<exists>m. io_only (s\<lparr>mem := m\<rparr>) s' \<and> entry_frame c s m)"
proof -
  let ?m = "mount_info s" and ?name = "dos_8_3 xs"
  let ?fs = "unat (fat_start (mount_info s))" and ?n = "unat (sectors_per_fat (mount_info s))"
  let ?rs = "unat (root_start (mount_info s))" and ?rn = "unat (root_size (mount_info s))"
  have lay: "?fs + 2 * ?n \<le> ?rs" "?rs + ?rn \<le> 2 ^ 28" using ok(3) by (simp_all add: layout_ok_def)
  obtain s1 where s1: "fat12_open bus filename s = Inr (0, s1)" "io_only s s1" "fs_ok bus view s1"
    "disk_content view s1 = disk_content view s"
    using fat12_open_spec [OF ok(1,2)] new by auto
  obtain r s2 where r: "free_entry_from bus 0 (unat (root_size (mount_info s1))) s1 = Inr (r, s2)" "io_only s1 s2"
    "fs_ok bus view s2" "disk_content view s2 = disk_content view s1"
    "case r of
       None \<Rightarrow> \<forall>e \<in> set (directory view s). e ! 0 \<noteq> 0
     | Some (j, i) \<Rightarrow> 0 \<le> j \<and> j < ?rn \<and> i < 16 \<and> (\<exists>pre e post. directory view s = pre @ e # post \<and>
         length pre = 16 * (j - 0) + i \<and> e ! 0 = 0 \<and> (\<forall>e \<in> set pre. e ! 0 \<noteq> 0))"
    using free_entry_from_spec [OF s1(3), of 0 "unat (root_size (mount_info s1))"]
    unfolding root_entries_io [OF s1(2,4)] io_only_fields(2) [OF s1(2)] directory_def by blast
  have "r \<noteq> None"
  proof
    assume "r = None"
    with r(5) have "\<forall>d \<in> set (directory view s). d ! 0 \<noteq> 0" by simp
    with free show False by simp
  qed
  then obtain k i where ki: "r = Some (k, i)" "k < ?rn" "i < 16" "length pre = 16 * k + i"
  proof -
    assume t: "\<And>k i. r = Some (k, i) \<Longrightarrow> k < ?rn \<Longrightarrow> i < 16 \<Longrightarrow> length pre = 16 * k + i \<Longrightarrow> thesis"
    obtain k i where "r = Some (k, i)" using \<open>r \<noteq> None\<close> by auto
    with r(5) obtain pre' e' post' where p: "k < ?rn" "i < 16" "directory view s = pre' @ e' # post'"
      "length pre' = 16 * k + i" "e' ! 0 = 0" "\<forall>e \<in> set pre'. e ! 0 \<noteq> 0" by auto
    have "pre' = takeWhile (\<lambda>e. e ! 0 \<noteq> 0) (directory view s)" using p(3,5,6) by (simp add: takeWhile_append2)
    moreover have "pre = takeWhile (\<lambda>e. e ! 0 \<noteq> 0) (directory view s)" using free by (simp add: takeWhile_append2)
    ultimately show thesis using t p \<open>r = Some (k, i)\<close> by simp
  qed
  note io2 = io_only_trans [OF s1(2) r(2)]
  note f2 = io_only_fields [OF io2]
  have c2: "find_free_cluster s2 = c" using cluster(1) find_free_cluster_cong f2(8) by metis
  then have "get_next_cluster c s2 = 0" using find_free_cluster_free [of s2] cluster(2) by simp
  with alloc_clusters_from [OF clusters_needed_pos [OF size] c2 cluster(2), of 0 0]
  obtain m3 where m3: "alloc_clusters 0 (unat (clusters_needed sz)) 0 0 s2 = (Some c, s2\<lparr>mem := m3\<rparr>)"
    "\<forall>d. get_next_cluster d (s2\<lparr>mem := m3\<rparr>) = (if d = c then FAT12_EOF else get_next_cluster d s2)" "entry_frame c s2 m3"
    by auto
  let ?s3 = "s2\<lparr>mem := m3\<rparr>"
  have ok3: "fs_ok bus view ?s3" using r(3) by simp
  have fit: "unat (fat_start (mount_info ?s3)) + 2 * unat (sectors_per_fat (mount_info ?s3)) \<le> 2 ^ 28"
    using lay by (simp add: f2)
  obtain s4 where s4: "sync_fat bus ?s3 = Inr ((), s4)" "io_only ?s3 s4" "fs_ok bus view s4"
    "\<And>j. disk_content view s4 j = (if ?fs \<le> j \<and> j < ?fs + 2 * ?n then fat_image ?s3 ((j - ?fs) mod ?n)
       else disk_content view s j)"
    using sync_fat_spec [OF ok3 fit] s1(4) r(4) by (auto simp: Let_def f2)
  note f4 = io_only_fields [OF s4(2)]
  define x where "x = ?rs + k"
  have xi: "sector_index (root_start (mount_info s4) + of_nat k) = x"
    using lay(2) ki(2) by (simp add: f4 f2 x_def sector_index_add)
  have d4: "disk_content view s4 j = disk_content view s j" if "?rs \<le> j" for j using s4(4) lay(1) that by simp
  let ?b = "disk_content view s x"
  let ?e = "new_entry ?name c sz (entries_of ?b ! i)"
  obtain s5 where s5: "write_entry bus k i ?name c sz s4 = Inr (0, s5)" "io_only s4 s5" "fs_ok bus view s5"
    "disk_content view s5 = (disk_content view s4)(x := take (32 * i) ?b @ ?e @ drop (32 * i + 32) ?b)"
    using write_entry_spec [OF s4(3) ki(3) dos_8_3_length [of xs], of k c sz] d4 [of x] unfolding xi by (auto simp: x_def)
  note f5 = io_only_fields [OF s5(2)]
  have run: "fat12_create bus filename sz s = Inr (0, s5)"
    using to_dos_filename_eq [OF ok(2)] s1(1) r(1) ki(1) m3(1) s4(1) s5(1)
    by (simp add: fat12_create_def find_free_dir_entry_def)
  have lb: "length ?b = 512" by (rule fs_ok_content [OF ok(1)])
  have le: "length ?e = 32" using lb ki(3) by (intro new_entry_length) (simp_all add: entries_of_nth)
  have old: "entries_of ?b ! i = e"
    using root_entries_nth(2) [OF ki(2,3), of view s] lay(2) ki(2,4) free(1)
    by (simp add: directory_def x_def sector_index_add nth_append)
  have m5: "mount_info s5 = ?m" by (simp add: f5 f4 f2)
  have "root_entries_from view 0 ?rn s5 = (root_entries_from view 0 ?rn s)[16 * k + i := ?e]"
    using lay(2) ki(2,3) d4 entries_of_put [OF lb ki(3) le]
    by (intro root_entries_update) (simp_all add: m5 s5(4) x_def)
  then have dir: "directory view s5 = pre @ new_entry ?name c sz e # post"
    using free(1) ki(4) by (simp add: directory_def m5 old list_update_append)
  have img: "fat_image s5 j = fat_image ?s3 j" for j by (simp add: fat_image_def f5 f4)
  have "get_next_cluster d s5 = (if d = c then FAT12_EOF else get_next_cluster d s)" for d
    using m3(2) f5(8) f4(8) f2(8) by simp
  moreover have "disk_content view s5 (?fs + j) = fat_image s5 j" "disk_content view s5 (?fs + ?n + j) = fat_image s5 j"
    if "j < ?n" for j using that lay(1) by (simp_all add: s5(4) s4(4) img x_def)
  moreover have "disk_content view s5 j = disk_content view s j" if "j < ?fs \<or> ?rs + ?rn \<le> j" for j
    using that lay ki(2) by (auto simp: s5(4) s4(4) x_def)
  moreover have "io_only (s\<lparr>mem := m3\<rparr>) s5"
    using io_only_trans [OF io_only_mem [OF io2] io_only_trans [OF s4(2) s5(2)]] .
  moreover have "entry_frame c s m3" using m3(3) by (simp add: entry_frame_def f2)
  ultimately show ?thesis using run s5(3) m5 dir by (intro exI [of _ s5]) blast
qed

section \<open>Properties\<close>

lemma upper_nonzero: "c \<noteq> 0 \<Longrightarrow> upper c \<noteq> 0"
  by (auto simp: upper_def)

lemma dos_8_3_first: "0 \<notin> set xs \<Longrightarrow> dos_8_3 xs ! 0 \<noteq> 0"
  by (cases xs) (auto simp: dos_8_3_def pad_def nth_append upper_nonzero)

text \<open>Where a lookup that failed at the end mark succeeds once the mark is replaced.\<close>

lemma dir_lookup_new:
  assumes "dir_lookup name (pre @ e # post) = None" "\<forall>d \<in> set pre. d ! 0 \<noteq> 0" "e' ! 0 \<noteq> 0" "take 11 e' = name" "e ! 0 = 0"
  shows "dir_lookup name (pre @ e' # post) = Some e'"
  using assms by (induction pre) (auto split: if_splits)

lemma created_lookup:
  assumes "0 \<notin> set xs" "dir_lookup (dos_8_3 xs) (pre @ e # post) = None" "\<forall>d \<in> set pre. d ! 0 \<noteq> 0" "e ! 0 = 0" "length e = 32"
  shows "dir_lookup (dos_8_3 xs) (pre @ new_entry (dos_8_3 xs) c sz e # post) = Some (new_entry (dos_8_3 xs) c sz e)"
proof -
  note ef = new_entry_fields [OF dos_8_3_length [of xs] assms(5)]
  have "new_entry (dos_8_3 xs) c sz e ! 0 \<noteq> 0" using assms(1) by (simp add: ef(2) dos_8_3_first)
  from dir_lookup_new [OF assms(2,3) this ef(1) assms(4)] show ?thesis .
qed

lemma directory_entry_length: "fs_ok bus view s \<Longrightarrow> e \<in> set (directory view s) \<Longrightarrow> length e = 32"
  using fs_ok_content [of bus view s] by (auto simp: directory_def root_entries_from_def entries_of_def)

definition demo_name :: "nat \<Rightarrow> u8" where
  "demo_name i = (if i < 5 then cs ''a.txt'' ! i else 0)"

lemma demo_name_string: "c_string demo_name (cs ''a.txt'')"
  by (auto simp: c_string_def demo_name_def cs_def)

lemma demo_dos_name: "dos_8_3 (cs ''a.txt'') = cs ''A       TXT''"
proof -
  have "replicate 7 (32 :: u8) = [32, 32, 32, 32, 32, 32, 32]" by (simp add: numeral_eq_Suc)
  then show ?thesis by (simp add: dos_8_3_def pad_def upper_def cs_def)
qed

lemma demo_directory: "directory (\<lambda>a. a) demo_fs = replicate 16 (replicate 32 0)"
proof -
  have b: "disk_content (\<lambda>a. a) demo_fs l = replicate 512 0" for l
  proof (rule nth_equalityI)
    show l: "length (disk_content (\<lambda>a. a) demo_fs l) = length (replicate 512 (0 :: u8))"
      by (simp add: fs_ok_content [OF demo_fs_ok])
    have s: "set (disk_content (\<lambda>a. a) demo_fs l) = {0}" by (simp add: disk_content_def demo_pc_def bytes_of_def)
    fix i assume i: "i < length (disk_content (\<lambda>a. a) demo_fs l)"
    then have "disk_content (\<lambda>a. a) demo_fs l ! i \<in> {0}" using s nth_mem by blast
    with i l show "disk_content (\<lambda>a. a) demo_fs l ! i = replicate 512 0 ! i" by simp
  qed
  have "entries_of (replicate 512 0) = replicate 16 (replicate 32 0)"
    by (rule nth_equalityI) (simp_all add: entries_of_nth min_def)
  then show ?thesis by (simp add: directory_def root_entries_from_def b)
qed

lemma demo_free_cluster: "find_free_cluster demo_fs = 2"
  unfolding find_free_cluster_def by (subst free_cluster_from.simps) (simp add: demo_fat)

text \<open>
  C24: The 8.3 conversion computes its reference: for every C string, whatever its length and the
  number of its dots, \<open>to_dos_filename\<close> fills the eleven bytes with the part before the first dot
  and the part after it, each cut to 8 and 3 characters, in upper case and padded with spaces.
\<close>

theorem to_dos_filename_8_3:
  assumes "c_string f xs" "length out = 11"
  shows "to_dos_filename f out = Inr (dos_8_3 xs)"
  using assms by (rule to_dos_filename_eq)

theorem to_dos_filename_8_3_witness: "to_dos_filename demo_name (replicate 11 0) = Inr (cs ''A       TXT'')"
  using to_dos_filename_8_3 [OF demo_name_string, of "replicate 11 0"] by (simp add: demo_dos_name)

text \<open>
  C23: \<open>fat12_open\<close> is total on a healthy drive and finds the first entry of that 8.3 name before
  the end mark of the root directory: without one it answers NULL; with one it answers NULL only
  when no page is left, and otherwise a handle in a fresh page with the entry's first cluster and
  size, at position 0 and not at the end of the file, writing nothing outside the handle.
\<close>

theorem fat12_open_finds_first:
  fixes s :: "('d, 'z) fs_scheme"
  assumes "fs_ok bus view s" "c_string filename xs"
  shows "\<exists>s1. io_only s s1 \<and> fs_ok bus view s1 \<and> disk_content view s1 = disk_content view s \<and>
    (case dir_lookup (dos_8_3 xs) (directory view s) of
       None \<Rightarrow> fat12_open bus filename s = Inr (0, s1)
     | Some e \<Rightarrow>
         (case vmmngr_alloc_page s1 of (f, s2) \<Rightarrow>
            if f = 0 then fat12_open bus filename s = Inr (0, s2)
            else \<exists>m. fat12_open bus filename s = Inr (f, s2\<lparr>mem := m\<rparr>) \<and>
              (\<forall>x. \<not> in_range f 276 x \<longrightarrow> m x = mem s2 x) \<and> rd_bytes m f 256 = map filename [0..<256] \<and>
              handle f (buf16 e 26) (buf16 e 26) (buf32 e 28) 0 0 (s2\<lparr>mem := m\<rparr>)))"
  using assms by (rule fat12_open_spec)

theorem fat12_open_finds_first_witness: "\<exists>s1. io_only demo_fs s1 \<and> fat12_open demo_bus demo_name demo_fs = Inr (0, s1)"
proof -
  have "dir_lookup (dos_8_3 (cs ''a.txt'')) (directory (\<lambda>a. a) demo_fs) = None"
    by (simp add: demo_directory dir_lookup_def)
  then show ?thesis using fat12_open_finds_first [OF demo_fs_ok demo_name_string] by auto
qed

text \<open>
  A deleted entry is never reused: a \<^verbatim>\<open>char\<close> is signed, so the test for 0xE5 never succeeds,
  and \<open>find_free_dir_entry\<close> answers the first entry whose first byte is 0, or none when there is no
  such entry, however many entries are marked as deleted.
\<close>

theorem find_free_dir_entry_ignores_deleted:
  fixes s :: "('d, 'z) fs_scheme"
  assumes "fs_ok bus view s"
  shows "\<exists>r s'. find_free_dir_entry bus s = Inr (r, s') \<and> io_only s s' \<and> disk_content view s' = disk_content view s \<and>
    (case r of
       None \<Rightarrow> \<forall>e \<in> set (directory view s). e ! 0 \<noteq> 0
     | Some (j, i) \<Rightarrow> i < 16 \<and> 16 * j + i < length (directory view s) \<and> (directory view s ! (16 * j + i)) ! 0 = 0 \<and>
         (\<forall>e \<in> set (take (16 * j + i) (directory view s)). e ! 0 \<noteq> 0))"
proof -
  obtain r s' where "find_free_dir_entry bus s = Inr (r, s')" "io_only s s'" "disk_content view s' = disk_content view s"
    and r: "case r of
       None \<Rightarrow> \<forall>e \<in> set (directory view s). e ! 0 \<noteq> 0
     | Some (j, i) \<Rightarrow> 0 \<le> j \<and> j < unat (root_size (mount_info s)) \<and> i < 16 \<and>
         (\<exists>pre e post. directory view s = pre @ e # post \<and> length pre = 16 * (j - 0) + i \<and> e ! 0 = 0 \<and>
           (\<forall>e \<in> set pre. e ! 0 \<noteq> 0))"
    using free_entry_from_spec [OF assms, of 0 "unat (root_size (mount_info s))"]
    unfolding find_free_dir_entry_def directory_def by blast
  moreover from r have "case r of
       None \<Rightarrow> \<forall>e \<in> set (directory view s). e ! 0 \<noteq> 0
     | Some (j, i) \<Rightarrow> i < 16 \<and> 16 * j + i < length (directory view s) \<and> (directory view s ! (16 * j + i)) ! 0 = 0 \<and>
         (\<forall>e \<in> set (take (16 * j + i) (directory view s)). e ! 0 \<noteq> 0)"
    by (cases r) (auto simp: nth_append)
  ultimately show ?thesis by blast
qed

theorem find_free_dir_entry_ignores_deleted_witness:
  "\<exists>s'. find_free_dir_entry demo_bus demo_fs = Inr (Some (0, 0), s') \<and> io_only demo_fs s'"
proof -
  obtain r s' where r: "find_free_dir_entry demo_bus demo_fs = Inr (r, s')" "io_only demo_fs s'"
    "case r of
       None \<Rightarrow> \<forall>e \<in> set (directory (\<lambda>a. a) demo_fs). e ! 0 \<noteq> 0
     | Some (j, i) \<Rightarrow> i < 16 \<and> 16 * j + i < length (directory (\<lambda>a. a) demo_fs) \<and>
         (directory (\<lambda>a. a) demo_fs ! (16 * j + i)) ! 0 = 0 \<and>
         (\<forall>e \<in> set (take (16 * j + i) (directory (\<lambda>a. a) demo_fs)). e ! 0 \<noteq> 0)"
    using find_free_dir_entry_ignores_deleted [OF demo_fs_ok] by blast
  then show ?thesis by (cases r) (auto simp: demo_directory)
qed

text \<open>
  C17: Creating a file, for a name that is not in the directory, a free entry, a free cluster and a
  sane disk layout: \<open>fat12_create\<close> returns 0, the first free entry becomes the new one with the
  given size and the first free cluster, both copies of the FAT on disk hold the cached table, outside
  the FATs and the root directory no sector changes, and in memory only that cluster's entry in the
  cached table. But whatever the size, exactly one
  cluster is taken, since each round of the allocation loop finds the cluster of the round before.
\<close>

theorem fat12_create_one_cluster:
  fixes s :: "('d, 'z) fs_scheme"
  assumes "fs_ok bus view s" "c_string filename xs" "layout_ok (mount_info s)"
    and "dir_lookup (dos_8_3 xs) (directory view s) = None"
    and "directory view s = pre @ e # post" "\<forall>d \<in> set pre. d ! 0 \<noteq> 0" "e ! 0 = 0"
    and "find_free_cluster s = c" "c \<noteq> 0" "0 < sz" "sz \<le> 0xFFFFFE00"
  shows "\<exists>s'. fat12_create bus filename sz s = Inr (0, s') \<and> fs_ok bus view s' \<and> mount_info s' = mount_info s \<and>
    directory view s' = pre @ new_entry (dos_8_3 xs) c sz e # post \<and>
    (\<forall>d. get_next_cluster d s' = (if d = c then FAT12_EOF else get_next_cluster d s)) \<and>
    (\<forall>j < unat (sectors_per_fat (mount_info s)). disk_content view s' (unat (fat_start (mount_info s)) + j) = fat_image s' j \<and>
       disk_content view s' (unat (fat_start (mount_info s)) + unat (sectors_per_fat (mount_info s)) + j) = fat_image s' j) \<and>
    (\<forall>j. j < unat (fat_start (mount_info s)) \<or> unat (root_start (mount_info s)) + unat (root_size (mount_info s)) \<le> j \<longrightarrow>
       disk_content view s' j = disk_content view s j) \<and>
    (\<exists>m. io_only (s\<lparr>mem := m\<rparr>) s' \<and> entry_frame c s m)"
  using assms by (rule fat12_create_spec)

lemma demo_create_facts:
  "layout_ok (mount_info demo_fs)" "dir_lookup (dos_8_3 (cs ''a.txt'')) (directory (\<lambda>a. a) demo_fs) = None"
  "directory (\<lambda>a. a) demo_fs = [] @ replicate 32 0 # replicate 15 (replicate 32 0)"
  "\<forall>d \<in> set ([] :: u8 list list). d ! 0 \<noteq> 0" "replicate 32 (0 :: u8) ! 0 = 0" "(2 :: u16) \<noteq> 0"
  "0 < (2000 :: u32)" "(2000 :: u32) \<le> 0xFFFFFE00"
proof -
  have "replicate 16 x = x # replicate 15 x" for x :: "u8 list" using replicate_Suc [of 15 x] by simp
  then show "directory (\<lambda>a. a) demo_fs = [] @ replicate 32 0 # replicate 15 (replicate 32 0)"
    by (simp only: demo_directory append_Nil)
qed (simp_all add: layout_ok_def demo_directory dir_lookup_def)

theorem fat12_create_one_cluster_witness:
  "\<exists>s'. fat12_create demo_bus demo_name 2000 demo_fs = Inr (0, s') \<and> get_next_cluster 2 s' = FAT12_EOF \<and>
     get_next_cluster 3 s' = FAT12_FREE"
proof -
  have "get_next_cluster 3 demo_fs = 0" by (simp add: demo_fat)
  with fat12_create_one_cluster [OF demo_fs_ok demo_name_string demo_create_facts(1-5) demo_free_cluster demo_create_facts(6-8)]
  show ?thesis by auto
qed

text \<open>
  A file just created can be opened: after a successful \<open>fat12_create\<close>, \<open>fat12_open\<close> of the
  same name finds the new entry and, if a page is left, answers a handle with the new cluster and the given size.
\<close>

theorem create_then_open:
  fixes s :: "('d, 'z) fs_scheme"
  assumes "fs_ok bus view s" "c_string filename xs" "layout_ok (mount_info s)"
    and "dir_lookup (dos_8_3 xs) (directory view s) = None"
    and "directory view s = pre @ e # post" "\<forall>d \<in> set pre. d ! 0 \<noteq> 0" "e ! 0 = 0" "length e = 32"
    and "find_free_cluster s = c" "c \<noteq> 0" "0 < sz" "sz \<le> 0xFFFFFE00"
  shows "\<exists>s' s1. fat12_create bus filename sz s = Inr (0, s') \<and> io_only s' s1 \<and>
    (case vmmngr_alloc_page s1 of (f, s2) \<Rightarrow>
       if f = 0 then fat12_open bus filename s' = Inr (0, s2)
       else \<exists>m. fat12_open bus filename s' = Inr (f, s2\<lparr>mem := m\<rparr>) \<and> handle f c c sz 0 0 (s2\<lparr>mem := m\<rparr>))"
proof -
  obtain s' where s': "fat12_create bus filename sz s = Inr (0, s')" "fs_ok bus view s'"
    "directory view s' = pre @ new_entry (dos_8_3 xs) c sz e # post"
    using fat12_create_spec [OF assms(1-7,9-12)] by blast
  let ?e = "new_entry (dos_8_3 xs) c sz e"
  note ef = new_entry_fields [OF dos_8_3_length [of xs] assms(8)]
  have l: "dir_lookup (dos_8_3 xs) (directory view s') = Some ?e"
    using created_lookup [OF _ assms(4) [unfolded assms(5)] assms(6-8), of c sz] assms(2) s'(3) by (simp add: c_string_def)
  obtain s1 where "io_only s' s1" "case vmmngr_alloc_page s1 of (f, s2) \<Rightarrow>
       if f = 0 then fat12_open bus filename s' = Inr (0, s2)
       else \<exists>m. fat12_open bus filename s' = Inr (f, s2\<lparr>mem := m\<rparr>) \<and>
              (\<forall>x. \<not> in_range f 276 x \<longrightarrow> m x = mem s2 x) \<and> rd_bytes m f 256 = map filename [0..<256] \<and>
              handle f c c sz 0 0 (s2\<lparr>mem := m\<rparr>)"
    using fat12_open_spec [OF s'(2) assms(2)] unfolding l option.case ef by (elim exE conjE) (rule that)
  with s'(1) show ?thesis by (intro exI [of _ s'] exI [of _ s1]) (auto split: prod.splits)
qed

theorem create_then_open_witness:
  "\<exists>s' s1. fat12_create demo_bus demo_name 2000 demo_fs = Inr (0, s') \<and> io_only s' s1 \<and>
    (case vmmngr_alloc_page s1 of (f, s2) \<Rightarrow>
       if f = 0 then fat12_open demo_bus demo_name s' = Inr (0, s2)
       else \<exists>m. fat12_open demo_bus demo_name s' = Inr (f, s2\<lparr>mem := m\<rparr>) \<and> handle f 2 2 2000 0 0 (s2\<lparr>mem := m\<rparr>))"
proof -
  have "length (replicate 32 (0 :: u8)) = 32" by simp
  from create_then_open [OF demo_fs_ok demo_name_string demo_create_facts(1-5) this demo_free_cluster demo_create_facts(6-8)]
  show ?thesis .
qed

end
