(* ===== verification/Files.thy ===== *)
theory Files
  imports Create
begin

text \<open>
  \<^verbatim>\<open>fs/fs.c\<close>, third part: reading and writing the clusters of an open file. The caller's buffer is
  an array with the offset its pointer has advanced to; it is given back when it was written.
\<close>

section \<open>Operations\<close>

text \<open>\<^verbatim>\<open>data_start + (current_cluster - 2) * sectors_per_cluster\<close>: \<^verbatim>\<open>int\<close> arithmetic, added as \<^verbatim>\<open>u32\<close>.\<close>

definition cluster_lba :: "u16 \<Rightarrow> FAT12_MountInfo \<Rightarrow> u32" where
  "cluster_lba cluster m = data_start m + of_int ((uint cluster - 2) * uint (sectors_per_cluster m))"

function read_clusters ::
  "'d bus \<Rightarrow> u32 \<Rightarrow> u8 list \<Rightarrow> int \<Rightarrow> u32 \<Rightarrow> u32 \<Rightarrow> ('d, 'z) fs_scheme \<Rightarrow> (u32 \<times> u8 list, ('d, 'z) fs_scheme) result" where
  "read_clusters bus file buffer off sz bytes_read s =
     (if sz > 0 \<and> file_current_cluster file s < FAT12_EOF_MIN
      then bindk (load_sector bus (cluster_lba (file_current_cluster file s) (mount_info s)) s) (\<lambda>_ s.
        let bytes_to_copy = (if sz > 512 then 512 else sz) in
        (case memcpy buffer off (sector_buffer s) 0 (uint bytes_to_copy) 0 of Inl e \<Rightarrow> Inl e | Inr buffer \<Rightarrow>
           let s = set_position file (file_position file s + bytes_to_copy) s;
               s = set_current_cluster file (get_next_cluster (file_current_cluster file s) s) s
           in read_clusters bus file buffer (off + uint bytes_to_copy) (sz - bytes_to_copy)
                (bytes_read + bytes_to_copy) s))
      else Inr ((bytes_read, buffer), s))"
  by pat_completeness auto
termination
proof (relation "measure (\<lambda>(bus, file, b, off, sz, r, s). unat sz)", goal_cases)
  case (2 bus fp buffer off sz bytes_read s x xa xb xc)
  then show ?case by (auto simp: unat_sub word_le_nat_alt word_less_nat_alt unat_gt_0)
qed simp

definition fat12_read ::
  "'d bus \<Rightarrow> u32 \<Rightarrow> u8 list \<Rightarrow> u32 \<Rightarrow> ('d, 'z) fs_scheme \<Rightarrow> (int \<times> u8 list, ('d, 'z) fs_scheme) result" where
  "fat12_read bus file buffer sz s =
     (if file = 0 \<or> file_eof file s \<noteq> 0 then Inr ((0, buffer), s)
      else let bytes_remaining = file_file_size file s - file_position file s;
               sz = (if sz > bytes_remaining then bytes_remaining else sz) in
        bindk (read_clusters bus file buffer 0 sz 0 s) (\<lambda>r s.
          let s = (if file_current_cluster file s \<ge> FAT12_EOF_MIN then set_eof file 1 s else s)
          in Inr ((sint (fst r), snd r), s)))"

function write_clusters ::
  "'d bus \<Rightarrow> u32 \<Rightarrow> u8 list \<Rightarrow> int \<Rightarrow> u32 \<Rightarrow> u32 \<Rightarrow> ('d, 'z) fs_scheme \<Rightarrow> (u32, ('d, 'z) fs_scheme) result" where
  "write_clusters bus file buffer off sz bytes_written s =
     (if sz > 0 \<and> file_current_cluster file s < FAT12_EOF_MIN
      then
        let lba = cluster_lba (file_current_cluster file s) (mount_info s);
            bytes_to_write = (if sz > 512 then 512 else sz) in
        (case memset_arr (sector_buffer s) 0 0 512 of Inl e \<Rightarrow> Inl e | Inr b \<Rightarrow>
         case memcpy b 0 buffer off (uint bytes_to_write) 0 of Inl e \<Rightarrow> Inl e | Inr b \<Rightarrow>
           bindk (store_sector bus lba (s\<lparr>sector_buffer := b\<rparr>)) (\<lambda>_ s.
             let s = set_current_cluster file (get_next_cluster (file_current_cluster file s) s) s
             in write_clusters bus file buffer (off + uint bytes_to_write) (sz - bytes_to_write)
                  (bytes_written + bytes_to_write) s))
      else Inr (bytes_written, s))"
  by pat_completeness auto
termination
proof (relation "measure (\<lambda>(bus, file, b, off, sz, r, s). unat sz)", goal_cases)
  case (2 bus fp buffer off sz bytes_written s x xa xb xc)
  then show ?case by (auto simp: unat_sub word_le_nat_alt word_less_nat_alt unat_gt_0)
qed simp

definition fat12_write ::
  "'d bus \<Rightarrow> u32 \<Rightarrow> u8 list \<Rightarrow> u32 \<Rightarrow> ('d, 'z) fs_scheme \<Rightarrow> (int, ('d, 'z) fs_scheme) result" where
  "fat12_write bus file buffer sz s =
     (if file = 0 then bindk (pr bus KERN_ERR ''FS'' ''No File Found \<newline>'' [] s) (\<lambda>_ s. Inr (-1, s))
      else let s = set_current_cluster file (file_first_cluster file s) s in
        bindk (write_clusters bus file buffer 0 sz 0 s) (\<lambda>r s. Inr (sint r, s)))"

declare read_clusters.simps [simp del] write_clusters.simps [simp del]

section \<open>Chunks of a file on the sectors of its clusters\<close>

fun put_chunks :: "('c \<Rightarrow> nat) \<Rightarrow> 'c list \<Rightarrow> u8 list \<Rightarrow> (nat \<Rightarrow> u8 list) \<Rightarrow> nat \<Rightarrow> u8 list" where
  "put_chunks lba [] data D = D"
| "put_chunks lba (c # ks) data D =
     (if data = [] then D
      else put_chunks lba ks (drop 512 data) (D(lba c := take 512 data @ replicate (512 - length data) 0)))"

fun get_chunks :: "('c \<Rightarrow> nat) \<Rightarrow> 'c list \<Rightarrow> nat \<Rightarrow> (nat \<Rightarrow> u8 list) \<Rightarrow> u8 list" where
  "get_chunks lba [] n D = []"
| "get_chunks lba (c # ks) n D = (if n = 0 then [] else take n (D (lba c)) @ get_chunks lba ks (n - 512) D)"

lemma put_chunks_other: "l \<notin> lba ` set ks \<Longrightarrow> put_chunks lba ks data D l = D l"
  by (induction lba ks data D rule: put_chunks.induct) auto

lemma get_chunks_cong: "(\<And>c. c \<in> set ks \<Longrightarrow> D (lba c) = D' (lba c)) \<Longrightarrow> get_chunks lba ks n D = get_chunks lba ks n D'"
  by (induction lba ks n D rule: get_chunks.induct) auto

lemma get_put_chunks:
  "distinct (map lba ks) \<Longrightarrow> length data \<le> 512 * length ks \<Longrightarrow>
    get_chunks lba ks (length data) (put_chunks lba ks data D) = data"
proof (induction ks arbitrary: data D)
  case Nil
  then show ?case by simp
next
  case (Cons c ks)
  show ?case
  proof (cases "data = []")
    case False
    let ?D = "D(lba c := take 512 data @ replicate (512 - length data) 0)"
    have "put_chunks lba ks (drop 512 data) ?D (lba c) = ?D (lba c)"
      using Cons.prems(1) by (intro put_chunks_other) auto
    moreover have "get_chunks lba ks (length (drop 512 data)) (put_chunks lba ks (drop 512 data) ?D) = drop 512 data"
      using Cons.prems by (intro Cons.IH) auto
    ultimately show ?thesis using False by (simp add: min_def)
  qed simp
qed

lemma get_chunks_length:
  "(\<And>l. length (D l) = 512) \<Longrightarrow> length (get_chunks lba ks n D) = min n (512 * length ks)"
  by (induction lba ks n D rule: get_chunks.induct) auto

section \<open>Cluster chains and handles\<close>

fun chain_of :: "('d, 'z) fs_scheme \<Rightarrow> u16 \<Rightarrow> u16 list \<Rightarrow> bool" where
  "chain_of s c [] \<longleftrightarrow> FAT12_EOF_MIN \<le> c"
| "chain_of s c (d # ds) \<longleftrightarrow> d = c \<and> c < FAT12_EOF_MIN \<and> chain_of s (get_next_cluster c s) ds"

text \<open>The handle at \<open>f\<close> does not overlap the cached table's entries of the chain.\<close>

definition apart :: "u32 \<Rightarrow> u16 list \<Rightarrow> ('d, 'z) fs_scheme \<Rightarrow> bool" where
  "apart f ks s \<longleftrightarrow> (\<forall>x. in_range f 276 x \<longrightarrow> (\<forall>c \<in> set ks. \<not> in_range (fat_buffer (mount_info s) + fat_offset c) 2 x))"

text \<open>What reading and writing through the handle at \<open>f\<close> may change.\<close>

definition file_frame :: "u32 \<Rightarrow> ('d, 'z) fs_scheme \<Rightarrow> ('d, 'z) fs_scheme \<Rightarrow> bool" where
  "file_frame f s s' \<longleftrightarrow> (\<exists>d v b m. s' = s\<lparr>dev := d, vidmem := v, sector_buffer := b, mem := m\<rparr> \<and>
     (\<forall>x. \<not> in_range f 276 x \<longrightarrow> m x = mem s x))"

lemma file_frame_io: "io_only s s' \<Longrightarrow> file_frame f s s'"
  unfolding io_only_def file_frame_def
proof (elim exE)
  fix d v b assume "s' = s\<lparr>dev := d, vidmem := v, sector_buffer := b\<rparr>"
  then show "\<exists>d v b m. s' = s\<lparr>dev := d, vidmem := v, sector_buffer := b, mem := m\<rparr> \<and>
      (\<forall>x. \<not> in_range f 276 x \<longrightarrow> m x = mem s x)"
    by (intro exI [of _ d] exI [of _ v] exI [of _ b] exI [of _ "mem s"]) simp
qed

lemma file_frame_mem: "(\<And>x. \<not> in_range f 276 x \<Longrightarrow> m x = mem s x) \<Longrightarrow> file_frame f s (s\<lparr>mem := m\<rparr>)"
  unfolding file_frame_def
  by (intro exI [of _ "dev s"] exI [of _ "vidmem s"] exI [of _ "sector_buffer s"] exI [of _ m]) simp

lemma file_frame_trans: "file_frame f s s' \<Longrightarrow> file_frame f s' s'' \<Longrightarrow> file_frame f s s''"
  unfolding file_frame_def by clarsimp (rule exI, rule exI, rule exI, rule exI, rule conjI, rule refl, simp)

lemma file_frame_fields:
  assumes "file_frame f s s'"
  shows "mount_info s' = mount_info s" "\<not> in_range f 276 x \<Longrightarrow> mem s' x = mem s x" "apart g ks s' = apart g ks s"
  using assms by (auto simp: file_frame_def apart_def)

lemma get_next_apart:
  assumes "file_frame f s s'" "apart f ks s" "c \<in> set ks"
  shows "get_next_cluster c s' = get_next_cluster c s"
proof -
  let ?B = "fat_buffer (mount_info s)"
  have "mem s' x = mem s x" if "in_range (?B + fat_offset c) 2 x" for x
    using assms(2,3) that by (intro file_frame_fields(2) [OF assms(1)]) (auto simp: apart_def)
  then have "rd16 (mem s') (?B + fat_offset c) = rd16 (mem s) (?B + fat_offset c)" by (rule rd16_cong)
  then show ?thesis by (simp add: get_next_cluster_def file_frame_fields(1) [OF assms(1)])
qed

lemma apart_tl: "apart f (k # ks) s \<Longrightarrow> apart f ks s"
  by (simp add: apart_def)

lemma chain_of_apart:
  assumes "file_frame f s s'" "apart f ks s"
  shows "chain_of s' c ks = chain_of s c ks"
  using assms(2)
proof (induction ks arbitrary: c)
  case (Cons k ks)
  have "get_next_cluster k s' = get_next_cluster k s" by (rule get_next_apart [OF assms(1) Cons.prems]) simp
  with Cons.IH [OF apart_tl [OF Cons.prems]] show ?case by (cases "k = c") simp_all
qed simp

text \<open>Updates of a handle.\<close>

lemma handle_updates:
  "file_current_cluster f (set_current_cluster f v s) = v" "file_position f (set_current_cluster f v s) = file_position f s"
  "file_eof f (set_current_cluster f v s) = file_eof f s" "file_file_size f (set_current_cluster f v s) = file_file_size f s"
  "file_first_cluster f (set_current_cluster f v s) = file_first_cluster f s"
  "file_position f (set_position f p s) = p" "file_current_cluster f (set_position f p s) = file_current_cluster f s"
  by (simp_all add: file_current_cluster_def file_position_def file_eof_def file_file_size_def file_first_cluster_def
      set_current_cluster_def set_position_def rd16_def rd32_def wr16_def wr32_def add.assoc bytes16 bytes32)

lemma update_frame:
  "file_frame f s (set_current_cluster f v s)" "file_frame f s (set_position f p s)" "file_frame f s (set_eof f p s)"
proof -
  have ne: "x \<noteq> f + k" if "\<not> in_range f 276 x" "unat k < 276" for x k using in_range_offset [OF that(2)] that(1) by auto
  show "file_frame f s (set_current_cluster f v s)" "file_frame f s (set_position f p s)" "file_frame f s (set_eof f p s)"
    unfolding set_current_cluster_def set_position_def set_eof_def
    by (rule file_frame_mem; simp add: wr16_def wr32_def add.assoc ne)+
qed

lemma update_disk [simp]:
  "fs_ok bus view (set_current_cluster f v s) = fs_ok bus view s" "fs_ok bus view (set_position f p s) = fs_ok bus view s"
  "fs_ok bus view (set_eof f p s) = fs_ok bus view s"
  "disk_content view (set_current_cluster f v s) = disk_content view s"
  "disk_content view (set_position f p s) = disk_content view s" "disk_content view (set_eof f p s) = disk_content view s"
  by (simp_all add: set_current_cluster_def set_position_def set_eof_def)

section \<open>Reading and writing along a chain\<close>

abbreviation (input) lba_of :: "('d, 'z) fs_scheme \<Rightarrow> u16 \<Rightarrow> nat" where
  "lba_of s c \<equiv> sector_index (cluster_lba c (mount_info s))"

text \<open>The size of the next transfer.\<close>

lemma transfer_size:
  fixes sz :: u32
  assumes "n = (if sz > 512 then 512 else sz)"
  shows "unat n = min 512 (unat sz)" "uint n = int (min 512 (unat sz))" "unat (sz - n) = unat sz - 512"
proof -
  show n: "unat n = min 512 (unat sz)" using assms by (auto simp: word_less_nat_alt min_def)
  then show "uint n = int (min 512 (unat sz))" by (metis uint_nat)
  have "n \<le> sz" using assms by auto
  then show "unat (sz - n) = unat sz - 512" by (simp add: unat_sub n)
qed

text \<open>One round of the write loop: the padded chunk goes to the current cluster's sector.\<close>

lemma write_round:
  fixes s :: "('d, 'z) fs_scheme"
  assumes "fs_ok bus view s" "off + n \<le> length buffer" "n \<le> 512"
  shows "\<exists>b s'. memset_arr (sector_buffer s) 0 0 512 = Inr (replicate 512 0) \<and>
    memcpy (replicate 512 0) 0 buffer (int off) (int n) 0 = Inr b \<and> b = take n (drop off buffer) @ replicate (512 - n) 0 \<and>
    store_sector bus lba (s\<lparr>sector_buffer := b\<rparr>) = Inr ((), s') \<and> file_frame f s s' \<and> mem s' = mem s \<and> fs_ok bus view s' \<and>
    disk_content view s' = (disk_content view s)(sector_index lba := b)"
proof -
  let ?b = "take n (drop off buffer) @ replicate (512 - n) 0"
  have "memset_arr (sector_buffer s) 0 0 512 = Inr (replicate 512 0)"
    using memset_arr_eq [of 0 512 "sector_buffer s" 0] fs_ok_buffer [OF assms(1)] by simp
  moreover have "memcpy (replicate 512 0) 0 buffer (int off) (int n) 0 = Inr ?b"
    using memcpy_eq [of off n buffer 0 "replicate 512 0"] assms(2,3) by simp
  moreover have "fs_ok bus view (s\<lparr>sector_buffer := ?b\<rparr>)"
    using assms by (simp add: fs_ok_def drive_inv_def terminal_of_def)
  from store_sector_spec [OF this, of lba] obtain s' where
    "store_sector bus lba (s\<lparr>sector_buffer := ?b\<rparr>) = Inr ((), s')" "io_only (s\<lparr>sector_buffer := ?b\<rparr>) s'" "fs_ok bus view s'"
    "disk_content view s' = (disk_content view s)(sector_index lba := ?b)" by auto
  moreover have "file_frame f s (s\<lparr>sector_buffer := ?b\<rparr>)"
    by (rule file_frame_io, unfold io_only_def)
      (intro exI [of _ "dev s"] exI [of _ "vidmem s"] exI [of _ ?b]; simp)
  then have "file_frame f s s'" by (rule file_frame_trans) (rule file_frame_io, fact)
  moreover have "mem s' = mem s" using io_only_fields(1) [OF calculation(4)] by simp
  ultimately show ?thesis by (intro exI [of _ ?b] exI [of _ s']) simp
qed

lemma io_only_handle:
  assumes "io_only s s'"
  shows "file_current_cluster f s' = file_current_cluster f s" "file_position f s' = file_position f s"
  using io_only_fields(1) [OF assms] by (simp_all add: file_current_cluster_def file_position_def)

lemma write_clusters_spec:
  fixes s :: "('d, 'z) fs_scheme"
  assumes "fs_ok bus view s" "chain_of s (file_current_cluster f s) ks" "apart f ks s" "off + unat sz \<le> length buffer"
  shows "\<exists>s'. write_clusters bus f buffer (int off) sz w s = Inr (w + of_nat (min (unat sz) (512 * length ks)), s') \<and>
    file_frame f s s' \<and> fs_ok bus view s' \<and>
    disk_content view s' = put_chunks (lba_of s) ks (take (unat sz) (drop off buffer)) (disk_content view s)"
  using assms
proof (induction ks arbitrary: s off sz w)
  case Nil
  then have "\<not> file_current_cluster f s < FAT12_EOF_MIN" by (simp add: not_less)
  with Nil(1) show ?case by (intro exI [of _ s]) (subst write_clusters.simps, simp add: file_frame_io)
next
  case (Cons k ks)
  show ?case
  proof (cases "sz = 0")
    case True
    with Cons.prems(1) show ?thesis by (intro exI [of _ s]) (simp add: write_clusters.simps file_frame_io)
  next
    case False
    then have sz: "0 < sz" "0 < unat sz" by (simp_all add: word_neq_0_conv unat_gt_0)
    define n where "n = (if sz > 512 then 512 else sz)"
    note n = transfer_size [OF n_def]
    let ?c = "file_current_cluster f s"
    have k: "k = ?c" "?c < FAT12_EOF_MIN" "chain_of s (get_next_cluster ?c s) ks" using Cons.prems(2) by auto
    have le: "off + unat n \<le> length buffer" "unat n \<le> 512" using Cons.prems(4) n(1) by auto
    obtain b s1 where s1: "memset_arr (sector_buffer s) 0 0 512 = Inr (replicate 512 0)"
      "memcpy (replicate 512 0) 0 buffer (int off) (int (unat n)) 0 = Inr b"
      "b = take (unat n) (drop off buffer) @ replicate (512 - unat n) 0"
      "store_sector bus (cluster_lba ?c (mount_info s)) (s\<lparr>sector_buffer := b\<rparr>) = Inr ((), s1)" "file_frame f s s1"
      "mem s1 = mem s" "fs_ok bus view s1"
      "disk_content view s1 = (disk_content view s)(lba_of s ?c := b)"
      using write_round [OF Cons.prems(1) le, of "cluster_lba ?c (mount_info s)" f] by blast
    have cur: "file_current_cluster f s1 = ?c" by (simp add: file_current_cluster_def s1(6))
    define s2 where "s2 = set_current_cluster f (get_next_cluster ?c s1) s1"
    have fr: "file_frame f s s2" unfolding s2_def using s1(5) update_frame(1) by (rule file_frame_trans)
    note m2 = file_frame_fields [OF fr]
    have "chain_of s2 (file_current_cluster f s2) ks"
      using k(1,3) chain_of_apart [OF fr apart_tl [OF Cons.prems(3)]] get_next_apart [OF s1(5) Cons.prems(3), of k]
      by (simp add: s2_def handle_updates)
    moreover have "off + unat n + unat (sz - n) \<le> length buffer" using Cons.prems(4) n(1,3) by auto
    moreover have "fs_ok bus view s2" using s1(7) by (simp add: s2_def)
    moreover have "apart f ks s2" using apart_tl [OF Cons.prems(3)] by (simp add: m2(3))
    ultimately obtain s' where s': "write_clusters bus f buffer (int (off + unat n)) (sz - n) (w + n) s2
        = Inr (w + n + of_nat (min (unat (sz - n)) (512 * length ks)), s')" "file_frame f s2 s'" "fs_ok bus view s'"
      "disk_content view s' = put_chunks (lba_of s2) ks (take (unat (sz - n)) (drop (off + unat n) buffer)) (disk_content view s2)"
      using Cons.IH by blast
    have un: "uint n = int (unat n)" using n(1,2) by simp
    have "write_clusters bus f buffer (int off) sz w s = write_clusters bus f buffer (int (off + unat n)) (sz - n) (w + n) s2"
      unfolding write_clusters.simps [of bus f buffer "int off" sz w s] Let_def n_def [symmetric] un s1(1) sum.case s1(2,4)
        bindk_simps fst_conv snd_conv cur s2_def of_nat_add
      using sz(1) k(2) by simp
    moreover have "w + n + of_nat (min (unat (sz - n)) (512 * length ks)) = w + of_nat (min (unat sz) (512 * length (k # ks)))"
    proof -
      have "min (unat sz) (512 * length (k # ks)) = unat n + min (unat (sz - n)) (512 * length ks)"
        using n(1,3) by auto
      then show ?thesis by simp
    qed
    moreover have "disk_content view s' = put_chunks (lba_of s) (k # ks) (take (unat sz) (drop off buffer)) (disk_content view s)"
    proof -
      let ?data = "take (unat sz) (drop off buffer)"
      have "length ?data = unat sz" using Cons.prems(4) by simp
      then have "?data \<noteq> []" "take 512 ?data @ replicate (512 - length ?data) 0 = b"
        using sz(2) by (auto simp: s1(3) n(1) min_def)
      moreover have "drop 512 ?data = take (unat (sz - n)) (drop (off + unat n) buffer)"
        using n(1,3) by (simp add: drop_take min_def add.commute)
      ultimately show ?thesis using s'(4) s1(8) k(1) m2(1) by (simp add: s2_def)
    qed
    ultimately show ?thesis using s'(1-3) file_frame_trans [OF fr] by (intro exI [of _ s']) simp
  qed
qed

lemma read_clusters_spec:
  fixes s :: "('d, 'z) fs_scheme"
  assumes "fs_ok bus view s" "chain_of s (file_current_cluster f s) ks" "apart f ks s" "off + unat sz \<le> length buffer"
    and "got = get_chunks (lba_of s) ks (unat sz) (disk_content view s)"
  shows "\<exists>s'. read_clusters bus f buffer (int off) sz r s
      = Inr ((r + of_nat (length got), take off buffer @ got @ drop (off + length got) buffer), s') \<and>
    file_frame f s s' \<and> fs_ok bus view s' \<and> disk_content view s' = disk_content view s"
  using assms
proof (induction ks arbitrary: s off sz r buffer got)
  case Nil
  then have "\<not> file_current_cluster f s < FAT12_EOF_MIN" by (simp add: not_less)
  with Nil(1,5) show ?case by (intro exI [of _ s]) (subst read_clusters.simps, simp add: file_frame_io)
next
  case (Cons k ks)
  show ?case
  proof (cases "sz = 0")
    case True
    with Cons.prems(1,5) show ?thesis by (intro exI [of _ s]) (simp add: read_clusters.simps file_frame_io)
  next
    case False
    then have sz: "0 < sz" "0 < unat sz" by (simp_all add: word_neq_0_conv unat_gt_0)
    define n where "n = (if sz > 512 then 512 else sz)"
    note n = transfer_size [OF n_def]
    have un: "uint n = int (unat n)" using n(1,2) by simp
    let ?c = "file_current_cluster f s" and ?D = "disk_content view s"
    have k: "k = ?c" "?c < FAT12_EOF_MIN" "chain_of s (get_next_cluster ?c s) ks" using Cons.prems(2) by auto
    have le: "off + unat n \<le> length buffer" "unat n \<le> 512" using Cons.prems(4) n(1) by auto
    obtain s1 where s1: "load_sector bus (cluster_lba ?c (mount_info s)) s = Inr ((), s1)" "io_only s s1" "fs_ok bus view s1"
      "disk_content view s1 = ?D" "sector_buffer s1 = ?D (lba_of s ?c)"
      using load_sector_spec [OF Cons.prems(1)] by blast
    let ?sb = "?D (lba_of s ?c)"
    let ?b1 = "take off buffer @ take (unat n) ?sb @ drop (off + unat n) buffer"
    have lsb: "length ?sb = 512" by (rule fs_ok_content [OF Cons.prems(1)])
    have cp: "memcpy buffer (int off) ?sb 0 (int (unat n)) 0 = Inr ?b1"
      using memcpy_eq [of 0 "unat n" ?sb off buffer] le lsb by simp
    note h1 = io_only_handle [OF s1(2), of f]
    define s2 where "s2 = set_position f (file_position f s1 + n) s1"
    define s3 where "s3 = set_current_cluster f (get_next_cluster ?c s2) s2"
    have cur2: "file_current_cluster f s2 = ?c" by (simp add: s2_def handle_updates h1)
    have fr2: "file_frame f s s2" unfolding s2_def using file_frame_io [OF s1(2)] update_frame(2) by (rule file_frame_trans)
    have fr: "file_frame f s s3" unfolding s3_def using fr2 update_frame(1) by (rule file_frame_trans)
    note m3 = file_frame_fields [OF fr]
    have "chain_of s3 (file_current_cluster f s3) ks"
      using k(1,3) chain_of_apart [OF fr apart_tl [OF Cons.prems(3)]] get_next_apart [OF fr2 Cons.prems(3), of k]
      by (simp add: s3_def handle_updates)
    moreover have "off + unat n + unat (sz - n) \<le> length ?b1" using Cons.prems(4) n(1,3) le lsb by auto
    moreover have "fs_ok bus view s3" using s1(3) by (simp add: s3_def s2_def)
    moreover have "apart f ks s3" using apart_tl [OF Cons.prems(3)] by (simp add: m3(3))
    moreover define got' where "got' = get_chunks (lba_of s3) ks (unat (sz - n)) (disk_content view s3)"
    ultimately obtain s' where s': "read_clusters bus f ?b1 (int (off + unat n)) (sz - n) (r + n) s3
        = Inr ((r + n + of_nat (length got'), take (off + unat n) ?b1 @ got' @ drop (off + unat n + length got') ?b1), s')"
      "file_frame f s3 s'" "fs_ok bus view s'" "disk_content view s' = disk_content view s3"
      using Cons.IH by blast
    have "read_clusters bus f buffer (int off) sz r s = read_clusters bus f ?b1 (int (off + unat n)) (sz - n) (r + n) s3"
      unfolding read_clusters.simps [of bus f buffer "int off" sz r s] s1(1) bindk_simps fst_conv snd_conv Let_def
        n_def [symmetric] un s1(5) cp sum.case s2_def [symmetric] cur2 s3_def [symmetric] of_nat_add
      using sz(1) k(2) by simp
    moreover have got: "got = take (unat n) ?sb @ got'" "length got = unat n + length got'"
    proof -
      have d3: "disk_content view s3 = ?D" by (simp add: s3_def s2_def s1(4))
      have "take (unat sz) ?sb = take (unat n) ?sb" using lsb by (simp add: n(1) min_def)
      then show g: "got = take (unat n) ?sb @ got'"
        using sz(2) Cons.prems(5) by (simp add: got'_def m3(1) d3 k(1) n(3))
      show "length got = unat n + length got'" using lsb le(2) by (simp add: g)
    qed
    moreover have "take (off + unat n) ?b1 @ got' @ drop (off + unat n + length got') ?b1
        = take off buffer @ got @ drop (off + length got) buffer"
      using le lsb by (simp add: got ac_simps)
    moreover have "disk_content view s' = ?D" by (simp add: s'(4) s3_def s2_def s1(4))
    ultimately show ?thesis using s'(1-3) file_frame_trans [OF fr] by (intro exI [of _ s']) (simp add: add.assoc)
  qed
qed

lemma fat12_write_spec:
  fixes s :: "('d, 'z) fs_scheme"
  assumes "fs_ok bus view s" "f \<noteq> 0" "chain_of s (file_first_cluster f s) ks" "apart f ks s" "unat sz \<le> length buffer"
  shows "\<exists>s'. fat12_write bus f buffer sz s = Inr (sint (of_nat (min (unat sz) (512 * length ks)) :: u32), s') \<and>
    file_frame f s s' \<and> fs_ok bus view s' \<and>
    disk_content view s' = put_chunks (lba_of s) ks (take (unat sz) buffer) (disk_content view s)"
proof -
  define s1 where "s1 = set_current_cluster f (file_first_cluster f s) s"
  have fr: "file_frame f s s1" unfolding s1_def by (rule update_frame)
  note m = file_frame_fields [OF fr]
  have "chain_of s1 (file_current_cluster f s1) ks"
    using assms(3) chain_of_apart [OF fr assms(4)] by (simp add: s1_def handle_updates)
  moreover have "fs_ok bus view s1" "apart f ks s1" using assms(1,4) m(3) by (simp_all add: s1_def)
  ultimately obtain s' where "write_clusters bus f buffer (int 0) sz 0 s1 = Inr (0 + of_nat (min (unat sz) (512 * length ks)), s')"
    "file_frame f s1 s'" "fs_ok bus view s'"
    "disk_content view s' = put_chunks (lba_of s1) ks (take (unat sz) (drop 0 buffer)) (disk_content view s1)"
    using write_clusters_spec [of bus view s1 f ks 0 sz buffer 0] assms(5) by auto
  with assms(2) fr m(1) show ?thesis
    by (intro exI [of _ s']) (auto simp: fat12_write_def Let_def s1_def intro: file_frame_trans)
qed

lemma fat12_read_spec:
  fixes s :: "('d, 'z) fs_scheme"
  assumes "fs_ok bus view s" "f \<noteq> 0" "file_eof f s = 0" "chain_of s (file_current_cluster f s) ks" "apart f ks s"
    and "n = min (unat sz) (unat (file_file_size f s - file_position f s))" "n \<le> length buffer"
    and "got = get_chunks (lba_of s) ks n (disk_content view s)"
  shows "\<exists>s'. fat12_read bus f buffer sz s = Inr ((sint (of_nat (length got) :: u32), got @ drop (length got) buffer), s') \<and>
    file_frame f s s' \<and> fs_ok bus view s' \<and> disk_content view s' = disk_content view s"
proof -
  let ?r = "file_file_size f s - file_position f s"
  define z where "z = (if sz > ?r then ?r else sz)"
  have z: "unat z = n" unfolding z_def assms(6) by (auto simp: word_less_nat_alt min_def)
  obtain s1 where s1: "read_clusters bus f buffer (int 0) z 0 s = Inr ((0 + of_nat (length got), take 0 buffer @ got @ drop (0 + length got) buffer), s1)"
    "file_frame f s s1" "fs_ok bus view s1" "disk_content view s1 = disk_content view s"
    using read_clusters_spec [of bus view s f ks 0 z buffer got 0] assms(1,4,5,7,8) z by auto
  define s2 where "s2 = (if file_current_cluster f s1 \<ge> FAT12_EOF_MIN then set_eof f 1 s1 else s1)"
  have "fat12_read bus f buffer sz s = Inr ((sint (of_nat (length got) :: u32), got @ drop (length got) buffer), s2)"
    using assms(2,3) s1(1) unfolding fat12_read_def Let_def z_def [symmetric] by (simp add: s2_def)
  moreover have "file_frame f s s2" using s1(2) file_frame_trans [OF s1(2) update_frame(3)] by (simp add: s2_def)
  ultimately show ?thesis using s1(3,4) by (intro exI [of _ s2]) (simp add: s2_def)
qed

section \<open>Properties\<close>

text \<open>A machine with the file of cluster 2, of 100 bytes, open twice, at 0xC0007000 and at 0xC0008000.\<close>

definition put_handle :: "u32 \<Rightarrow> u16 \<Rightarrow> u32 \<Rightarrow> pc fs \<Rightarrow> pc fs" where
  "put_handle f c sz s = s\<lparr>mem := wr32 (wr32 (wr32 (wr16 (wr16 (mem s) (f + 256) c) (f + 258) c) (f + 260) sz) (f + 264) 0) (f + 272) 0\<rparr>"

definition demo_open :: "pc fs" where
  "demo_open = put_handle 0xC0008000 2 100 (put_handle 0xC0007000 2 100 (set_cluster_value 2 FAT12_EOF demo_fs))"

lemma put_handle_fields:
  "handle f c c sz 0 0 (put_handle f c sz s)" "file_frame f s (put_handle f c sz s)"
  "fs_ok bus view (put_handle f c sz s) = fs_ok bus view s"
proof -
  show "handle f c c sz 0 0 (put_handle f c sz s)"
    by (simp add: put_handle_def handle_def file_current_cluster_def file_position_def file_eof_def file_file_size_def
        file_first_cluster_def rd16_def rd32_def wr16_def wr32_def add.assoc bytes16 bytes32)
  have ne: "x \<noteq> f + k" if "\<not> in_range f 276 x" "unat k < 276" for x k using in_range_offset [OF that(2)] that(1) by auto
  show "file_frame f s (put_handle f c sz s)" unfolding put_handle_def
    by (rule file_frame_mem) (simp add: wr16_def wr32_def add.assoc ne)
  show "fs_ok bus view (put_handle f c sz s) = fs_ok bus view s" by (simp add: put_handle_def)
qed

text \<open>Changes outside a handle leave its fields alone.\<close>

lemma handle_frame:
  assumes "file_frame f s s'" "\<forall>x. in_range g 276 x \<longrightarrow> \<not> in_range f 276 x"
  shows "file_first_cluster g s' = file_first_cluster g s" "file_current_cluster g s' = file_current_cluster g s"
    "file_file_size g s' = file_file_size g s" "file_position g s' = file_position g s" "file_eof g s' = file_eof g s"
proof -
  have e: "mem s' (g + k) = mem s (g + k)" if "unat k < 276" for k
    using assms(2) in_range_offset [OF that, of g] file_frame_fields(2) [OF assms(1)] by blast
  show "file_first_cluster g s' = file_first_cluster g s" "file_current_cluster g s' = file_current_cluster g s"
    "file_file_size g s' = file_file_size g s" "file_position g s' = file_position g s" "file_eof g s' = file_eof g s"
    by (simp_all add: file_first_cluster_def file_current_cluster_def file_file_size_def file_position_def file_eof_def
        rd16_def rd32_def e add.assoc)
qed

lemma in_range_num: "in_range (numeral a) n x \<Longrightarrow> unat (numeral a :: u32) + n \<le> 2 ^ 32 \<Longrightarrow>
  unat (numeral a :: u32) \<le> unat x \<and> unat x < unat (numeral a :: u32) + n"
  unfolding in_range_def unat_sub_if' using unat_lt32 [of x] by (auto split: if_splits)

lemma demo_apart: "apart 0xC0007000 [2] demo_open" "apart 0xC0008000 [2] demo_open"
  "\<forall>x. in_range 0xC0008000 276 x \<longrightarrow> \<not> in_range 0xC0007000 276 x" "\<forall>x. in_range 0xC0007000 276 x \<longrightarrow> \<not> in_range 0xC0008000 276 x"
proof -
  have o: "fat_offset 2 = 3" by (simp add: fat_offset_def)
  have b: "mount_info demo_open = mount_info demo_fs" by (simp add: demo_open_def put_handle_def)
  show "apart 0xC0007000 [2] demo_open" "apart 0xC0008000 [2] demo_open"
    by (auto simp: apart_def b o dest!: in_range_num)
  show "\<forall>x. in_range 0xC0008000 276 x \<longrightarrow> \<not> in_range 0xC0007000 276 x" "\<forall>x. in_range 0xC0007000 276 x \<longrightarrow> \<not> in_range 0xC0008000 276 x"
    by (auto dest!: in_range_num)
qed

lemma demo_open_facts:
  "fs_ok demo_bus (\<lambda>a. a) demo_open" "handle 0xC0007000 2 2 100 0 0 demo_open" "handle 0xC0008000 2 2 100 0 0 demo_open"
  "chain_of demo_open 2 [2]"
proof -
  let ?s = "set_cluster_value 2 FAT12_EOF demo_fs"
  let ?t = "put_handle 0xC0007000 2 100 ?s"
  have "fs_ok demo_bus (\<lambda>a. a) ?s"
    using demo_fs_ok set_cluster_value_mem [of 2 FAT12_EOF demo_fs] by auto
  then show "fs_ok demo_bus (\<lambda>a. a) demo_open" by (simp add: demo_open_def put_handle_fields)
  show "handle 0xC0008000 2 2 100 0 0 demo_open" by (simp add: demo_open_def put_handle_fields)
  show "handle 0xC0007000 2 2 100 0 0 demo_open"
  proof -
    have "handle 0xC0007000 2 2 100 0 0 ?t" by (rule put_handle_fields)
    then show ?thesis by (simp add: demo_open_def handle_def handle_frame [OF put_handle_fields(2) demo_apart(4)])
  qed
  have a: "apart 0xC0007000 [2] ?s" "apart 0xC0008000 [2] ?t"
    using demo_apart by (simp_all add: apart_def demo_open_def put_handle_def)
  have "get_next_cluster 2 demo_open = get_next_cluster 2 ?s"
    unfolding demo_open_def
    using get_next_apart [OF put_handle_fields(2) a(2), of 2] get_next_apart [OF put_handle_fields(2) a(1), of 2] by simp
  then show "chain_of demo_open 2 [2]" by (simp add: get_set_cluster)
qed

text \<open>
  C21: \<open>fat12_write\<close> follows the cluster chain: on a healthy drive, with the file's chain in the
  cached table, it returns the number of bytes that fit the chain, the sectors of the chain's
  clusters hold the data in pieces of 512 bytes, the last one padded with zeros, and no other sector changes.
\<close>

theorem fat12_write_along_chain:
  fixes s :: "('d, 'z) fs_scheme"
  assumes "fs_ok bus view s" "f \<noteq> 0" "chain_of s (file_first_cluster f s) ks" "apart f ks s" "unat sz \<le> length buffer"
  shows "\<exists>s'. fat12_write bus f buffer sz s = Inr (sint (of_nat (min (unat sz) (512 * length ks)) :: u32), s') \<and>
    file_frame f s s' \<and> fs_ok bus view s' \<and>
    disk_content view s' = put_chunks (lba_of s) ks (take (unat sz) buffer) (disk_content view s)"
  using assms by (rule fat12_write_spec)

lemma demo_open_chain:
  "chain_of demo_open (file_first_cluster 0xC0007000 demo_open) [2]" "file_eof 0xC0007000 demo_open = 0" "file_eof 0xC0008000 demo_open = 0"
  "chain_of demo_open (file_current_cluster 0xC0007000 demo_open) [2]"
  "file_current_cluster 0xC0008000 demo_open = file_first_cluster 0xC0007000 demo_open"
  "file_file_size 0xC0007000 demo_open - file_position 0xC0007000 demo_open = 100"
  "file_file_size 0xC0008000 demo_open - file_position 0xC0008000 demo_open = 100" "(0xC0007000 :: u32) \<noteq> 0" "(0xC0008000 :: u32) \<noteq> 0"
  using demo_open_facts(2-4) by (simp_all add: handle_def)

lemma demo_lba: "lba_of demo_open 2 = 4"
  by (simp add: demo_open_def put_handle_def cluster_lba_def sector_index_def)

theorem fat12_write_along_chain_witness:
  "\<exists>s'. fat12_write demo_bus 0xC0007000 (replicate 100 65) 100 demo_open = Inr (100, s') \<and>
     disk_content (\<lambda>a. a) s' 4 = replicate 100 65 @ replicate 412 0"
proof -
  have "unat (100 :: u32) \<le> length (replicate 100 (65 :: u8))" by simp
  from fat12_write_along_chain [OF demo_open_facts(1) demo_open_chain(8,1) demo_apart(1) this]
  show ?thesis by (auto simp: demo_lba min_def)
qed

text \<open>
  C22: \<open>fat12_read\<close> follows the cluster chain: it returns the smaller of the requested size and what
  is left of the file (as far as the chain goes), with that many bytes of the chain's sectors in
  the buffer; it changes nothing on disk and nothing in memory outside the handle.
\<close>

theorem fat12_read_along_chain:
  fixes s :: "('d, 'z) fs_scheme"
  assumes "fs_ok bus view s" "f \<noteq> 0" "file_eof f s = 0" "chain_of s (file_current_cluster f s) ks" "apart f ks s"
    and "n = min (unat sz) (unat (file_file_size f s - file_position f s))" "n \<le> length buffer"
    and "got = get_chunks (lba_of s) ks n (disk_content view s)"
  shows "\<exists>s'. fat12_read bus f buffer sz s = Inr ((sint (of_nat (length got) :: u32), got @ drop (length got) buffer), s') \<and>
    file_frame f s s' \<and> fs_ok bus view s' \<and> disk_content view s' = disk_content view s"
  using assms by (rule fat12_read_spec)

theorem fat12_read_along_chain_witness:
  "\<exists>got s'. fat12_read demo_bus 0xC0007000 (replicate 512 0) 200 demo_open = Inr ((100, got @ replicate 412 0), s') \<and>
     got = take 100 (disk_content (\<lambda>a. a) demo_open 4)"
proof -
  have n: "100 = min (unat (200 :: u32)) (unat (file_file_size 0xC0007000 demo_open - file_position 0xC0007000 demo_open))"
    "100 \<le> length (replicate 512 (0 :: u8))" by (simp_all add: demo_open_chain)
  have "length (disk_content (\<lambda>a. a) demo_open 4) = 512" by (rule fs_ok_content [OF demo_open_facts(1)])
  with fat12_read_along_chain [OF demo_open_facts(1) demo_open_chain(8,2,4) demo_apart(1) n refl] show ?thesis
    by (auto simp: demo_lba min_def)
qed

text \<open>
  C10: What was written is what is read: writing through one handle of a file and then reading
  through another that is still at its beginning gives back the bytes written, for any size that fits the
  file and its chain of clusters, if the clusters are on distinct sectors.
\<close>

theorem write_read_roundtrip:
  fixes s :: "('d, 'z) fs_scheme"
  assumes "fs_ok bus view s" "f \<noteq> 0" "g \<noteq> 0" "chain_of s (file_first_cluster f s) ks" "apart f ks s" "apart g ks s"
    and "\<forall>x. in_range g 276 x \<longrightarrow> \<not> in_range f 276 x"
    and "file_current_cluster g s = file_first_cluster f s" "file_eof g s = 0"
    and "unat sz \<le> unat (file_file_size g s - file_position g s)" "unat sz \<le> 512 * length ks" "unat sz < 2 ^ 31"
    and "unat sz \<le> length data" "unat sz \<le> length buf" "distinct (map (lba_of s) ks)"
  shows "\<exists>s' s''. fat12_write bus f data sz s = Inr (int (unat sz), s') \<and>
    fat12_read bus g buf sz s' = Inr ((int (unat sz), take (unat sz) data @ drop (unat sz) buf), s'')"
proof -
  let ?d = "take (unat sz) data"
  obtain s' where s': "fat12_write bus f data sz s = Inr (sint (of_nat (min (unat sz) (512 * length ks)) :: u32), s')"
    "file_frame f s s'" "fs_ok bus view s'" "disk_content view s' = put_chunks (lba_of s) ks ?d (disk_content view s)"
    using fat12_write_spec [OF assms(1,2,4,5,13)] by blast
  note h = handle_frame [OF s'(2) assms(7)] and m = file_frame_fields [OF s'(2)]
  have ld: "length ?d = unat sz" using assms(13) by simp
  have got: "get_chunks (lba_of s') ks (unat sz) (disk_content view s') = ?d"
    unfolding s'(4) m(1) using get_put_chunks [OF assms(15), of ?d "disk_content view s"] assms(11) by (simp only: ld)
  have c: "chain_of s' (file_current_cluster g s') ks"
    using assms(4,8) chain_of_apart [OF s'(2) assms(5)] by (simp add: h)
  have "file_eof g s' = 0" "apart g ks s'" using assms(6,9) by (simp_all add: h m(3))
  moreover have "unat sz = min (unat sz) (unat (file_file_size g s' - file_position g s'))" using assms(10) by (simp add: h)
  ultimately obtain s'' where r: "fat12_read bus g buf sz s' = Inr ((sint (of_nat (length ?d) :: u32), ?d @ drop (length ?d) buf), s'')"
    using fat12_read_spec [OF s'(3) assms(3) _ c _ _ assms(14) got [symmetric]] by blast
  have e: "sint (of_nat (unat sz) :: u32) = int (unat sz)"
  proof -
    from assms(12) have "int (unat sz) < int (2 ^ 31)" by (simp only: of_nat_less_iff)
    then have "uint sz < 2 ^ 31" by simp
    moreover have "0 \<le> uint sz" by simp
    then have "- (2 ^ 31) \<le> uint sz" by (rule order_trans [rotated]) simp
    ultimately show ?thesis using signed_take_bit_int_eq_self [of 31 "uint sz"] by (simp add: sint_uint)
  qed
  have "min (unat sz) (512 * length ks) = unat sz" using assms(11) by simp
  with s'(1) r show ?thesis unfolding ld e by (simp only: e) blast
qed

theorem write_read_roundtrip_witness:
  "\<exists>s' s''. fat12_write demo_bus 0xC0007000 (replicate 100 65) 100 demo_open = Inr (100, s') \<and>
     fat12_read demo_bus 0xC0008000 (replicate 100 0) 100 s' = Inr ((100, replicate 100 65), s'')"
proof -
  have n: "unat (100 :: u32) \<le> unat (file_file_size 0xC0008000 demo_open - file_position 0xC0008000 demo_open)"
    "unat (100 :: u32) \<le> 512 * length [2 :: u16]" "unat (100 :: u32) < 2 ^ 31"
    "unat (100 :: u32) \<le> length (replicate 100 (65 :: u8))" "unat (100 :: u32) \<le> length (replicate 100 (0 :: u8))"
    "distinct (map (lba_of demo_open) [2])" by (simp_all add: demo_open_chain)
  from write_read_roundtrip [OF demo_open_facts(1) demo_open_chain(8,9,1) demo_apart(1-3) demo_open_chain(5,3) n]
  show ?thesis by simp
qed

end
