(* ===== verification/Keyboard.thy ===== *)
theory Keyboard
  imports Files
begin

text \<open>
  \<^verbatim>\<open>drivers/keyboard.c\<close>: the scan code tables, the line being edited, the ring buffer of committed
  lines, the interrupt callback, and the copying loop of \<open>keyboard_read\<close>. The static arrays are
  lists, their accesses checked; the key state flags, which the code only sets to 0 and 1, are
  \<open>bool\<close>. The abstract view is a line editor in front of a queue of bytes.
\<close>

section \<open>State\<close>

record 'd kbd = "'d fs" +
  input_buffer :: "u8 list"
  read_pos :: int
  write_pos :: int
  line_buffer :: "u8 list"
  line_pos :: int
  shift_pressed :: bool
  ctrl_pressed :: bool
  alt_pressed :: bool
  caps_lock :: bool

abbreviation (input) BUFFER_SIZE :: int where "BUFFER_SIZE \<equiv> 256"

definition sc_ascii :: "u8 list" where
  "sc_ascii =
     cs ''??123456'' @ cs ''7890-='' @ [8, 9] @
     cs ''qwertyui'' @ cs ''op[]'' @ [10] @ cs ''?as'' @
     cs ''dfghjkl;'' @ [39] @ cs ''`?'' @ [92] @ cs ''zxcv'' @
     cs ''bnm,./?*'' @ cs ''? ??????'' @
     cs ''???????7'' @ cs ''89-456+1'' @ cs ''230.????'' @ cs ''?''"

definition sc_ascii_shift :: "u8 list" where
  "sc_ascii_shift =
     cs ''??!@#$%^'' @ cs ''&*()_+'' @ [8, 9] @
     cs ''QWERTYUI'' @ cs ''OP{}'' @ [10] @ cs ''?AS'' @
     cs ''DFGHJKL:'' @ [34] @ cs ''~?|ZXCV'' @
     cs ''BNM<>??*'' @ cs ''? ??????'' @
     cs ''???????7'' @ cs ''89-456+1'' @ cs ''230.????'' @ cs ''?''"

section \<open>Operations\<close>

definition scancode_to_ascii :: "u8 \<Rightarrow> bool \<Rightarrow> bool \<Rightarrow> u8" where
  "scancode_to_ascii scancode shift caps =
     (if scancode \<ge> 0x59 then 63
      else let c = (if shift then sc_ascii_shift ! unat scancode else sc_ascii ! unat scancode) in
        if caps \<and> c \<ge> 97 \<and> c \<le> 122 then (if shift then c else c - 32)
        else if caps \<and> c \<ge> 65 \<and> c \<le> 90 then (if shift then c + 32 else c)
        else c)"

text \<open>\<^verbatim>\<open>input_buffer[write_pos] = c; write_pos = (write_pos + 1) % BUFFER_SIZE\<close>.\<close>

definition put_input :: "u8 \<Rightarrow> ('d, 'z) kbd_scheme \<Rightarrow> (unit, ('d, 'z) kbd_scheme) result" where
  "put_input c s =
     (case arr_set (input_buffer s) (write_pos s) c of Inl e \<Rightarrow> Inl e | Inr b \<Rightarrow>
        Inr ((), s\<lparr>input_buffer := b, write_pos := (write_pos s + 1) smod BUFFER_SIZE\<rparr>))"

function commit_loop :: "int \<Rightarrow> int \<Rightarrow> ('d, 'z) kbd_scheme \<Rightarrow> (unit, ('d, 'z) kbd_scheme) result" where
  "commit_loop i n s =
     (if i < n
      then (case arr_get (line_buffer s) i of Inl e \<Rightarrow> Inl e | Inr c \<Rightarrow>
              bindk (put_input c s) (\<lambda>_ s. commit_loop (i + 1) n s))
      else Inr ((), s))"
  by pat_completeness auto
termination
  by (relation "measure (\<lambda>(i, n, s). nat (n - i))") auto

definition commit_line :: "('d, 'z) kbd_scheme \<Rightarrow> (unit, ('d, 'z) kbd_scheme) result" where
  "commit_line s =
     bindk (commit_loop 0 (line_pos s) s) (\<lambda>_ s.
     bindk (put_input 10 s) (\<lambda>_ s.
       Inr ((), s\<lparr>line_pos := 0\<rparr>)))"

text \<open>The last part of \<^verbatim>\<open>keyboard_callback\<close>: the character of a pressed key.\<close>

definition key_pressed :: "'d bus \<Rightarrow> u8 \<Rightarrow> ('d, 'z) kbd_scheme \<Rightarrow> (unit, ('d, 'z) kbd_scheme) result" where
  "key_pressed bus c s =
     (if c = 10 then bindk (printk bus [10] [] s) (\<lambda>_ s. commit_line s)
      else if c = 8 then
        if line_pos s > 0 then printk bus [8] [] (s\<lparr>line_pos := line_pos s - 1\<rparr>) else Inr ((), s)
      else if c \<noteq> 63 then
        if line_pos s < BUFFER_SIZE - 1
        then (case arr_set (line_buffer s) (line_pos s) c of Inl e \<Rightarrow> Inl e | Inr b \<Rightarrow>
                printk bus (cs ''%s'') [VStr [c]] (s\<lparr>line_buffer := b, line_pos := line_pos s + 1\<rparr>))
        else Inr ((), s)
      else Inr ((), s))"

definition keyboard_callback :: "'d bus \<Rightarrow> ('d, 'z) kbd_scheme \<Rightarrow> (unit, ('d, 'z) kbd_scheme) result" where
  "keyboard_callback bus s =
     (let (scancode, s) = port_byte_in bus 0x60 s;
          pressed = (scancode AND 0x80 = 0);
          scancode = scancode AND 0x7F in
      if scancode = 0x2A \<or> scancode = 0x36 then Inr ((), s\<lparr>shift_pressed := pressed\<rparr>)
      else if scancode = 0x1D then Inr ((), s\<lparr>ctrl_pressed := pressed\<rparr>)
      else if scancode = 0x38 then Inr ((), s\<lparr>alt_pressed := pressed\<rparr>)
      else if scancode = 0x3A \<and> pressed then Inr ((), s\<lparr>caps_lock := \<not> caps_lock s\<rparr>)
      else if \<not> pressed then Inr ((), s)
      else key_pressed bus (scancode_to_ascii scancode (shift_pressed s) (caps_lock s)) s)"

text \<open>\<^verbatim>\<open>has_complete_line\<close>: the scan from \<open>pos\<close> to \<open>write_pos\<close>; it need not end if the latter is no index.\<close>

partial_function (option) line_from :: "u8 list \<Rightarrow> int \<Rightarrow> int \<Rightarrow> (stop + bool) option" where
  "line_from b w pos =
     (if pos \<noteq> w
      then (case arr_get b pos of Inl e \<Rightarrow> Some (Inl e) | Inr c \<Rightarrow>
              if c = 10 then Some (Inr True) else line_from b w ((pos + 1) smod BUFFER_SIZE))
      else Some (Inr False))"

definition has_complete_line :: "('d, 'z) kbd_scheme \<Rightarrow> stop + bool" where
  "has_complete_line s = (case line_from (input_buffer s) (write_pos s) (read_pos s) of None \<Rightarrow> Inl Hang | Some r \<Rightarrow> r)"

text \<open>The copying loop of \<^verbatim>\<open>keyboard_read\<close>, and one round of it.\<close>

definition take_input :: "u32 \<Rightarrow> ('d, 'z) kbd_scheme \<Rightarrow> (unit, ('d, 'z) kbd_scheme) result" where
  "take_input a s =
     (case arr_get (input_buffer s) (read_pos s) of Inl e \<Rightarrow> Inl e | Inr c \<Rightarrow>
        Inr ((), s\<lparr>mem := (mem s)(a := c), read_pos := (read_pos s + 1) smod BUFFER_SIZE\<rparr>))"

function read_line :: "u32 \<Rightarrow> u32 \<Rightarrow> u32 \<Rightarrow> ('d, 'z) kbd_scheme \<Rightarrow> (u32, ('d, 'z) kbd_scheme) result" where
  "read_line user_buf count bytes_read s =
     (if bytes_read < count \<and> read_pos s \<noteq> write_pos s
      then bindk (take_input (user_buf + bytes_read) s) (\<lambda>_ s.
           let bytes_read = bytes_read + 1 in
           if mem s (user_buf + (bytes_read - 1)) = 10 then Inr (bytes_read, s)
           else read_line user_buf count bytes_read s)
      else Inr (bytes_read, s))"
  by pat_completeness auto
termination
proof (relation "measure (\<lambda>(a, n, i, s). unat (n - i))", goal_cases)
  case (2 a n i s x xa xb)
  then have "i + 1 \<le> n" "n - i \<noteq> 0" by (auto simp: inc_le)
  then show ?case using 2 by (simp add: diff_diff_add [symmetric] unat_minus_one unat_gt_0)
qed simp

declare commit_loop.simps [simp del] read_line.simps [simp del]

section \<open>The ring buffer as a queue\<close>

definition ring_items :: "u8 list \<Rightarrow> nat \<Rightarrow> nat \<Rightarrow> u8 list" where
  "ring_items b r n = map (\<lambda>i. b ! ((r + i) mod 256)) [0..<n]"

definition ring_count :: "int \<Rightarrow> int \<Rightarrow> nat" where
  "ring_count r w = nat ((w - r) mod 256)"

definition pending :: "('d, 'z) kbd_scheme \<Rightarrow> u8 list" where
  "pending s = ring_items (input_buffer s) (nat (read_pos s)) (ring_count (read_pos s) (write_pos s))"

definition typed :: "('d, 'z) kbd_scheme \<Rightarrow> u8 list" where
  "typed s = take (nat (line_pos s)) (line_buffer s)"

definition kbd_ok :: "('d, 'z) kbd_scheme \<Rightarrow> bool" where
  "kbd_ok s \<longleftrightarrow> length (input_buffer s) = 256 \<and> length (line_buffer s) = 256 \<and>
     0 \<le> read_pos s \<and> read_pos s < 256 \<and> 0 \<le> write_pos s \<and> write_pos s < 256 \<and>
     0 \<le> line_pos s \<and> line_pos s \<le> 255 \<and> set (typed s) \<inter> {8, 10, 63} = {}"

text \<open>What moving bytes through the ring buffer changes.\<close>

definition ring_only :: "('d, 'z) kbd_scheme \<Rightarrow> ('d, 'z) kbd_scheme \<Rightarrow> bool" where
  "ring_only s s' \<longleftrightarrow>
     (\<exists>b r w m. s' = s\<lparr>input_buffer := b, read_pos := r, write_pos := w, mem := m\<rparr>)"

lemma ring_only_refl: "ring_only s s"
  unfolding ring_only_def
  by (intro exI [of _ "input_buffer s"] exI [of _ "read_pos s"] exI [of _ "write_pos s"] exI [of _ "mem s"]) simp

lemma ring_only_trans: "ring_only s s' \<Longrightarrow> ring_only s' s'' \<Longrightarrow> ring_only s s''"
  unfolding ring_only_def by clarsimp (rule exI, rule exI, rule exI, rule exI, rule refl)

lemma ring_only_fields:
  assumes "ring_only s s'"
  shows "line_buffer s' = line_buffer s" "line_pos s' = line_pos s" "typed s' = typed s"
    "shift_pressed s' = shift_pressed s" "ctrl_pressed s' = ctrl_pressed s" "alt_pressed s' = alt_pressed s"
    "caps_lock s' = caps_lock s" "dev s' = dev s" "vidmem s' = vidmem s"
  using assms by (auto simp: ring_only_def typed_def)

lemma typed_update [simp]:
  "typed (s\<lparr>input_buffer := b\<rparr>) = typed s" "typed (s\<lparr>read_pos := i\<rparr>) = typed s"
  "typed (s\<lparr>write_pos := i\<rparr>) = typed s" "typed (s\<lparr>mem := m\<rparr>) = typed s"
  "typed (s\<lparr>dev := d\<rparr>) = typed s" "typed (s\<lparr>vidmem := v\<rparr>) = typed s"
  "typed (s\<lparr>shift_pressed := x\<rparr>) = typed s" "typed (s\<lparr>ctrl_pressed := x\<rparr>) = typed s"
  "typed (s\<lparr>alt_pressed := x\<rparr>) = typed s" "typed (s\<lparr>caps_lock := x\<rparr>) = typed s"
  by (simp_all add: typed_def)

lemma ring_items_length [simp]: "length (ring_items b r n) = n"
  by (simp add: ring_items_def)

lemma ring_items_Suc: "ring_items b r (Suc n) = b ! (r mod 256) # ring_items b (Suc r mod 256) n"
proof -
  have "map (\<lambda>i. b ! ((r + i) mod 256)) [Suc 0..<Suc n] = map (\<lambda>i. b ! ((Suc r mod 256 + i) mod 256)) [0..<n]"
    unfolding map_Suc_upt [symmetric] map_map by (simp add: mod_add_left_eq comp_def del: upt_Suc)
  then show ?thesis by (simp add: ring_items_def upt_conv_Cons del: upt_Suc)
qed

lemma ring_items_put:
  assumes "n < 256" "length b = 256"
  shows "ring_items (b[(r + n) mod 256 := c]) r (Suc n) = ring_items b r n @ [c]"
proof -
  have "(r + n) mod 256 \<noteq> (r + i) mod 256" if "i < n" for i
  proof
    assume "(r + n) mod 256 = (r + i) mod 256"
    then have "n mod 256 = i mod 256" by (simp add: nat_mod_eq_iff)
    with assms(1) that show False by simp
  qed
  then show ?thesis using assms by (simp add: ring_items_def nth_list_update)
qed

lemma ring_count_less: "ring_count r w < 256"
  by (simp add: ring_count_def nat_less_iff)

lemma ring_count_write:
  assumes "0 \<le> r" "r < 256" "0 \<le> w" "w < 256"
  shows "nat w = (nat r + ring_count r w) mod 256"
proof -
  have "(r + (w - r) mod 256) mod 256 = w" using assms by (simp add: mod_add_right_eq)
  then have "int ((nat r + ring_count r w) mod 256) = w" using assms by (simp add: ring_count_def zmod_int)
  then show ?thesis by linarith
qed

lemma ring_count_put:
  assumes "ring_count r w < 255" shows "ring_count r ((w + 1) mod 256) = Suc (ring_count r w)"
proof -
  have "(((w + 1) mod 256) - r) mod 256 = ((w - r) mod 256 + 1) mod 256" by (simp add: mod_simps algebra_simps)
  moreover have "(w - r) mod 256 < 255" using assms by (simp add: ring_count_def nat_less_iff)
  ultimately have "(((w + 1) mod 256) - r) mod 256 = (w - r) mod 256 + 1" by (simp add: mod_pos_pos_trivial)
  then show ?thesis by (simp add: ring_count_def nat_add_distrib)
qed

lemma ring_count_pull:
  assumes "0 < ring_count r w" shows "ring_count ((r + 1) mod 256) w = ring_count r w - 1"
proof -
  have "(w - ((r + 1) mod 256)) mod 256 = ((w - r) mod 256 - 1) mod 256" by (simp add: mod_simps algebra_simps)
  moreover have "0 < (w - r) mod 256" "(w - r) mod 256 < 256" using assms by (simp_all add: ring_count_def)
  ultimately have "(w - ((r + 1) mod 256)) mod 256 = (w - r) mod 256 - 1" by (simp add: mod_pos_pos_trivial)
  then show ?thesis by (simp add: ring_count_def nat_diff_distrib)
qed

lemma ring_count_0:
  assumes "0 \<le> r" "r < 256" "0 \<le> w" "w < 256"
  shows "ring_count r w = 0 \<longleftrightarrow> r = w"
  using ring_count_write [OF assms] assms by (auto simp: ring_count_def)

lemma put_input_law:
  assumes "kbd_ok s"
  shows "\<exists>s'. put_input c s = Inr ((), s') \<and> kbd_ok s' \<and> ring_only s s' \<and> mem s' = mem s \<and>
    (length (pending s) < 255 \<longrightarrow> pending s' = pending s @ [c])"
proof -
  let ?b = "(input_buffer s)[nat (write_pos s) := c]" and ?w = "(write_pos s + 1) mod 256"
  let ?s = "s\<lparr>input_buffer := ?b, write_pos := ?w\<rparr>"
  note ok = assms [unfolded kbd_ok_def]
  have "put_input c s = Inr ((), ?s)"
    using ok by (simp add: put_input_def arr_set_def smod_nonneg)
  moreover have "kbd_ok ?s" using ok by (simp add: kbd_ok_def)
  moreover have "ring_only s ?s"
    unfolding ring_only_def
    by (intro exI [of _ ?b] exI [of _ "read_pos s"] exI [of _ ?w] exI [of _ "mem s"]) simp
  moreover have "pending ?s = pending s @ [c]" if "length (pending s) < 255"
  proof -
    let ?n = "ring_count (read_pos s) (write_pos s)"
    have n: "?n < 255" using that by (simp add: pending_def)
    have w: "nat (write_pos s) = (nat (read_pos s) + ?n) mod 256"
      using ring_count_write [of "read_pos s" "write_pos s"] ok by simp
    have "pending ?s = ring_items ?b (nat (read_pos s)) (Suc ?n)"
      using ring_count_put [OF n] by (simp add: pending_def)
    also have "\<dots> = pending s @ [c]"
      unfolding w using n ok by (simp add: ring_items_put pending_def)
    finally show ?thesis .
  qed
  ultimately show ?thesis by auto
qed

lemma take_input_law:
  assumes "kbd_ok s" "pending s = c # q"
  shows "\<exists>s'. take_input a s = Inr ((), s') \<and> kbd_ok s' \<and> ring_only s s' \<and> mem s' = (mem s)(a := c) \<and>
    pending s' = q"
proof -
  let ?r = "(read_pos s + 1) mod 256" and ?m = "(mem s)(a := c)"
  let ?s = "s\<lparr>mem := ?m, read_pos := ?r\<rparr>"
  note ok = assms(1) [unfolded kbd_ok_def]
  obtain n where n: "ring_count (read_pos s) (write_pos s) = Suc n"
    using assms(2) by (cases "ring_count (read_pos s) (write_pos s)") (auto simp: pending_def ring_items_def)
  have items: "input_buffer s ! nat (read_pos s) = c" "ring_items (input_buffer s) (Suc (nat (read_pos s)) mod 256) n = q"
    using assms(2) ok by (auto simp: pending_def n ring_items_Suc)
  have "take_input a s = Inr ((), ?s)"
    using ok items(1) by (simp add: take_input_def arr_get_def smod_nonneg)
  moreover have "kbd_ok ?s" using ok by (simp add: kbd_ok_def)
  moreover have "ring_only s ?s"
    unfolding ring_only_def
    by (intro exI [of _ "input_buffer s"] exI [of _ ?r] exI [of _ "write_pos s"] exI [of _ ?m]) simp
  moreover have "pending ?s = q"
    using ring_count_pull [of "read_pos s" "write_pos s"] items(2) ok
    by (simp add: pending_def n nat_mod_distrib nat_add_distrib)
  ultimately show ?thesis by auto
qed

interpretation ring: byte_queue put_input take_input pending 255 "mem :: ('d, 'z) kbd_scheme \<Rightarrow> memory" kbd_ok ring_only
proof
  show "\<exists>s'. put_input c s = Inr ((), s') \<and> kbd_ok s' \<and> ring_only s s' \<and> mem s' = mem s \<and>
    (length (pending s) < 255 \<longrightarrow> pending s' = pending s @ [c])" if "kbd_ok s" for c and s :: "('d, 'z) kbd_scheme"
    using that by (rule put_input_law)
  show "\<exists>s'. take_input a s = Inr ((), s') \<and> kbd_ok s' \<and> ring_only s s' \<and> mem s' = (mem s)(a := c) \<and>
    pending s' = q" if "kbd_ok s" "pending s = c # q" for c q a and s :: "('d, 'z) kbd_scheme"
    using that by (rule take_input_law)
qed (rule ring_only_refl, rule ring_only_trans)

section \<open>Committing and reading a line\<close>

lemma put_input_line:
  "put_input c s = Inr ((), s') \<Longrightarrow> line_buffer s' = line_buffer s"
  by (auto simp: put_input_def split: sum.splits)

lemma commit_loop_eq:
  assumes "i \<le> n" "n \<le> length (line_buffer s)"
  shows "commit_loop (int i) (int n) s = put_list put_input (drop i (take n (line_buffer s))) s"
  using assms
proof (induction "n - i" arbitrary: i s)
  case 0
  then show ?case by (simp add: commit_loop.simps)
next
  case (Suc k)
  then have i: "i < n" by simp
  have "drop i (take n (line_buffer s)) = line_buffer s ! i # drop (Suc i) (take n (line_buffer s))"
    using i Suc.prems by (simp add: Cons_nth_drop_Suc [symmetric])
  moreover have "bindk (put_input c s) (\<lambda>_ s. commit_loop (int (Suc i)) (int n) s)
      = bindk (put_input c s) (\<lambda>_. put_list put_input (drop (Suc i) (take n (line_buffer s))))" for c
  proof (cases "put_input c s")
    case (Inr p)
    obtain s1 where p: "p = ((), s1)" by (cases p) auto
    have lb: "line_buffer s1 = line_buffer s" using put_input_line Inr p by blast
    show ?thesis
      unfolding Inr p using Suc.hyps(1) [of "Suc i" s1] Suc.hyps(2) Suc.prems i lb by simp
  qed simp
  ultimately show ?case
    using i Suc.prems unfolding commit_loop.simps [of "int i"] by (simp add: arr_get_nat add.commute)
qed

lemma commit_line_eq:
  assumes "kbd_ok s"
  shows "commit_line s = bindk (put_list put_input (typed s @ [10]) s) (\<lambda>_ s. Inr ((), s\<lparr>line_pos := 0\<rparr>))"
proof -
  have "nat (line_pos s) \<le> 256" using assms by (simp add: kbd_ok_def nat_le_iff)
  then have "commit_loop 0 (line_pos s) s = put_list put_input (typed s) s"
    using commit_loop_eq [of 0 "nat (line_pos s)" s] assms by (simp add: kbd_ok_def typed_def)
  moreover have "bindk (put_input 10 s) (\<lambda>_ s. Inr ((), s)) = put_input 10 s" for s :: "('a, 'b) kbd_scheme"
    by (cases "put_input 10 s") auto
  ultimately show ?thesis by (simp add: commit_line_def bindk_assoc put_list_append)
qed

text \<open>The characters delivered by a read of at most \<open>n\<close>: up to the first newline.\<close>

fun line_prefix :: "nat \<Rightarrow> u8 list \<Rightarrow> u8 list" where
  "line_prefix 0 xs = []"
| "line_prefix (Suc n) [] = []"
| "line_prefix (Suc n) (c # xs) = (if c = 10 then [c] else c # line_prefix n xs)"

lemma line_prefix_length: "length (line_prefix n xs) \<le> n"
  by (induction n xs rule: line_prefix.induct) auto

lemma line_prefix_line: "10 \<notin> set xs \<Longrightarrow> length xs < n \<Longrightarrow> line_prefix n (xs @ 10 # ys) = xs @ [10]"
proof (induction xs arbitrary: n)
  case Nil
  then show ?case by (cases n) auto
next
  case (Cons x xs)
  then show ?case by (cases n) auto
qed

lemma pending_empty: "kbd_ok s \<Longrightarrow> read_pos s = write_pos s \<longleftrightarrow> pending s = []"
  using ring_count_0 [of "read_pos s" "write_pos s"] by (auto simp: kbd_ok_def pending_def ring_items_def)

lemma read_line_spec:
  assumes "kbd_ok s" "i \<le> n"
  shows "\<exists>s'. read_line a n i s = Inr (i + of_nat (length (line_prefix (unat (n - i)) (pending s))), s') \<and>
    kbd_ok s' \<and> ring_only s s' \<and> mem s' = wr_bytes (mem s) (a + i) (line_prefix (unat (n - i)) (pending s)) \<and>
    pending s' = drop (length (line_prefix (unat (n - i)) (pending s))) (pending s)"
  using assms
proof (induction "pending s" arbitrary: i s)
  case Nil
  have "read_pos s = write_pos s" using pending_empty [OF Nil.prems(1)] Nil.hyps by simp
  moreover have "line_prefix k [] = []" for k by (cases k) auto
  ultimately show ?case
    using Nil.prems ring_only_refl [of s] unfolding read_line.simps [of a n i s]
    by (simp add: Nil.hyps [symmetric])
next
  case (Cons c q)
  have ne: "read_pos s \<noteq> write_pos s" using pending_empty [OF Cons.prems(1)] Cons.hyps(2) by auto
  show ?case
  proof (cases "i = n")
    case True
    then show ?thesis using Cons.prems ring_only_refl [of s] unfolding read_line.simps [of a n i s] by simp
  next
    case False
    then have i: "i < n" using Cons.prems(2) by simp
    then have "0 < unat (n - i)" by (simp add: unat_gt_0)
    with i have Suc: "unat (n - i) = Suc (unat (n - (i + 1)))" and le: "i + 1 \<le> n"
      using unat_minus_one [of "n - i"] by (auto simp: inc_le diff_diff_add)
    obtain s1 where s1: "take_input (a + i) s = Inr ((), s1)" "kbd_ok s1" "ring_only s s1"
      "mem s1 = (mem s)(a + i := c)" "pending s1 = q"
      using take_input_law [OF Cons.prems(1) Cons.hyps(2) [symmetric]] by blast
    have step: "read_line a n i s = (if c = 10 then Inr (i + 1, s1) else read_line a n (i + 1) s1)"
      unfolding read_line.simps [of a n i s] using i ne s1(1,4) by simp
    show ?thesis
    proof (cases "c = 10")
      case True
      then show ?thesis unfolding step Cons.hyps(2) [symmetric] Suc using s1 by auto
    next
      case False
      let ?l = "line_prefix (unat (n - (i + 1))) q"
      obtain s2 where s2: "read_line a n (i + 1) s1 = Inr (i + 1 + of_nat (length ?l), s2)" "kbd_ok s2" "ring_only s1 s2"
        "mem s2 = wr_bytes (mem s1) (a + (i + 1)) ?l" "pending s2 = drop (length ?l) q"
        using Cons.hyps(1) [of s1 "i + 1"] s1(2,5) le by auto
      have "ring_only s s2" using s1(3) s2(3) by (rule ring_only_trans)
      with s1 s2 False show ?thesis
        unfolding step Cons.hyps(2) [symmetric] Suc by (auto simp: algebra_simps)
    qed
  qed
qed

lemma line_from_eq:
  assumes "length b = 256" "r < 256" "w < 256" "ring_count (int r) (int w) = n"
  shows "line_from b (int w) (int r) = Some (Inr (10 \<in> set (ring_items b r n)))"
  using assms(2,4)
proof (induction n arbitrary: r)
  case 0
  then have "r = w" using ring_count_0 [of "int r" "int w"] assms(3) by simp
  then show ?case by (simp add: line_from.simps ring_items_def)
next
  case (Suc n)
  have ne: "int r \<noteq> int w" using ring_count_0 [of "int r" "int w"] Suc.prems assms(3) by simp
  have nxt: "(int r + 1) smod 256 = int (Suc r mod 256)" by (simp add: smod_nonneg zmod_int add.commute)
  have "ring_count (int (Suc r mod 256)) (int w) = n"
    using ring_count_pull [of "int r" "int w"] Suc.prems(2) by (simp add: zmod_int add.commute)
  then have "line_from b (int w) (int (Suc r mod 256)) = Some (Inr (10 \<in> set (ring_items b (Suc r mod 256) n)))"
    by (intro Suc.IH) simp_all
  then show ?case
    using ne Suc.prems(1) assms(1) unfolding line_from.simps [of b "int w" "int r"] nxt
    by (auto simp: arr_get_nat ring_items_Suc)
qed

lemma has_complete_line_eq:
  assumes "kbd_ok s" shows "has_complete_line s = Inr (10 \<in> set (pending s))"
proof -
  have "nat (read_pos s) < 256" "nat (write_pos s) < 256" using assms by (simp_all add: kbd_ok_def nat_less_iff)
  then have "line_from (input_buffer s) (write_pos s) (read_pos s) = Some (Inr (10 \<in> set (pending s)))"
    using line_from_eq [of "input_buffer s" "nat (read_pos s)" "nat (write_pos s)", OF _ _ _ refl] assms
    by (simp add: kbd_ok_def pending_def)
  then show ?thesis by (simp add: has_complete_line_def)
qed

section \<open>The line editor\<close>

text \<open>
  The abstract editor: the line being typed, the committed bytes not yet read, the modifier keys.
\<close>

record editor =
  ed_line :: "u8 list"
  ed_queue :: "u8 list"
  ed_shift :: bool
  ed_ctrl :: bool
  ed_alt :: bool
  ed_caps :: bool

definition edit_char :: "u8 \<Rightarrow> editor \<Rightarrow> editor" where
  "edit_char c e =
     (if c = 10 then e\<lparr>ed_queue := ed_queue e @ ed_line e @ [10], ed_line := []\<rparr>
      else if c = 8 then e\<lparr>ed_line := butlast (ed_line e)\<rparr>
      else if c = 63 \<or> 255 \<le> length (ed_line e) then e
      else e\<lparr>ed_line := ed_line e @ [c]\<rparr>)"

text \<open>The character a scan code stands for, if it is neither a release nor a modifier key.\<close>

definition key_char :: "u8 \<Rightarrow> editor \<Rightarrow> u8 option" where
  "key_char k e =
     (if bit k 7 \<or> k \<in> {0x2A, 0x36, 0x1D, 0x38, 0x3A} then None
      else Some (scancode_to_ascii k (ed_shift e) (ed_caps e)))"

definition key_event :: "u8 \<Rightarrow> editor \<Rightarrow> editor" where
  "key_event k e =
     (case key_char k e of
        Some c \<Rightarrow> edit_char c e
      | None \<Rightarrow>
          let code = k AND 0x7F; pressed = \<not> bit k 7 in
          if code \<in> {0x2A, 0x36} then e\<lparr>ed_shift := pressed\<rparr>
          else if code = 0x1D then e\<lparr>ed_ctrl := pressed\<rparr>
          else if code = 0x38 then e\<lparr>ed_alt := pressed\<rparr>
          else if code = 0x3A \<and> pressed then e\<lparr>ed_caps := \<not> ed_caps e\<rparr>
          else e)"

text \<open>What the editor shows for a character.\<close>

definition echo_char :: "u8 \<Rightarrow> editor \<Rightarrow> u8 list" where
  "echo_char c e =
     (if c = 10 then [10]
      else if c = 8 then (if ed_line e = [] then [] else [8])
      else if c = 63 \<or> 255 \<le> length (ed_line e) then []
      else [c])"

definition echo_key :: "u8 \<Rightarrow> editor \<Rightarrow> u8 list" where
  "echo_key k e = (case key_char k e of Some c \<Rightarrow> echo_char c e | None \<Rightarrow> [])"

definition editor_of :: "('d, 'z) kbd_scheme \<Rightarrow> editor" where
  "editor_of s = \<lparr>ed_line = typed s, ed_queue = pending s, ed_shift = shift_pressed s,
     ed_ctrl = ctrl_pressed s, ed_alt = alt_pressed s, ed_caps = caps_lock s\<rparr>"

lemma editor_of_sel [simp]:
  "ed_line (editor_of s) = typed s" "ed_queue (editor_of s) = pending s"
  "ed_shift (editor_of s) = shift_pressed s" "ed_caps (editor_of s) = caps_lock s"
  by (simp_all add: editor_of_def)

text \<open>All the keyboard interrupt may change.\<close>

definition kbd_frame :: "('d \<Rightarrow> pc) \<Rightarrow> ('d, 'z) kbd_scheme \<Rightarrow> ('d, 'z) kbd_scheme \<Rightarrow> bool" where
  "kbd_frame view s s' \<longleftrightarrow> (\<exists>d v b w l p sh ct al ca.
     s' = s\<lparr>dev := d, vidmem := v, input_buffer := b, write_pos := w, line_buffer := l, line_pos := p,
       shift_pressed := sh, ctrl_pressed := ct, alt_pressed := al, caps_lock := ca\<rparr> \<and>
     crtc_only (view (dev s)) (view d))"

lemma kbd_frameI:
  assumes "crtc_only (view (dev s)) (view d)"
    and "s' = s\<lparr>dev := d, vidmem := v, input_buffer := b, write_pos := w, line_buffer := l, line_pos := p,
      shift_pressed := sh, ctrl_pressed := ct, alt_pressed := al, caps_lock := ca\<rparr>"
  shows "kbd_frame view s s'"
  using assms unfolding kbd_frame_def by blast

lemma kbd_frame_fields:
  assumes "kbd_frame view s s'"
  shows "mem s' = mem s" "mount_info s' = mount_info s" "sector_buffer s' = sector_buffer s"
    "current_level s' = current_level s" "read_pos s' = read_pos s" "crtc_only (view (dev s)) (view (dev s'))"
    "kbd.more s' = kbd.more s"
  using assms by (auto simp: kbd_frame_def)

lemma kbd_frame_trans: "kbd_frame view s s' \<Longrightarrow> kbd_frame view s' s'' \<Longrightarrow> kbd_frame view s s''"
  unfolding kbd_frame_def
  by clarsimp (intro exI conjI, rule refl, rule crtc_only_trans)

lemma crtc_only_refl [simp]: "crtc_only a a"
  using crtc_onlyI(2) [of a "crtc_index a"] by simp

lemma screen_kbd:
  fixes s :: "('d, 'z) kbd_scheme"
  assumes "screen_only view s s'"
  shows "kbd_frame view s s'" "kbd_ok s' = kbd_ok s" "editor_of s' = editor_of s" "line_buffer s' = line_buffer s"
    "line_pos s' = line_pos s"
proof -
  obtain d v where s': "s' = s\<lparr>dev := d, vidmem := v\<rparr>" "crtc_only (view (dev s)) (view d)"
    using assms by (auto simp: screen_only_def)
  show "kbd_frame view s s'"
    by (rule kbd_frameI [where d = d and v = v and b = "input_buffer s" and w = "write_pos s"
          and l = "line_buffer s" and p = "line_pos s" and sh = "shift_pressed s" and ct = "ctrl_pressed s"
          and al = "alt_pressed s" and ca = "caps_lock s"]) (simp_all add: s')
qed (use assms in \<open>auto simp: screen_only_def kbd_ok_def editor_of_def pending_def\<close>)

lemma put_char_screen:
  fixes s :: "('d, 'z) io_scheme"
  assumes "pc_conforms bus view" "terminal_ok (terminal_of view s)" "c = 8 \<longrightarrow> 0 < snd (terminal_of view s)"
  shows "\<exists>s'. put_char bus c WHITE_ON_BLACK s = Inr ((), s') \<and> screen_only view s s' \<and>
    terminal_of view s' = text_puts [c] WHITE_ON_BLACK (terminal_of view s)"
proof -
  let ?t = "text_put c WHITE_ON_BLACK (terminal_of view s)"
  obtain d where d: "put_char bus c WHITE_ON_BLACK s = Inr ((), s\<lparr>dev := d, vidmem := fst ?t\<rparr>)"
    "crtc_only (view (dev s)) (view d)" "cursor_of (view d) = snd ?t"
    by (rule put_char_refines_ex [OF assms(1,2), of c WHITE_ON_BLACK])
      (use assms(3) in \<open>auto simp: terminal_of_def\<close>)
  have t: "terminal_of view (s\<lparr>dev := d, vidmem := fst ?t\<rparr>) = ?t" by (simp add: terminal_of_def d(3))
  moreover have "screen_only view s (s\<lparr>dev := d, vidmem := fst ?t\<rparr>)"
    unfolding screen_only_def t using d(2) terminal_ok_text_put [OF assms(2,3), of WHITE_ON_BLACK] by blast
  ultimately show ?thesis using d(1) by (auto simp: text_puts_def)
qed

lemma printk_char: "c \<noteq> 37 \<Longrightarrow> printk bus [c] [] s = put_char bus c WHITE_ON_BLACK s"
  by (simp add: printk_def)

lemma printk_string_char: "printk bus (cs ''%s'') [VStr [c]] s = put_char bus c WHITE_ON_BLACK s"
proof -
  have "render (cs ''%s'') [VStr [c]] = Some [c]" by (simp add: cs_def)
  then show ?thesis by (simp only: printk_def vformat_renders put_chars_single)
qed

lemma commit_line_spec:
  assumes "kbd_ok s"
  shows "\<exists>s'. commit_line s = Inr ((), s') \<and> kbd_ok s' \<and> kbd_frame view s s' \<and>
    terminal_of view s' = terminal_of view s \<and> typed s' = [] \<and>
    (length (pending s) + length (typed s) < 255 \<longrightarrow> editor_of s' = edit_char 10 (editor_of s))"
proof -
  obtain s1 where s1: "put_list put_input (typed s @ [10]) s = Inr ((), s1)" "kbd_ok s1" "ring_only s s1" "mem s1 = mem s"
    "length (pending s) + length (typed s @ [10]) \<le> 255 \<Longrightarrow> pending s1 = pending s @ typed s @ [10]"
    using ring.put_list_spec [OF assms, of "typed s @ [10]"] by auto
  have c: "commit_line s = Inr ((), s1\<lparr>line_pos := 0\<rparr>)" using s1(1) by (simp add: commit_line_eq [OF assms])
  obtain b r w m where e: "s1 = s\<lparr>input_buffer := b, read_pos := r, write_pos := w, mem := m\<rparr>"
    using s1(3) by (auto simp: ring_only_def)
  have "m = mem s" using s1(4) e by simp
  moreover have "put_list put_input xs s = Inr ((), s') \<Longrightarrow> read_pos s' = read_pos s" for xs s' and s :: "('a, 'b) kbd_scheme"
  proof (induction xs arbitrary: s)
    case (Cons c xs)
    then show ?case by (auto simp: bindk_eq_Inr_iff put_input_def split: sum.splits)
  qed simp
  then have "read_pos s1 = read_pos s" using s1(1) by blast
  then have "r = read_pos s" using e by simp
  ultimately have e': "s1 = s\<lparr>input_buffer := b, write_pos := w\<rparr>" using e by simp
  then have "kbd_frame view s (s1\<lparr>line_pos := 0\<rparr>)"
    by (intro kbd_frameI [where d = "dev s" and v = "vidmem s" and b = b and w = w
          and l = "line_buffer s" and p = 0 and sh = "shift_pressed s" and ct = "ctrl_pressed s"
          and al = "alt_pressed s" and ca = "caps_lock s"]) simp_all
  moreover have "kbd_ok (s1\<lparr>line_pos := 0\<rparr>)" using s1(2) by (simp add: kbd_ok_def typed_def)
  moreover have "terminal_of view (s1\<lparr>line_pos := 0\<rparr>) = terminal_of view s" by (simp add: e' terminal_of_def)
  moreover have "typed (s1\<lparr>line_pos := 0\<rparr>) = []" by (simp add: typed_def)
  moreover have "editor_of (s1\<lparr>line_pos := 0\<rparr>) = edit_char 10 (editor_of s)"
    if "length (pending s) + length (typed s) < 255"
  proof -
    have "pending (s1\<lparr>line_pos := 0\<rparr>) = pending s @ typed s @ [10]" using s1(5) that by (simp add: pending_def)
    then show ?thesis by (simp add: editor_of_def edit_char_def typed_def e')
  qed
  ultimately show ?thesis using c by auto
qed

lemma typed_store:
  assumes "kbd_ok s" "line_pos s < 255"
  shows "typed (s\<lparr>line_buffer := (line_buffer s)[nat (line_pos s) := c], line_pos := line_pos s + 1\<rparr>) = typed s @ [c]"
  using assms by (simp_all add: kbd_ok_def typed_def nat_add_distrib take_Suc_conv_app_nth)

lemma typed_erase:
  assumes "kbd_ok s" "0 < line_pos s"
  shows "typed (s\<lparr>line_pos := line_pos s - 1\<rparr>) = butlast (typed s)"
proof -
  have "nat (line_pos s) \<le> length (line_buffer s)" using assms(1) by (simp add: kbd_ok_def nat_le_iff)
  then show ?thesis using assms(2) by (simp add: typed_def nat_diff_distrib butlast_take)
qed

lemma typed_length: "kbd_ok s \<Longrightarrow> length (typed s) = nat (line_pos s)"
  unfolding kbd_ok_def typed_def length_take by linarith

lemma key_pressed_spec:
  fixes s :: "('d, 'z) kbd_scheme"
  assumes "pc_conforms bus view" "terminal_ok (terminal_of view s)" "kbd_ok s"
    and "c = 8 \<Longrightarrow> typed s \<noteq> [] \<Longrightarrow> 0 < snd (terminal_of view s)"
  shows "\<exists>s'. key_pressed bus c s = Inr ((), s') \<and> kbd_ok s' \<and> kbd_frame view s s' \<and>
    terminal_ok (terminal_of view s') \<and>
    terminal_of view s' = text_puts (echo_char c (editor_of s)) WHITE_ON_BLACK (terminal_of view s) \<and>
    typed s' = ed_line (edit_char c (editor_of s)) \<and>
    (c = 10 \<longrightarrow> length (pending s) + length (typed s) < 255 \<longrightarrow> editor_of s' = edit_char c (editor_of s)) \<and>
    (c \<noteq> 10 \<longrightarrow> editor_of s' = edit_char c (editor_of s))"
proof -
  have len: "length (typed s) = nat (line_pos s)" "0 \<le> line_pos s" "line_pos s \<le> 255" "length (line_buffer s) = 256"
    using assms(3) typed_length by (auto simp: kbd_ok_def)
  have same: "kbd_frame view s s"
    by (rule kbd_frameI [where d = "dev s" and v = "vidmem s" and b = "input_buffer s" and w = "write_pos s"
          and l = "line_buffer s" and p = "line_pos s" and sh = "shift_pressed s" and ct = "ctrl_pressed s"
          and al = "alt_pressed s" and ca = "caps_lock s"]) simp_all
  consider (enter) "c = 10" | (nothing) "c = 8 \<and> typed s = [] \<or> c = 63 \<or> c \<notin> {10, 8} \<and> 255 \<le> length (typed s)"
    | (erase) "c = 8" "typed s \<noteq> []" | (char) "c \<notin> {10, 8, 63}" "length (typed s) < 255"
    by force
  then show ?thesis
  proof cases
    case enter
    obtain s1 where s1: "put_char bus 10 WHITE_ON_BLACK s = Inr ((), s1)" "screen_only view s s1"
      "terminal_of view s1 = text_puts [10] WHITE_ON_BLACK (terminal_of view s)"
      using put_char_screen [OF assms(1,2), of 10] by auto
    note k = screen_kbd [OF s1(2)]
    obtain s2 where s2: "commit_line s1 = Inr ((), s2)" "kbd_ok s2" "kbd_frame view s1 s2"
      "terminal_of view s2 = terminal_of view s1" "typed s2 = []"
      "length (pending s1) + length (typed s1) < 255 \<Longrightarrow> editor_of s2 = edit_char 10 (editor_of s1)"
      using commit_line_spec [of s1 view] k(2) assms(3) by auto
    have pt: "pending s1 = pending s" "typed s1 = typed s" using k(3) by (simp_all add: editor_of_def)
    have "key_pressed bus c s = Inr ((), s2)" using s1(1) s2(1) by (simp add: key_pressed_def enter printk_char)
    moreover have "kbd_frame view s s2" using k(1) s2(3) by (rule kbd_frame_trans)
    ultimately show ?thesis
      using s1(3) s2 k(3) pt enter screen_only_ok [OF s1(2)] by (auto simp: echo_char_def edit_char_def)
  next
    case nothing
    then consider "c = 8" "typed s = []" | "c = 63" | "c \<notin> {10, 8}" "255 \<le> length (typed s)" by blast
    then have "key_pressed bus c s = Inr ((), s) \<and> edit_char c (editor_of s) = editor_of s \<and>
      echo_char c (editor_of s) = [] \<and> c \<noteq> 10"
      by cases (use len in \<open>auto simp: key_pressed_def edit_char_def echo_char_def editor_of_def\<close>)
    moreover from this have "typed s = ed_line (edit_char c (editor_of s))" by simp
    ultimately show ?thesis using assms(2,3) same by (simp add: text_puts_def)
  next
    case erase
    let ?s = "s\<lparr>line_pos := line_pos s - 1\<rparr>"
    have "0 < length (typed s)" using erase(2) by blast
    then have pos: "0 < line_pos s" unfolding len(1) by linarith
    have t: "terminal_of view ?s = terminal_of view s" by (simp add: terminal_of_def)
    obtain s1 where s1: "put_char bus 8 WHITE_ON_BLACK ?s = Inr ((), s1)" "screen_only view ?s s1"
      "terminal_of view s1 = text_puts [8] WHITE_ON_BLACK (terminal_of view s)"
      using put_char_screen [of bus view ?s 8, unfolded t] assms erase by auto
    note k = screen_kbd [OF s1(2)]
    have "kbd_frame view s ?s"
      by (rule kbd_frameI [where d = "dev s" and v = "vidmem s" and b = "input_buffer s" and w = "write_pos s"
          and l = "line_buffer s" and p = "line_pos s - 1" and sh = "shift_pressed s" and ct = "ctrl_pressed s"
          and al = "alt_pressed s" and ca = "caps_lock s"]) simp_all
    then have "kbd_frame view s s1" using k(1) by (rule kbd_frame_trans)
    moreover have "kbd_ok ?s"
      using assms(3) pos typed_erase [OF assms(3) pos] by (auto simp: kbd_ok_def dest: in_set_butlastD)
    moreover have "editor_of ?s = edit_char 8 (editor_of s)"
      using typed_erase [OF assms(3) pos] by (simp add: editor_of_def edit_char_def pending_def)
    moreover have "key_pressed bus c s = Inr ((), s1)" using s1(1) pos by (simp add: key_pressed_def erase printk_char)
    moreover have "typed s1 = ed_line (editor_of ?s)" using editor_of_sel(1) [of s1] k(3) by simp
    ultimately show ?thesis
      using s1(3) k erase screen_only_ok [OF s1(2)] by (auto simp: echo_char_def)
  next
    case char
    let ?s = "s\<lparr>line_buffer := (line_buffer s)[nat (line_pos s) := c], line_pos := line_pos s + 1\<rparr>"
    have lt: "line_pos s < 255" using char(2) unfolding len(1) by linarith
    have t: "terminal_of view ?s = terminal_of view s" by (simp add: terminal_of_def)
    obtain s1 where s1: "put_char bus c WHITE_ON_BLACK ?s = Inr ((), s1)" "screen_only view ?s s1"
      "terminal_of view s1 = text_puts [c] WHITE_ON_BLACK (terminal_of view s)"
      using put_char_screen [of bus view ?s c, unfolded t] assms char by auto
    note k = screen_kbd [OF s1(2)]
    have "kbd_frame view s ?s"
      by (rule kbd_frameI [where d = "dev s" and v = "vidmem s" and b = "input_buffer s" and w = "write_pos s"
          and l = "(line_buffer s)[nat (line_pos s) := c]" and p = "line_pos s + 1" and sh = "shift_pressed s"
          and ct = "ctrl_pressed s" and al = "alt_pressed s" and ca = "caps_lock s"]) simp_all
    then have "kbd_frame view s s1" using k(1) by (rule kbd_frame_trans)
    moreover have "kbd_ok ?s"
      using assms(3) lt char(1) typed_store [OF assms(3) lt, of c] by (auto simp: kbd_ok_def)
    moreover have "editor_of ?s = edit_char c (editor_of s)"
      using typed_store [OF assms(3) lt, of c] char by (simp add: editor_of_def edit_char_def pending_def)
    moreover have "key_pressed bus c s = Inr ((), s1)"
      using s1(1) lt len char by (simp add: key_pressed_def printk_string_char arr_set_def)
    moreover have "typed s1 = ed_line (editor_of ?s)" using editor_of_sel(1) [of s1] k(3) by simp
    ultimately show ?thesis
      using s1(3) k char screen_only_ok [OF s1(2)] by (auto simp: echo_char_def)
  qed
qed

lemma and_0x80: "k AND 0x80 = 0 \<longleftrightarrow> \<not> bit (k :: u8) 7"
  using and_exp_eq_0_iff_not_bit [of k 7] by simp

lemma and_0x7F: "\<not> bit (k :: u8) 7 \<Longrightarrow> k AND 0x7F = k"
proof -
  assume k: "\<not> bit k 7"
  have "k AND mask 7 = k"
    using k by (intro bit_word_eqI) (auto simp: bit_simps less_Suc_eq numeral_eq_Suc)
  then show ?thesis by (simp add: mask_eq_exp_minus_1)
qed

lemma keyboard_callback_spec:
  fixes s :: "('d, 'z) kbd_scheme"
  assumes "pc_conforms bus view" "terminal_ok (terminal_of view s)" "kbd_ok s"
    and "fst (bus_inb bus 0x60 (dev s)) = k"
    and "key_char k (editor_of s) = Some 8 \<Longrightarrow> typed s \<noteq> [] \<Longrightarrow> 0 < snd (terminal_of view s)"
  shows "\<exists>s'. keyboard_callback bus s = Inr ((), s') \<and> kbd_ok s' \<and> kbd_frame view s s' \<and>
    terminal_ok (terminal_of view s') \<and>
    terminal_of view s' = text_puts (echo_key k (editor_of s)) WHITE_ON_BLACK (terminal_of view s) \<and>
    typed s' = ed_line (key_event k (editor_of s)) \<and>
    ((key_char k (editor_of s) = Some 10 \<longrightarrow> length (pending s) + length (typed s) < 255) \<longrightarrow>
      editor_of s' = key_event k (editor_of s))"
proof -
  let ?d = "snd (bus_inb bus 0x60 (dev s))" and ?code = "k AND 0x7F" and ?p = "\<not> bit k 7"
  let ?s = "s\<lparr>dev := ?d\<rparr>"
  have v: "view ?d = view (dev s)" using view_inb [OF assms(1), of "0x60" "dev s"] by simp
  have t: "terminal_of view ?s = terminal_of view s" by (simp add: terminal_of_def v)
  have e: "editor_of ?s = editor_of s" "kbd_ok ?s" "typed ?s = typed s" "pending ?s = pending s"
    using assms(3) by (simp_all add: editor_of_def pending_def kbd_ok_def)
  have f: "kbd_frame view s (?s\<lparr>shift_pressed := sh, ctrl_pressed := ct, alt_pressed := al, caps_lock := ca\<rparr>)"
    for sh ct al ca
    by (rule kbd_frameI [where d = ?d and v = "vidmem s" and b = "input_buffer s" and w = "write_pos s"
          and l = "line_buffer s" and p = "line_pos s" and sh = sh and ct = ct and al = al and ca = ca]) (simp_all add: v)
  show ?thesis
  proof (cases "key_char k (editor_of s)")
    case (Some c)
    then have p: "\<not> bit k 7" "?code = k" "k \<notin> {0x2A, 0x36, 0x1D, 0x38, 0x3A}"
      "c = scancode_to_ascii k (shift_pressed s) (caps_lock s)"
      by (auto simp: key_char_def and_0x7F split: if_splits)
    have eq: "keyboard_callback bus s = key_pressed bus c ?s"
      using p by (simp add: keyboard_callback_def port_byte_in_def assms(4) and_0x80 case_prod_beta)
    obtain s' where s': "key_pressed bus c ?s = Inr ((), s')" "kbd_ok s'" "kbd_frame view ?s s'"
      "terminal_ok (terminal_of view s')"
      "terminal_of view s' = text_puts (echo_char c (editor_of s)) WHITE_ON_BLACK (terminal_of view s)"
      "typed s' = ed_line (edit_char c (editor_of s))"
      "c = 10 \<longrightarrow> length (pending s) + length (typed s) < 255 \<longrightarrow> editor_of s' = edit_char c (editor_of s)"
      "c \<noteq> 10 \<longrightarrow> editor_of s' = edit_char c (editor_of s)"
      using key_pressed_spec [of bus view ?s c, unfolded t e] assms(1,2,5) Some e(2) by auto
    have "kbd_frame view s ?s" using f [of "caps_lock s" "alt_pressed s" "ctrl_pressed s" "shift_pressed s"] by simp
    then have "kbd_frame view s s'" using s'(3) by (rule kbd_frame_trans)
    with s' eq show ?thesis by (auto simp: Some key_event_def echo_key_def)
  next
    case None
    then have m: "bit k 7 \<or> k \<in> {0x2A, 0x36, 0x1D, 0x38, 0x3A}" by (auto simp: key_char_def split: if_splits)
    define s' where "s' = (if ?code \<in> {0x2A, 0x36} then ?s\<lparr>shift_pressed := ?p\<rparr>
      else if ?code = 0x1D then ?s\<lparr>ctrl_pressed := ?p\<rparr> else if ?code = 0x38 then ?s\<lparr>alt_pressed := ?p\<rparr>
      else if ?code = 0x3A \<and> ?p then ?s\<lparr>caps_lock := \<not> caps_lock s\<rparr> else ?s)"
    have n: "?p \<Longrightarrow> ?code \<in> {0x2A, 0x36, 0x1D, 0x38, 0x3A}" using m by (simp add: and_0x7F)
    have "keyboard_callback bus s = Inr ((), s')"
      unfolding keyboard_callback_def port_byte_in_def assms(4) and_0x80 s'_def
      using n assms(4) by (auto simp: and_0x80)
    moreover have "kbd_ok s'" using e(2) by (simp add: s'_def kbd_ok_def)
    moreover have "kbd_frame view s s'"
      using f [of "caps_lock s" "alt_pressed s" "ctrl_pressed s" ?p] f [of "caps_lock s" "alt_pressed s" ?p "shift_pressed s"]
        f [of "caps_lock s" ?p "ctrl_pressed s" "shift_pressed s"]
        f [of "\<not> caps_lock s" "alt_pressed s" "ctrl_pressed s" "shift_pressed s"]
        f [of "caps_lock s" "alt_pressed s" "ctrl_pressed s" "shift_pressed s"]
      by (simp add: s'_def)
    moreover have tt: "terminal_of view s' = terminal_of view s" by (simp add: s'_def terminal_of_def v)
    moreover have "editor_of s' = key_event k (editor_of s)"
      by (unfold key_event_def None option.case) (simp add: s'_def editor_of_def pending_def)
    moreover from this have "typed s' = ed_line (key_event k (editor_of s))" by (metis editor_of_sel(1))
    ultimately show ?thesis using assms(2) None by (simp add: echo_key_def text_puts_def)
  qed
qed

lemma key_event_char: "key_char k e = Some c \<Longrightarrow> key_event k e = edit_char c e"
  by (simp add: key_event_def)

lemma keyboard_callback_char:
  assumes "fst (bus_inb bus 0x60 (dev s)) = k" "key_char k (editor_of s) = Some c"
  shows "keyboard_callback bus s = key_pressed bus c (s\<lparr>dev := snd (bus_inb bus 0x60 (dev s))\<rparr>)"
proof -
  have "\<not> bit k 7" "k AND 0x7F = k" "k \<notin> {0x2A, 0x36, 0x1D, 0x38, 0x3A}"
    "c = scancode_to_ascii k (shift_pressed s) (caps_lock s)"
    using assms(2) by (auto simp: key_char_def and_0x7F split: if_splits)
  then show ?thesis
    by (simp add: keyboard_callback_def port_byte_in_def assms(1) and_0x80 case_prod_beta)
qed

section \<open>Interrupts and reads in any order\<close>

text \<open>
  While a line is typed, the cursor is at least as far from the start of the screen as the line is
  long, also after scrolling: erasing a character is safe.
\<close>

lemma cursor_after_key:
  assumes "terminal_ok t" "length (ed_line e) \<le> snd t" "length (ed_line e) \<le> 255"
  shows "length (ed_line (key_event k e)) \<le> snd (text_puts (echo_key k e) WHITE_ON_BLACK t)"
proof (cases "key_char k e")
  case None
  then have "ed_line (key_event k e) = ed_line e" by (simp add: key_event_def Let_def)
  with None assms(2) show ?thesis by (simp add: echo_key_def text_puts_def)
next
  case (Some c)
  obtain v p where t: "t = (v, p)" by (cases t)
  consider "c = 10" | "c = 8" | "c = 63 \<or> 255 \<le> length (ed_line e)" "c \<notin> {10, 8}"
    | "c \<notin> {10, 8, 63}" "length (ed_line e) < 255" by force
  then show ?thesis
    by cases (use assms in \<open>auto simp: t Some key_event_def echo_key_def edit_char_def echo_char_def text_puts_def
      text_put_def terminal_ok_def Let_def\<close>)
qed

lemma cursor_after_char:
  assumes "terminal_ok t" "n \<le> snd t" "n \<le> 255" "c \<noteq> 8"
  shows "n \<le> snd (text_put c attr t)"
  using assms by (cases t) (auto simp: text_put_def terminal_ok_def Let_def)

text \<open>
  What the driver's code does in any order: a keyboard interrupt, after changes of the hardware that
  the drive and the screen do not see (a scan code arrives); the copying loop of a read, which runs
  with interrupts enabled, moves a byte; other kernel code puts a character that is not a backspace
  on the screen. Each rule hands on whatever the operation returns, so that an access outside an
  array (\<open>Wild\<close>) or a loop that does not end (\<open>Hang\<close>) is an outcome of the run like any other.
\<close>

inductive kbd_run :: "'d bus \<Rightarrow> ('d \<Rightarrow> pc) \<Rightarrow> ('d, 'z) kbd_scheme \<Rightarrow> (unit, ('d, 'z) kbd_scheme) result \<Rightarrow> bool"
  for bus view s where
  start: "kbd_run bus view s (Inr ((), s))"
| key: "kbd_run bus view s (Inr ((), t)) \<Longrightarrow> view d = view (dev t) \<Longrightarrow>
    kbd_run bus view s (keyboard_callback bus (t\<lparr>dev := d\<rparr>))"
| byte: "kbd_run bus view s (Inr ((), t)) \<Longrightarrow> read_pos t \<noteq> write_pos t \<Longrightarrow> kbd_run bus view s (take_input a t)"
| other: "kbd_run bus view s (Inr ((), t)) \<Longrightarrow> c \<noteq> 8 \<Longrightarrow> kbd_run bus view s (put_char bus c attr t)"

text \<open>What every run keeps; a line that is typed lies between the start of the screen and the cursor.\<close>

definition kbd_safe :: "('d \<Rightarrow> pc) \<Rightarrow> ('d, 'z) kbd_scheme \<Rightarrow> bool" where
  "kbd_safe view s \<longleftrightarrow> kbd_ok s \<and> terminal_ok (terminal_of view s) \<and> length (typed s) \<le> snd (terminal_of view s)"

lemma backspace_at_start:
  fixes s :: "('d, 'z) kbd_scheme"
  assumes "pc_conforms bus view" "fst (bus_inb bus 0x60 (dev s)) = k" "key_char k (editor_of s) = Some 8"
    "kbd_ok s" "typed s \<noteq> []" "snd (terminal_of view s) = 0"
  shows "keyboard_callback bus s = Inl Wild"
proof -
  let ?s = "s\<lparr>dev := snd (bus_inb bus 0x60 (dev s))\<rparr>"
  have "0 < length (typed s)" using assms(5) by blast
  then have pos: "0 < line_pos s" unfolding typed_length [OF assms(4)] by linarith
  have "cursor_of (view (snd (bus_inb bus 0x60 (dev s)))) = 0"
    using view_inb [OF assms(1), of "0x60" "dev s"] assms(6) by (simp add: terminal_of_def)
  then have "put_char bus 8 WHITE_ON_BLACK (?s\<lparr>line_pos := line_pos s - 1\<rparr>) = Inl Wild"
    by (intro put_char_at_start [OF assms(1)]) simp
  then show ?thesis
    using pos by (simp add: keyboard_callback_char [OF assms(2,3)] key_pressed_def printk_char)
qed

lemma typed_le: "kbd_ok s \<Longrightarrow> length (typed s) \<le> 255"
  using typed_length [of s] by (simp add: kbd_ok_def nat_le_iff)

lemma key_safe:
  fixes s :: "('d, 'z) kbd_scheme"
  assumes "pc_conforms bus view" "kbd_safe view s"
  shows "\<exists>s'. keyboard_callback bus s = Inr ((), s') \<and> kbd_safe view s'"
proof -
  let ?k = "fst (bus_inb bus 0x60 (dev s))"
  note ok = assms(2) [unfolded kbd_safe_def]
  have "0 < snd (terminal_of view s)" if "typed s \<noteq> []"
    using ok that by (cases "typed s") auto
  then obtain s' where s': "keyboard_callback bus s = Inr ((), s')" "kbd_ok s'" "terminal_ok (terminal_of view s')"
    "terminal_of view s' = text_puts (echo_key ?k (editor_of s)) WHITE_ON_BLACK (terminal_of view s)"
    "typed s' = ed_line (key_event ?k (editor_of s))"
    using keyboard_callback_spec [OF assms(1) _ _ refl] ok by blast
  have "length (ed_line (editor_of s)) \<le> 255"
    using typed_le [of s] ok by simp
  then have "length (typed s') \<le> snd (terminal_of view s')"
    unfolding s'(4,5) using ok by (intro cursor_after_key) simp_all
  with s' show ?thesis by (auto simp: kbd_safe_def)
qed

lemma byte_safe:
  fixes s :: "('d, 'z) kbd_scheme"
  assumes "kbd_safe view s" "read_pos s \<noteq> write_pos s"
  shows "\<exists>s'. take_input a s = Inr ((), s') \<and> kbd_safe view s'"
proof -
  note ok = assms(1) [unfolded kbd_safe_def]
  obtain c q where "pending s = c # q" using pending_empty [of s] ok assms(2) by (cases "pending s") auto
  from take_input_law [OF _ this, of a] ok obtain s' where
    s': "take_input a s = Inr ((), s')" "kbd_ok s'" "ring_only s s'" by auto
  from s'(3) have "typed s' = typed s" "terminal_of view s' = terminal_of view s"
    by (auto simp: ring_only_def typed_def terminal_of_def)
  with s' ok show ?thesis by (simp add: kbd_safe_def)
qed

lemma output_safe:
  fixes s :: "('d, 'z) kbd_scheme"
  assumes "pc_conforms bus view" "kbd_safe view s" "c \<noteq> 8"
  shows "\<exists>s'. put_char bus c attr s = Inr ((), s') \<and> kbd_safe view s'"
proof -
  note ok = assms(2) [unfolded kbd_safe_def]
  let ?t = "text_put c (if attr = 0 then WHITE_ON_BLACK else attr) (terminal_of view s)"
  have "length (typed s) \<le> 255" using typed_le [of s] ok by simp
  then have t: "terminal_ok ?t" "length (typed s) \<le> snd ?t"
    using ok assms(3) by (simp_all add: terminal_ok_text_put cursor_after_char)
  obtain d where d: "put_char bus c attr s = Inr ((), s\<lparr>dev := d, vidmem := fst ?t\<rparr>)" "cursor_of (view d) = snd ?t"
    by (rule put_char_refines_ex [OF assms(1), of s c attr]) (use ok assms(3) in auto)
  have "kbd_safe view (s\<lparr>dev := d, vidmem := fst ?t\<rparr>)"
    using t ok d(2) by (simp add: kbd_safe_def kbd_ok_def typed_def terminal_of_def)
  with d(1) show ?thesis by blast
qed

lemma kbd_run_safe:
  fixes s :: "('d, 'z) kbd_scheme"
  assumes "kbd_run bus view s r" "pc_conforms bus view" "kbd_safe view s"
  shows "\<exists>s'. r = Inr ((), s') \<and> kbd_safe view s'"
  using assms(1)
proof (induction rule: kbd_run.induct)
  case start
  show ?case using assms(3) by simp
next
  case (key t d)
  then have "kbd_safe view (t\<lparr>dev := d\<rparr>)" by (auto simp: kbd_safe_def kbd_ok_def typed_def terminal_of_def)
  then show ?case by (rule key_safe [OF assms(2)])
next
  case (byte t a)
  then show ?case by (intro byte_safe) simp_all
next
  case (other t c attr)
  then show ?case by (intro output_safe [OF assms(2)]) simp_all
qed

section \<open>A keyboard for the witnesses\<close>

text \<open>The demo machine with a keyboard controller that answers port 0x60 with a given scan code.\<close>

definition demo_kbus :: "(u8 \<times> pc) bus" where
  "demo_kbus = \<lparr>
     bus_inb = (\<lambda>port (k, a). if port = 0x60 then (k, (k, a))
       else (fst (bus_inb demo_bus port a), (k, snd (bus_inb demo_bus port a)))),
     bus_outb = (\<lambda>port v (k, a). (k, bus_outb demo_bus port v a)),
     bus_inw = (\<lambda>port (k, a). (fst (bus_inw demo_bus port a), (k, snd (bus_inw demo_bus port a)))),
     bus_outw = (\<lambda>port w (k, a). (k, bus_outw demo_bus port w a))\<rparr>"

lemma demo_kbus_conforms: "pc_conforms demo_kbus snd"
  using demo_bus_conforms unfolding pc_conforms_def demo_kbus_def by (auto simp: demo_bus_def)

lemma demo_kbus_key [simp]: "bus_inb demo_kbus 0x60 d = (fst d, d)"
  by (simp add: demo_kbus_def case_prod_beta)

definition demo_kbd :: "u8 \<Rightarrow> u8 list \<Rightarrow> (u8 \<times> pc) kbd" where
  "demo_kbd k l = \<lparr>mem = mem demo_fs, cr0 = cr0 demo_fs, cr3 = cr3 demo_fs, mem_mngr = mem_mngr demo_fs,
     mem_mngr_max_blocks = mem_mngr_max_blocks demo_fs, mem_mngr_used_blocks = mem_mngr_used_blocks demo_fs,
     mem_mngr_size = mem_mngr_size demo_fs, dev = (k, demo_pc), vidmem = replicate 4000 0,
     current_level = 1, cur_directory = cur_directory demo_fs, cur_pdbr = cur_pdbr demo_fs,
     kernel_directory = kernel_directory demo_fs, kernel_directory_physical = kernel_directory_physical demo_fs,
     invlpg_log = [], mount_info = mount_info demo_fs, sector_buffer = replicate 512 0,
     input_buffer = replicate 256 0, read_pos = 250, write_pos = 250,
     line_buffer = l @ replicate (256 - length l) 0, line_pos = int (length l),
     shift_pressed = False, ctrl_pressed = False, alt_pressed = False, caps_lock = True\<rparr>"

lemma demo_kbd_simps:
  "dev (demo_kbd k l) = (k, demo_pc)" "typed (demo_kbd k l) = l" "pending (demo_kbd k l) = []"
  "shift_pressed (demo_kbd k l) = False" "caps_lock (demo_kbd k l) = True"
  "mem (demo_kbd k l) = mem demo_fs" "terminal_of snd (demo_kbd k l) = (replicate 4000 0, 0)"
  by (simp_all add: demo_kbd_def typed_def pending_def ring_items_def ring_count_def terminal_of_def
    cursor_of_def demo_pc_def)

lemma demo_kbd_ok: "length l < 256 \<Longrightarrow> set l \<inter> {8, 10, 63} = {} \<Longrightarrow> kbd_ok (demo_kbd k l)"
  by (simp add: kbd_ok_def demo_kbd_simps) (simp add: demo_kbd_def)

lemma demo_kbd_terminal: "terminal_ok (terminal_of snd (demo_kbd k l))"
  by (simp add: demo_kbd_simps terminal_ok_def)

section \<open>Properties of the keyboard driver\<close>

definition letter :: "u8 \<Rightarrow> bool" where
  "letter c \<longleftrightarrow> 97 \<le> c \<and> c \<le> 122"

lemma sc_tables:
  "length sc_ascii = 89" "length sc_ascii_shift = 89"
  "list_all2 (\<lambda>a b. if letter a then b = a - 32 else \<not> letter b \<and> \<not> (65 \<le> a \<and> a \<le> 90) \<and> \<not> (65 \<le> b \<and> b \<le> 90))
     sc_ascii sc_ascii_shift"
  by (simp_all add: sc_ascii_def sc_ascii_shift_def cs_def letter_def)

lemma capital_range:
  assumes "97 \<le> c" "c \<le> (122 :: u8)"
  shows "65 \<le> c - 32" "c - 32 \<le> 90" "c - 32 < 97" "90 < c"
proof -
  have u: "97 \<le> unat c" "unat c \<le> 122" using assms by (simp_all add: word_le_nat_alt)
  have "unat (c - 32) = unat c - 32" using assms(1) by (subst unat_sub) (simp_all add: word_le_nat_alt)
  with u show "65 \<le> c - 32" "c - 32 \<le> 90" "c - 32 < 97" "90 < c"
    by (simp_all add: word_le_nat_alt word_less_nat_alt)
qed

lemma demo_codes: "\<not> bit (0x1E :: u8) 7" "\<not> bit (0x1C :: u8) 7"
  by (simp_all add: bit_numeral_rec numeral_eq_Suc bit_simps)

text \<open>
  Letters follow shift and caps lock together: a letter key gives its capital exactly when one
  of the two is on, every other key follows shift alone, and a code beyond the tables stands for no
  character.
\<close>

theorem scancode_layout:
  "scancode_to_ascii k shift caps =
     (if 0x59 \<le> k then 63
      else let c = sc_ascii ! unat k in
        if letter c then (if shift = caps then c else c - 32)
        else if shift then sc_ascii_shift ! unat k else c)"
proof (cases "k < 0x59")
  case True
  then have n: "unat k < 89" by (simp add: word_less_nat_alt)
  let ?a = "sc_ascii ! unat k" and ?b = "sc_ascii_shift ! unat k"
  have t: "if letter ?a then ?b = ?a - 32 else \<not> letter ?b \<and> \<not> (65 \<le> ?a \<and> ?a \<le> 90) \<and> \<not> (65 \<le> ?b \<and> ?b \<le> 90)"
    using sc_tables n by (auto simp: list_all2_conv_all_nth)
  show ?thesis
  proof (cases "letter ?a")
    case True
    then have c: "97 \<le> ?a" "?a \<le> 122" and b: "?b = ?a - 32" using t by (simp_all add: letter_def)
    note r = capital_range [OF c]
    show ?thesis
      using \<open>k < 0x59\<close> c r True b by (simp add: scancode_to_ascii_def Let_def linorder_not_le [symmetric])
  next
    case False
    then show ?thesis
      using t \<open>k < 0x59\<close> by (auto simp: scancode_to_ascii_def letter_def Let_def linorder_not_le [symmetric])
  qed
next
  case False
  then have "0x59 \<le> k" by simp
  then show ?thesis by (simp add: scancode_to_ascii_def)
qed

text \<open>
  C9: The keyboard interrupt implements a line editor: with room in the queue for a line that is
  entered, and the cursor not at the start of the screen when a character is erased, the typed line,
  the queue of committed bytes and the modifier keys are those of the abstract editor after the key,
  the screen shows its echo, and nothing but the driver's variables, the screen and the CRT
  controller changes.
\<close>

theorem keyboard_callback_refines:
  fixes s :: "('d, 'z) kbd_scheme"
  assumes "pc_conforms bus view" "terminal_ok (terminal_of view s)" "kbd_ok s"
    and "fst (bus_inb bus 0x60 (dev s)) = k"
    and "key_char k (editor_of s) = Some 8 \<Longrightarrow> typed s \<noteq> [] \<Longrightarrow> 0 < snd (terminal_of view s)"
    and "key_char k (editor_of s) = Some 10 \<Longrightarrow> length (pending s) + length (typed s) < 255"
  shows "\<exists>s'. keyboard_callback bus s = Inr ((), s') \<and> editor_of s' = key_event k (editor_of s) \<and>
    terminal_of view s' = text_puts (echo_key k (editor_of s)) WHITE_ON_BLACK (terminal_of view s) \<and>
    kbd_ok s' \<and> kbd_frame view s s'"
  using keyboard_callback_spec [OF assms(1-5)] assms(6) by blast

theorem keyboard_callback_refines_witness:
  "(\<exists>s'. keyboard_callback demo_kbus (demo_kbd 0x1E (cs ''l'')) = Inr ((), s') \<and> typed s' = cs ''lA'') \<and>
   (\<exists>s'. keyboard_callback demo_kbus (demo_kbd 0x1C (cs ''ls'')) = Inr ((), s') \<and> pending s' = cs ''ls'' @ [10])"
proof -
  have e: "key_char 0x1E (editor_of (demo_kbd 0x1E (cs ''l''))) = Some 65"
    "key_char 0x1C (editor_of (demo_kbd 0x1C (cs ''ls''))) = Some 10"
    by (simp_all add: key_char_def demo_kbd_simps demo_codes scancode_to_ascii_def sc_ascii_def cs_def)
  have ok: "kbd_ok (demo_kbd 0x1E (cs ''l''))" "kbd_ok (demo_kbd 0x1C (cs ''ls''))"
    by (rule demo_kbd_ok; simp add: cs_def)+
  have "\<exists>s'. keyboard_callback demo_kbus (demo_kbd 0x1E (cs ''l'')) = Inr ((), s') \<and> typed s' = cs ''lA''"
  proof -
    obtain s' where "keyboard_callback demo_kbus (demo_kbd 0x1E (cs ''l'')) = Inr ((), s')"
      "editor_of s' = key_event 0x1E (editor_of (demo_kbd 0x1E (cs ''l'')))"
      using keyboard_callback_refines [OF demo_kbus_conforms demo_kbd_terminal ok(1), of "0x1E"] e(1)
      by (auto simp: demo_kbd_simps)
    moreover have "ed_line (edit_char 65 (editor_of (demo_kbd 0x1E (cs ''l'')))) = cs ''lA''"
      by (simp add: edit_char_def demo_kbd_simps) (simp add: cs_def)
    ultimately show ?thesis by (metis key_event_char [OF e(1)] editor_of_sel(1))
  qed
  moreover have "\<exists>s'. keyboard_callback demo_kbus (demo_kbd 0x1C (cs ''ls'')) = Inr ((), s') \<and> pending s' = cs ''ls'' @ [10]"
  proof -
    obtain s' where "keyboard_callback demo_kbus (demo_kbd 0x1C (cs ''ls'')) = Inr ((), s')"
      "editor_of s' = key_event 0x1C (editor_of (demo_kbd 0x1C (cs ''ls'')))"
      using keyboard_callback_refines [OF demo_kbus_conforms demo_kbd_terminal ok(2), of "0x1C"] e(2)
      by (auto simp: demo_kbd_simps cs_def)
    with editor_of_sel(2) [of s'] show ?thesis
      by (auto simp: key_event_char [OF e(2)] edit_char_def demo_kbd_simps)
  qed
  ultimately show ?thesis by blast
qed

text \<open>
  C14: The keyboard driver never leaves its buffers. Start where its positions are inside the arrays
  and the line being typed is no longer than the distance of the cursor from the start of the screen
  (as when it has been echoed there). However keyboard interrupts, the copying of bytes to a reader
  and other output have interleaved, no operation left an array or failed to return: the only
  outcome of a run is a state of that kind again, no byte of the line being typed is a newline, a
  backspace or the mark of an unmapped key, the scan for a complete line ends with the right answer,
  and a read ends with the bytes up to the first newline, at most as many as asked for.
\<close>

theorem keyboard_interleaving_safe:
  fixes s :: "('d, 'z) kbd_scheme"
  assumes "pc_conforms bus view" "terminal_ok (terminal_of view s)" "kbd_ok s"
    and "length (typed s) \<le> snd (terminal_of view s)" "kbd_run bus view s r"
  shows "\<exists>s'. r = Inr ((), s') \<and> kbd_ok s' \<and> terminal_ok (terminal_of view s') \<and>
    length (typed s') \<le> snd (terminal_of view s') \<and> has_complete_line s' = Inr (10 \<in> set (pending s')) \<and>
    (\<forall>a n. \<exists>k s''. read_line a n 0 s' = Inr (of_nat k, s'') \<and> k \<le> unat n \<and>
      k = length (line_prefix (unat n) (pending s')) \<and> pending s'' = drop k (pending s'))"
proof -
  obtain s' where s': "r = Inr ((), s')" "kbd_safe view s'"
    using kbd_run_safe [OF assms(5,1)] assms(2-4) by (auto simp: kbd_safe_def)
  note ok = s'(2) [unfolded kbd_safe_def]
  have "\<exists>k s''. read_line a n 0 s' = Inr (of_nat k, s'') \<and> k \<le> unat n \<and>
      k = length (line_prefix (unat n) (pending s')) \<and> pending s'' = drop k (pending s')" for a n
    using read_line_spec [of s' 0 n a] ok line_prefix_length [of "unat n" "pending s'"] by auto
  then show ?thesis using s'(1) ok has_complete_line_eq [of s'] by blast
qed

theorem keyboard_interleaving_safe_witness:
  "\<exists>s1 s2 s'. keyboard_callback demo_kbus (demo_kbd 0x1C []) = Inr ((), s1) \<and> pending s1 = [10] \<and>
     take_input 0x5000 s1 = Inr ((), s2) \<and> keyboard_callback demo_kbus (s2\<lparr>dev := (0x1E, snd (dev s2))\<rparr>) = Inr ((), s') \<and>
     kbd_ok s' \<and> has_complete_line s' = Inr (10 \<in> set (pending s'))"
proof -
  let ?s = "demo_kbd 0x1C []"
  have ok: "kbd_ok ?s" by (rule demo_kbd_ok) simp_all
  have cur: "length (typed ?s) \<le> snd (terminal_of snd ?s)" by (simp add: demo_kbd_simps)
  note safe = keyboard_interleaving_safe [OF demo_kbus_conforms demo_kbd_terminal ok cur]
  have e: "key_char 0x1C (editor_of ?s) = Some 10"
    by (simp add: key_char_def demo_kbd_simps demo_codes scancode_to_ascii_def sc_ascii_def cs_def)
  have r1: "kbd_run demo_kbus snd ?s (keyboard_callback demo_kbus ?s)"
    using kbd_run.key [OF kbd_run.start, of snd "dev ?s" ?s demo_kbus] by simp
  obtain s1 where s1: "keyboard_callback demo_kbus ?s = Inr ((), s1)" "editor_of s1 = key_event 0x1C (editor_of ?s)" "kbd_ok s1"
    using keyboard_callback_spec [OF demo_kbus_conforms demo_kbd_terminal ok, of "0x1C"] e by (auto simp: demo_kbd_simps)
  have p: "pending s1 = [10]"
    using editor_of_sel(2) [of s1] by (simp add: s1(2) key_event_char [OF e] edit_char_def demo_kbd_simps)
  then have "read_pos s1 \<noteq> write_pos s1" using pending_empty [OF s1(3)] by simp
  from kbd_run.byte [OF r1 [unfolded s1(1)] this, of "0x5000"]
  have r2: "kbd_run demo_kbus snd ?s (take_input 0x5000 s1)" .
  from safe [OF this] obtain s2 where s2: "take_input 0x5000 s1 = Inr ((), s2)" by blast
  have "kbd_run demo_kbus snd ?s (keyboard_callback demo_kbus (s2\<lparr>dev := (0x1E, snd (dev s2))\<rparr>))"
    by (rule kbd_run.key [OF r2 [unfolded s2]]) simp
  from safe [OF this] show ?thesis using s1(1) p s2 by blast
qed

lemma put_list_write_pos:
  assumes "kbd_ok s" "put_list put_input xs s = Inr ((), s')"
  shows "write_pos s' = (write_pos s + int (length xs)) mod 256"
  using assms
proof (induction xs arbitrary: s)
  case Nil
  then show ?case by (simp add: kbd_ok_def)
next
  case (Cons c xs)
  then obtain s1 where s1: "put_input c s = Inr ((), s1)" "put_list put_input xs s1 = Inr ((), s')"
    by (auto simp: bindk_eq_Inr_iff)
  have "kbd_ok s1" using put_input_law [OF Cons.prems(1), of c] s1(1) by auto
  moreover have "write_pos s1 = (write_pos s + 1) mod 256"
    using s1(1) Cons.prems(1) by (auto simp: put_input_def smod_nonneg kbd_ok_def split: sum.splits)
  ultimately show ?case using Cons.IH [OF _ s1(2)] by (simp add: mod_simps add.commute add.left_commute)
qed

lemma commit_full_line:
  assumes "kbd_ok s" "pending s = []" "length (typed s) = 255"
  shows "\<exists>s'. commit_line s = Inr ((), s') \<and> kbd_ok s' \<and> pending s' = [] \<and> typed s' = []"
proof -
  obtain s1 where s1: "put_list put_input (typed s @ [10]) s = Inr ((), s1)"
    using ring.put_list_spec [OF assms(1), of "typed s @ [10]"] by auto
  have c: "commit_line s = Inr ((), s1\<lparr>line_pos := 0\<rparr>)" using s1 by (simp add: commit_line_eq [OF assms(1)])
  obtain s2 where s2: "commit_line s = Inr ((), s2)" "kbd_ok s2" "kbd_frame (\<lambda>_. demo_pc) s s2"
    using commit_line_spec [OF assms(1)] by blast
  have e: "s2 = s1\<lparr>line_pos := 0\<rparr>" using c s2(1) by simp
  have "write_pos s2 = write_pos s"
    using put_list_write_pos [OF assms(1) s1] assms(1,3) by (simp add: e kbd_ok_def)
  moreover have "read_pos s2 = read_pos s" using s2(3) by (rule kbd_frame_fields)
  moreover have "read_pos s = write_pos s" using pending_empty [OF assms(1)] assms(2) by simp
  ultimately have "pending s2 = []" using pending_empty [OF s2(2)] by simp
  moreover have "typed s2 = []" by (simp add: e typed_def)
  ultimately show ?thesis using s2 by blast
qed

text \<open>
  C37: A line of 255 characters, which the driver accepts, is lost: the 256 bytes committed by Enter
  turn the ring buffer round exactly once, so that it is empty again and no complete line is seen.
\<close>

theorem full_line_is_lost:
  fixes s :: "('d, 'z) kbd_scheme"
  assumes "pc_conforms bus view" "terminal_ok (terminal_of view s)" "kbd_ok s"
    and "fst (bus_inb bus 0x60 (dev s)) = 0x1C" "pending s = []" "length (typed s) = 255"
  shows "\<exists>s'. keyboard_callback bus s = Inr ((), s') \<and> typed s' = [] \<and> pending s' = [] \<and>
    has_complete_line s' = Inr False"
proof -
  let ?s = "s\<lparr>dev := snd (bus_inb bus 0x60 (dev s))\<rparr>"
  have k: "key_char 0x1C (editor_of s) = Some 10"
    by (simp add: key_char_def demo_codes scancode_to_ascii_def sc_ascii_def sc_ascii_shift_def cs_def)
  have t: "terminal_of view ?s = terminal_of view s"
    using view_inb [OF assms(1), of "0x60" "dev s"] by (simp add: terminal_of_def)
  have ok: "kbd_ok ?s" "pending ?s = []" "length (typed ?s) = 255"
    using assms(3,5,6) by (simp_all add: kbd_ok_def pending_def)
  obtain s1 where s1: "put_char bus 10 WHITE_ON_BLACK ?s = Inr ((), s1)" "screen_only view ?s s1"
    using put_char_screen [of bus view ?s 10] assms(1,2) t by auto
  note fr = screen_kbd [OF s1(2)]
  have "pending s1 = []" "typed s1 = typed ?s" using fr(3) ok(2) by (simp_all add: editor_of_def)
  then obtain s2 where "commit_line s1 = Inr ((), s2)" "kbd_ok s2" "pending s2 = []" "typed s2 = []"
    using commit_full_line [of s1] fr(2) ok by auto
  then show ?thesis
    using s1(1) has_complete_line_eq [of s2]
    by (auto simp: keyboard_callback_char [OF assms(4) k] key_pressed_def printk_char)
qed

theorem full_line_is_lost_witness:
  "\<exists>s'. keyboard_callback demo_kbus (demo_kbd 0x1C (replicate 255 97)) = Inr ((), s') \<and> pending s' = [] \<and>
     has_complete_line s' = Inr False"
proof -
  have "kbd_ok (demo_kbd 0x1C (replicate 255 97))" by (rule demo_kbd_ok) simp_all
  from full_line_is_lost [OF demo_kbus_conforms demo_kbd_terminal this]
  show ?thesis by (auto simp: demo_kbd_simps)
qed

end
