(* ===== verification/Interrupts.thy ===== *)
theory Interrupts
  imports Keyboard
begin

text \<open>
  \<^verbatim>\<open>cpu/idt.c\<close>, \<^verbatim>\<open>cpu/isr.c\<close>, \<^verbatim>\<open>cpu/timer.c\<close> and the blocking read of \<^verbatim>\<open>drivers/keyboard.c\<close>: the
  interrupt descriptor table, the table of handlers and its dispatch. The handlers the kernel
  registers are a datatype in the place of function pointers. The interrupts the hardware will raise
  are a list in the state: each has a number and what the hardware does to itself when it raises it
  (the keyboard controller latches a scan code); \<open>hlt\<close> takes the next one, and waits for ever if
  there is none. The addresses of the assembly stubs are the parameter \<open>vec\<close>.
\<close>

section \<open>State\<close>

record idt_gate_t =
  low_offset :: u16
  sel :: u16
  always0 :: u8
  gate_flags :: u8
  high_offset :: u16

record idt_register_t =
  idt_limit :: u16
  idt_base :: u32

datatype isr_t = Timer_callback | Keyboard_callback

record 'd irq = "'d kbd" +
  tick :: u32
  interrupt_handlers :: "isr_t option list"
  idt :: "idt_gate_t list"
  idt_reg :: idt_register_t
  idtr :: idt_register_t
  upcoming :: "(u32 \<times> ('d \<Rightarrow> 'd)) list"

abbreviation (input) IDT_ENTRIES :: nat where "IDT_ENTRIES \<equiv> 256"

abbreviation (input) IRQ0 :: u8 where "IRQ0 \<equiv> 32"

abbreviation (input) IRQ1 :: u8 where "IRQ1 \<equiv> 33"

abbreviation (input) KERNEL_CS :: u16 where "KERNEL_CS \<equiv> 8"

section \<open>The interrupt descriptor table\<close>

definition set_idt_gate :: "int \<Rightarrow> u32 \<Rightarrow> u16 \<Rightarrow> u8 \<Rightarrow> ('d, 'z) irq_scheme \<Rightarrow> (unit, ('d, 'z) irq_scheme) result" where
  "set_idt_gate n handler selector flags s =
     (case arr_set (idt s) n \<lparr>low_offset = low_16 handler, sel = selector, always0 = 0, gate_flags = flags,
        high_offset = high_16 handler\<rparr> of
        Inl e \<Rightarrow> Inl e | Inr t \<Rightarrow> Inr ((), s\<lparr>idt := t\<rparr>))"

text \<open>\<open>base\<close> is the address of the table; \<^verbatim>\<open>lidt\<close> loads the processor's register.\<close>

definition set_idt :: "u32 \<Rightarrow> ('d, 'z) irq_scheme \<Rightarrow> ('d, 'z) irq_scheme" where
  "set_idt base s =
     (let r = \<lparr>idt_limit = of_nat (IDT_ENTRIES * 8 - 1), idt_base = base\<rparr> in s\<lparr>idt_reg := r, idtr := r\<rparr>)"

text \<open>The calls \<^verbatim>\<open>set_idt_gate(n, (u32)isrn, KERNEL_CS, 0x8E)\<close> for the vectors of a list.\<close>

fun set_gates :: "(nat \<Rightarrow> u32) \<Rightarrow> nat list \<Rightarrow> ('d, 'z) irq_scheme \<Rightarrow> (unit, ('d, 'z) irq_scheme) result" where
  "set_gates vec [] s = Inr ((), s)"
| "set_gates vec (n # ns) s =
     bindk (set_idt_gate (int n) (vec n) KERNEL_CS 0x8E s) (\<lambda>_ s. set_gates vec ns s)"

definition remap_pic :: "'d bus \<Rightarrow> ('d, 'z) irq_scheme \<Rightarrow> ('d, 'z) irq_scheme" where
  "remap_pic bus s =
     fold (\<lambda>(port, v). port_byte_out bus port v)
       [(0x20, 0x11), (0xA0, 0x11), (0x21, 0x20), (0xA1, 0x28), (0x21, 0x04), (0xA1, 0x02),
        (0x21, 0x01), (0xA1, 0x01), (0x21, 0x00), (0xA1, 0x00)] s"

definition isr_install :: "'d bus \<Rightarrow> (nat \<Rightarrow> u32) \<Rightarrow> u32 \<Rightarrow> ('d, 'z) irq_scheme \<Rightarrow> (unit, ('d, 'z) irq_scheme) result" where
  "isr_install bus vec base s =
     bindk (set_gates vec [0..<32] s) (\<lambda>_ s.
     bindk (set_gates vec [32..<48] (remap_pic bus s)) (\<lambda>_ s.
     bindk (set_idt_gate 0x80 (vec 0x80) 0x08 0xEE s) (\<lambda>_ s.
       Inr ((), set_idt base s))))"

section \<open>Handlers\<close>

definition exception_messages :: "string list" where
  "exception_messages =
     [''Division By Zero'', ''Debug'', ''Non Maskable Interrupt'', ''Breakpoint'',
      ''Into Detected Overflow'', ''Out of Bounds'', ''Invalid Opcode'', ''No Coprocessor'',
      ''Double Fault'', ''Coprocessor Segment Overrun'', ''Bad TSS'', ''Segment Not Present'',
      ''Stack Fault'', ''General Protection Fault'', ''Page Fault'', ''Unknown Interrupt'',
      ''Coprocessor Fault'', ''Alignment Check'', ''Machine Check''] @ replicate 13 ''Reserved''"

text \<open>\<open>n\<close> is \<^verbatim>\<open>r->int_no\<close>, the only field of \<^verbatim>\<open>registers_t\<close> the handlers read.\<close>

definition isr_handler :: "'d bus \<Rightarrow> u32 \<Rightarrow> ('d, 'z) irq_scheme \<Rightarrow> (unit, ('d, 'z) irq_scheme) result" where
  "isr_handler bus n s =
     (case arr_get exception_messages (uint n) of Inl e \<Rightarrow> Inl e | Inr msg \<Rightarrow>
        bindk (printk bus (cs ''Received interrupt: %d -> %s\<newline>'') [VInt n, VStr (cs msg)] s)
          (\<lambda>_ s. Inl Hang))"

definition register_interrupt_handler :: "u8 \<Rightarrow> isr_t \<Rightarrow> ('d, 'z) irq_scheme \<Rightarrow> (unit, ('d, 'z) irq_scheme) result" where
  "register_interrupt_handler n handler s =
     (case arr_set (interrupt_handlers s) (uint n) (Some handler) of
        Inl e \<Rightarrow> Inl e | Inr t \<Rightarrow> Inr ((), s\<lparr>interrupt_handlers := t\<rparr>))"

definition timer_callback :: "('d, 'z) irq_scheme \<Rightarrow> ('d, 'z) irq_scheme" where
  "timer_callback s = s\<lparr>tick := tick s + 1\<rparr>"

definition irq_handler :: "'d bus \<Rightarrow> u32 \<Rightarrow> ('d, 'z) irq_scheme \<Rightarrow> (unit, ('d, 'z) irq_scheme) result" where
  "irq_handler bus n s =
     (let s = (if n \<ge> 40 then port_byte_out bus 0xA0 0x20 s else s);
          s = port_byte_out bus 0x20 0x20 s in
      case arr_get (interrupt_handlers s) (uint n) of
        Inl e \<Rightarrow> Inl e
      | Inr None \<Rightarrow> Inr ((), s)
      | Inr (Some Timer_callback) \<Rightarrow> Inr ((), timer_callback s)
      | Inr (Some Keyboard_callback) \<Rightarrow> keyboard_callback bus s)"

definition init_timer :: "'d bus \<Rightarrow> int \<Rightarrow> ('d, 'z) irq_scheme \<Rightarrow> (unit, ('d, 'z) irq_scheme) result" where
  "init_timer bus freq s =
     bindk (register_interrupt_handler IRQ0 Timer_callback s) (\<lambda>_ s.
       if freq = 0 then Inl DivZero
       else let divisor = (of_int (1193180 sdiv freq) :: u32);
                low = (ucast (divisor AND 0xFF) :: u8);
                high = (ucast (drop_bit 8 divisor AND 0xFF) :: u8) in
         Inr ((), port_byte_out bus 0x40 high (port_byte_out bus 0x40 low (port_byte_out bus 0x43 0x36 s))))"

definition init_keyboard :: "('d, 'z) irq_scheme \<Rightarrow> (unit, ('d, 'z) irq_scheme) result" where
  "init_keyboard s = register_interrupt_handler IRQ1 Keyboard_callback s"

section \<open>The blocking read\<close>

text \<open>\<^verbatim>\<open>while (!has_complete_line()) { sti; hlt; }\<close>, over the interrupts still to come.\<close>

fun wait_line ::
  "'d bus \<Rightarrow> (u32 \<times> ('d \<Rightarrow> 'd)) list \<Rightarrow> ('d, 'z) irq_scheme \<Rightarrow> (unit, ('d, 'z) irq_scheme) result" where
  "wait_line bus evs s =
     (case has_complete_line s of
        Inl e \<Rightarrow> Inl e
      | Inr ready \<Rightarrow>
          if ready then Inr ((), s\<lparr>upcoming := evs\<rparr>)
          else (case evs of
              [] \<Rightarrow> Inl Hang
            | (n, latch) # evs \<Rightarrow>
                bindk (irq_handler bus n (s\<lparr>dev := latch (dev s)\<rparr>)) (\<lambda>_ s. wait_line bus evs s)))"

definition keyboard_read :: "'d bus \<Rightarrow> u32 \<Rightarrow> u32 \<Rightarrow> ('d, 'z) irq_scheme \<Rightarrow> (u32, ('d, 'z) irq_scheme) result" where
  "keyboard_read bus user_buf count s =
     bindk (wait_line bus (upcoming s) s) (\<lambda>_ s. read_line user_buf count 0 s)"

declare wait_line.simps [simp del]

section \<open>Gates\<close>

text \<open>How the processor reads a gate.\<close>

definition gate_offset :: "idt_gate_t \<Rightarrow> u32" where
  "gate_offset g = ucast (low_offset g) OR push_bit 16 (ucast (high_offset g))"

definition gate_dpl :: "idt_gate_t \<Rightarrow> u8" where
  "gate_dpl g = drop_bit 5 (gate_flags g) AND 3"

definition interrupt_gate :: "idt_gate_t \<Rightarrow> bool" where
  "interrupt_gate g \<longleftrightarrow> bit (gate_flags g) 7 \<and> gate_flags g AND 0x1F = 0x0E \<and> always0 g = 0"

text \<open>User code may raise the vector with an \<open>int\<close> instruction.\<close>

definition user_may_raise :: "idt_gate_t \<Rightarrow> bool" where
  "user_may_raise g \<longleftrightarrow> bit (gate_flags g) 7 \<and> gate_dpl g = 3"

text \<open>An entry of the static table \<^verbatim>\<open>idt\<close> as the kernel is loaded.\<close>

definition zero_gate :: idt_gate_t where
  "zero_gate = \<lparr>low_offset = 0, sel = 0, always0 = 0, gate_flags = 0, high_offset = 0\<rparr>"

definition gate :: "u32 \<Rightarrow> u8 \<Rightarrow> idt_gate_t" where
  "gate handler flags = \<lparr>low_offset = low_16 handler, sel = KERNEL_CS, always0 = 0, gate_flags = flags,
     high_offset = high_16 handler\<rparr>"

lemma word_16_halves: "low_16 a = ucast a" "high_16 a = ucast (drop_bit 16 a)"
proof -
  have m: "(0xFFFF :: u32) = mask 16" by (simp add: mask_eq_exp_minus_1)
  show "low_16 a = ucast a" "high_16 a = ucast (drop_bit 16 a)"
    unfolding low_16_def high_16_def m by (rule bit_word_eqI; simp add: bit_simps)+
qed

lemma gate_offset_gate: "gate_offset (gate h f) = h"
  by (rule bit_word_eqI) (auto simp: gate_offset_def gate_def word_16_halves bit_simps)

lemma gate_flag_bytes:
  "interrupt_gate (gate h 0x8E)" "interrupt_gate (gate h 0xEE)" "gate_dpl (gate h 0x8E) = 0" "gate_dpl (gate h 0xEE) = 3"
  by (simp_all add: interrupt_gate_def gate_dpl_def gate_def)

lemma user_may_raise_simps [simp]:
  "\<not> user_may_raise zero_gate" "\<not> user_may_raise (gate h 0x8E)" "user_may_raise (gate h 0xEE)"
  by (simp_all add: user_may_raise_def zero_gate_def gate_dpl_def gate_def)

lemma set_idt_gate_eq:
  "n < length (idt s) \<Longrightarrow> set_idt_gate (int n) h KERNEL_CS f s = Inr ((), s\<lparr>idt := (idt s)[n := gate h f]\<rparr>)"
  by (simp add: set_idt_gate_def arr_set_nat gate_def)

lemma set_gates_eq:
  assumes "length (idt s) = 256" "\<forall>n \<in> set ns. n < 256"
  shows "\<exists>t. set_gates vec ns s = Inr ((), s\<lparr>idt := t\<rparr>) \<and> length t = 256 \<and>
    (\<forall>n < 256. t ! n = (if n \<in> set ns then gate (vec n) 0x8E else idt s ! n))"
  using assms
proof (induction ns arbitrary: s)
  case Nil
  then show ?case by (intro exI [of _ "idt s"]) simp
next
  case (Cons n ns)
  let ?s = "s\<lparr>idt := (idt s)[n := gate (vec n) 0x8E]\<rparr>"
  have n: "n < length (idt s)" using Cons.prems by simp
  obtain t where "set_gates vec ns ?s = Inr ((), ?s\<lparr>idt := t\<rparr>)" "length t = 256"
    "\<forall>n < 256. t ! n = (if n \<in> set ns then gate (vec n) 0x8E else idt ?s ! n)"
    using Cons.IH [of ?s] Cons.prems by auto
  then show ?case using Cons.prems n by (intro exI [of _ t]) (auto simp: set_idt_gate_eq nth_list_update)
qed

lemma port_out_quiet:
  assumes "pc_conforms bus view" "port \<notin> {0x3d4, 0x3d5, 0x1F3, 0x1F4, 0x1F5, 0x1F6, 0x1F7}"
  shows "\<exists>d. port_byte_out bus port v s = s\<lparr>dev := d\<rparr> \<and> view d = view (dev s)"
  using assms view_outb_quiet [OF assms(1), of port v "dev s"] by (auto simp: port_byte_out_def pc_outb_def)

lemma remap_pic_quiet:
  assumes "pc_conforms bus view"
  shows "\<exists>d. remap_pic bus s = s\<lparr>dev := d\<rparr> \<and> view d = view (dev s)"
proof -
  have f: "\<exists>d. fold (\<lambda>(port, v). port_byte_out bus port v) ps s = s\<lparr>dev := d\<rparr> \<and> view d = view (dev s)"
    if "\<forall>p \<in> set ps. fst p \<notin> {0x3d4, 0x3d5, 0x1F3, 0x1F4, 0x1F5, 0x1F6, 0x1F7}" for ps :: "(u16 \<times> u8) list"
    using that
  proof (induction ps arbitrary: s)
    case Nil
    show ?case by (intro exI [of _ "dev s"]) simp
  next
    case (Cons p ps)
    obtain d where d: "port_byte_out bus (fst p) (snd p) s = s\<lparr>dev := d\<rparr>" "view d = view (dev s)"
      using port_out_quiet [OF assms, of "fst p" "snd p" s] Cons.prems by auto
    show ?case using Cons.IH [of "s\<lparr>dev := d\<rparr>"] Cons.prems d by (auto simp: case_prod_beta)
  qed
  show ?thesis unfolding remap_pic_def by (rule f) simp
qed

lemma remap_pic_dev: "remap_pic bus s = s\<lparr>dev := dev (remap_pic bus (s\<lparr>idt := t\<rparr>))\<rparr>"
  by (simp add: remap_pic_def port_byte_out_def)

lemma isr_install_spec:
  assumes "pc_conforms bus view" "length (idt s) = 256"
  shows "\<exists>d t. isr_install bus vec base s = Inr ((), set_idt base (s\<lparr>dev := d, idt := t\<rparr>)) \<and>
    view d = view (dev s) \<and> d = dev (remap_pic bus s) \<and> length t = 256 \<and>
    (\<forall>n < 256. t ! n = (if n < 48 then gate (vec n) 0x8E else if n = 0x80 then gate (vec n) 0xEE else idt s ! n))"
proof -
  obtain t1 where t1: "set_gates vec [0..<32] s = Inr ((), s\<lparr>idt := t1\<rparr>)" "length t1 = 256"
    "\<forall>n < 256. t1 ! n = (if n \<in> set [0..<32] then gate (vec n) 0x8E else idt s ! n)"
    using set_gates_eq [OF assms(2), of "[0..<32]" vec] by auto
  obtain d where d: "remap_pic bus (s\<lparr>idt := t1\<rparr>) = s\<lparr>idt := t1, dev := d\<rparr>" "view d = view (dev s)"
    using remap_pic_quiet [OF assms(1), of "s\<lparr>idt := t1\<rparr>"] by auto
  obtain t2 where t2: "set_gates vec [32..<48] (s\<lparr>idt := t1, dev := d\<rparr>) = Inr ((), s\<lparr>dev := d, idt := t2\<rparr>)"
    "length t2 = 256" "\<forall>n < 256. t2 ! n = (if n \<in> set [32..<48] then gate (vec n) 0x8E else t1 ! n)"
    using set_gates_eq [of "s\<lparr>idt := t1, dev := d\<rparr>" "[32..<48]" vec] t1(2) by (auto simp del: upt_rec_numeral)
  let ?t = "t2[0x80 := gate (vec 0x80) 0xEE]"
  have "isr_install bus vec base s = Inr ((), set_idt base (s\<lparr>dev := d, idt := ?t\<rparr>))"
    using set_idt_gate_eq [of "0x80" "s\<lparr>dev := d, idt := t2\<rparr>" "vec 0x80" "0xEE"] t2(2)
    by (simp add: isr_install_def t1(1) d(1) t2(1) del: upt_rec_numeral)
  moreover have "\<forall>n < 256. ?t ! n = (if n < 48 then gate (vec n) 0x8E else if n = 0x80 then gate (vec n) 0xEE else idt s ! n)"
    using t1(2,3) t2(2,3) by (simp add: nth_list_update del: upt_rec_numeral)
  moreover have "d = dev (remap_pic bus s)" using remap_pic_dev [of bus s t1] d(1) by simp
  ultimately show ?thesis using d(2) t2(2) by (intro exI [of _ d] exI [of _ ?t]) simp
qed

section \<open>The interrupt controllers\<close>

text \<open>
  The two 8259A controllers as their data sheet describes them: a byte with bit 4 set at the command
  port starts the initialisation, whose words then follow at the data port (vector base, wiring of
  the cascade unless there is a single controller, mode if announced); after it the data port holds
  the mask of the lines. Other bytes at the command port (the end of an interrupt) change none of
  this.
\<close>

datatype pic_phase = Ready | ICW2 | ICW3 | ICW4

record pic8259 =
  pic_phase :: pic_phase
  pic_single :: bool
  pic_wants4 :: bool
  pic_base :: u8
  pic_cascade :: u8
  pic_mode :: u8
  pic_mask :: u8

definition pic_command :: "u8 \<Rightarrow> pic8259 \<Rightarrow> pic8259" where
  "pic_command v p =
     (if bit v 4 then p\<lparr>pic_phase := ICW2, pic_single := bit v 1, pic_wants4 := bit v 0, pic_mode := 0, pic_mask := 0\<rparr>
      else p)"

definition pic_data :: "u8 \<Rightarrow> pic8259 \<Rightarrow> pic8259" where
  "pic_data v p =
     (let last = (if pic_wants4 p then ICW4 else Ready) in
      case pic_phase p of
        Ready \<Rightarrow> p\<lparr>pic_mask := v\<rparr>
      | ICW2 \<Rightarrow> p\<lparr>pic_base := v AND 0xF8, pic_phase := (if pic_single p then last else ICW3)\<rparr>
      | ICW3 \<Rightarrow> p\<lparr>pic_cascade := v, pic_phase := last\<rparr>
      | ICW4 \<Rightarrow> p\<lparr>pic_mode := v, pic_phase := Ready\<rparr>)"

text \<open>Master at the ports 0x20 and 0x21, slave at 0xA0 and 0xA1.\<close>

definition pics_out :: "u16 \<Rightarrow> u8 \<Rightarrow> pic8259 \<times> pic8259 \<Rightarrow> pic8259 \<times> pic8259" where
  "pics_out port v ms =
     (if port = 0x20 then (pic_command v (fst ms), snd ms) else if port = 0x21 then (pic_data v (fst ms), snd ms)
      else if port = 0xA0 then (fst ms, pic_command v (snd ms)) else if port = 0xA1 then (fst ms, pic_data v (snd ms))
      else ms)"

definition pic_conforms :: "'d bus \<Rightarrow> ('d \<Rightarrow> pic8259 \<times> pic8259) \<Rightarrow> bool" where
  "pic_conforms bus pics \<longleftrightarrow> (\<forall>port v d. pics (bus_outb bus port v d) = pics_out port v (pics d))"

text \<open>
  The vector at which a line of the controllers reaches the processor, if it does: the controller is
  initialised for an 8086 and does not mask the line, and a line of the slave also passes the line of
  the master that the slave is wired to, on which the master expects a slave and no device.
\<close>

definition passes :: "pic8259 \<Rightarrow> nat \<Rightarrow> bool" where
  "passes p n \<longleftrightarrow> pic_phase p = Ready \<and> bit (pic_mode p) 0 \<and> \<not> bit (pic_mask p) n"

definition irq_vector :: "pic8259 \<times> pic8259 \<Rightarrow> nat \<Rightarrow> u8 option" where
  "irq_vector ms n =
     (let (m, s) = ms; wire = unat (pic_cascade s AND 7) in
      if n < 8 then (if passes m n \<and> \<not> bit (pic_cascade m) n then Some (pic_base m + of_nat n) else None)
      else if passes m wire \<and> bit (pic_cascade m) wire \<and> passes s (n - 8) then Some (pic_base s + of_nat (n - 8))
      else None)"

lemma remap_pic_vectors:
  assumes "pic_conforms bus pics" "n < 16"
  shows "irq_vector (pics (dev (remap_pic bus s))) n = (if n = 2 then None else Some (32 + of_nat n))"
proof -
  obtain m0 s0 where d: "pics (dev s) = (m0, s0)" by (cases "pics (dev s)")
  have b: "bit (0x11 :: u8) 4" "\<not> bit (0x11 :: u8) 1" "bit (0x11 :: u8) 0" "bit (1 :: u8) 0"
    "bit (4 :: u8) i \<longleftrightarrow> i = 2" if "i < 8" for i
    using that by (auto simp: bit_numeral_rec numeral_eq_Suc bit_simps less_Suc_eq)
  have p: "pics (dev (remap_pic bus s)) =
    (m0\<lparr>pic_phase := Ready, pic_single := False, pic_wants4 := True, pic_base := 0x20, pic_cascade := 4, pic_mode := 1, pic_mask := 0\<rparr>,
     s0\<lparr>pic_phase := Ready, pic_single := False, pic_wants4 := True, pic_base := 0x28, pic_cascade := 2, pic_mode := 1, pic_mask := 0\<rparr>)"
    using assms(1) b(1-3) [of 0]
    by (simp add: pic_conforms_def remap_pic_def port_byte_out_def d pics_out_def pic_command_def pic_data_def)
  show ?thesis
  proof (cases "n < 8")
    case True
    then show ?thesis using b(4,5) [of n] by (simp add: p irq_vector_def passes_def)
  next
    case False
    then have "(0x28 + of_nat (n - 8) :: u8) = 32 + of_nat n" by (simp add: of_nat_diff)
    then show ?thesis using False b(4,5) [of 2] by (simp add: p irq_vector_def passes_def)
  qed
qed

section \<open>Interrupts while the read waits\<close>

text \<open>
  A keyboard controller that latches a scan code and raises its interrupt: the code stays readable
  at port 0x60 while the PIC is told the end of the interrupt, and neither the drive nor the screen
  sees it.
\<close>

definition latches :: "'d bus \<Rightarrow> ('d \<Rightarrow> pc) \<Rightarrow> (u8 \<Rightarrow> 'd \<Rightarrow> 'd) \<Rightarrow> bool" where
  "latches bus view latch \<longleftrightarrow>
     (\<forall>k d. view (latch k d) = view d \<and> fst (bus_inb bus 0x60 (bus_outb bus 0x20 0x20 (latch k d))) = k)"

text \<open>A key with its scan code, or a tick of the timer, as the interrupt it raises.\<close>

fun event :: "(u8 \<Rightarrow> 'd \<Rightarrow> 'd) \<Rightarrow> u8 option \<Rightarrow> u32 \<times> ('d \<Rightarrow> 'd)" where
  "event latch None = (32, \<lambda>d. d)"
| "event latch (Some k) = (33, latch k)"

definition run_events :: "u8 option list \<Rightarrow> editor \<Rightarrow> editor" where
  "run_events evs = fold (\<lambda>ev. case ev of None \<Rightarrow> (\<lambda>e. e) | Some k \<Rightarrow> key_event k) evs"

definition ticks :: "u8 option list \<Rightarrow> nat" where
  "ticks evs = count_list evs None"

lemma run_events_simps [simp]:
  "run_events [] e = e" "run_events (None # evs) e = run_events evs e"
  "run_events (Some k # evs) e = run_events evs (key_event k e)"
  by (simp_all add: run_events_def)

lemma ticks_simps [simp]: "ticks [] = 0" "ticks (None # evs) = Suc (ticks evs)" "ticks (Some k # evs) = ticks evs"
  by (simp_all add: ticks_def)

text \<open>The queue only grows; it stays empty only if no line is entered.\<close>

lemma key_event_queue: "ed_queue (key_event k e) = [] \<longleftrightarrow> ed_queue e = [] \<and> key_char k e \<noteq> Some 10"
  by (cases "key_char k e") (auto simp: key_event_def edit_char_def Let_def)

lemma run_events_queue: "ed_queue (run_events evs e) = [] \<Longrightarrow> ed_queue e = []"
proof (induction evs arbitrary: e)
  case (Cons ev evs)
  show ?case
  proof (cases ev)
    case None
    with Cons show ?thesis by simp
  next
    case (Some k)
    with Cons have "ed_queue (key_event k e) = []" by simp
    then show ?thesis by (simp add: key_event_queue)
  qed
qed simp

text \<open>What holds while the reader waits, and what an interrupt changes then.\<close>

definition waiting :: "('d \<Rightarrow> pc) \<Rightarrow> ('d, 'z) irq_scheme \<Rightarrow> bool" where
  "waiting view s \<longleftrightarrow> kbd_ok s \<and> terminal_ok (terminal_of view s) \<and> length (typed s) \<le> snd (terminal_of view s) \<and>
     length (interrupt_handlers s) = 256 \<and> interrupt_handlers s ! 32 = Some Timer_callback \<and>
     interrupt_handlers s ! 33 = Some Keyboard_callback"

text \<open>Everything the drive, the volume, the memory manager and the tables are about stays as it is.\<close>

definition calm :: "('d \<Rightarrow> pc) \<Rightarrow> ('d, 'z) irq_scheme \<Rightarrow> ('d, 'z) irq_scheme \<Rightarrow> bool" where
  "calm view s s' \<longleftrightarrow> crtc_only (view (dev s)) (view (dev s')) \<and> mem_mngr s' = mem_mngr s \<and>
     mem_mngr_max_blocks s' = mem_mngr_max_blocks s \<and> mem_mngr_used_blocks s' = mem_mngr_used_blocks s \<and>
     cur_directory s' = cur_directory s \<and> mount_info s' = mount_info s \<and> sector_buffer s' = sector_buffer s \<and>
     current_level s' = current_level s \<and> idt s' = idt s \<and> interrupt_handlers s' = interrupt_handlers s"

lemma calm_trans: "calm view s s' \<Longrightarrow> calm view s' s'' \<Longrightarrow> calm view s s''"
  by (auto simp: calm_def intro: crtc_only_trans)

lemma calm_screen: "screen_only view s s' \<Longrightarrow> calm view s s'"
  by (auto simp: calm_def screen_only_def)

lemma calm_updates [simp]:
  "calm view s (s'\<lparr>mem := m\<rparr>) = calm view s s'" "calm view s (s'\<lparr>upcoming := us\<rparr>) = calm view s s'"
  "calm view s (s'\<lparr>tick := i\<rparr>) = calm view s s'"
  by (simp_all add: calm_def)

lemma calm_kbd:
  fixes s :: "('d, 'z) irq_scheme"
  assumes "kbd_frame view s s'"
  shows "calm view s s'" "tick s' = tick s"
proof -
  obtain d v b w l p sh ct al ca where "s' = s\<lparr>dev := d, vidmem := v, input_buffer := b, write_pos := w, line_buffer := l, line_pos := p,
      shift_pressed := sh, ctrl_pressed := ct, alt_pressed := al, caps_lock := ca\<rparr>" "crtc_only (view (dev s)) (view d)"
    using assms unfolding kbd_frame_def by blast
  then show "calm view s s'" "tick s' = tick s" by (simp_all add: calm_def)
qed

lemma calm_ring: "ring_only s s' \<Longrightarrow> calm view s s'"
  by (auto simp: ring_only_def calm_def)

definition irq_frame :: "('d \<Rightarrow> pc) \<Rightarrow> ('d, 'z) irq_scheme \<Rightarrow> ('d, 'z) irq_scheme \<Rightarrow> bool" where
  "irq_frame view s s' \<longleftrightarrow> mem s' = mem s \<and> calm view s s'"

lemma irq_updates [simp]:
  "typed (s\<lparr>tick := i\<rparr>) = typed s" "typed (s\<lparr>upcoming := us\<rparr>) = typed s"
  "pending (s\<lparr>tick := i\<rparr>) = pending s" "pending (s\<lparr>upcoming := us\<rparr>) = pending s" "pending (s\<lparr>dev := d\<rparr>) = pending s"
  "kbd_ok (s\<lparr>tick := i\<rparr>) = kbd_ok s" "kbd_ok (s\<lparr>upcoming := us\<rparr>) = kbd_ok s" "kbd_ok (s\<lparr>dev := d\<rparr>) = kbd_ok s"
  "editor_of (s\<lparr>tick := i\<rparr>) = editor_of s" "editor_of (s\<lparr>upcoming := us\<rparr>) = editor_of s"
  "editor_of (s\<lparr>dev := d\<rparr>) = editor_of s" "terminal_of view (s\<lparr>tick := i\<rparr>) = terminal_of view s"
  "terminal_of view (s\<lparr>upcoming := us\<rparr>) = terminal_of view s"
  by (simp_all add: typed_def pending_def kbd_ok_def editor_of_def terminal_of_def)

lemma terminal_dev: "view d = view (dev s) \<Longrightarrow> terminal_of view (s\<lparr>dev := d\<rparr>) = terminal_of view s"
  by (simp add: terminal_of_def)

lemma irq_timer:
  assumes "pc_conforms bus view" "waiting view s"
  shows "\<exists>s'. irq_handler bus 32 s = Inr ((), s') \<and> waiting view s' \<and> irq_frame view s s' \<and>
    editor_of s' = editor_of s \<and> tick s' = tick s + 1"
proof -
  obtain d where d: "port_byte_out bus 0x20 0x20 s = s\<lparr>dev := d\<rparr>" "view d = view (dev s)"
    using port_out_quiet [OF assms(1), of "0x20" "0x20" s] by auto
  have "arr_get (interrupt_handlers s) 32 = Inr (Some Timer_callback)"
    using assms(2) by (simp add: arr_get_def waiting_def)
  then have "irq_handler bus 32 s = Inr ((), s\<lparr>dev := d, tick := tick s + 1\<rparr>)"
    by (simp add: irq_handler_def d(1) timer_callback_def)
  then show ?thesis using assms(2) d(2)
    by (simp add: waiting_def irq_frame_def calm_def terminal_dev)
qed

lemma irq_keyboard:
  assumes "pc_conforms bus view" "waiting view s" "latches bus view latch"
    and "key_char k (editor_of s) = Some 10 \<Longrightarrow> length (pending s) + length (typed s) < 255"
  shows "\<exists>s'. irq_handler bus 33 (s\<lparr>dev := latch k (dev s)\<rparr>) = Inr ((), s') \<and> waiting view s' \<and> irq_frame view s s' \<and>
    editor_of s' = key_event k (editor_of s) \<and> tick s' = tick s"
proof -
  let ?d = "bus_outb bus 0x20 0x20 (latch k (dev s))"
  let ?s = "s\<lparr>dev := ?d\<rparr>"
  note w = assms(2) [unfolded waiting_def]
  have v: "view ?d = view (dev s)"
    using view_outb_quiet [OF assms(1), of "0x20" "0x20" "latch k (dev s)"] assms(3)
    by (simp add: pc_outb_def latches_def)
  have t: "terminal_of view ?s = terminal_of view s" by (rule terminal_dev) (rule v)
  have "arr_get (interrupt_handlers s) 33 = Inr (Some Keyboard_callback)" using w by (simp add: arr_get_def)
  then have eq: "irq_handler bus 33 (s\<lparr>dev := latch k (dev s)\<rparr>) = keyboard_callback bus ?s"
    by (simp add: irq_handler_def port_byte_out_def)
  have key: "fst (bus_inb bus 0x60 (dev ?s)) = k" using assms(3) by (simp add: latches_def)
  have cur: "0 < snd (terminal_of view ?s)" if "typed ?s \<noteq> []"
    using that w length_greater_0_conv [of "typed s"] unfolding t by (auto simp del: length_greater_0_conv)
  obtain s' where s': "keyboard_callback bus ?s = Inr ((), s')" "kbd_ok s'" "kbd_frame view ?s s'"
    "terminal_ok (terminal_of view s')"
    "terminal_of view s' = text_puts (echo_key k (editor_of s)) WHITE_ON_BLACK (terminal_of view s)"
    "editor_of s' = key_event k (editor_of s)"
    using keyboard_callback_spec [OF assms(1) _ _ key] w t cur assms(4) by auto
  note f = kbd_frame_fields [OF s'(3)]
  have "kbd_ok s" using w by simp
  then have "length (typed s) \<le> 255" unfolding typed_length [OF \<open>kbd_ok s\<close>] by (simp add: kbd_ok_def nat_le_iff)
  then have "length (typed s') \<le> snd (terminal_of view s')"
    using cursor_after_key [of "terminal_of view s" "editor_of s" k] w s'(5,6) editor_of_sel(1) [of s'] by simp
  moreover have "calm view s s'" "tick s' = tick s"
    using calm_kbd [OF s'(3)] v by (simp_all add: calm_def)
  ultimately show ?thesis
    using s' w f(1) eq by (simp add: waiting_def irq_frame_def calm_def)
qed

lemma waiting_scan: "waiting view s \<Longrightarrow> has_complete_line s = Inr (10 \<in> set (pending s))"
  by (rule has_complete_line_eq) (simp add: waiting_def)

lemma irq_frame_trans: "irq_frame view s s' \<Longrightarrow> irq_frame view s' s'' \<Longrightarrow> irq_frame view s s''"
  by (auto simp: irq_frame_def intro: calm_trans)

lemma wait_line_events:
  assumes "pc_conforms bus view" "latches bus view latch" "waiting view s"
    and "ed_queue (run_events evs (editor_of s)) = []"
  shows "\<exists>s'. wait_line bus (map (event latch) evs @ rest) s = wait_line bus rest s' \<and> waiting view s' \<and>
    irq_frame view s s' \<and> editor_of s' = run_events evs (editor_of s) \<and> tick s' = tick s + of_nat (ticks evs)"
  using assms(3,4)
proof (induction evs arbitrary: s)
  case Nil
  then show ?case by (intro exI [of _ s]) (simp add: irq_frame_def calm_def)
next
  case (Cons ev evs)
  have empty: "pending s = []" using run_events_queue [OF Cons.prems(2)] by simp
  have step: "wait_line bus (map (event latch) (ev # evs) @ rest) s =
    bindk (irq_handler bus (fst (event latch ev)) (s\<lparr>dev := snd (event latch ev) (dev s)\<rparr>))
      (\<lambda>_. wait_line bus (map (event latch) evs @ rest))"
    by (subst wait_line.simps) (simp add: waiting_scan [OF Cons.prems(1)] empty case_prod_beta)
  obtain s1 where s1: "irq_handler bus (fst (event latch ev)) (s\<lparr>dev := snd (event latch ev) (dev s)\<rparr>) = Inr ((), s1)"
    "waiting view s1" "irq_frame view s s1" "editor_of s1 = run_events [ev] (editor_of s)" "tick s1 = tick s + of_nat (ticks [ev])"
  proof (cases ev)
    case None
    then show ?thesis using irq_timer [OF assms(1) Cons.prems(1)] that by auto
  next
    case (Some k)
    then have "key_char k (editor_of s) \<noteq> Some 10"
      using run_events_queue [of evs "key_event k (editor_of s)"] Cons.prems(2) by (simp add: key_event_queue)
    then show ?thesis using irq_keyboard [OF assms(1) Cons.prems(1) assms(2), of k] that Some by auto
  qed
  have r: "run_events evs (editor_of s1) = run_events (ev # evs) (editor_of s)" using s1(4) by (cases ev) simp_all
  obtain s2 where s2: "wait_line bus (map (event latch) evs @ rest) s1 = wait_line bus rest s2" "waiting view s2"
    "irq_frame view s1 s2" "editor_of s2 = run_events (ev # evs) (editor_of s)" "tick s2 = tick s1 + of_nat (ticks evs)"
    using Cons.IH [OF s1(2)] Cons.prems(2) unfolding r by auto
  have "irq_frame view s s2" using s1(3) s2(3) by (rule irq_frame_trans)
  moreover have "tick s2 = tick s + of_nat (ticks (ev # evs))" using s1(5) s2(5) by (cases ev) simp_all
  ultimately show ?case using s2 unfolding step s1(1) by auto
qed

lemma keyboard_read_spec:
  fixes s :: "('d, 'z) irq_scheme"
  assumes "pc_conforms bus view" "latches bus view latch" "waiting view s"
    and "upcoming s = map (event latch) evs @ event latch (Some k) # rest"
    and "ed_queue (run_events evs (editor_of s)) = []" "key_char k (run_events evs (editor_of s)) = Some 10"
    and "ed_line (run_events evs (editor_of s)) = l" "length l < 255" "length l < unat n"
  shows "\<exists>s'. keyboard_read bus a n s = Inr (of_nat (length l + 1), s') \<and> mem s' = wr_bytes (mem s) a (l @ [10]) \<and>
    pending s' = [] \<and> typed s' = [] \<and> upcoming s' = rest \<and> tick s' = tick s + of_nat (ticks evs) \<and> waiting view s' \<and>
    calm view s s' \<and> editor_of s' = (run_events evs (editor_of s))\<lparr>ed_line := [], ed_queue := []\<rparr>"
proof -
  obtain s1 where s1: "wait_line bus (upcoming s) s = wait_line bus (event latch (Some k) # rest) s1" "waiting view s1"
    "irq_frame view s s1" "editor_of s1 = run_events evs (editor_of s)" "tick s1 = tick s + of_nat (ticks evs)"
    using wait_line_events [OF assms(1-3,5), of "event latch (Some k) # rest"] assms(4) by auto
  have e1: "typed s1 = l" "pending s1 = []" using s1(4) assms(5,7) by (simp_all flip: editor_of_sel)
  obtain s2 where s2: "irq_handler bus 33 (s1\<lparr>dev := latch k (dev s1)\<rparr>) = Inr ((), s2)" "waiting view s2"
    "irq_frame view s1 s2" "editor_of s2 = key_event k (editor_of s1)" "tick s2 = tick s1"
    using irq_keyboard [OF assms(1) s1(2) assms(2), of k] e1 assms(8) by auto
  have e: "editor_of s2 = edit_char 10 (editor_of s1)"
    unfolding s2(4) by (rule key_event_char) (simp add: s1(4) assms(6))
  have e2: "pending s2 = l @ [10]" "typed s2 = []"
    using arg_cong [OF e, of ed_queue] arg_cong [OF e, of ed_line] e1 by (simp_all add: edit_char_def)
  have "wait_line bus (event latch (Some k) # rest) s1 = wait_line bus rest s2"
    by (subst wait_line.simps) (simp add: waiting_scan [OF s1(2)] e1(2) s2(1))
  also have "\<dots> = Inr ((), s2\<lparr>upcoming := rest\<rparr>)"
    by (subst wait_line.simps) (simp add: waiting_scan [OF s2(2)] e2(1))
  finally have w: "wait_line bus (upcoming s) s = Inr ((), s2\<lparr>upcoming := rest\<rparr>)" using s1(1) by simp
  let ?s = "s2\<lparr>upcoming := rest\<rparr>"
  have ok: "kbd_ok ?s" using s2(2) by (simp add: waiting_def)
  have "10 \<notin> set l" using e1(1) s1(2) by (auto simp: waiting_def kbd_ok_def)
  then have p: "line_prefix (unat (n - 0)) (pending ?s) = l @ [10]"
    using line_prefix_line [of l "unat n" "[]"] assms(9) e2(1) by simp
  obtain s3 where s3: "read_line a n 0 ?s = Inr (of_nat (length l + 1), s3)" "ring_only ?s s3"
    "mem s3 = wr_bytes (mem s2) a (l @ [10])" "pending s3 = []" "kbd_ok s3"
    using read_line_spec [OF ok, of 0 n a] unfolding p using e2(1) by auto
  have "interrupt_handlers s3 = interrupt_handlers s2" "terminal_of view s3 = terminal_of view s2"
    using s3(2) by (auto simp: ring_only_def terminal_of_def)
  then have "waiting view s3"
    using s2(2) s3(5) ring_only_fields(3) [OF s3(2)] by (simp add: waiting_def e2(2))
  have "upcoming s3 = rest" "tick s3 = tick s2" "typed s3 = []"
    using s3(2) e2(2) ring_only_fields(3) [OF s3(2)] by (auto simp: ring_only_def)
  moreover have "mem s2 = mem s" using s1(3) s2(3) by (simp add: irq_frame_def)
  moreover have "calm view s s3"
  proof -
    have "calm view s ?s" using calm_trans [of view s s1 s2] s1(3) s2(3) by (simp add: irq_frame_def)
    then show ?thesis using calm_ring [OF s3(2)] calm_trans by blast
  qed
  moreover have "editor_of s3 = (run_events evs (editor_of s))\<lparr>ed_line := [], ed_queue := []\<rparr>"
  proof -
    note r = ring_only_fields [OF s3(2)]
    have "editor_of s3 = (editor_of s2)\<lparr>ed_line := [], ed_queue := []\<rparr>"
      using r e2(2) s3(4) by (simp add: editor_of_def)
    then show ?thesis using s1(4) by (simp add: e edit_char_def)
  qed
  moreover note \<open>waiting view s3\<close>
  ultimately show ?thesis
    using s3 s1(5) s2(5) by (simp add: keyboard_read_def w)
qed

section \<open>Properties of interrupt handling\<close>

text \<open>For the witnesses: the demo machine with both handlers registered and an empty table of gates.\<close>

definition demo_latch :: "u8 \<Rightarrow> u8 \<times> pc \<Rightarrow> u8 \<times> pc" where
  "demo_latch k d = (k, snd d)"

definition demo_irq :: "(u32 \<times> (u8 \<times> pc \<Rightarrow> u8 \<times> pc)) list \<Rightarrow> (u8 \<times> pc) irq" where
  "demo_irq evs = kbd.extend (demo_kbd 0 [])
     (irq.fields 0 ((replicate 256 None)[32 := Some Timer_callback, 33 := Some Keyboard_callback])
       (replicate 256 zero_gate) \<lparr>idt_limit = 0, idt_base = 0\<rparr> \<lparr>idt_limit = 0, idt_base = 0\<rparr> evs)"

lemma demo_latches: "latches demo_kbus snd demo_latch"
  by (simp add: latches_def demo_latch_def demo_kbus_def demo_bus_def)

lemma demo_irq_simps:
  "length (idt (demo_irq evs)) = 256" "upcoming (demo_irq evs) = evs" "mem (demo_irq evs) = mem demo_fs"
  "editor_of (demo_irq evs) = editor_of (demo_kbd 0 [])" "typed (demo_irq evs) = []"
  "terminal_of snd (demo_irq evs) = (replicate 4000 0, 0)"
  by (simp_all add: demo_irq_def kbd.defs irq.defs editor_of_def typed_def pending_def demo_kbd_def terminal_of_def
    cursor_of_def demo_pc_def)

text \<open>The keys L and S with a timer tick in between, typed with caps lock on, and Enter.\<close>

lemma demo_keys:
  "run_events [Some 0x26, None, Some 0x1F] (editor_of (demo_kbd 0 [])) = (editor_of (demo_kbd 0 []))\<lparr>ed_line := [76, 83]\<rparr>"
  "key_char 0x1C ((editor_of (demo_kbd 0 []))\<lparr>ed_line := [76, 83]\<rparr>) = Some 10"
proof -
  have bits: "\<not> bit (0x26 :: u8) 7" "\<not> bit (0x1F :: u8) 7"
    by (simp_all add: bit_numeral_rec numeral_eq_Suc bit_simps)
  let ?e = "editor_of (demo_kbd 0 [])"
  have "key_char 0x26 ?e = Some 76"
    by (simp add: key_char_def bits demo_kbd_simps scancode_to_ascii_def sc_ascii_def cs_def)
  then have e1: "key_event 0x26 ?e = ?e\<lparr>ed_line := [76]\<rparr>"
    by (simp add: key_event_char edit_char_def demo_kbd_simps)
  have "key_char 0x1F (?e\<lparr>ed_line := [76]\<rparr>) = Some 83"
    by (simp add: key_char_def bits demo_kbd_simps scancode_to_ascii_def sc_ascii_def cs_def)
  then have e2: "key_event 0x1F (?e\<lparr>ed_line := [76]\<rparr>) = ?e\<lparr>ed_line := [76, 83]\<rparr>"
    by (simp add: key_event_char edit_char_def)
  show "key_char 0x1C (?e\<lparr>ed_line := [76, 83]\<rparr>) = Some 10"
    by (simp add: key_char_def demo_codes demo_kbd_simps scancode_to_ascii_def sc_ascii_def cs_def)
  show "run_events [Some 0x26, None, Some 0x1F] ?e = ?e\<lparr>ed_line := [76, 83]\<rparr>"
    by (simp add: e1 e2)
qed

lemma demo_irq_waiting: "waiting snd (demo_irq evs)"
proof -
  have "kbd_ok (demo_irq evs)"
    using demo_kbd_ok [of "[]" 0] by (simp add: demo_irq_def kbd.defs irq.defs kbd_ok_def typed_def)
  then show ?thesis
    by (simp add: waiting_def demo_irq_simps terminal_ok_def) (simp add: demo_irq_def kbd.defs irq.defs)
qed

text \<open>
  C25: After \<open>isr_install\<close> the processor finds the handlers: the gates of the exceptions, of the
  sixteen interrupt lines and of the system call are present interrupt gates into the kernel code
  segment at the address of their stub, every other gate is as it was, and the table register covers
  exactly the 256 gates. If the table was zeroed, as a static array is, the vectors that user code
  may raise are the system call and no other. The two interrupt controllers, whatever their state
  was, are initialised and let every line through: line n of the sixteen arrives at vector 32 + n,
  line 2 being the one by which the slave reaches the master.
\<close>

theorem isr_install_gates:
  assumes "pc_conforms bus view" "pic_conforms bus pics" "length (idt s) = 256"
  shows "\<exists>s'. isr_install bus vec base s = Inr ((), s') \<and> length (idt s') = 256 \<and>
    (\<forall>n < 256. n < 48 \<or> n = 0x80 \<longrightarrow>
      gate_offset (idt s' ! n) = vec n \<and> sel (idt s' ! n) = KERNEL_CS \<and> interrupt_gate (idt s' ! n) \<and>
      (gate_dpl (idt s' ! n) = (if n = 0x80 then 3 else 0))) \<and>
    (\<forall>n < 256. \<not> n < 48 \<and> n \<noteq> 0x80 \<longrightarrow> idt s' ! n = idt s ! n) \<and>
    (idt s = replicate 256 zero_gate \<longrightarrow> (\<forall>n < 256. user_may_raise (idt s' ! n) \<longleftrightarrow> n = 0x80)) \<and>
    idtr s' = \<lparr>idt_limit = 256 * 8 - 1, idt_base = base\<rparr> \<and>
    (\<forall>n < 16. irq_vector (pics (dev s')) n = (if n = 2 then None else Some (32 + of_nat n)))"
proof -
  obtain d t where t: "isr_install bus vec base s = Inr ((), set_idt base (s\<lparr>dev := d, idt := t\<rparr>))" "length t = 256"
    "\<forall>n < 256. t ! n = (if n < 48 then gate (vec n) 0x8E else if n = 0x80 then gate (vec n) 0xEE else idt s ! n)"
    "d = dev (remap_pic bus s)"
    using isr_install_spec [OF assms(1,3), of vec base] by blast
  define s1 where "s1 = set_idt base (s\<lparr>dev := d, idt := t\<rparr>)"
  have s': "idt s1 = t" "idtr s1 = \<lparr>idt_limit = 256 * 8 - 1, idt_base = base\<rparr>" "dev s1 = dev (remap_pic bus s)"
    by (simp_all add: s1_def set_idt_def Let_def t(4))
  have "sel (gate h f) = KERNEL_CS" for h f by (simp add: gate_def)
  moreover have "user_may_raise (t ! n) \<longleftrightarrow> n = 0x80" if "idt s = replicate 256 zero_gate" "n < 256" for n
    using t(3) that by simp
  moreover have v: "\<forall>n < 16. irq_vector (pics (dev s1)) n = (if n = 2 then None else Some (32 + of_nat n))"
    unfolding s'(3) by (intro allI impI remap_pic_vectors [OF assms(2)])
  ultimately show ?thesis
    using t(1-3) by (intro exI [of _ s1] conjI v) (auto simp: s1_def [symmetric] s' gate_offset_gate gate_flag_bytes)
qed

text \<open>The demo machine with the two controllers beside it.\<close>

definition demo_pbus :: "((pic8259 \<times> pic8259) \<times> u8 \<times> pc) bus" where
  "demo_pbus = \<lparr>
     bus_inb = (\<lambda>port (p, a). (fst (bus_inb demo_kbus port a), (p, snd (bus_inb demo_kbus port a)))),
     bus_outb = (\<lambda>port v (p, a). (pics_out port v p, bus_outb demo_kbus port v a)),
     bus_inw = (\<lambda>port (p, a). (fst (bus_inw demo_kbus port a), (p, snd (bus_inw demo_kbus port a)))),
     bus_outw = (\<lambda>port w (p, a). (p, bus_outw demo_kbus port w a))\<rparr>"

lemma demo_pbus_conforms: "pc_conforms demo_pbus (\<lambda>d. snd (snd d))" "pic_conforms demo_pbus fst"
  using demo_kbus_conforms unfolding pc_conforms_def pic_conforms_def demo_pbus_def by auto

definition demo_tables :: "((pic8259 \<times> pic8259) \<times> u8 \<times> pc) irq" where
  "demo_tables =
     (let p = \<lparr>pic_phase = ICW3, pic_single = True, pic_wants4 = False, pic_base = 8, pic_cascade = 0, pic_mode = 0, pic_mask = 0xFF\<rparr>;
          k = demo_kbd 0 [] in
      \<lparr>mem = mem k, cr0 = cr0 k, cr3 = cr3 k, mem_mngr = mem_mngr k, mem_mngr_max_blocks = mem_mngr_max_blocks k,
       mem_mngr_used_blocks = mem_mngr_used_blocks k, mem_mngr_size = mem_mngr_size k, dev = ((p, p), dev k),
       vidmem = vidmem k, current_level = current_level k, cur_directory = cur_directory k, cur_pdbr = cur_pdbr k,
       kernel_directory = kernel_directory k, kernel_directory_physical = kernel_directory_physical k,
       invlpg_log = [], mount_info = mount_info k, sector_buffer = sector_buffer k, input_buffer = input_buffer k,
       read_pos = 0, write_pos = 0, line_buffer = line_buffer k, line_pos = 0, shift_pressed = False,
       ctrl_pressed = False, alt_pressed = False, caps_lock = False, tick = 0,
       interrupt_handlers = replicate 256 None, idt = replicate 256 zero_gate,
       idt_reg = \<lparr>idt_limit = 0, idt_base = 0\<rparr>, idtr = \<lparr>idt_limit = 0, idt_base = 0\<rparr>, upcoming = []\<rparr>)"

theorem isr_install_gates_witness:
  "\<exists>s'. isr_install demo_pbus (\<lambda>n. 0xC0100000 + of_nat n) 0xC0200000 demo_tables = Inr ((), s') \<and>
     gate_offset (idt s' ! 0x80) = 0xC0100080 \<and> user_may_raise (idt s' ! 0x80) \<and> \<not> user_may_raise (idt s' ! 33) \<and>
     \<not> user_may_raise (idt s' ! 200) \<and> irq_vector (fst (dev s')) 1 = Some 33 \<and> irq_vector (fst (dev s')) 14 = Some 46"
proof -
  let ?vec = "\<lambda>n. 0xC0100000 + of_nat n"
  have z: "idt demo_tables = replicate 256 zero_gate" by (simp add: demo_tables_def Let_def)
  then have l: "length (idt demo_tables) = 256" by simp
  obtain s' where s': "isr_install demo_pbus ?vec 0xC0200000 demo_tables = Inr ((), s')"
    "\<forall>n < 256. n < 48 \<or> n = 0x80 \<longrightarrow>
      gate_offset (idt s' ! n) = ?vec n \<and> sel (idt s' ! n) = KERNEL_CS \<and> interrupt_gate (idt s' ! n) \<and>
      (gate_dpl (idt s' ! n) = (if n = 0x80 then 3 else 0))"
    "\<forall>n < 256. user_may_raise (idt s' ! n) \<longleftrightarrow> n = 0x80"
    "\<forall>n < 16. irq_vector (fst (dev s')) n = (if n = 2 then None else Some (32 + of_nat n))"
    using isr_install_gates [OF demo_pbus_conforms l, of ?vec "0xC0200000"] z by blast
  from s'(1) s'(2) [rule_format, of "0x80"] s'(3) [rule_format, of "0x80"] s'(3) [rule_format, of 33]
    s'(3) [rule_format, of 200] s'(4) [rule_format, of 1] s'(4) [rule_format, of 14]
  show ?thesis by simp
qed

text \<open>
  C12: A typed line is delivered: if the interrupts to come are keys and timer ticks that build a line
  of fewer than 255 characters and then enter it, the blocking read waits through them, echoing and
  editing, and returns exactly that line with its newline in the caller's buffer; every tick is
  counted, no other byte of memory changes, and later interrupts stay to come.
\<close>

theorem keyboard_read_delivers:
  fixes s :: "('d, 'z) irq_scheme"
  assumes "pc_conforms bus view" "latches bus view latch" "waiting view s"
    and "upcoming s = map (event latch) evs @ event latch (Some k) # rest"
    and "ed_queue (run_events evs (editor_of s)) = []" "key_char k (run_events evs (editor_of s)) = Some 10"
    and "ed_line (run_events evs (editor_of s)) = l" "length l < 255" "length l < unat n"
  shows "\<exists>s'. keyboard_read bus a n s = Inr (of_nat (length l + 1), s') \<and> mem s' = wr_bytes (mem s) a (l @ [10]) \<and>
    pending s' = [] \<and> typed s' = [] \<and> upcoming s' = rest \<and> tick s' = tick s + of_nat (ticks evs) \<and> waiting view s'"
  using keyboard_read_spec [OF assms] by blast

theorem keyboard_read_delivers_witness:
  "\<exists>s'. keyboard_read demo_kbus 0x5000 255 (demo_irq (map (event demo_latch) [Some 0x26, None, Some 0x1F, Some 0x1C]))
     = Inr (3, s') \<and> mem s' 0x5000 = 76 \<and> mem s' 0x5001 = 83 \<and> mem s' 0x5002 = 10"
proof -
  let ?evs = "[Some 0x26, None, Some 0x1F]"
  let ?s = "demo_irq (map (event demo_latch) ?evs @ event demo_latch (Some 0x1C) # [])"
  have "ed_queue (editor_of (demo_kbd 0 [])) = []" by (simp add: demo_kbd_simps)
  with keyboard_read_delivers [OF demo_kbus_conforms demo_latches demo_irq_waiting demo_irq_simps(2), of ?evs "0x1C" "[]" "[76, 83]" 255 "0x5000"]
  obtain s' where s': "keyboard_read demo_kbus 0x5000 255 ?s = Inr (3, s')"
    "mem s' = wr_bytes (mem ?s) 0x5000 [76, 83, 10]"
    unfolding demo_irq_simps(4) demo_keys(1) using demo_keys(2) by auto
  then show ?thesis by (auto intro!: exI [of _ s'])
qed

end
