(* ===== verification/Gdt.thy ===== *)
theory Gdt
  imports Interrupts
begin

text \<open>
  \<^verbatim>\<open>cpu/gdt.c\<close>: the task state segment and its descriptor in the global descriptor table, which
  \<^verbatim>\<open>kernel_gdt.asm\<close> lays out. The bit fields of a descriptor are 4-bit words; \<^verbatim>\<open>ltr\<close> loads the task
  register and, as the processor manual says, marks the descriptor busy.
\<close>

section \<open>State\<close>

record gdt_entry_t =
  limit_low :: u16
  base_low :: u16
  base_middle :: u8
  access :: u8
  limit_high :: "4 word"
  flags :: "4 word"
  base_high :: u8

record tss_entry_t =
  tss_prev :: u32
  tss_esp0 :: u32
  tss_ss0 :: u32
  tss_esp1 :: u32
  tss_ss1 :: u32
  tss_esp2 :: u32
  tss_ss2 :: u32
  tss_cr3 :: u32
  tss_eip :: u32
  tss_eflags :: u32
  tss_regs :: "u32 list"
  tss_segments :: "u32 list"
  tss_ldt :: u32
  tss_trap :: u16
  tss_iomap_base :: u16

record 'd cpu = "'d irq" +
  kernel_gdt :: "gdt_entry_t list"
  tss :: tss_entry_t
  task_register :: u16

abbreviation (input) DATA_SEG :: u16 where "DATA_SEG \<equiv> 0x10"

abbreviation (input) TSS_SEG :: u16 where "TSS_SEG \<equiv> 0x28"

text \<open>\<^verbatim>\<open>sizeof(tss)\<close>: 25 words of 32 bits and two of 16.\<close>

definition sizeof_tss :: u32 where
  "sizeof_tss = 25 * 4 + 2 * 2"

section \<open>Operations\<close>

definition gdt_set_tss :: "u32 \<Rightarrow> u32 \<Rightarrow> ('d, 'z) cpu_scheme \<Rightarrow> (unit, ('d, 'z) cpu_scheme) result" where
  "gdt_set_tss base limit s =
     (case arr_get (kernel_gdt s) 5 of Inl e \<Rightarrow> Inl e | Inr e \<Rightarrow>
      case arr_set (kernel_gdt s) 5
        (e\<lparr>base_low := ucast (base AND 0xFFFF), base_middle := ucast (drop_bit 16 base AND 0xFF),
           base_high := ucast (drop_bit 24 base AND 0xFF), limit_low := ucast (limit AND 0xFFFF),
           limit_high := ucast (drop_bit 16 limit AND 0x0F), access := 0x89, flags := 0\<rparr>) of
        Inl e \<Rightarrow> Inl e | Inr t \<Rightarrow> Inr ((), s\<lparr>kernel_gdt := t\<rparr>))"

text \<open>\<^verbatim>\<open>memset((u8*)&tss, 0, sizeof(tss))\<close>.\<close>

definition tss_zero :: tss_entry_t where
  "tss_zero = \<lparr>tss_prev = 0, tss_esp0 = 0, tss_ss0 = 0, tss_esp1 = 0, tss_ss1 = 0, tss_esp2 = 0, tss_ss2 = 0,
     tss_cr3 = 0, tss_eip = 0, tss_eflags = 0, tss_regs = replicate 8 0, tss_segments = replicate 6 0,
     tss_ldt = 0, tss_trap = 0, tss_iomap_base = 0\<rparr>"

definition ltr :: "u16 \<Rightarrow> ('d, 'z) cpu_scheme \<Rightarrow> ('d, 'z) cpu_scheme" where
  "ltr selector s =
     (let i = unat selector div 8 in
      s\<lparr>task_register := selector,
        kernel_gdt := (kernel_gdt s)[i := (kernel_gdt s ! i)\<lparr>access := access (kernel_gdt s ! i) OR 2\<rparr>]\<rparr>)"

definition tss_init :: "'d bus \<Rightarrow> u32 \<Rightarrow> u32 \<Rightarrow> ('d, 'z) cpu_scheme \<Rightarrow> (unit, ('d, 'z) cpu_scheme) result" where
  "tss_init bus addr kernel_stack s =
     bindk (printk bus (cs ''\<newline>Initializing TSS...\<newline>'') [] s) (\<lambda>_ s.
     bindk (pr bus KERN_DEBUG ''TSS'' ''TSS address: %x\<newline>'' [VInt addr] s) (\<lambda>_ s.
     bindk (pr bus KERN_DEBUG ''TSS'' ''TSS size: %d bytes\<newline>'' [VInt sizeof_tss] s) (\<lambda>_ s.
     bindk (pr bus KERN_DEBUG ''TSS'' ''Kernel stack: %x\<newline>'' [VInt kernel_stack] s) (\<lambda>_ s.
     let s = s\<lparr>tss := tss_zero\<lparr>tss_ss0 := ucast DATA_SEG, tss_esp0 := kernel_stack,
                 tss_iomap_base := ucast sizeof_tss\<rparr>\<rparr> in
     bindk (gdt_set_tss addr (sizeof_tss - 1) s) (\<lambda>_ s.
     bindk (printk bus (cs ''TSS descriptor set in GDT\<newline>'') [] s) (\<lambda>_ s.
     let s = ltr TSS_SEG s in
     bindk (printk bus (cs ''TSS loaded into TR\<newline>'') [] s) (\<lambda>_ s.
     printk bus (cs ''Task Register: %x (should be 0x28)\<newline>'') [VInt (ucast (task_register s))] s)))))))"

section \<open>Descriptors\<close>

text \<open>How the processor reads a descriptor.\<close>

definition gdt_base :: "gdt_entry_t \<Rightarrow> u32" where
  "gdt_base e = ucast (base_low e) OR push_bit 16 (ucast (base_middle e)) OR push_bit 24 (ucast (base_high e))"

definition gdt_limit :: "gdt_entry_t \<Rightarrow> u32" where
  "gdt_limit e = ucast (limit_low e) OR push_bit 16 (ucast (limit_high e))"

definition gdt_dpl :: "gdt_entry_t \<Rightarrow> u8" where
  "gdt_dpl e = drop_bit 5 (access e) AND 3"

definition tss_descriptor :: "u32 \<Rightarrow> u32 \<Rightarrow> gdt_entry_t" where
  "tss_descriptor base limit = \<lparr>limit_low = ucast limit, base_low = ucast base, base_middle = ucast (drop_bit 16 base),
     access = 0x89, limit_high = ucast (drop_bit 16 limit), flags = 0, base_high = ucast (drop_bit 24 base)\<rparr>"

lemma tss_descriptor_base: "gdt_base (tss_descriptor base limit) = base"
proof (rule bit_word_eqI)
  fix n assume "n < LENGTH(32)"
  then show "bit (gdt_base (tss_descriptor base limit)) n = bit base n"
    by (cases "n < 16"; cases "n < 24") (auto simp: gdt_base_def tss_descriptor_def bit_simps)
qed

lemma tss_descriptor_limit: "gdt_limit (tss_descriptor base limit) = limit AND mask 20"
  by (rule bit_word_eqI) (auto simp: gdt_limit_def tss_descriptor_def bit_simps)

lemma word_masks: "(0xFFFF :: u32) = mask 16" "(0xFF :: u32) = mask 8" "(0x0F :: u32) = mask 4"
  by (simp_all add: mask_eq_exp_minus_1)

lemma tss_fields:
  "(ucast (base AND 0xFFFF) :: u16) = ucast base" "(ucast (drop_bit 16 base AND 0xFF) :: u8) = ucast (drop_bit 16 base)"
  "(ucast (drop_bit 24 base AND 0xFF) :: u8) = ucast (drop_bit 24 base)"
  "(ucast (drop_bit 16 base AND 0x0F) :: 4 word) = ucast (drop_bit 16 base)"
  for base :: u32
  unfolding word_masks by (rule bit_word_eqI; simp add: bit_simps)+

lemma gdt_set_tss_eq:
  assumes "length (kernel_gdt s) = 6"
  shows "gdt_set_tss base limit s = Inr ((), s\<lparr>kernel_gdt := (kernel_gdt s)[5 := tss_descriptor base limit]\<rparr>)"
proof -
  obtain e where e: "kernel_gdt s ! 5 = e" by blast
  show ?thesis
    by (cases e) (simp add: gdt_set_tss_def arr_get_def arr_set_def assms e tss_fields tss_descriptor_def)
qed

section \<open>Properties of the task state segment\<close>

definition demo_cpu :: "(u32 \<times> (u8 \<times> pc \<Rightarrow> u8 \<times> pc)) list \<Rightarrow> (u8 \<times> pc) cpu" where
  "demo_cpu evs = irq.extend (demo_irq evs)
     (cpu.fields (replicate 6 \<lparr>limit_low = 0xFFFF, base_low = 0, base_middle = 0, access = 0xE9, limit_high = 0,
        flags = 0, base_high = 0\<rparr>) tss_zero 0)"

lemma demo_cpu_simps:
  "length (kernel_gdt (demo_cpu evs)) = 6" "terminal_of snd (demo_cpu evs) = (replicate 4000 0, 0)"
  by (simp_all add: demo_cpu_def irq.defs cpu.defs terminal_of_def demo_irq_def kbd.defs demo_kbd_def cursor_of_def demo_pc_def)

lemma sizeof_tss_value: "sizeof_tss = 104" "sizeof_tss - 1 = 103"
  by (simp_all add: sizeof_tss_def)

lemma screen_cpu:
  fixes s :: "('d, 'z) cpu_scheme"
  assumes "screen_only view s s'"
  shows "kernel_gdt s' = kernel_gdt s" "tss s' = tss s" "task_register s' = task_register s" "mem s' = mem s"
    "cpu.more s' = cpu.more s"
  using assms by (auto simp: screen_only_def)

lemma terminal_cpu [simp]:
  "terminal_of view (s\<lparr>kernel_gdt := t\<rparr>) = terminal_of view s" "terminal_of view (s\<lparr>tss := x\<rparr>) = terminal_of view s"
  "terminal_of view (s\<lparr>task_register := r\<rparr>) = terminal_of view s"
  by (simp_all add: terminal_of_def)

lemma tss_formats:
  "plain (cs ''\<newline>Initializing TSS...\<newline>'') []"
  "plain (cs ''TSS address: %x\<newline>'') [VInt v]"
  "plain (cs ''TSS size: %d bytes\<newline>'') [VInt v]"
  "plain (cs ''Kernel stack: %x\<newline>'') [VInt v]"
  "plain (cs ''TSS descriptor set in GDT\<newline>'') []"
  "plain (cs ''TSS loaded into TR\<newline>'') []"
  "plain (cs ''Task Register: %x (should be 0x28)\<newline>'') [VInt v]"
  "8 \<notin> set (cs ''TSS'')"
  by (simp_all add: cs_def)

text \<open>What \<open>tss_init\<close> leaves, the screen apart.\<close>

abbreviation kernel_tss :: "u32 \<Rightarrow> tss_entry_t" where
  "kernel_tss kernel_stack \<equiv> tss_zero\<lparr>tss_ss0 := 0x10, tss_esp0 := kernel_stack, tss_iomap_base := 104\<rparr>"

lemma screen_only_cpu:
  fixes s :: "('d, 'z) cpu_scheme"
  assumes "screen_only view s t"
  shows "screen_only view (s\<lparr>tss := x, kernel_gdt := g\<rparr>) (t\<lparr>tss := x, kernel_gdt := g\<rparr>)"
    "screen_only view (s\<lparr>kernel_gdt := g, task_register := r\<rparr>) (t\<lparr>kernel_gdt := g, task_register := r\<rparr>)"
proof -
  obtain d v where "t = s\<lparr>dev := d, vidmem := v\<rparr>" "crtc_only (view (dev s)) (view d)" "terminal_ok (v, cursor_of (view d))"
    using assms by (auto simp: screen_only_def terminal_of_def)
  then show "screen_only view (s\<lparr>tss := x, kernel_gdt := g\<rparr>) (t\<lparr>tss := x, kernel_gdt := g\<rparr>)"
    "screen_only view (s\<lparr>kernel_gdt := g, task_register := r\<rparr>) (t\<lparr>kernel_gdt := g, task_register := r\<rparr>)"
    unfolding screen_only_def by (intro exI [of _ d] exI [of _ v]; simp add: terminal_of_def)+
qed

lemma tss_init_spec:
  fixes s :: "('d, 'z) cpu_scheme"
  assumes "pc_conforms bus view" "terminal_ok (terminal_of view s)" "length (kernel_gdt s) = 6"
  shows "\<exists>s'. tss_init bus addr kernel_stack s = Inr ((), s') \<and>
    screen_only view (s\<lparr>tss := kernel_tss kernel_stack,
      kernel_gdt := (kernel_gdt s)[5 := (tss_descriptor addr 103)\<lparr>access := 0x8B\<rparr>], task_register := 0x28\<rparr>) s'"
proof -
  let ?e = "tss_descriptor addr 103" and ?tss = "kernel_tss kernel_stack"
  let ?e' = "?e\<lparr>access := 0x8B\<rparr>"
  note c = assms(1)
  obtain s1 where s1: "printk bus (cs ''\<newline>Initializing TSS...\<newline>'') [] s = Inr ((), s1)"
    "screen_only view s s1" "terminal_ok (terminal_of view s1)"
    by (rule printk_step [OF c assms(2) tss_formats(1)])
  obtain s2 where s2: "pr bus KERN_DEBUG ''TSS'' ''TSS address: %x\<newline>'' [VInt addr] s1 = Inr ((), s2)"
    "screen_only view s1 s2" "terminal_ok (terminal_of view s2)"
    by (rule pr_step [OF c s1(3) tss_formats(2) tss_formats(8)])
  obtain s3 where s3: "pr bus KERN_DEBUG ''TSS'' ''TSS size: %d bytes\<newline>'' [VInt sizeof_tss] s2 = Inr ((), s3)"
    "screen_only view s2 s3" "terminal_ok (terminal_of view s3)"
    by (rule pr_step [OF c s2(3) tss_formats(3) tss_formats(8)])
  obtain s4 where s4: "pr bus KERN_DEBUG ''TSS'' ''Kernel stack: %x\<newline>'' [VInt kernel_stack] s3 = Inr ((), s4)"
    "screen_only view s3 s4" "terminal_ok (terminal_of view s4)"
    by (rule pr_step [OF c s3(3) tss_formats(4) tss_formats(8)])
  have sc4: "screen_only view s s4" using s1(2) s2(2) s3(2) s4(2) by (blast intro: screen_only_trans)
  let ?s5 = "s4\<lparr>tss := ?tss, kernel_gdt := (kernel_gdt s)[5 := ?e]\<rparr>"
  have g: "gdt_set_tss addr 103 (s4\<lparr>tss := ?tss\<rparr>) = Inr ((), ?s5)"
    using gdt_set_tss_eq [of "s4\<lparr>tss := ?tss\<rparr>" addr 103] assms(3) screen_cpu(1) [OF sc4] by simp
  have t5: "terminal_ok (terminal_of view ?s5)" using s4(3) by simp
  obtain s6 where s6: "printk bus (cs ''TSS descriptor set in GDT\<newline>'') [] ?s5 = Inr ((), s6)"
    "screen_only view ?s5 s6" "terminal_ok (terminal_of view s6)"
    by (rule printk_step [OF c t5 tss_formats(5)])
  have sc6: "screen_only view (s\<lparr>tss := ?tss, kernel_gdt := (kernel_gdt s)[5 := ?e]\<rparr>) s6"
    by (rule screen_only_trans [OF screen_only_cpu(1) [OF sc4] s6(2)])
  have l6: "ltr 0x28 s6 = s6\<lparr>kernel_gdt := (kernel_gdt s)[5 := ?e'], task_register := 0x28\<rparr>"
    using screen_cpu(1) [OF sc6] assms(3) by (simp add: ltr_def Let_def) (simp add: tss_descriptor_def)
  have t6: "terminal_ok (terminal_of view (ltr 0x28 s6))" using s6(3) by (simp add: ltr_def Let_def)
  obtain s7 where s7: "printk bus (cs ''TSS loaded into TR\<newline>'') [] (ltr 0x28 s6) = Inr ((), s7)"
    "screen_only view (ltr 0x28 s6) s7" "terminal_ok (terminal_of view s7)"
    by (rule printk_step [OF c t6 tss_formats(6)])
  obtain s8 where s8: "printk bus (cs ''Task Register: %x (should be 0x28)\<newline>'') [VInt (ucast (task_register s7))] s7 = Inr ((), s8)"
    "screen_only view s7 s8"
    by (rule printk_step [OF c s7(3) tss_formats(7)])
  have "tss_init bus addr kernel_stack s = Inr ((), s8)"
    unfolding tss_init_def Let_def sizeof_tss_value(2) s1(1) bindk_simps fst_conv snd_conv s2(1) s3(1) s4(1)
    by (simp add: sizeof_tss_value g s6(1) s7(1) s8(1))
  moreover have "screen_only view (s\<lparr>tss := ?tss, kernel_gdt := (kernel_gdt s)[5 := ?e'], task_register := 0x28\<rparr>) s8"
    using screen_only_trans [OF screen_only_cpu(2) [OF sc6, where g = "(kernel_gdt s)[5 := ?e']" and r = "0x28"]
      screen_only_trans [OF s7(2) [unfolded l6] s8(2)]] by simp
  ultimately show ?thesis by blast
qed

text \<open>
  C38: \<open>tss_init\<close> gives the processor a kernel stack for interrupts from user mode: descriptor 5,
  alone in the table, becomes a present 32-bit TSS of privilege 0 (busy, since loaded) whose base and
  limit are those of \<open>tss\<close>, the segment names the given stack in the kernel data segment and no I/O
  permissions, and the task register selects it.
\<close>

theorem tss_init_descriptor:
  fixes s :: "('d, 'z) cpu_scheme"
  assumes "pc_conforms bus view" "terminal_ok (terminal_of view s)" "length (kernel_gdt s) = 6"
  shows "\<exists>s' e. tss_init bus addr kernel_stack s = Inr ((), s') \<and> kernel_gdt s' = (kernel_gdt s)[5 := e] \<and>
    gdt_base e = addr \<and> gdt_limit e = 103 \<and> access e = 0x8B \<and> gdt_dpl e = 0 \<and>
    tss s' = tss_zero\<lparr>tss_esp0 := kernel_stack, tss_ss0 := 0x10, tss_iomap_base := 104\<rparr> \<and>
    task_register s' = 0x28 \<and> mem s' = mem s"
proof -
  let ?e = "(tss_descriptor addr 103)\<lparr>access := 0x8B\<rparr>"
  obtain s' where s': "tss_init bus addr kernel_stack s = Inr ((), s')"
    "screen_only view (s\<lparr>tss := kernel_tss kernel_stack, kernel_gdt := (kernel_gdt s)[5 := ?e], task_register := 0x28\<rparr>) s'"
    using tss_init_spec [OF assms] by blast
  have "gdt_base ?e = addr" "gdt_limit ?e = 103" "access ?e = 0x8B" "gdt_dpl ?e = 0"
    using tss_descriptor_base [of addr 103] tss_descriptor_limit [of addr 103]
    by (simp_all add: gdt_base_def gdt_limit_def gdt_dpl_def tss_descriptor_def mask_eq_exp_minus_1)
  with s'(1) screen_cpu [OF s'(2)] show ?thesis by (intro exI [of _ s'] exI [of _ ?e]) simp
qed

theorem tss_init_descriptor_witness:
  "\<exists>s'. tss_init demo_kbus 0xC0300000 0xC0400000 (demo_cpu []) = Inr ((), s') \<and>
     gdt_base (kernel_gdt s' ! 5) = 0xC0300000 \<and> tss_esp0 (tss s') = 0xC0400000"
proof -
  have "terminal_ok (terminal_of snd (demo_cpu []))" by (simp add: demo_cpu_simps terminal_ok_def)
  from tss_init_descriptor [OF demo_kbus_conforms this demo_cpu_simps(1), of "0xC0300000" "0xC0400000"]
  show ?thesis using demo_cpu_simps(1) [of "[]"] by auto
qed

end
