(* ===== verification/Syscall.thy ===== *)
theory Syscall
  imports Gdt Files
begin

text \<open>
  \<^verbatim>\<open>cpu/syscall.c\<close>: the system calls and the commands the shell hands to the kernel. Strings given by
  the user are addresses in flat memory; local arrays are lists with checked accesses. A file name
  passed on is the array followed by the bytes the stack holds after it, the parameter \<open>beyond\<close>
  (\<open>fat12_open\<close> copies 256 bytes).
\<close>

section \<open>Strings in memory\<close>

partial_function (option) string_from :: "memory \<Rightarrow> u32 \<Rightarrow> u8 list option" where
  "string_from m a =
     (if m a = 0 then Some [] else Option.bind (string_from m (a + 1)) (\<lambda>xs. Some (m a # xs)))"

text \<open>The characters a conversion \<^verbatim>\<open>%s\<close> prints: from an address, and from a local array.\<close>

definition string_at :: "memory \<Rightarrow> u32 \<Rightarrow> stop + u8 list" where
  "string_at m a = (case string_from m a of None \<Rightarrow> Inl Hang | Some xs \<Rightarrow> Inr xs)"

definition array_string :: "u8 list \<Rightarrow> stop + u8 list" where
  "array_string xs = (if 0 \<in> set xs then Inr (takeWhile (\<lambda>c. c \<noteq> 0) xs) else Inl Wild)"

partial_function (option) skip_spaces :: "memory \<Rightarrow> u32 \<Rightarrow> u32 option" where
  "skip_spaces m a = (if m a = 32 then skip_spaces m (a + 1) else Some a)"

text \<open>\<^verbatim>\<open>while (!stop(*p)) { xs[i] = *p; i++; p++; }\<close>; the array, \<open>i\<close> and \<open>p\<close> afterwards.\<close>

function copy_until :: "(u8 \<Rightarrow> bool) \<Rightarrow> memory \<Rightarrow> u32 \<Rightarrow> u8 list \<Rightarrow> int \<Rightarrow> stop + u8 list \<times> int \<times> u32" where
  "copy_until stop m p xs i =
     (if stop (m p) then Inr (xs, i, p)
      else (case arr_set xs i (m p) of Inl e \<Rightarrow> Inl e | Inr xs \<Rightarrow> copy_until stop m (p + 1) xs (i + 1)))"
  by pat_completeness auto
termination
  by (relation "measure (\<lambda>(stop, m, p, xs, i). nat (int (length xs) - i))") (auto simp: arr_set_def split: if_splits)

definition after_array :: "u8 list \<Rightarrow> (nat \<Rightarrow> u8) \<Rightarrow> nat \<Rightarrow> u8" where
  "after_array xs beyond i = (if i < length xs then xs ! i else beyond (i - length xs))"

section \<open>Commands\<close>

text \<open>The table \<^verbatim>\<open>commands\<close>: names and descriptions (its handlers are never called).\<close>

definition commands :: "(string \<times> string) list" where
  "commands =
     [(''help'', ''show all the commands''), (''clear'', ''Clear screen''), (''echo'', ''Echo text''),
      (''create'', ''Create a new file''), (''ls'', ''List files''), (''cat'', ''Display file contents''),
      (''meminfo'', ''Show memory info'')]"

definition ruler :: string where
  "ruler = ''---------------------------------------------------\<newline>''"

fun help_entries :: "'d bus \<Rightarrow> (string \<times> string) list \<Rightarrow> ('d, 'z) cpu_scheme \<Rightarrow> (unit, ('d, 'z) cpu_scheme) result" where
  "help_entries bus [] s = Inr ((), s)"
| "help_entries bus (c # rest) s =
     bindk (printk_color bus VGA_COLOR_CYAN (cs ''Name of the cmd -----> %s\<newline>'') [VStr (cs (fst c))] s) (\<lambda>_ s.
     bindk (printk_color bus VGA_COLOR_CYAN (cs ''Description of the cmd ------> %s\<newline>'') [VStr (cs (snd c))] s) (\<lambda>_ s.
     bindk (printk_color bus VGA_COLOR_GREEN (cs ruler) [] s) (\<lambda>_ s. help_entries bus rest s)))"

definition cmd_help :: "'d bus \<Rightarrow> ('d, 'z) cpu_scheme \<Rightarrow> (unit, ('d, 'z) cpu_scheme) result" where
  "cmd_help bus s =
     bindk (printk_color bus VGA_COLOR_MAGENTA (cs ''\<newline>==============Available Commands=============\<newline>'') [] s) (\<lambda>_ s.
     bindk (printk_color bus VGA_COLOR_GREEN (cs ruler) [] s) (\<lambda>_ s. help_entries bus commands s))"

definition cmd_clear :: "'d bus \<Rightarrow> ('d, 'z) cpu_scheme \<Rightarrow> (unit, ('d, 'z) cpu_scheme) result" where
  "cmd_clear bus s = clear_screen bus s"

definition cmd_echo :: "'d bus \<Rightarrow> u32 \<Rightarrow> ('d, 'z) cpu_scheme \<Rightarrow> (unit, ('d, 'z) cpu_scheme) result" where
  "cmd_echo bus args s =
     bindk (printk bus (cs ''\<newline>'') [] s) (\<lambda>_ s.
       case string_at (mem s) args of Inl e \<Rightarrow> Inl e | Inr xs \<Rightarrow> printk bus (cs ''%s\<newline>'') [VStr xs] s)"

definition cmd_create_file ::
  "'d bus \<Rightarrow> (nat \<Rightarrow> u8) \<Rightarrow> u32 \<Rightarrow> ('d, 'z) cpu_scheme \<Rightarrow> (unit, ('d, 'z) cpu_scheme) result" where
  "cmd_create_file bus beyond args s =
     (case copy_until (\<lambda>c. c = 32) (mem s) args (replicate 12 0) 0 of Inl e \<Rightarrow> Inl e | Inr (name, _, args) \<Rightarrow>
      case copy_until (\<lambda>c. c = 0) (mem s) (args + 1) (replicate 256 0) 0 of Inl e \<Rightarrow> Inl e | Inr (buff, _, _) \<Rightarrow>
        bindk (fat12_create bus (after_array name beyond) 256 s) (\<lambda>_ s.
        bindk (fat12_open bus (after_array name beyond) s) (\<lambda>fp s.
        bindk (fat12_write bus fp buff 256 s) (\<lambda>_ s.
          case array_string name of Inl e \<Rightarrow> Inl e | Inr n \<Rightarrow>
            printk_color bus VGA_COLOR_YELLOW (cs ''\<newline>File %s Created\<newline>'') [VStr n] s))))"

definition cmd_cat ::
  "'d bus \<Rightarrow> (nat \<Rightarrow> u8) \<Rightarrow> u32 \<Rightarrow> ('d, 'z) cpu_scheme \<Rightarrow> (unit, ('d, 'z) cpu_scheme) result" where
  "cmd_cat bus beyond args s =
     (case copy_until (\<lambda>c. c = 32) (mem s) args (replicate 12 0) 0 of Inl e \<Rightarrow> Inl e | Inr (name, _, _) \<Rightarrow>
        bindk (fat12_open bus (after_array name beyond) s) (\<lambda>fp s.
        bindk (fat12_read bus fp (replicate 256 0) 256 s) (\<lambda>r s.
          case array_string name of Inl e \<Rightarrow> Inl e | Inr n \<Rightarrow>
            bindk (printk bus (cs ''\<newline>File %s Contents :- \<newline>'') [VStr n] s) (\<lambda>_ s.
              case array_string (snd r) of Inl e \<Rightarrow> Inl e | Inr text \<Rightarrow>
                bindk (printk bus (cs ''%s'') [VStr text] s) (\<lambda>_ s.
                  printk bus (cs ''\<newline>File Ended\<newline>'') [] s)))))"

definition cmd_ls :: "'d bus \<Rightarrow> ('d, 'z) cpu_scheme \<Rightarrow> (unit, ('d, 'z) cpu_scheme) result" where
  "cmd_ls bus s =
     bindk (printk bus (cs ''\<newline>'') [] s) (\<lambda>_ s.
     bindk (fat12_list_root bus s) (\<lambda>_ s. printk bus (cs ''\<newline>'') [] s))"

text \<open>The chain of comparisons in \<open>process_cmd\<close>; \<open>is_cmd\<close> is one \<^verbatim>\<open>memcmp(cmd, "...", n) == 0\<close>.\<close>

definition is_cmd :: "u8 list \<Rightarrow> string \<Rightarrow> stop + bool" where
  "is_cmd cmd name =
     (case memcmp cmd (cs name @ [0]) (int (length name)) 0 of Inl e \<Rightarrow> Inl e | Inr c \<Rightarrow> Inr (c = 0))"

fun first_cmd :: "u8 list \<Rightarrow> string list \<Rightarrow> stop + string option" where
  "first_cmd cmd [] = Inr None"
| "first_cmd cmd (name # names) =
     (case is_cmd cmd name of Inl e \<Rightarrow> Inl e | Inr b \<Rightarrow> if b then Inr (Some name) else first_cmd cmd names)"

definition run_cmd ::
  "'d bus \<Rightarrow> (nat \<Rightarrow> u8) \<Rightarrow> u8 list \<Rightarrow> u32 \<Rightarrow> ('d, 'z) cpu_scheme \<Rightarrow> (unit, ('d, 'z) cpu_scheme) result" where
  "run_cmd bus beyond cmd buff s =
     (case first_cmd cmd [''help'', ''clear'', ''echo'', ''create'', ''cat'', ''ls''] of
        Inl e \<Rightarrow> Inl e
      | Inr (Some name) \<Rightarrow>
          if name = ''help'' then cmd_help bus s
          else if name = ''clear'' then cmd_clear bus s
          else if name = ''echo'' then cmd_echo bus buff s
          else if name = ''create'' then cmd_create_file bus beyond buff s
          else if name = ''cat'' then cmd_cat bus beyond buff s
          else cmd_ls bus s
      | Inr None \<Rightarrow>
          case array_string cmd of Inl e \<Rightarrow> Inl e | Inr c \<Rightarrow>
            printk_color bus VGA_COLOR_RED (cs ''\<newline> %s cmd not implemented\<newline>'') [VStr c] s)"

definition process_cmd ::
  "'d bus \<Rightarrow> (nat \<Rightarrow> u8) \<Rightarrow> u32 \<Rightarrow> ('d, 'z) cpu_scheme \<Rightarrow> (u32, ('d, 'z) cpu_scheme) result" where
  "process_cmd bus beyond buff s =
     (case skip_spaces (mem s) buff of None \<Rightarrow> Inl Hang | Some buff \<Rightarrow>
      case copy_until (\<lambda>c. c = 32 \<or> c = 0) (mem s) buff (replicate 20 0) 0 of
        Inl e \<Rightarrow> Inl e
      | Inr (cmd, i, buff) \<Rightarrow>
          (case skip_spaces (mem s) buff of None \<Rightarrow> Inl Hang | Some buff \<Rightarrow>
           case arr_set cmd i 0 of Inl e \<Rightarrow> Inl e | Inr cmd \<Rightarrow>
             bindk (run_cmd bus beyond cmd buff s) (\<lambda>_ s. Inr (0, s))))"

section \<open>System calls\<close>

text \<open>The numbers of the system calls.\<close>

abbreviation (input) SYS_EXIT :: u32 where "SYS_EXIT \<equiv> 0"

abbreviation (input) SYS_PRINT :: u32 where "SYS_PRINT \<equiv> 1"

abbreviation (input) SYS_READ :: u32 where "SYS_READ \<equiv> 2"

abbreviation (input) SYS_EXEC_CMD :: u32 where "SYS_EXEC_CMD \<equiv> 3"

abbreviation (input) SYS_COLOR_PRINT :: u32 where "SYS_COLOR_PRINT \<equiv> 4"

definition sys_exit :: "'d bus \<Rightarrow> u32 \<Rightarrow> ('d, 'z) cpu_scheme \<Rightarrow> (u32, ('d, 'z) cpu_scheme) result" where
  "sys_exit bus code s =
     bindk (printk bus (cs ''\<newline>[KERNEL] Process exited with code: %d\<newline>'') [VInt code] s) (\<lambda>_ s.
     bindk (printk bus (cs ''[KERNEL] System halted.\<newline>'') [] s) (\<lambda>_ s. Inl Hang))"

function print_length :: "memory \<Rightarrow> u32 \<Rightarrow> int \<Rightarrow> int" where
  "print_length m p len = (if m p \<noteq> 0 \<and> len < 4096 then print_length m (p + 1) (len + 1) else len)"
  by pat_completeness auto
termination
  by (relation "measure (\<lambda>(m, p, len). nat (4096 - len))") auto

definition sys_print :: "'d bus \<Rightarrow> u32 \<Rightarrow> u32 \<Rightarrow> ('d, 'z) cpu_scheme \<Rightarrow> (u32, ('d, 'z) cpu_scheme) result" where
  "sys_print bus str color s =
     (let color = (if color = 0 then 0x0f else color);
          len = print_length (mem s) str 0 in
      if len \<ge> 4096 then bindk (printk bus (cs ''[KERNEL] String too long\<newline>'') [] s) (\<lambda>_ s. Inr (-1, s))
      else case string_at (mem s) str of Inl e \<Rightarrow> Inl e | Inr xs \<Rightarrow>
        bindk (printk_color bus (ucast color) (cs ''%s'') [VStr xs] s) (\<lambda>_ s. Inr (of_int len, s)))"

definition sys_read :: "'d bus \<Rightarrow> u32 \<Rightarrow> u32 \<Rightarrow> u32 \<Rightarrow> ('d, 'z) cpu_scheme \<Rightarrow> (u32, ('d, 'z) cpu_scheme) result" where
  "sys_read bus fd buf count s =
     bindk (pr bus KERN_DEBUG ''KERNEL'' ''sys_read handler called\<newline>'' [] s) (\<lambda>_ s.
       if fd \<noteq> 0 then Inr (-1, s) else keyboard_read bus buf count s)"

definition syscall_dispatcher ::
  "'d bus \<Rightarrow> (nat \<Rightarrow> u8) \<Rightarrow> u32 \<Rightarrow> u32 \<Rightarrow> u32 \<Rightarrow> u32 \<Rightarrow> ('d, 'z) cpu_scheme \<Rightarrow> (u32, ('d, 'z) cpu_scheme) result" where
  "syscall_dispatcher bus beyond syscall_num arg1 arg2 arg3 s =
     (if syscall_num = SYS_EXIT then sys_exit bus arg1 s
      else if syscall_num = SYS_PRINT then sys_print bus arg1 0 s
      else if syscall_num = SYS_READ then sys_read bus arg1 arg2 arg3 s
      else if syscall_num = SYS_EXEC_CMD then process_cmd bus beyond arg1 s
      else if syscall_num = SYS_COLOR_PRINT then sys_print bus arg1 arg2 s
      else bindk (printk bus (cs ''[KERNEL] Unknown syscall: %d\<newline>'') [VInt syscall_num] s) (\<lambda>_ s. Inr (-1, s)))"

declare copy_until.simps [simp del] print_length.simps [simp del]

section \<open>Reading strings\<close>

definition mem_string :: "memory \<Rightarrow> u32 \<Rightarrow> u8 list \<Rightarrow> bool" where
  "mem_string m a xs \<longleftrightarrow> 0 \<notin> set xs \<and> rd_bytes m a (length xs) = xs \<and> m (a + of_nat (length xs)) = 0"

lemma rd_bytes_Cons: "rd_bytes m a (Suc n) = m a # rd_bytes m (a + 1) n"
proof -
  have "map (\<lambda>i. m (a + of_nat i)) [Suc 0..<Suc n] = map (\<lambda>i. m (a + 1 + of_nat i)) [0..<n]"
    unfolding map_Suc_upt [symmetric] map_map by (simp add: algebra_simps del: upt_Suc)
  then show ?thesis by (simp add: rd_bytes_def upt_conv_Cons del: upt_Suc)
qed

lemma mem_string_Nil [simp]: "mem_string m a [] \<longleftrightarrow> m a = 0"
  by (simp add: mem_string_def rd_bytes_def)

lemma mem_string_Cons: "mem_string m a (x # xs) \<longleftrightarrow> x \<noteq> 0 \<and> m a = x \<and> mem_string m (a + 1) xs"
  by (auto simp: mem_string_def rd_bytes_Cons algebra_simps)

lemma mem_string_append:
  "mem_string m a (xs @ ys) \<longleftrightarrow> 0 \<notin> set xs \<and> rd_bytes m a (length xs) = xs \<and> mem_string m (a + of_nat (length xs)) ys"
proof (induction xs arbitrary: a)
  case Nil
  show ?case by (simp add: rd_bytes_def)
next
  case (Cons x xs)
  then show ?case by (auto simp: mem_string_Cons rd_bytes_Cons algebra_simps)
qed

lemma string_at_eq: "mem_string m a xs \<Longrightarrow> string_at m a = Inr xs"
proof -
  assume "mem_string m a xs"
  then have "string_from m a = Some xs"
  proof (induction xs arbitrary: a)
    case Nil
    then show ?case by (simp add: string_from.simps)
  next
    case (Cons x xs)
    then show ?case by (subst string_from.simps) (simp add: mem_string_Cons)
  qed
  then show ?thesis by (simp add: string_at_def)
qed

lemma print_length_from:
  "mem_string m a xs \<Longrightarrow> len \<le> 4096 \<Longrightarrow> print_length m a (int len) = int (min 4096 (len + length xs))"
proof (induction xs arbitrary: a len)
  case Nil
  then show ?case by (simp add: print_length.simps)
next
  case (Cons x xs)
  show ?case
  proof (cases "len < 4096")
    case True
    then have "print_length m (a + 1) (int (Suc len)) = int (min 4096 (Suc len + length xs))"
      using Cons by (intro Cons.IH) (simp_all add: mem_string_Cons)
    then show ?thesis using True Cons.prems by (subst print_length.simps) (simp add: mem_string_Cons add.commute)
  qed (use Cons.prems in \<open>simp add: print_length.simps\<close>)
qed

lemma skip_spaces_eq:
  assumes "rd_bytes m a n = replicate n 32" "m (a + of_nat n) \<noteq> 32"
  shows "skip_spaces m a = Some (a + of_nat n)"
  using assms
proof (induction n arbitrary: a)
  case 0
  then show ?case by (simp add: skip_spaces.simps)
next
  case (Suc n)
  then have "skip_spaces m (a + 1) = Some (a + 1 + of_nat n)"
    by (intro Suc.IH) (simp_all add: rd_bytes_Cons algebra_simps)
  then show ?case using Suc.prems by (subst skip_spaces.simps) (simp add: rd_bytes_Cons algebra_simps)
qed

lemma copy_until_eq:
  assumes "rd_bytes m a (length xs) = xs" "\<forall>x \<in> set xs. \<not> stop x" "stop (m (a + of_nat (length xs)))"
    and "i + length xs \<le> length arr"
  shows "copy_until stop m a arr (int i)
    = Inr (take i arr @ xs @ drop (i + length xs) arr, int (i + length xs), a + of_nat (length xs))"
  using assms
proof (induction xs arbitrary: a i arr)
  case Nil
  then show ?case by (simp add: copy_until.simps)
next
  case (Cons x xs)
  then have x: "m a = x" "rd_bytes m (a + 1) (length xs) = xs" by (auto simp: rd_bytes_Cons)
  have i: "i < length arr" using Cons.prems(4) by simp
  have "copy_until stop m (a + 1) (arr[i := x]) (int (Suc i))
      = Inr (take (Suc i) (arr[i := x]) @ xs @ drop (Suc i + length xs) (arr[i := x]), int (Suc i + length xs), a + 1 + of_nat (length xs))"
    using Cons.prems x by (intro Cons.IH) (simp_all add: algebra_simps)
  then show ?case
    using i x Cons.prems(2) by (subst copy_until.simps) (simp add: arr_set_nat take_Suc_conv_app_nth add.commute algebra_simps)
qed

text \<open>An array that is too short for the bytes before the stop is left.\<close>

lemma copy_until_wild:
  assumes "\<forall>j \<le> n. \<not> stop (m (a + of_nat j))" "length arr = i + n"
  shows "copy_until stop m a arr (int i) = Inl Wild"
  using assms
proof (induction n arbitrary: a i arr)
  case 0
  then show ?case by (subst copy_until.simps) (simp add: arr_set_def)
next
  case (Suc n)
  have "\<not> stop (m (a + 1 + of_nat j))" if "j \<le> n" for j
    using Suc.prems(1) [rule_format, of "Suc j"] that by (simp add: algebra_simps)
  then have "copy_until stop m (a + 1) (arr[i := m a]) (int (Suc i)) = Inl Wild"
    using Suc.prems(2) by (intro Suc.IH) simp_all
  moreover have "\<not> stop (m a)" using Suc.prems(1) [rule_format, of 0] by simp
  ultimately show ?case
    using Suc.prems(2) by (subst copy_until.simps) (simp add: arr_set_nat add.commute)
qed

section \<open>Dispatch of a command\<close>

lemma first_cmd_eq:
  assumes "length w < 20" "0 \<notin> set w" "\<forall>n \<in> set names. length n < 20 \<and> 0 \<notin> set (cs n)"
  shows "first_cmd (w @ replicate (20 - length w) 0) names = Inr (find (\<lambda>n. take (length n) w = cs n) names)"
  using assms(3)
proof (induction names)
  case (Cons n names)
  let ?c = "w @ replicate (20 - length w) 0"
  have l: "length (cs n) = length n" by (simp add: cs_def)
  obtain c where c: "memcmp ?c (cs n @ [0]) (int (length n)) 0 = Inr c"
    "c = 0 \<longleftrightarrow> take (length n) ?c = take (length n) (cs n @ [0])"
    by (rule memcmp_eq [of "length n" ?c "cs n @ [0]"]) (use Cons.prems assms(1) l in simp_all)
  have "take (length n) ?c = cs n \<longleftrightarrow> take (length n) w = cs n"
  proof (cases "length n \<le> length w")
    case False
    then have "take (length n) ?c = w @ replicate (length n - length w) 0"
      using Cons.prems by (auto simp: min_def)
    then have "0 \<in> set (take (length n) ?c)" using False by simp
    moreover have "0 \<notin> set (cs n)" using Cons.prems by simp
    ultimately have "take (length n) ?c \<noteq> cs n" by metis
    moreover have "length (take (length n) w) \<noteq> length (cs n)" using False l by simp
    then have "take (length n) w \<noteq> cs n" by metis
    ultimately show ?thesis by blast
  qed simp
  then have "is_cmd ?c n = Inr (take (length n) w = cs n)" using c l by (simp add: is_cmd_def)
  with Cons show ?case by simp
qed simp

text \<open>
  A command line in memory: blanks, a word (empty where the line is blank), blanks, and the text of
  the arguments up to the NUL.
\<close>

definition command_line :: "memory \<Rightarrow> u32 \<Rightarrow> nat \<Rightarrow> u8 list \<Rightarrow> nat \<Rightarrow> u8 list \<Rightarrow> bool" where
  "command_line m a i w j args \<longleftrightarrow>
     mem_string m a (replicate i 32 @ w @ replicate j 32 @ args) \<and> 32 \<notin> set w \<and>
     (w = [] \<longrightarrow> j = 0) \<and> (j = 0 \<longrightarrow> args = []) \<and> (args \<noteq> [] \<longrightarrow> hd args \<noteq> 32)"

definition args_at :: "u32 \<Rightarrow> nat \<Rightarrow> u8 list \<Rightarrow> nat \<Rightarrow> u32" where
  "args_at a i w j = a + of_nat (i + length w + j)"

lemma command_line_parts:
  assumes "command_line m a i w j args"
  shows "rd_bytes m a i = replicate i 32" "m (a + of_nat i) \<noteq> 32" "0 \<notin> set w" "32 \<notin> set w"
    "rd_bytes m (a + of_nat i) (length w) = w" "m (a + of_nat i + of_nat (length w)) \<in> {32, 0}"
    "rd_bytes m (a + of_nat i + of_nat (length w)) j = replicate j 32"
    "m (a + of_nat i + of_nat (length w) + of_nat j) \<noteq> 32" "mem_string m (args_at a i w j) args"
proof -
  note c = assms [unfolded command_line_def mem_string_append length_replicate]
  show "rd_bytes m a i = replicate i 32" "0 \<notin> set w" "32 \<notin> set w" "rd_bytes m (a + of_nat i) (length w) = w"
    and j: "rd_bytes m (a + of_nat i + of_nat (length w)) j = replicate j 32"
    and e: "mem_string m (args_at a i w j) args"
    using c by (auto simp: args_at_def algebra_simps)
  show "m (a + of_nat i) \<noteq> 32"
  proof (cases w)
    case (Cons x w')
    then have "m (a + of_nat i) = x" using c by (simp add: rd_bytes_Cons)
    then show ?thesis using c Cons by auto
  qed (use c in auto)
  have e': "mem_string m (a + of_nat i + of_nat (length w) + of_nat j) args" using e by (simp add: args_at_def algebra_simps)
  show "m (a + of_nat i + of_nat (length w) + of_nat j) \<noteq> 32"
    using e' c by (cases args) (auto simp: mem_string_Cons)
  show "m (a + of_nat i + of_nat (length w)) \<in> {32, 0}"
  proof (cases j)
    case 0
    with c e' show ?thesis by simp
  next
    case (Suc k)
    with j show ?thesis by (simp add: rd_bytes_Cons)
  qed
qed

text \<open>Every string in memory is a command line.\<close>

lemma command_line_of_string:
  assumes "mem_string m a xs"
  obtains i w j args where "command_line m a i w j args" "xs = replicate i 32 @ w @ replicate j 32 @ args"
proof -
  let ?b = "\<lambda>c :: u8. c = 32"
  have blanks: "takeWhile ?b ys = replicate (length (takeWhile ?b ys)) 32" for ys
    by (induction ys) auto
  define r w t where "r = dropWhile ?b xs" and "w = takeWhile (\<lambda>c. \<not> ?b c) r" and "t = dropWhile (\<lambda>c. \<not> ?b c) r"
  define i j args where "i = length (takeWhile ?b xs)" and "j = length (takeWhile ?b t)" and "args = dropWhile ?b t"
  have "xs = takeWhile ?b xs @ r" "r = w @ t" "t = takeWhile ?b t @ args"
    by (simp_all add: r_def w_def t_def args_def)
  then have xs: "xs = replicate i 32 @ w @ replicate j 32 @ args"
    using blanks [of xs] blanks [of t] by (simp add: i_def j_def)
  have "32 \<notin> set w" by (auto simp: w_def dest: set_takeWhileD)
  moreover have "j = 0" if "w = []"
  proof -
    have "r = []"
    proof (rule ccontr)
      assume r: "r \<noteq> []"
      then have "\<not> ?b (hd r)" unfolding r_def by (rule hd_dropWhile)
      with r have "w \<noteq> []" unfolding w_def by (cases r) simp_all
      with that show False by simp
    qed
    then show ?thesis by (simp add: j_def t_def)
  qed
  moreover have "args = []" if "j = 0"
  proof (cases t)
    case (Cons c u)
    then have "?b c" by (simp add: t_def dropWhile_eq_Cons_conv)
    then show ?thesis using that Cons by (simp add: j_def)
  qed (simp add: args_def)
  moreover have "hd args \<noteq> 32" if "args \<noteq> []"
    using hd_dropWhile [of ?b t] that by (simp add: args_def)
  ultimately show ?thesis using assms xs by (intro that [of i w j args]) (simp_all add: command_line_def)
qed

lemma process_cmd_eq:
  assumes "command_line (mem s) a i w j args" "length w < 20"
  shows "process_cmd bus beyond a s =
    bindk (run_cmd bus beyond (w @ replicate (20 - length w) 0) (args_at a i w j) s) (\<lambda>_ s. Inr (0, s))"
proof -
  note p = command_line_parts [OF assms(1)]
  let ?arr = "w @ replicate (20 - length w) 0"
  have "copy_until (\<lambda>c. c = 32 \<or> c = 0) (mem s) (a + of_nat i) (replicate 20 0) (int 0)
      = Inr (take 0 (replicate 20 0) @ w @ drop (0 + length w) (replicate 20 0), int (0 + length w),
          a + of_nat i + of_nat (length w))"
    by (rule copy_until_eq [OF p(5)]) (use p(3,4,6) assms(2) in auto)
  then have c: "copy_until (\<lambda>c. c = 32 \<or> c = 0) (mem s) (a + of_nat i) (replicate 20 0) 0
      = Inr (?arr, int (length w), a + of_nat i + of_nat (length w))" by simp
  have "arr_set ?arr (int (length w)) 0 = Inr (?arr[length w := 0])"
    by (rule arr_set_nat) (use assms(2) in simp)
  moreover have "?arr[length w := 0] = ?arr"
    using assms(2) by (simp add: list_update_append list_update_same_conv)
  moreover have "a + of_nat i + of_nat (length w) + of_nat j = args_at a i w j"
    by (simp add: args_at_def algebra_simps)
  ultimately show ?thesis
    using skip_spaces_eq [OF p(1,2)] skip_spaces_eq [OF p(7,8)] c by (simp add: process_cmd_def)
qed

text \<open>A word that does not leave room for the final NUL in the 20 bytes of \<open>cmd\<close>.\<close>

lemma process_cmd_wild:
  assumes "command_line (mem s) a i w j args" "20 \<le> length w"
  shows "process_cmd bus beyond a s = Inl Wild"
proof (cases "length w = 20")
  case True
  note p = command_line_parts [OF assms(1)]
  have "copy_until (\<lambda>c. c = 32 \<or> c = 0) (mem s) (a + of_nat i) (replicate 20 0) (int 0)
      = Inr (take 0 (replicate 20 0) @ w @ drop (0 + length w) (replicate 20 0), int (0 + length w),
          a + of_nat i + of_nat (length w))"
    by (rule copy_until_eq [OF p(5)]) (use p(3,4,6) True in auto)
  then show ?thesis
    using skip_spaces_eq [OF p(1,2)] skip_spaces_eq [OF p(7,8)] True by (simp add: process_cmd_def arr_set_def)
next
  case False
  note p = command_line_parts [OF assms(1)]
  have "mem s (a + of_nat i + of_nat k) \<notin> {32, 0}" if "k \<le> 20" for k
  proof -
    have k: "k < length w" using that False assms(2) by simp
    then have "rd_bytes (mem s) (a + of_nat i) (length w) ! k = mem s (a + of_nat i + of_nat k)"
      by (simp add: rd_bytes_def)
    then have "mem s (a + of_nat i + of_nat k) = w ! k" unfolding p(5) by simp
    then show ?thesis using p(3,4) nth_mem [OF k] by auto
  qed
  then have "copy_until (\<lambda>c. c = 32 \<or> c = 0) (mem s) (a + of_nat i) (replicate 20 0) (int 0) = Inl Wild"
    by (intro copy_until_wild [where n = 20]) auto
  then show ?thesis using skip_spaces_eq [OF p(1,2)] by (simp add: process_cmd_def)
qed

definition cmd_names :: "string list" where
  "cmd_names = [''help'', ''clear'', ''echo'', ''create'', ''cat'', ''ls'']"

text \<open>The command a word selects: the first name that is a prefix of it.\<close>

definition selected :: "u8 list \<Rightarrow> string option" where
  "selected w = find (\<lambda>n. take (length n) w = cs n) cmd_names"

lemma run_cmd_eq:
  assumes "length w < 20" "0 \<notin> set w"
  shows "run_cmd bus beyond (w @ replicate (20 - length w) 0) p s =
    (case selected w of
       Some name \<Rightarrow>
         if name = ''help'' then cmd_help bus s
         else if name = ''clear'' then cmd_clear bus s
         else if name = ''echo'' then cmd_echo bus p s
         else if name = ''create'' then cmd_create_file bus beyond p s
         else if name = ''cat'' then cmd_cat bus beyond p s
         else cmd_ls bus s
     | None \<Rightarrow> printk_color bus VGA_COLOR_RED (cs ''\<newline> %s cmd not implemented\<newline>'') [VStr w] s)"
proof -
  let ?c = "w @ replicate (20 - length w) 0"
  have "\<forall>n \<in> set cmd_names. length n < 20 \<and> 0 \<notin> set (cs n)" by (simp add: cmd_names_def cs_def)
  from first_cmd_eq [OF assms this] have f: "first_cmd ?c cmd_names = Inr (selected w)" by (simp add: selected_def)
  have "takeWhile (\<lambda>c. c \<noteq> 0) ?c = w"
    using assms by (subst takeWhile_append2) (auto simp: takeWhile_replicate)
  then have "array_string ?c = Inr w" using assms(1) by (simp add: array_string_def)
  then show ?thesis unfolding run_cmd_def f [unfolded cmd_names_def] by (cases "selected w") simp_all
qed

lemma sys_print_spec:
  fixes s :: "('d, 'z) cpu_scheme"
  assumes "pc_conforms bus view" "terminal_ok (terminal_of view s)" "mem_string (mem s) a xs" "8 \<notin> set xs"
  shows "\<exists>s'. sys_print bus a c s = Inr (if length xs < 4096 then of_nat (length xs) else -1, s') \<and>
    screen_only view s s' \<and>
    (length xs < 4096 \<longrightarrow> terminal_of view s' =
      text_puts xs (if c = 0 then WHITE_ON_BLACK else ucast c) (terminal_of view s))"
proof -
  have len: "print_length (mem s) a 0 = int (min 4096 (length xs))"
    using print_length_from [OF assms(3), of 0] by simp
  show ?thesis
  proof (cases "length xs < 4096")
    case True
    have r: "render (cs ''%s'') [VStr xs] = Some xs" by (simp add: cs_def)
    let ?c = "if c = 0 then WHITE_ON_BLACK else ucast c"
    obtain s' where "put_chars bus xs ?c s = Inr ((), s')" "screen_only view s s'"
      "terminal_of view s' = text_puts xs ?c (terminal_of view s)"
      using put_chars_terminal [OF assms(1,2,4)] by blast
    then show ?thesis
      using True by (intro exI [of _ s'], cases "c = 0")
        (simp_all add: sys_print_def len string_at_eq [OF assms(3)] printk_color_def vformat_renders [OF r])
  next
    case False
    obtain s' where "printk bus (cs ''[KERNEL] String too long\<newline>'') [] s = Inr ((), s')" "screen_only view s s'"
      by (rule printk_step [OF assms(1,2), of "cs ''[KERNEL] String too long\<newline>''" "[]"]) (simp_all add: cs_def)
    then show ?thesis using False by (intro exI [of _ s']) (simp add: sys_print_def len)
  qed
qed

section \<open>A user program for the witnesses\<close>

definition demo_user :: "u8 list \<Rightarrow> (u8 \<times> pc) cpu" where
  "demo_user xs = (demo_cpu [])\<lparr>mem := wr_bytes (\<lambda>_. 0) 0x5000 xs\<rparr>"

lemma demo_user_string: "0 \<notin> set xs \<Longrightarrow> length xs < 4096 \<Longrightarrow> mem_string (mem (demo_user xs)) 0x5000 xs"
proof -
  assume xs: "0 \<notin> set xs" "length xs < 4096"
  have "\<not> in_range 0x5000 (length xs) (0x5000 + of_nat (length xs))"
    using xs(2) by (simp add: in_range_def unat_of_nat)
  then have "wr_bytes (\<lambda>_. 0) 0x5000 xs (0x5000 + of_nat (length xs)) = 0"
    using xs(2) by (subst wr_bytes_outside) simp_all
  then show ?thesis using xs by (simp add: mem_string_def demo_user_def rd_bytes_wr_bytes)
qed

lemma demo_user_terminal: "terminal_of snd (demo_user xs) = (replicate 4000 0, 0)"
  by (simp add: demo_user_def demo_cpu_simps(2) [unfolded terminal_of_def] terminal_of_def)

lemma demo_user_terminal_ok: "terminal_ok (terminal_of snd (demo_user xs))"
  by (simp add: demo_user_terminal terminal_ok_def)

section \<open>Properties of the system calls\<close>

text \<open>
  C39: Printing for a user program: a string of fewer than 4096 characters appears on the screen in
  the given colour (white on black for colour 0) and its length is answered; a longer one is refused
  with -1 and only a message of the kernel appears. Memory is not written.
\<close>

theorem sys_print_bounded:
  fixes s :: "('d, 'z) cpu_scheme"
  assumes "pc_conforms bus view" "terminal_ok (terminal_of view s)" "mem_string (mem s) a xs" "8 \<notin> set xs"
  shows "\<exists>s'. sys_print bus a c s = Inr (if length xs < 4096 then of_nat (length xs) else -1, s') \<and>
    screen_only view s s' \<and>
    (length xs < 4096 \<longrightarrow> terminal_of view s' =
      text_puts xs (if c = 0 then WHITE_ON_BLACK else ucast c) (terminal_of view s))"
  using assms by (rule sys_print_spec)

theorem sys_print_bounded_witness:
  "\<exists>s'. sys_print demo_kbus 0x5000 0 (demo_user (cs ''hi'')) = Inr (2, s') \<and> vidmem s' ! 2 = 105"
proof -
  have x: "0 \<notin> set (cs ''hi'')" "length (cs ''hi'') < 4096" "8 \<notin> set (cs ''hi'')" by (simp_all add: cs_def)
  from sys_print_bounded [OF demo_kbus_conforms demo_user_terminal_ok demo_user_string [OF x(1,2)] x(3), of 0]
  obtain s' where s': "sys_print demo_kbus 0x5000 0 (demo_user (cs ''hi'')) = Inr (2, s')"
    "terminal_of snd s' = text_puts (cs ''hi'') WHITE_ON_BLACK (replicate 4000 0, 0)"
    by (auto simp: demo_user_terminal cs_def)
  have "fst (text_puts (cs ''hi'') WHITE_ON_BLACK (replicate 4000 0, 0)) ! 2 = 105"
    by (simp add: cs_def text_puts_def text_put_def)
  moreover have "vidmem s' = fst (terminal_of snd s')" by (simp add: terminal_of_def)
  ultimately show ?thesis using s' by auto
qed

text \<open>
  C18: What the kernel does with a command line, for every line (every string in memory is one, by
  \<open>command_line_of_string\<close>). Blanks around the first word are skipped. If the word has fewer than 20
  characters, the first of the six names help, clear, echo, create, cat, ls that is a prefix of it
  is run on the text after it; any other word, the empty one of a blank line included, is reported
  as not implemented; and if the command itself returns, the answer is 0, whether it succeeded or
  not. A word of 20 characters or more does not fit the local array \<open>cmd\<close>, and the copy leaves it.
\<close>

theorem process_cmd_dispatch:
  assumes "command_line (mem s) a i w j args"
  shows "process_cmd bus beyond a s =
    (if length w < 20 then
       bindk (case selected w of
         Some name \<Rightarrow>
           if name = ''help'' then cmd_help bus s
           else if name = ''clear'' then cmd_clear bus s
           else if name = ''echo'' then cmd_echo bus (args_at a i w j) s
           else if name = ''create'' then cmd_create_file bus beyond (args_at a i w j) s
           else if name = ''cat'' then cmd_cat bus beyond (args_at a i w j) s
           else cmd_ls bus s
       | None \<Rightarrow> printk_color bus VGA_COLOR_RED (cs ''\<newline> %s cmd not implemented\<newline>'') [VStr w] s)
        (\<lambda>_ s. Inr (0, s))
     else Inl Wild)"
proof (cases "length w < 20")
  case True
  then show ?thesis
    by (simp only: process_cmd_eq [OF assms True] run_cmd_eq [OF True command_line_parts(3) [OF assms]] if_True)
next
  case False
  then show ?thesis using process_cmd_wild [OF assms] by simp
qed

theorem process_cmd_dispatch_witness:
  "process_cmd demo_kbus (\<lambda>_. 0) 0x5000 (demo_user (cs '' cleared'')) =
     bindk (cmd_clear demo_kbus (demo_user (cs '' cleared''))) (\<lambda>_ s. Inr (0, s))"
proof -
  have "command_line (mem (demo_user (cs '' cleared''))) 0x5000 1 (cs ''cleared'') 0 []"
    using demo_user_string [of "cs '' cleared''"] by (simp add: command_line_def cs_def)
  moreover have "selected (cs ''cleared'') = Some ''clear''" by (simp add: selected_def cmd_names_def cs_def)
  moreover have "length (cs ''cleared'') < 20" by (simp add: cs_def)
  ultimately show ?thesis using process_cmd_dispatch [of "demo_user (cs '' cleared'')" "0x5000" 1 "cs ''cleared''" 0 "[]"] by simp
qed

text \<open>
  C40: A word of the command line of 20 characters or more is written past the 20 bytes of its local
  array, and a file name with no blank among its first 13 bytes past the 12 bytes of its own: the
  end of the string is not looked for, so \<open>cat\<close> and \<open>create\<close> need a blank after the name.
\<close>

theorem local_arrays_overflow:
  assumes "\<forall>j \<le> 12. mem s (p + of_nat j) \<noteq> 32"
  shows "cmd_cat bus beyond p s = Inl Wild \<and> cmd_create_file bus beyond p s = Inl Wild \<and>
    ((\<forall>j \<le> 20. mem s (p + of_nat j) \<notin> {32, 0}) \<longrightarrow> process_cmd bus beyond p s = Inl Wild)"
proof -
  have c: "copy_until (\<lambda>c. c = 32) (mem s) p (replicate 12 0) 0 = Inl Wild"
    using copy_until_wild [of 12 "\<lambda>c. c = 32" "mem s" p "replicate 12 0" 0] assms by simp
  moreover have "process_cmd bus beyond p s = Inl Wild" if "\<forall>j \<le> 20. mem s (p + of_nat j) \<notin> {32, 0}"
  proof -
    have "copy_until (\<lambda>c. c = 32 \<or> c = 0) (mem s) p (replicate 20 0) 0 = Inl Wild"
      using copy_until_wild [of 20 "\<lambda>c. c = 32 \<or> c = 0" "mem s" p "replicate 20 0" 0] that by simp
    moreover have "skip_spaces (mem s) p = Some p"
      using skip_spaces_eq [of "mem s" p 0] assms [rule_format, of 0] by (simp add: rd_bytes_def)
    ultimately show ?thesis by (simp add: process_cmd_def)
  qed
  ultimately show ?thesis by (simp add: cmd_cat_def cmd_create_file_def)
qed

theorem local_arrays_overflow_witness:
  "cmd_cat demo_kbus (\<lambda>_. 0) 0x5000 (demo_user (cs ''a.txt'')) = Inl Wild"
proof -
  have "\<forall>j \<in> set [0..<13]. mem (demo_user (cs ''a.txt'')) (0x5000 + of_nat j) \<noteq> 32"
    by (simp add: demo_user_def cs_def del: set_upt)
  then have "\<forall>j \<le> 12. mem (demo_user (cs ''a.txt'')) (0x5000 + of_nat j) \<noteq> 32" by (simp del: upt_rec_numeral)
  then show ?thesis using local_arrays_overflow [of "demo_user (cs ''a.txt'')" "0x5000" demo_kbus "\<lambda>_. 0"] by blast
qed

text \<open>
  \<open>echo\<close> through the system call: the text after the word appears on a line of its own, the
  answer is 0, and nothing but the screen changes.
\<close>

theorem echo_syscall:
  fixes s :: "('d, 'z) cpu_scheme"
  assumes "pc_conforms bus view" "terminal_ok (terminal_of view s)"
    and "command_line (mem s) a i (cs ''echo'') j xs" "8 \<notin> set xs"
  shows "\<exists>s'. syscall_dispatcher bus beyond 3 a b c s = Inr (0, s') \<and> screen_only view s s' \<and>
    terminal_of view s' = text_puts (10 # xs @ [10]) WHITE_ON_BLACK (terminal_of view s)"
proof -
  let ?p = "args_at a i (cs ''echo'') j"
  have sel: "selected (cs ''echo'') = Some ''echo''" by (simp add: selected_def cmd_names_def cs_def)
  have r: "render (cs ''\<newline>'') [] = Some [10]" "render (cs ''%s\<newline>'') [VStr xs] = Some (xs @ [10])"
    by (simp_all add: cs_def)
  obtain s1 where s1: "put_chars bus [10] WHITE_ON_BLACK s = Inr ((), s1)" "screen_only view s s1"
    "terminal_of view s1 = text_puts [10] WHITE_ON_BLACK (terminal_of view s)"
    using put_chars_terminal [OF assms(1,2), of "[10]"] by auto
  have "mem s1 = mem s" using screen_cpu [OF s1(2)] by simp
  then have str: "string_at (mem s1) ?p = Inr xs"
    using string_at_eq [OF command_line_parts(9) [OF assms(3)]] by simp
  obtain s2 where s2: "put_chars bus (xs @ [10]) WHITE_ON_BLACK s1 = Inr ((), s2)" "screen_only view s1 s2"
    "terminal_of view s2 = text_puts (xs @ [10]) WHITE_ON_BLACK (terminal_of view s1)"
    using put_chars_terminal [OF assms(1) screen_only_ok [OF s1(2)], of "xs @ [10]"] assms(4) by auto
  have "cmd_echo bus ?p s = Inr ((), s2)"
    unfolding cmd_echo_def printk_def vformat_renders [OF r(1)] s1(1) bindk_simps snd_conv str sum.case
      vformat_renders [OF r(2)] s2(1) ..
  moreover have "syscall_dispatcher bus beyond 3 a b c s = process_cmd bus beyond a s"
    by (simp add: syscall_dispatcher_def)
  moreover have "length (cs ''echo'') < 20" "0 \<notin> set (cs ''echo'')" by (simp_all add: cs_def)
  ultimately have "syscall_dispatcher bus beyond 3 a b c s = Inr (0, s2)"
    by (simp add: process_cmd_eq [OF assms(3)] run_cmd_eq sel)
  moreover have "screen_only view s s2" using s1(2) s2(2) by (rule screen_only_trans)
  moreover have "terminal_of view s2 = text_puts (10 # xs @ [10]) WHITE_ON_BLACK (terminal_of view s)"
    using s1(3) s2(3) by (simp add: text_puts_def)
  ultimately show ?thesis by blast
qed

theorem echo_syscall_witness:
  "\<exists>s'. syscall_dispatcher demo_kbus (\<lambda>_. 0) 3 0x5000 0 0 (demo_user (cs ''echo hi'')) = Inr (0, s') \<and>
     vidmem s' ! 160 = 104 \<and> vidmem s' ! 162 = 105"
proof -
  let ?s = "demo_user (cs ''echo hi'')"
  have "command_line (mem ?s) 0x5000 0 (cs ''echo'') 1 (cs ''hi'')"
    using demo_user_string [of "cs ''echo hi''"] by (simp add: command_line_def cs_def)
  moreover have "8 \<notin> set (cs ''hi'')" by (simp add: cs_def)
  ultimately obtain s' where s': "syscall_dispatcher demo_kbus (\<lambda>_. 0) 3 0x5000 0 0 ?s = Inr (0, s')"
    "terminal_of snd s' = text_puts (10 # cs ''hi'' @ [10]) WHITE_ON_BLACK (replicate 4000 0, 0)"
    using echo_syscall [OF demo_kbus_conforms demo_user_terminal_ok, of "cs ''echo hi''" "0x5000" 0 1 "cs ''hi''" "\<lambda>_. 0" 0 0]
    unfolding demo_user_terminal by blast
  have "fst (text_puts (10 # cs ''hi'' @ [10]) WHITE_ON_BLACK (replicate 4000 0, 0)) ! 160 = 104"
    "fst (text_puts (10 # cs ''hi'' @ [10]) WHITE_ON_BLACK (replicate 4000 0, 0)) ! 162 = 105"
    by (simp_all add: cs_def text_puts_def text_put_def)
  moreover have "vidmem s' = fst (terminal_of snd s')" by (simp add: terminal_of_def)
  ultimately show ?thesis using s' by auto
qed

end
