(* ===== verification/User.thy ===== *)
theory User
  imports Syscall
begin

text \<open>
  \<^verbatim>\<open>user/userlib.c\<close> and \<^verbatim>\<open>user/shell.c\<close>: the system call wrappers and the shell. \<^verbatim>\<open>int $0x80\<close> hands
  EAX, EBX, ECX and EDX to the dispatcher and gives back EAX; registers a wrapper does not set hold
  the parameter \<open>junk\<close>. The addresses of the string literals are the parameter \<open>lit\<close>, the array
  \<^verbatim>\<open>line\<close> on the user stack is the 256 bytes at the address \<open>line\<close>.
\<close>

section \<open>System call wrappers\<close>

record user_env =
  beyond :: "nat \<Rightarrow> u8"
  junk :: u32
  lit :: "string \<Rightarrow> u32"

definition syscall0 :: "'d bus \<Rightarrow> user_env \<Rightarrow> int \<Rightarrow> ('d, 'z) cpu_scheme \<Rightarrow> (int, ('d, 'z) cpu_scheme) result" where
  "syscall0 bus u num s =
     bindk (syscall_dispatcher bus (beyond u) (of_int num) (junk u) (junk u) (junk u) s) (\<lambda>r s. Inr (sint r, s))"

definition syscall1 :: "'d bus \<Rightarrow> user_env \<Rightarrow> int \<Rightarrow> u32 \<Rightarrow> ('d, 'z) cpu_scheme \<Rightarrow> (int, ('d, 'z) cpu_scheme) result" where
  "syscall1 bus u num arg1 s =
     bindk (syscall_dispatcher bus (beyond u) (of_int num) arg1 (junk u) (junk u) s) (\<lambda>r s. Inr (sint r, s))"

definition syscall2 ::
  "'d bus \<Rightarrow> user_env \<Rightarrow> int \<Rightarrow> u32 \<Rightarrow> u32 \<Rightarrow> ('d, 'z) cpu_scheme \<Rightarrow> (int, ('d, 'z) cpu_scheme) result" where
  "syscall2 bus u num arg1 arg2 s =
     bindk (syscall_dispatcher bus (beyond u) (of_int num) arg1 arg2 (junk u) s) (\<lambda>r s. Inr (sint r, s))"

definition syscall3 ::
  "'d bus \<Rightarrow> user_env \<Rightarrow> int \<Rightarrow> u32 \<Rightarrow> u32 \<Rightarrow> u32 \<Rightarrow> ('d, 'z) cpu_scheme \<Rightarrow> (int, ('d, 'z) cpu_scheme) result" where
  "syscall3 bus u num arg1 arg2 arg3 s =
     bindk (syscall_dispatcher bus (beyond u) (of_int num) arg1 arg2 arg3 s) (\<lambda>r s. Inr (sint r, s))"

text \<open>\<^verbatim>\<open>exit\<close>, \<^verbatim>\<open>print\<close>, \<^verbatim>\<open>read\<close>, \<^verbatim>\<open>print_color\<close> and \<^verbatim>\<open>sys_exec_command\<close>.\<close>

definition user_exit :: "'d bus \<Rightarrow> user_env \<Rightarrow> int \<Rightarrow> ('d, 'z) cpu_scheme \<Rightarrow> (unit, ('d, 'z) cpu_scheme) result" where
  "user_exit bus u code s = bindk (syscall1 bus u 0 (of_int code) s) (\<lambda>_ s. Inr ((), s))"

definition user_print :: "'d bus \<Rightarrow> user_env \<Rightarrow> u32 \<Rightarrow> ('d, 'z) cpu_scheme \<Rightarrow> (int, ('d, 'z) cpu_scheme) result" where
  "user_print bus u str s = syscall1 bus u 1 str s"

definition user_read ::
  "'d bus \<Rightarrow> user_env \<Rightarrow> int \<Rightarrow> u32 \<Rightarrow> u32 \<Rightarrow> ('d, 'z) cpu_scheme \<Rightarrow> (int, ('d, 'z) cpu_scheme) result" where
  "user_read bus u fd buf count s = syscall3 bus u 2 (of_int fd) buf count s"

definition user_print_color ::
  "'d bus \<Rightarrow> user_env \<Rightarrow> u32 \<Rightarrow> int \<Rightarrow> ('d, 'z) cpu_scheme \<Rightarrow> (int, ('d, 'z) cpu_scheme) result" where
  "user_print_color bus u str color s = syscall2 bus u 4 str (of_int color) s"

definition sys_exec_command :: "'d bus \<Rightarrow> user_env \<Rightarrow> u32 \<Rightarrow> ('d, 'z) cpu_scheme \<Rightarrow> (int, ('d, 'z) cpu_scheme) result" where
  "sys_exec_command bus u cmd s = syscall1 bus u 3 cmd s"

section \<open>The shell\<close>

partial_function (option) strcmp_user :: "memory \<Rightarrow> u32 \<Rightarrow> u32 \<Rightarrow> int option" where
  "strcmp_user m s1 s2 =
     (if m s1 \<noteq> 0 \<and> m s1 = m s2 then strcmp_user m (s1 + 1) (s2 + 1) else Some (uint (m s1) - uint (m s2)))"

text \<open>The banner: a sequence of prints of literals.\<close>

definition banner :: "string list" where
  "banner =
     [''\<newline>========================================\<newline>'',
      ''  TenOS Shell v0.2 (User Mode)\<newline>'', ''  Running in Ring 3!\<newline>'',
      ''  Type 'help' for commands\<newline>'', ''========================================\<newline>\<newline>'']"

fun print_all :: "'d bus \<Rightarrow> user_env \<Rightarrow> string list \<Rightarrow> ('d, 'z) cpu_scheme \<Rightarrow> (unit, ('d, 'z) cpu_scheme) result" where
  "print_all bus u [] s = Inr ((), s)"
| "print_all bus u (x # xs) s = bindk (user_print bus u (lit u x) s) (\<lambda>_ s. print_all bus u xs s)"

definition set_byte :: "u32 \<Rightarrow> u8 \<Rightarrow> 'a pmm_scheme \<Rightarrow> 'a pmm_scheme" where
  "set_byte a v s = s\<lparr>mem := (mem s)(a := v)\<rparr>"

text \<open>What the loop of \<open>shell_main\<close> does with a line of \<open>len > 0\<close> bytes.\<close>

definition shell_line :: "'d bus \<Rightarrow> user_env \<Rightarrow> u32 \<Rightarrow> int \<Rightarrow> ('d, 'z) cpu_scheme \<Rightarrow> (unit, ('d, 'z) cpu_scheme) result" where
  "shell_line bus u line len s =
     (let s = set_byte (line + of_int len) 0 s;
          s = (if len > 0 \<and> mem s (line + of_int (len - 1)) = 10 then set_byte (line + of_int (len - 1)) 0 s else s) in
      case skip_spaces (mem s) line of None \<Rightarrow> Inl Hang | Some p \<Rightarrow>
      if mem s p = 0 then Inr ((), s)
      else case strcmp_user (mem s) p (lit u ''exit'') of None \<Rightarrow> Inl Hang | Some c \<Rightarrow>
        bindk (if c = 0
               then bindk (user_print bus u (lit u ''\<newline>Goodbye!\<newline>'') s) (\<lambda>_ s. user_exit bus u 0 s)
               else Inr ((), s)) (\<lambda>_ s.
        bindk (sys_exec_command bus u line s) (\<lambda>result s.
          if result < 0
          then print_all bus u [''\<newline>Command failed or unknown command\<newline>'',
                 ''Type 'help' for available commands\<newline>''] s
          else Inr ((), s))))"

text \<open>One round of the loop, and the loop for \<open>n\<close> rounds.\<close>

definition shell_round :: "'d bus \<Rightarrow> user_env \<Rightarrow> u32 \<Rightarrow> ('d, 'z) cpu_scheme \<Rightarrow> (unit, ('d, 'z) cpu_scheme) result" where
  "shell_round bus u line s =
     bindk (user_print_color bus u (lit u ''TenOS> '') 2 s) (\<lambda>_ s.
     bindk (user_read bus u 0 line (256 - 1) s) (\<lambda>len s.
       if len > 0 then shell_line bus u line len s else Inr ((), s)))"

fun shell_rounds :: "'d bus \<Rightarrow> user_env \<Rightarrow> u32 \<Rightarrow> nat \<Rightarrow> ('d, 'z) cpu_scheme \<Rightarrow> (unit, ('d, 'z) cpu_scheme) result" where
  "shell_rounds bus u line 0 s = Inr ((), s)"
| "shell_rounds bus u line (Suc n) s = bindk (shell_round bus u line s) (\<lambda>_ s. shell_rounds bus u line n s)"

definition shell_main :: "'d bus \<Rightarrow> user_env \<Rightarrow> u32 \<Rightarrow> nat \<Rightarrow> ('d, 'z) cpu_scheme \<Rightarrow> (unit, ('d, 'z) cpu_scheme) result" where
  "shell_main bus u line n s =
     bindk (print_all bus u banner s) (\<lambda>_ s. shell_rounds bus u line n s)"

section \<open>Strings\<close>

lemma mem_string_cong:
  assumes "mem_string m a xs" "\<And>i. i \<le> length xs \<Longrightarrow> m' (a + of_nat i) = m (a + of_nat i)"
  shows "mem_string m' a xs"
proof -
  have "rd_bytes m' a (length xs) = rd_bytes m a (length xs)"
    by (rule nth_equalityI) (use assms(2) in simp_all)
  then show ?thesis using assms(1) assms(2) [of "length xs"] by (simp add: mem_string_def)
qed

lemma strcmp_user_eq:
  assumes "mem_string m p xs" "mem_string m q ys"
  shows "\<exists>c. strcmp_user m p q = Some c \<and> (c = 0 \<longleftrightarrow> xs = ys)"
  using assms
proof (induction xs arbitrary: p q ys)
  case Nil
  then show ?case
    by (cases ys) (auto simp: strcmp_user.simps [of m p q] mem_string_Cons uint_0_iff)
next
  case (Cons x xs)
  show ?case
  proof (cases ys)
    case Nil
    with Cons.prems show ?thesis by (simp add: strcmp_user.simps [of m p q] mem_string_Cons uint_0_iff)
  next
    case (Cons y ys')
    with Cons.prems have xy: "x \<noteq> 0" "m p = x" "m q = y" "mem_string m (p + 1) xs" "mem_string m (q + 1) ys'"
      by (auto simp: mem_string_Cons)
    from Cons.IH [OF xy(4,5)] obtain c where "strcmp_user m (p + 1) (q + 1) = Some c" "c = 0 \<longleftrightarrow> xs = ys'" by blast
    moreover have "uint x - uint y = 0 \<longleftrightarrow> x = y" by (simp add: word_uint_eq_iff)
    ultimately show ?thesis using xy Cons by (cases "x = y") (simp_all add: strcmp_user.simps [of m p q])
  qed
qed

section \<open>No key types a NUL\<close>

lemma scancode_nonzero: "scancode_to_ascii k shift caps \<noteq> 0"
proof (cases "k < 0x59")
  case True
  then have n: "unat k < 89" by (simp add: word_less_nat_alt)
  have "0 \<notin> set sc_ascii" "0 \<notin> set sc_ascii_shift" by (simp_all add: sc_ascii_def sc_ascii_shift_def cs_def)
  with n sc_tables(1,2) have z: "sc_ascii ! unat k \<noteq> 0" "sc_ascii_shift ! unat k \<noteq> 0" by (metis nth_mem)+
  have "c - 32 \<noteq> 0" if "97 \<le> c" for c :: u8
    using that by auto
  moreover have "c + 32 \<noteq> 0" if "65 \<le> c" "c \<le> 90" for c :: u8
  proof
    assume "c + 32 = 0"
    then have "c = 224" by (simp add: add_eq_0_iff2)
    with that(2) show False by simp
  qed
  ultimately show ?thesis using True z by (auto simp: scancode_to_ascii_def Let_def)
next
  case False
  then have "0x59 \<le> k" by simp
  then show ?thesis by (simp add: scancode_to_ascii_def)
qed

lemma key_event_nonzero: "0 \<notin> set (ed_line e) \<Longrightarrow> 0 \<notin> set (ed_line (key_event k e))"
proof (cases "key_char k e")
  case (Some c)
  then have "c \<noteq> 0" using scancode_nonzero by (auto simp: key_char_def split: if_splits)
  then show "0 \<notin> set (ed_line e) \<Longrightarrow> ?thesis"
    by (auto simp: key_event_char [OF Some] edit_char_def dest: in_set_butlastD)
qed (simp add: key_event_def Let_def)

lemma run_events_nonzero: "0 \<notin> set (ed_line e) \<Longrightarrow> 0 \<notin> set (ed_line (run_events evs e))"
proof (induction evs arbitrary: e)
  case (Cons ev evs)
  then show ?case by (cases ev) (simp_all add: key_event_nonzero)
qed simp

section \<open>A round of the shell\<close>

lemma screen_irq:
  fixes s :: "('d, 'z) irq_scheme"
  assumes "screen_only view s s'"
  shows "upcoming s' = upcoming s" "editor_of s' = editor_of s" "tick s' = tick s"
    "waiting view s \<Longrightarrow> typed s = [] \<Longrightarrow> waiting view s'"
proof -
  show *: "upcoming s' = upcoming s" "tick s' = tick s" using assms by (auto simp: screen_only_def)
  show e: "editor_of s' = editor_of s" by (rule screen_kbd(3) [OF assms])
  have h: "interrupt_handlers s' = interrupt_handlers s" using assms by (auto simp: screen_only_def)
  show "waiting view s'" if "waiting view s" "typed s = []"
  proof -
    have "typed s' = []" using that(2) arg_cong [OF e, of ed_line] by simp
    then show ?thesis
      using that(1) screen_kbd(2) [OF assms] screen_only_ok [OF assms] h by (simp add: waiting_def)
  qed
qed

lemma process_cmd_zero: "process_cmd bus b a s = Inr (r, s') \<Longrightarrow> r = 0"
  by (auto simp: process_cmd_def bindk_eq_Inr_iff split: option.splits sum.splits prod.splits)

lemma sys_exec_command_eq:
  "bindk (sys_exec_command bus u a s) (\<lambda>result s. if result < 0 then f s else Inr ((), s))
    = bindk (process_cmd bus (beyond u) a s) (\<lambda>_ s. Inr ((), s))"
  using process_cmd_zero [of bus "beyond u" a s]
  by (cases "process_cmd bus (beyond u) a s") (auto simp: sys_exec_command_def syscall1_def syscall_dispatcher_def)

text \<open>The literals the shell prints and compares with, outside its line buffer.\<close>

definition literals_ok :: "user_env \<Rightarrow> u32 \<Rightarrow> memory \<Rightarrow> bool" where
  "literals_ok u line m \<longleftrightarrow>
     (\<forall>x \<in> {''TenOS> '', ''exit'', ''\<newline>Goodbye!\<newline>''}. mem_string m (lit u x) (cs x) \<and>
        (\<forall>i \<le> length x. \<not> in_range line 256 (lit u x + of_nat i)))"

lemma literals_ok_cong:
  assumes "literals_ok u line m" "\<And>x. \<not> in_range line 256 x \<Longrightarrow> m' x = m x"
  shows "literals_ok u line m'"
  unfolding literals_ok_def
proof (intro ballI conjI)
  fix x assume x: "x \<in> {''TenOS> '', ''exit'', ''\<newline>Goodbye!\<newline>''}"
  with assms(1) have l: "mem_string m (lit u x) (cs x)" "\<forall>i \<le> length x. \<not> in_range line 256 (lit u x + of_nat i)"
    unfolding literals_ok_def by blast+
  have "length (cs x) = length x" by (simp add: cs_def)
  with l assms(2) show "mem_string m' (lit u x) (cs x)" by (intro mem_string_cong [OF l(1)]) auto
  show "\<forall>i \<le> length x. \<not> in_range line 256 (lit u x + of_nat i)" by (rule l(2))
qed

text \<open>The line as the shell leaves it: the newline and the byte after it overwritten with NULs.\<close>

definition shell_memory :: "u32 \<Rightarrow> u8 list \<Rightarrow> memory \<Rightarrow> memory" where
  "shell_memory line l m =
     (wr_bytes m line (l @ [10]))(line + of_nat (length l + 1) := 0, line + of_nat (length l) := 0)"

lemma line_address: "i < 256 \<Longrightarrow> unat (line + of_nat i - line :: u32) = i"
  by (simp add: unat_of_nat)

lemma line_address_eq: "i < 256 \<Longrightarrow> j < 256 \<Longrightarrow> line + of_nat i = (line + of_nat j :: u32) \<longleftrightarrow> i = j"
  using line_address [of i line] line_address [of j line] by metis

lemma shell_memory_line:
  assumes "0 \<notin> set l" "length l < 255"
  shows "mem_string (shell_memory line l m) line l"
    and "\<not> in_range line 256 x \<Longrightarrow> shell_memory line l m x = m x"
proof -
  have "shell_memory line l m (line + of_nat i) = l ! i" if "i < length l" for i
    using that assms(2) line_address_eq [of i "length l" line] line_address_eq [of i "length l + 1" line]
      line_address [of i line]
    by (simp add: shell_memory_def wr_bytes_byte nth_append)
  then have "rd_bytes (shell_memory line l m) line (length l) = l" by (intro nth_equalityI) simp_all
  moreover have "shell_memory line l m (line + of_nat (length l)) = 0" by (simp add: shell_memory_def)
  ultimately show "mem_string (shell_memory line l m) line l" using assms(1) by (simp add: mem_string_def)
  assume x: "\<not> in_range line 256 x"
  then have "x \<noteq> line + of_nat i" if "i < 256" for i
    using that line_address [of i line] by (auto simp: in_range_def)
  from this [of "length l + 1"] this [of "length l"]
  have "x \<noteq> line + of_nat (length l + 1)" "x \<noteq> line + of_nat (length l)" using assms(2) by simp_all
  moreover have "\<not> in_range line (length (l @ [10])) x" using x assms(2) by (auto simp: in_range_def)
  ultimately show "shell_memory line l m x = m x"
    using assms(2) by (simp add: shell_memory_def wr_bytes_outside)
qed

lemma shell_line_eq:
  fixes s :: "('d, 'z) cpu_scheme"
  assumes "mem s = wr_bytes m line (l @ [10])" "0 \<notin> set l" "length l < 255" "literals_ok u line m"
    and "w = dropWhile (\<lambda>c. c = 32) l"
  defines "s' \<equiv> s\<lparr>mem := shell_memory line l m\<rparr>"
  shows "shell_line bus u line (int (length l + 1)) s =
    (if w = [] then Inr ((), s')
     else bindk (if w = cs ''exit''
                 then bindk (user_print bus u (lit u ''\<newline>Goodbye!\<newline>'') s') (\<lambda>_ s. user_exit bus u 0 s)
                 else Inr ((), s'))
            (\<lambda>_ s. bindk (process_cmd bus (beyond u) line s) (\<lambda>_ s. Inr ((), s))))"
proof -
  let ?n = "length l"
  define i where "i = length (takeWhile (\<lambda>c. c = 32) l)"
  have "takeWhile (\<lambda>c. c = 32) l = replicate i 32"
    by (rule replicate_eqI) (auto simp: i_def dest: set_takeWhileD)
  then have l: "l = replicate i 32 @ w" unfolding assms(5) by (metis takeWhile_dropWhile_id)
  note sm = shell_memory_line [OF assms(2,3), where line = line and m = m]
  have ne: "line + of_nat ?n \<noteq> line + of_nat (?n + 1)" using assms(3) line_address_eq [of ?n "?n + 1" line] by simp
  have nl: "wr_bytes m line (l @ [10]) (line + of_nat ?n) = 10"
    using assms(3) line_address [of ?n line] by (simp add: wr_bytes_byte)
  have m1: "mem (set_byte (line + of_int (int (?n + 1))) 0 s) (line + of_int (int (?n + 1) - 1)) = 10"
    using nl ne by (simp add: set_byte_def assms(1))
  have s1: "set_byte (line + of_int (int (?n + 1) - 1)) 0 (set_byte (line + of_int (int (?n + 1))) 0 s) = s'"
    by (simp add: set_byte_def assms(1) s'_def shell_memory_def)
  have str: "mem_string (mem s') (line + of_nat i) w"
    using sm(1) unfolding s'_def by (subst (asm) l) (simp add: mem_string_append)
  have sp: "rd_bytes (mem s') line i = replicate i 32"
    using sm(1) unfolding s'_def by (subst (asm) l) (simp add: mem_string_append)
  have hd: "mem s' (line + of_nat i) \<noteq> 32 \<and> (mem s' (line + of_nat i) = 0 \<longleftrightarrow> w = [])"
  proof (cases w)
    case Nil
    with str show ?thesis by simp
  next
    case (Cons x w')
    then have "x \<noteq> 32" using hd_dropWhile [of "\<lambda>c. c = 32" l] assms(5) by simp
    with str Cons show ?thesis by (simp add: mem_string_Cons)
  qed
  have "literals_ok u line (mem s')"
    using sm(2) by (intro literals_ok_cong [OF assms(4)]) (simp add: s'_def)
  then have "mem_string (mem s') (lit u ''exit'') (cs ''exit'')" by (simp add: literals_ok_def)
  from strcmp_user_eq [OF str this] obtain c where
    c: "strcmp_user (mem s') (line + of_nat i) (lit u ''exit'') = Some c" "c = 0 \<longleftrightarrow> w = cs ''exit''" by blast
  have e: "(if 0 < int (?n + 1) \<and> mem (set_byte (line + of_int (int (?n + 1))) 0 s) (line + of_int (int (?n + 1) - 1)) = 10
      then set_byte (line + of_int (int (?n + 1) - 1)) 0 (set_byte (line + of_int (int (?n + 1))) 0 s)
      else set_byte (line + of_int (int (?n + 1))) 0 s) = s'"
    unfolding m1 s1 by simp
  show ?thesis
    unfolding shell_line_def Let_def e skip_spaces_eq [OF sp hd [THEN conjunct1]] option.case c(1) sys_exec_command_eq
    by (simp add: hd [THEN conjunct2] c(2))
qed

lemma sint_of_nat32: "n < 2 ^ 31 \<Longrightarrow> sint (of_nat n :: u32) = int n"
proof -
  assume n: "n < 2 ^ 31"
  then have "uint (of_nat n :: u32) = int n" by (simp add: uint_nat unat_of_nat take_bit_nat_eq_self)
  with n show ?thesis using signed_take_bit_int_eq_self [of 31 "int n"] by (simp add: sint_uint)
qed

text \<open>\<open>exit\<close> says goodbye and halts.\<close>

lemma exit_hangs:
  fixes s :: "('d, 'z) cpu_scheme"
  assumes "pc_conforms bus view" "terminal_ok (terminal_of view s)" "literals_ok u line (mem s)"
  shows "bindk (user_print bus u (lit u ''\<newline>Goodbye!\<newline>'') s) (\<lambda>_ s. user_exit bus u 0 s) = Inl Hang"
proof -
  note c = assms(1)
  have str: "mem_string (mem s) (lit u ''\<newline>Goodbye!\<newline>'') (cs ''\<newline>Goodbye!\<newline>'')"
    using assms(3) by (simp add: literals_ok_def)
  have "8 \<notin> set (cs ''\<newline>Goodbye!\<newline>'')" by (simp add: cs_def)
  from sys_print_spec [OF c assms(2) str this, of 0] obtain n s1 where
    s1: "sys_print bus (lit u ''\<newline>Goodbye!\<newline>'') 0 s = Inr (n, s1)" "screen_only view s s1" by blast
  obtain s2 where s2: "printk bus (cs ''\<newline>[KERNEL] Process exited with code: %d\<newline>'') [VInt 0] s1 = Inr ((), s2)"
    "terminal_ok (terminal_of view s2)"
    by (rule printk_step [OF c screen_only_ok [OF s1(2)], of "cs ''\<newline>[KERNEL] Process exited with code: %d\<newline>''" "[VInt 0]"])
      (simp_all add: cs_def)
  obtain s3 where "printk bus (cs ''[KERNEL] System halted.\<newline>'') [] s2 = Inr ((), s3)"
    by (rule printk_step [OF c s2(2), of "cs ''[KERNEL] System halted.\<newline>''" "[]"]) (simp_all add: cs_def)
  then show ?thesis
    by (simp add: user_print_def user_exit_def syscall1_def syscall_dispatcher_def s1(1) sys_exit_def s2(1))
qed

text \<open>One round, with what it leaves besides the line.\<close>

lemma shell_round_spec:
  fixes s :: "('d, 'z) cpu_scheme"
  assumes "pc_conforms bus view" "latches bus view latch" "waiting view s" "typed s = []" "literals_ok u line (mem s)"
    and "upcoming s = map (event latch) evs @ event latch (Some k) # rest"
    and "ed_queue (run_events evs (editor_of s)) = []" "key_char k (run_events evs (editor_of s)) = Some 10"
    and "ed_line (run_events evs (editor_of s)) = l" "length l < 255" "w = dropWhile (\<lambda>c. c = 32) l"
  shows "\<exists>s'. mem_string (mem s') line l \<and> (\<forall>x. \<not> in_range line 256 x \<longrightarrow> mem s' x = mem s x) \<and>
    pending s' = [] \<and> typed s' = [] \<and> upcoming s' = rest \<and> waiting view s' \<and> calm view s s' \<and>
    editor_of s' = (run_events evs (editor_of s))\<lparr>ed_line := [], ed_queue := []\<rparr> \<and>
    shell_round bus u line s =
      (if w = [] then Inr ((), s')
       else if w = cs ''exit'' then Inl Hang
       else bindk (process_cmd bus (beyond u) line s') (\<lambda>_ s. Inr ((), s)))"
proof -
  note c = assms(1)
  have lits: "mem_string (mem s) (lit u ''TenOS> '') (cs ''TenOS> '')"
    using assms(5) by (simp add: literals_ok_def)
  have ok: "terminal_ok (terminal_of view s)" using assms(3) by (simp add: waiting_def)
  have "8 \<notin> set (cs ''TenOS> '')" by (simp add: cs_def)
  from sys_print_spec [OF c ok lits this, of 2] obtain s1 where
    s1: "sys_print bus (lit u ''TenOS> '') 2 s = Inr (of_nat (length (cs ''TenOS> '')), s1)" "screen_only view s s1"
    by (auto simp: cs_def)
  note i1 = screen_irq [OF s1(2)]
  obtain s2 where s2: "pr bus KERN_DEBUG ''KERNEL'' ''sys_read handler called\<newline>'' [] s1 = Inr ((), s2)" "screen_only view s1 s2"
    by (rule pr_step [OF c screen_only_ok [OF s1(2)], of "''sys_read handler called\<newline>''" "[]" "''KERNEL''" KERN_DEBUG])
      (simp_all add: cs_def)
  note i2 = screen_irq [OF s2(2)]
  have t1: "typed s1 = []" using arg_cong [OF i1(2), of ed_line] assms(4) by simp
  have "waiting view s2" using i1(4) [OF assms(3,4)] t1 by (rule i2(4))
  moreover have "upcoming s2 = map (event latch) evs @ event latch (Some k) # rest" "editor_of s2 = editor_of s"
    using i1 i2 assms(6) by simp_all
  ultimately obtain s3 where s3: "keyboard_read bus line 255 s2 = Inr (of_nat (length l + 1), s3)"
    "mem s3 = wr_bytes (mem s2) line (l @ [10])" "pending s3 = []" "typed s3 = []" "upcoming s3 = rest" "waiting view s3"
    "calm view s2 s3" "editor_of s3 = (run_events evs (editor_of s))\<lparr>ed_line := [], ed_queue := []\<rparr>"
    using keyboard_read_spec [OF c assms(2), of s2 evs k rest l 255 line] assms(7-10) by auto
  have m2: "mem s2 = mem s" using screen_cpu [OF s1(2)] screen_cpu [OF s2(2)] by simp
  have z: "0 \<notin> set l"
    using run_events_nonzero [of "editor_of s" evs] assms(4,9) by simp
  let ?s = "s3\<lparr>mem := shell_memory line l (mem s)\<rparr>"
  have len: "sint (of_nat (length l + 1) :: u32) = int (length l + 1)"
    by (rule sint_of_nat32) (use assms(10) in simp)
  have "shell_round bus u line s = bindk (Inr (sint (of_nat (length l + 1) :: u32), s3))
      (\<lambda>len s. if len > 0 then shell_line bus u line len s else Inr ((), s))"
    by (simp add: shell_round_def user_print_color_def user_read_def syscall2_def syscall3_def syscall_dispatcher_def
      s1(1) sys_read_def s2(1) s3(1))
  then have r: "shell_round bus u line s = shell_line bus u line (int (length l + 1)) s3"
    unfolding len by simp
  have "mem s3 = wr_bytes (mem s) line (l @ [10])" by (simp add: s3(2) m2)
  from shell_line_eq [OF this z assms(10,5,11), of bus] have sl: "shell_round bus u line s =
    (if w = [] then Inr ((), ?s)
     else bindk (if w = cs ''exit''
                 then bindk (user_print bus u (lit u ''\<newline>Goodbye!\<newline>'') ?s) (\<lambda>_ s. user_exit bus u 0 s)
                 else Inr ((), ?s))
            (\<lambda>_ s. bindk (process_cmd bus (beyond u) line s) (\<lambda>_ s. Inr ((), s))))"
    unfolding r .
  have ok3: "terminal_ok (terminal_of view ?s)" using s3(6) by (simp add: waiting_def terminal_of_def)
  have "literals_ok u line (mem ?s)"
    using shell_memory_line(2) [OF z assms(10)] by (intro literals_ok_cong [OF assms(5)]) simp
  note hang = exit_hangs [OF c ok3 this]
  have k: "pending ?s = pending s3" "typed ?s = typed s3" "kbd_ok ?s = kbd_ok s3" "terminal_of view ?s = terminal_of view s3"
    by (simp_all add: pending_def typed_def kbd_ok_def terminal_of_def)
  then have "editor_of ?s = editor_of s3" by (simp add: editor_of_def)
  moreover have "waiting view ?s" using s3(6) k by (simp add: waiting_def)
  moreover have "pending ?s = []" "typed ?s = []" "upcoming ?s = rest" using s3(3-5) k by simp_all
  moreover have "calm view s ?s"
    using calm_trans [OF calm_trans [OF calm_screen [OF s1(2)] calm_screen [OF s2(2)]] s3(7)] by simp
  moreover have "mem_string (mem ?s) line l" "\<forall>x. \<not> in_range line 256 x \<longrightarrow> mem ?s x = mem s x"
    using shell_memory_line [OF z assms(10)] by simp_all
  moreover have "shell_round bus u line s =
      (if w = [] then Inr ((), ?s)
       else if w = cs ''exit'' then Inl Hang
       else bindk (process_cmd bus (beyond u) line ?s) (\<lambda>_ s. Inr ((), s)))"
    unfolding sl hang by simp
  ultimately show ?thesis using s3(8) by (intro exI [of _ ?s]) simp
qed

section \<open>Properties of the shell\<close>

text \<open>
  C5: What is typed is what is executed: from a state without a line in progress, one round of the
  shell prints its prompt, waits through keys and timer ticks until the line is entered, and then
  ignores a blank line, halts the machine for \<open>exit\<close>, and otherwise runs the kernel's command
  interpreter on exactly that line, NUL-terminated in the shell's buffer, with no other byte of
  memory changed before; whatever the command did, the round ends without the message for a failed
  command.
\<close>

theorem shell_round_executes:
  fixes s :: "('d, 'z) cpu_scheme"
  assumes "pc_conforms bus view" "latches bus view latch" "waiting view s" "typed s = []" "literals_ok u line (mem s)"
    and "upcoming s = map (event latch) evs @ event latch (Some k) # rest"
    and "ed_queue (run_events evs (editor_of s)) = []" "key_char k (run_events evs (editor_of s)) = Some 10"
    and "ed_line (run_events evs (editor_of s)) = l" "length l < 255" "w = dropWhile (\<lambda>c. c = 32) l"
  shows "\<exists>s'. mem_string (mem s') line l \<and> (\<forall>x. \<not> in_range line 256 x \<longrightarrow> mem s' x = mem s x) \<and>
    pending s' = [] \<and> typed s' = [] \<and> upcoming s' = rest \<and>
    shell_round bus u line s =
      (if w = [] then Inr ((), s')
       else if w = cs ''exit'' then Inl Hang
       else bindk (process_cmd bus (beyond u) line s') (\<lambda>_ s. Inr ((), s)))"
  using shell_round_spec [OF assms] by blast

definition demo_lit :: "string \<Rightarrow> u32" where
  "demo_lit x = (if x = ''TenOS> '' then 0x6000 else if x = ''exit'' then 0x6100 else 0x6200)"

definition demo_env :: user_env where
  "demo_env = \<lparr>beyond = \<lambda>_. 0, junk = 0, lit = demo_lit\<rparr>"

definition demo_shell :: "(u32 \<times> (u8 \<times> pc \<Rightarrow> u8 \<times> pc)) list \<Rightarrow> (u8 \<times> pc) cpu" where
  "demo_shell evs = (demo_cpu evs)\<lparr>mem := wr_bytes (wr_bytes (wr_bytes (\<lambda>_. 0) 0x6000 (cs ''TenOS> '')) 0x6100 (cs ''exit''))
     0x6200 (cs ''\<newline>Goodbye!\<newline>'')\<rparr>"

lemma demo_shell_literals: "literals_ok demo_env 0x5000 (mem (demo_shell evs))"
proof -
  have far: "\<not> in_range 0x5000 256 (of_nat n + of_nat i)" if "0x6000 \<le> n" "n \<le> 0x6200" "i \<le> 20" for n i
  proof -
    have "of_nat n + of_nat i - 0x5000 = (of_nat (n + i - 0x5000) :: u32)" using that by (simp add: of_nat_diff)
    moreover have "unat (of_nat (n + i - 0x5000) :: u32) = n + i - 0x5000"
      by (rule unat_of_nat32) (use that in simp)
    ultimately have "unat (of_nat n + of_nat i - 0x5000 :: u32) = n + i - 0x5000" by metis
    with that show ?thesis by (simp add: in_range_def)
  qed
  have "mem_string (mem (demo_shell evs)) (lit demo_env x) (cs x)"
    if "x \<in> {''TenOS> '', ''exit'', ''\<newline>Goodbye!\<newline>''}" for x
    using that by (elim insertE emptyE; hypsubst)
      (simp_all add: demo_shell_def demo_env_def demo_lit_def cs_def mem_string_Cons)
  moreover have "\<not> in_range 0x5000 256 (lit demo_env x + of_nat i)"
    if "x \<in> {''TenOS> '', ''exit'', ''\<newline>Goodbye!\<newline>''}" "i \<le> length x" for x i
    using that far [of "0x6000" i] far [of "0x6100" i] far [of "0x6200" i]
    by (elim insertE emptyE; hypsubst) (simp_all add: demo_env_def demo_lit_def)
  ultimately show ?thesis unfolding literals_ok_def by blast
qed

lemma demo_shell_state:
  "editor_of (demo_shell evs) = editor_of (demo_kbd 0 [])" "typed (demo_shell evs) = []"
  "upcoming (demo_shell evs) = evs" "waiting snd (demo_shell evs)"
proof -
  show "editor_of (demo_shell evs) = editor_of (demo_kbd 0 [])" "typed (demo_shell evs) = []" "upcoming (demo_shell evs) = evs"
    using demo_irq_simps [of evs]
    by (simp_all add: demo_shell_def demo_cpu_def irq.defs cpu.defs editor_of_def typed_def pending_def)
  have "kbd_ok (demo_shell evs)"
    using demo_kbd_ok [of "[]" 0]
    by (simp add: demo_shell_def demo_cpu_def irq.defs cpu.defs demo_irq_def kbd.defs kbd_ok_def typed_def)
  moreover have "terminal_of snd (demo_shell evs) = terminal_of snd (demo_irq evs)"
    "interrupt_handlers (demo_shell evs) = interrupt_handlers (demo_irq evs)"
    by (simp_all add: demo_shell_def demo_cpu_def irq.defs cpu.defs terminal_of_def)
  ultimately show "waiting snd (demo_shell evs)"
    using demo_irq_waiting [of evs] \<open>typed (demo_shell evs) = []\<close> by (simp add: waiting_def)
qed

theorem shell_round_executes_witness:
  "\<exists>s'. mem_string (mem s') 0x5000 [76, 83] \<and>
     shell_round demo_kbus demo_env 0x5000 (demo_shell (map (event demo_latch) [Some 0x26, None, Some 0x1F, Some 0x1C]))
       = bindk (process_cmd demo_kbus (\<lambda>_. 0) 0x5000 s') (\<lambda>_ s. Inr ((), s))"
proof -
  let ?evs = "[Some 0x26, None, Some 0x1F]"
  let ?s = "demo_shell (map (event demo_latch) ?evs @ event demo_latch (Some 0x1C) # [])"
  have "ed_queue (editor_of (demo_kbd 0 [])) = []" by (simp add: demo_kbd_simps)
  then obtain s' where "mem_string (mem s') 0x5000 [76, 83]"
    "shell_round demo_kbus demo_env 0x5000 ?s = bindk (process_cmd demo_kbus (\<lambda>_. 0) 0x5000 s') (\<lambda>_ s. Inr ((), s))"
    using shell_round_executes [OF demo_kbus_conforms demo_latches demo_shell_state(4,2) demo_shell_literals demo_shell_state(3),
        of ?evs "0x1C" "[]" "[76, 83]" "[76, 83]"]
    unfolding demo_shell_state(1) demo_keys(1) using demo_keys(2) by (auto simp: cs_def demo_env_def)
  then show ?thesis by auto
qed

end
