(* ===== verification/Kernel.thy ===== *)
theory Kernel
  imports User
begin

text \<open>
  \<^verbatim>\<open>kernel/kernel.c\<close> and \<^verbatim>\<open>kernel/jmp_user.c\<close>: the boot of the kernel, its loop over the memory map
  of the boot loader, and the jump to user mode. The addresses the linker assigns are the record
  \<open>kernel_env\<close>. \<^verbatim>\<open>kernel_gdt_load\<close> and \<^verbatim>\<open>iret\<close> load segment registers, which are fields of the state.
\<close>

section \<open>State and environment\<close>

record 'd kernel = "'d cpu" +
  code_segment :: u16
  data_segment :: u16
  stack_pointer :: u32
  entry_point :: u32
  interrupts_on :: bool

record kernel_env =
  stub_address :: "nat \<Rightarrow> u32"
  idt_address :: u32
  kernel_end :: u32
  stack_top :: u32
  tss_address :: u32
  shell_address :: u32

section \<open>The memory map\<close>

text \<open>Fields of the 24-byte \<^verbatim>\<open>struct memory_region\<close> at an address.\<close>

definition region_startLo :: "u32 \<Rightarrow> 'a pmm_scheme \<Rightarrow> u32" where
  "region_startLo r s = rd32 (mem s) r"

definition region_sizeLo :: "u32 \<Rightarrow> 'a pmm_scheme \<Rightarrow> u32" where
  "region_sizeLo r s = rd32 (mem s) (r + 8)"

definition region_type :: "u32 \<Rightarrow> 'a pmm_scheme \<Rightarrow> u32" where
  "region_type r s = rd32 (mem s) (r + 16)"

definition set_region_type :: "u32 \<Rightarrow> u32 \<Rightarrow> 'a pmm_scheme \<Rightarrow> 'a pmm_scheme" where
  "set_region_type r v s = s\<lparr>mem := wr32 (mem s) (r + 16) v\<rparr>"

definition address_format :: "u8 list" where
  "address_format = cs ''Address: %x'' @ 9 # cs ''\<newline>''"

text \<open>The loop \<^verbatim>\<open>for (int i=0; i<size; ++i)\<close> of \<open>main\<close>.\<close>

function map_loop :: "'d bus \<Rightarrow> u32 \<Rightarrow> int \<Rightarrow> int \<Rightarrow> ('d, 'z) io_scheme \<Rightarrow> (unit, ('d, 'z) io_scheme) result" where
  "map_loop bus region i n s =
     (if i < n
      then
        let r = region + 24 * of_int i;
            s = (if region_type r s > 4 then set_region_type r 1 s else s) in
        if i > 0 \<and> region_startLo r s = 0 then Inr ((), s)
        else
          bindk (printk bus address_format [VInt (region_startLo r s)] s) (\<lambda>_ s.
          bindk (printk bus (cs ''length: %d \<newline>'') [VInt (region_sizeLo r s)] s) (\<lambda>_ s.
            map_loop bus region (i + 1) n
              (if region_type r s = 1 then init_memory_region (region_startLo r s) (region_sizeLo r s) s else s)))
      else Inr ((), s))"
  by pat_completeness auto
termination
  by (relation "measure (\<lambda>(bus, region, i, n, s). nat (n - i))") auto

section \<open>The jump to user mode\<close>

definition get_cpl :: "('d, 'z) kernel_scheme \<Rightarrow> u8" where
  "get_cpl s = ucast (code_segment s AND 0x3)"

definition jump_usermode ::
  "'d bus \<Rightarrow> u32 \<Rightarrow> u32 \<Rightarrow> ('d, 'z) kernel_scheme \<Rightarrow> (unit, ('d, 'z) kernel_scheme) result" where
  "jump_usermode bus shell user_stack s =
     bindk (printk bus (cs ''\<newline>=== Jumping to Ring 3 ===\<newline>'') [] s) (\<lambda>_ s.
     bindk (printk bus (cs ''User stack:  0x%x\<newline>'') [VInt user_stack] s) (\<lambda>_ s.
     bindk (printk bus (cs ''Current CPL: %d\<newline>'') [VInt (ucast (get_cpl s))] s) (\<lambda>_ s.
       Inr ((), s\<lparr>data_segment := 0x23, code_segment := 0x1B, stack_pointer := user_stack, entry_point := shell,
                  interrupts_on := True\<rparr>))))"

section \<open>The boot sequence\<close>

definition kernel_gdt_load :: "('d, 'z) kernel_scheme \<Rightarrow> ('d, 'z) kernel_scheme" where
  "kernel_gdt_load s = s\<lparr>data_segment := 0x10, code_segment := 0x08\<rparr>"

definition kernel_main ::
  "'d bus \<Rightarrow> kernel_env \<Rightarrow> u32 \<Rightarrow> ('d, 'z) kernel_scheme \<Rightarrow> (unit, ('d, 'z) kernel_scheme) result" where
  "kernel_main bus k bootinfo s =
     bindk (printk_color bus VGA_COLOR_CYAN (cs ''============kernel loaded================\<newline>'') [] (kernel_gdt_load s)) (\<lambda>_ s.
     let bitmap_addr = (kernel_end k + 0xFFF) AND NOT 0xFFF; s = s\<lparr>interrupts_on := False\<rparr> in
     bindk (isr_install bus (stub_address k) (idt_address k) s) (\<lambda>_ s.
     bindk (init_timer bus 50 s) (\<lambda>_ s.
     bindk (init_keyboard s) (\<lambda>_ s.
     bindk (printk_init bus s) (\<lambda>_ s.
     let s = s\<lparr>interrupts_on := True\<rparr>;
         region = rd32 (mem s) (bootinfo + 44);
         sz = sint (rd32 (mem s) (bootinfo + 40) div 24);
         memSize = (1024 + rd32 (mem s) (bootinfo + 4) + rd32 (mem s) (bootinfo + 8) * 64) * 1024 in
     bindk (pr bus KERN_DEBUG ''KERNEL'' ''Kernel ends at: %x\<newline>'' [VInt (kernel_end k)] s) (\<lambda>_ s.
     bindk (pr bus KERN_DEBUG ''KERNEL'' ''Bitmap starts at: %x\<newline>'' [VInt bitmap_addr] s) (\<lambda>_ s.
     bindk (printk_color bus VGA_COLOR_MAGENTA (cs ''===========MEMORY MAP START========== \<newline>'') [] s) (\<lambda>_ s.
     bindk (map_loop bus region 0 sz (init_mem_mngr bitmap_addr memSize s)) (\<lambda>_ s.
     bindk (printk_color bus VGA_COLOR_MAGENTA (cs ''===========MEMORY MAP END========== \<newline>'') [] s) (\<lambda>_ s.
     bindk (pr bus KERN_INFO ''Memory'' ''Total Size %d'' [VInt memSize] s) (\<lambda>_ s.
     bindk (printk bus (cs ''Kernel stack top %x\<newline> '') [VInt (stack_top k)] s) (\<lambda>_ s.
     bindk (vmmngr_initialize bus memSize s) (\<lambda>_ s.
     bindk (fat12_init bus s) (\<lambda>_ s.
     let (page, s) = vmmngr_alloc_page s; user_stack = page + 0x1000 in
     bindk (tss_init bus (tss_address k) (stack_top k) s) (\<lambda>_ s.
       jump_usermode bus (shell_address k) user_stack s)))))))))))))))"

text \<open>The shell runs from there, for \<open>n\<close> rounds.\<close>

definition boot_and_run ::
  "'d bus \<Rightarrow> kernel_env \<Rightarrow> u32 \<Rightarrow> user_env \<Rightarrow> u32 \<Rightarrow> nat \<Rightarrow> ('d, 'z) kernel_scheme \<Rightarrow> (unit, ('d, 'z) kernel_scheme) result" where
  "boot_and_run bus k bootinfo u line n s =
     bindk (kernel_main bus k bootinfo s) (\<lambda>_ s. shell_main bus u line n s)"

declare map_loop.simps [simp del]

section \<open>What initialising a region writes\<close>

lemma region_loop_mem:
  assumes "a + n < 2 ^ 21" "\<not> in_range (mem_mngr s) (2 ^ 18) x"
  shows "mem (region_loop (int a) (int n) s) x = mem s x"
  using assms
proof (induction n arbitrary: a s)
  case 0
  then have "a div 32 < 65536" by (simp add: less_mult_imp_div_less)
  with 0 show ?case using mmap_mem_outside(2) [of a s x] by (simp add: region_loop_0 in_range_def)
next
  case (Suc n)
  let ?s = "(mmap_unset (int a) s)\<lparr>mem_mngr_used_blocks := mem_mngr_used_blocks s - 1\<rparr>"
  have m: "mem_mngr ?s = mem_mngr s" by (simp add: mmap_unset_def mem_mngr_put_def)
  have r: "mem (region_loop (int (Suc a)) (int n) ?s) x = mem ?s x"
    using Suc.prems m by (intro Suc.IH) simp_all
  have "a div 32 < 65536" using Suc.prems by (simp add: less_mult_imp_div_less)
  then have "mem ?s x = mem s x"
    using mmap_mem_outside(2) [of a s x] Suc.prems by (simp add: in_range_def)
  with r show ?case unfolding region_loop_Suc by simp
qed

lemma init_memory_region_mngr: "mem_mngr (init_memory_region st sz s) = mem_mngr s"
  by (simp add: init_memory_region_def mmap_set_def mem_mngr_put_def Let_def)

lemma init_memory_region_mem:
  assumes "\<not> in_range (mem_mngr s) (2 ^ 18) x"
  shows "mem (init_memory_region st sz s) x = mem s x"
proof -
  have b: "unat st div 4096 + unat sz div 4096 < 2 ^ 21"
    using unat_div_frame [of st] unat_div_frame [of sz] by simp
  let ?s = "region_loop (int (unat st div 4096)) (int (unat sz div 4096)) s"
  have e: "init_memory_region st sz s = mmap_set 0 ?s"
    by (simp add: init_memory_region_def sint_page)
  have "mem (mmap_set 0 ?s) x = mem ?s x"
    using mmap_mem_outside(1) [of 0 ?s x] assms by (simp add: in_range_def)
  then show "mem (init_memory_region st sz s) x = mem s x" unfolding e using region_loop_mem [OF b assms] by simp
qed

lemma init_memory_region_rest: "\<exists>m k. init_memory_region st sz s = s\<lparr>mem := m, mem_mngr_used_blocks := k\<rparr>"
proof -
  have *: "\<exists>m k. region_loop a n s = s\<lparr>mem := m, mem_mngr_used_blocks := k\<rparr>" for a n and s :: "'a pmm_scheme"
  proof (induction a n s rule: region_loop.induct)
    case (1 a n s)
    show ?case
    proof (cases "0 \<le> n")
      case True
      from "1.IH" [OF True refl refl] show ?thesis
        using True by (subst region_loop.simps) (auto simp: mmap_unset_def mem_mngr_put_def Let_def)
    next
      case False
      then show ?thesis
        by (subst region_loop.simps) (simp, intro exI [of _ "mem s"] exI [of _ "mem_mngr_used_blocks s"], simp)
    qed
  qed
  obtain m k where "region_loop (sint (st div 4096)) (sint (sz div 4096)) s = s\<lparr>mem := m, mem_mngr_used_blocks := k\<rparr>"
    using * by blast
  then show ?thesis by (cases s) (simp add: init_memory_region_def mmap_set_def mem_mngr_put_def Let_def)
qed

section \<open>Regions in memory\<close>

text \<open>The regions of a memory map as start, size and type: three words of six.\<close>

definition map_addr :: "u32 \<Rightarrow> nat \<Rightarrow> u32" where
  "map_addr a j = a + 4 * of_nat j"

definition map_word :: "memory \<Rightarrow> u32 \<Rightarrow> nat \<Rightarrow> u32" where
  "map_word m a j = rd32 m (map_addr a j)"

definition region_at :: "memory \<Rightarrow> u32 \<Rightarrow> nat \<Rightarrow> u32 \<times> u32 \<times> u32" where
  "region_at m a i = (map_word m a (6 * i), map_word m a (6 * i + 2), map_word m a (6 * i + 4))"

text \<open>Those the loop visits: up to a region after the first that starts at 0.\<close>

function visited :: "memory \<Rightarrow> u32 \<Rightarrow> nat \<Rightarrow> nat \<Rightarrow> (u32 \<times> u32 \<times> u32) list" where
  "visited m a i n =
     (if i < n \<and> \<not> (0 < i \<and> fst (region_at m a i) = 0) then region_at m a i # visited m a (Suc i) n else [])"
  by pat_completeness auto
termination
  by (relation "measure (\<lambda>(m, a, i, n). n - i)") auto

declare visited.simps [simp del]

text \<open>Memory for use: type 1, or a type the code does not know; and the frames the loop frees for it.\<close>

definition usable :: "u32 \<times> u32 \<times> u32 \<Rightarrow> bool" where
  "usable r \<longleftrightarrow> snd (snd r) = 1 \<or> 4 < snd (snd r)"

definition freed :: "u32 \<times> u32 \<times> u32 \<Rightarrow> nat \<Rightarrow> bool" where
  "freed r c \<longleftrightarrow> usable r \<and> unat (fst r) div 4096 \<le> c \<and> c \<le> unat (fst r) div 4096 + unat (fst (snd r)) div 4096"

lemma map_word_far:
  assumes "j < 6 * n" "24 * n \<le> 2 ^ 32" "\<And>x. in_range a (24 * n) x \<Longrightarrow> m' x = m x"
  shows "map_word m' a j = map_word m a j"
  unfolding map_word_def map_addr_def
proof (rule rd32_cong)
  fix b assume "in_range (a + 4 * of_nat j) 4 b"
  then have "unat (b - a) div 4 = j" using assms(1,2) by (subst (asm) in_range_word_array) simp_all
  then have "in_range a (24 * n) b" using assms(1) by (simp add: in_range_def)
  then show "m' b = m b" by (rule assms(3))
qed

lemma map_word_wr32:
  "j < 2 ^ 30 \<Longrightarrow> k < 2 ^ 30 \<Longrightarrow> map_word (wr32 m (map_addr a j) v) a k = (if j = k then v else map_word m a k)"
  unfolding map_word_def map_addr_def by (rule rd32_wr32_array)

lemma visited_cong:
  "(\<And>j. i \<le> j \<Longrightarrow> j < n \<Longrightarrow> region_at m' a j = region_at m a j) \<Longrightarrow> visited m' a i n = visited m a i n"
proof (induction "n - i" arbitrary: i)
  case (Suc k)
  then have "visited m' a (Suc i) n = visited m a (Suc i) n" by (intro Suc.hyps(1)) simp_all
  with Suc show ?case by (subst (1 2) visited.simps) simp
qed (simp add: visited.simps)

lemma region_fields:
  "region_startLo (a + 24 * of_nat i) s = map_word (mem s) a (6 * i)"
  "region_sizeLo (a + 24 * of_nat i) s = map_word (mem s) a (6 * i + 2)"
  "region_type (a + 24 * of_nat i) s = map_word (mem s) a (6 * i + 4)"
  "set_region_type (a + 24 * of_nat i) v s = s\<lparr>mem := wr32 (mem s) (map_addr a (6 * i + 4)) v\<rparr>"
  by (simp_all add: region_startLo_def region_sizeLo_def region_type_def set_region_type_def map_word_def
    map_addr_def algebra_simps)

text \<open>The bitmap's bytes for the frames below \<open>2 ^ 21\<close>.\<close>

lemma frame_bit_outside:
  assumes "mem_mngr s' = mem_mngr s" "\<And>x. in_range (mem_mngr s) (2 ^ 18) x \<Longrightarrow> mem s' x = mem s x" "c < 2 ^ 21"
  shows "frame_bit s' c \<longleftrightarrow> frame_bit s c"
proof -
  have "c div 8 < 2 ^ 18" using assms(3) by (simp add: less_mult_imp_div_less)
  moreover from this have "unat (of_nat (c div 8) :: u32) = c div 8" by (intro unat_of_nat32) simp
  ultimately have "in_range (mem_mngr s) (2 ^ 18) (mem_mngr s + of_nat (c div 8))" by (simp add: in_range_def)
  then show ?thesis using assms(1,2) by (simp add: frame_bit_byte)
qed

definition map_apart :: "u32 \<Rightarrow> nat \<Rightarrow> 'a pmm_scheme \<Rightarrow> bool" where
  "map_apart a n s \<longleftrightarrow> 24 * n < 2 ^ 31 \<and> (\<forall>x. in_range a (24 * n) x \<longrightarrow> \<not> in_range (mem_mngr s) (2 ^ 18) x)"

text \<open>The write that turns an unknown type into a usable region stays inside the map.\<close>

abbreviation clamped :: "u32 \<Rightarrow> nat \<Rightarrow> 'a pmm_scheme \<Rightarrow> 'a pmm_scheme" where
  "clamped a i s \<equiv> (if region_type (a + 24 * of_nat i) s > 4 then set_region_type (a + 24 * of_nat i) 1 s else s)"

lemma clamped_fields:
  fixes s :: "('d, 'z) io_scheme"
  assumes "map_apart a n s" "i < n"
  shows "mem_mngr (clamped a i s) = mem_mngr s" "terminal_of view (clamped a i s) = terminal_of view s"
    and "j < 6 * n \<Longrightarrow> map_word (mem (clamped a i s)) a j =
      (if j = 6 * i + 4 \<and> 4 < map_word (mem s) a (6 * i + 4) then 1 else map_word (mem s) a j)"
    and "in_range (mem_mngr s) (2 ^ 18) x \<Longrightarrow> mem (clamped a i s) x = mem s x"
    and "c < 2 ^ 21 \<Longrightarrow> frame_bit (clamped a i s) c \<longleftrightarrow> frame_bit s c"
proof -
  have n: "24 * n < 2 ^ 31" using assms(1) by (simp add: map_apart_def)
  show b: "mem_mngr (clamped a i s) = mem_mngr s" by (simp add: region_fields)
  show "terminal_of view (clamped a i s) = terminal_of view s" by (simp add: region_fields terminal_of_def)
  show "j < 6 * n \<Longrightarrow> map_word (mem (clamped a i s)) a j =
      (if j = 6 * i + 4 \<and> 4 < map_word (mem s) a (6 * i + 4) then 1 else map_word (mem s) a j)"
    using n assms(2) by (auto simp: region_fields map_word_wr32)
  have out: "mem (clamped a i s) x = mem s x" if "in_range (mem_mngr s) (2 ^ 18) x" for x
  proof -
    have "\<not> in_range (map_addr a (6 * i + 4)) 4 x"
    proof
      assume "in_range (map_addr a (6 * i + 4)) 4 x"
      then have "unat (x - a) div 4 = 6 * i + 4" using n assms(2) unfolding map_addr_def
        by (subst (asm) in_range_word_array) simp_all
      then have "in_range a (24 * n) x" using assms(2) by (simp add: in_range_def)
      with that assms(1) show False by (simp add: map_apart_def)
    qed
    then show ?thesis by (simp add: region_fields wr32_outside)
  qed
  then show "in_range (mem_mngr s) (2 ^ 18) x \<Longrightarrow> mem (clamped a i s) x = mem s x" .
  show "c < 2 ^ 21 \<Longrightarrow> frame_bit (clamped a i s) c \<longleftrightarrow> frame_bit s c" by (rule frame_bit_outside [OF b out])
qed

text \<open>One round: the frames after it, and the regions still to come.\<close>

lemma map_round:
  fixes s :: "('d, 'z) io_scheme"
  assumes "pc_conforms bus view" "terminal_ok (terminal_of view s)" "map_apart a n s" "i < n"
    and "\<not> (0 < i \<and> fst (region_at (mem s) a i) = 0)"
  defines "r \<equiv> region_at (mem s) a i"
  shows "\<exists>s'. map_loop bus a (int i) (int n) s = map_loop bus a (int (Suc i)) (int n) s' \<and>
    terminal_ok (terminal_of view s') \<and> map_apart a n s' \<and> visited (mem s') a (Suc i) n = visited (mem s) a (Suc i) n \<and>
    (\<forall>c < 2 ^ 21. frame_bit s' c \<longleftrightarrow>
       (if usable r then c = 0 \<or> frame_bit s c \<and> \<not> freed r c else frame_bit s c))"
proof -
  let ?p = "a + 24 * of_nat i"
  define s1 where "s1 = clamped a i s"
  note c1 = clamped_fields [OF assms(3,4), folded s1_def]
  have n: "24 * n < 2 ^ 31" using assms(3) by (simp add: map_apart_def)
  have f1: "region_startLo ?p s1 = fst r" "region_sizeLo ?p s1 = fst (snd r)"
    "region_type ?p s1 = (if 4 < snd (snd r) then 1 else snd (snd r))"
    using c1(3) assms(4) by (simp_all add: region_fields r_def region_at_def)
  obtain s2 where s2: "printk bus address_format [VInt (region_startLo ?p s1)] s1 = Inr ((), s2)"
    "screen_only view s1 s2" "terminal_ok (terminal_of view s2)"
    by (rule printk_step [OF assms(1), of s1 address_format "[VInt (region_startLo ?p s1)]"])
      (simp_all add: c1(2) assms(2), simp_all add: address_format_def cs_def)
  obtain s3 where s3: "printk bus (cs ''length: %d \<newline>'') [VInt (region_sizeLo ?p s2)] s2 = Inr ((), s3)"
    "screen_only view s2 s3" "terminal_ok (terminal_of view s3)"
    by (rule printk_step [OF assms(1) s2(3), of "cs ''length: %d \<newline>''" "[VInt (region_sizeLo ?p s2)]"]) (simp_all add: cs_def)
  have m3: "mem s3 = mem s1" "mem_mngr s3 = mem_mngr s"
    using screen_only_fields [OF s2(2)] screen_only_fields [OF s3(2)] c1(1) by simp_all
  have f3: "region_startLo ?p s3 = fst r" "region_sizeLo ?p s3 = fst (snd r)"
    "region_type ?p s3 = (if 4 < snd (snd r) then 1 else snd (snd r))"
    using f1 m3 by (simp_all add: region_fields)
  define s4 where "s4 = (if usable r then init_memory_region (fst r) (fst (snd r)) s3 else s3)"
  have step: "map_loop bus a (int i) (int n) s = map_loop bus a (int (Suc i)) (int n) s4"
  proof -
    have ns: "\<not> (0 < int i \<and> region_startLo ?p s1 = 0)" using assms(5) f1(1) by (simp add: r_def)
    have u: "region_type ?p s3 = 1 \<longleftrightarrow> usable r" by (simp add: f3 usable_def)
    have "map_loop bus a (int i) (int n) s = map_loop bus a (int i + 1) (int n)
        (if region_type ?p s3 = 1 then init_memory_region (region_startLo ?p s3) (region_sizeLo ?p s3) s3 else s3)"
      using assms(4) ns unfolding map_loop.simps [of bus a "int i" "int n" s] Let_def of_int_of_nat_eq s1_def [symmetric]
      by (auto simp: s2(1) s3(1))
    then show ?thesis unfolding u f3(1,2) s4_def by (simp add: add.commute)
  qed
  have m4: "mem_mngr s4 = mem_mngr s" by (cases "usable r") (simp_all add: s4_def m3 init_memory_region_mngr)
  have far: "mem s4 x = mem s1 x" if "in_range a (24 * n) x" for x
    using that assms(3) init_memory_region_mem [of s3 x] by (simp add: s4_def m3 map_apart_def)
  have "region_at (mem s4) a j = region_at (mem s) a j" if "Suc i \<le> j" "j < n" for j
  proof -
    have "map_word (mem s4) a k = map_word (mem s) a k" if "6 * Suc i \<le> k" "k < 6 * n" for k
      using that n c1(3) [of k] map_word_far [OF that(2) _ far] by simp
    with that show ?thesis by (simp add: region_at_def)
  qed
  then have v: "visited (mem s4) a (Suc i) n = visited (mem s) a (Suc i) n" by (rule visited_cong)
  obtain mm kk where "init_memory_region (fst r) (fst (snd r)) s3 = s3\<lparr>mem := mm, mem_mngr_used_blocks := kk\<rparr>"
    using init_memory_region_rest [of "fst r" "fst (snd r)" s3] by blast
  then have t4: "terminal_ok (terminal_of view s4)" using s3(3) by (simp add: s4_def terminal_of_def)
  have fb: "frame_bit s3 c \<longleftrightarrow> frame_bit s c" if "c < 2 ^ 21" for c
    by (rule frame_bit_outside) (use that m3 c1(4) in simp_all)
  have "frame_bit s4 c \<longleftrightarrow> (if usable r then c = 0 \<or> frame_bit s c \<and> \<not> freed r c else frame_bit s c)"
    if "c < 2 ^ 21" for c
    using that fb [OF that] init_memory_region_frame(1) [of c "fst r" "fst (snd r)" s3]
    by (simp add: s4_def freed_def)
  with step t4 v m4 assms(3) show ?thesis by (intro exI [of _ s4]) (simp add: map_apart_def)
qed

lemma map_loop_spec:
  fixes s :: "('d, 'z) io_scheme"
  assumes "pc_conforms bus view" "terminal_ok (terminal_of view s)" "map_apart a n s" "i \<le> n"
  shows "\<exists>s'. map_loop bus a (int i) (int n) s = Inr ((), s') \<and> terminal_ok (terminal_of view s') \<and>
    (\<forall>c < 2 ^ 21. frame_bit s' c \<longleftrightarrow>
       c = 0 \<and> (\<exists>r \<in> set (visited (mem s) a i n). usable r) \<or>
       frame_bit s c \<and> \<not> (\<exists>r \<in> set (visited (mem s) a i n). freed r c))"
  using assms(2-4)
proof (induction "n - i" arbitrary: i s)
  case 0
  then show ?case by (intro exI [of _ s]) (simp add: map_loop.simps visited.simps)
next
  case (Suc k)
  then have i: "i < n" by simp
  let ?r = "region_at (mem s) a i"
  show ?case
  proof (cases "0 < i \<and> fst ?r = 0")
    case True
    let ?s = "clamped a i s"
    note c = clamped_fields [OF Suc.prems(2) i]
    have "map_word (mem ?s) a (6 * i) = 0" using True i c(3) [of "6 * i"] by (simp add: region_at_def)
    then have "map_loop bus a (int i) (int n) s = Inr ((), ?s)"
      using i True unfolding map_loop.simps [of bus a "int i" "int n" s] Let_def of_int_of_nat_eq
      by (simp add: region_fields)
    moreover have "visited (mem s) a i n = []" using True by (simp add: visited.simps)
    moreover have "terminal_of view ?s = terminal_of view s" by (rule c(2))
    moreover have "frame_bit ?s c \<longleftrightarrow> frame_bit s c" if "c < 2 ^ 21" for c using that by (rule c(5))
    ultimately show ?thesis using Suc.prems(1) by (intro exI [of _ ?s]) simp
  next
    case False
    obtain s1 where s1: "map_loop bus a (int i) (int n) s = map_loop bus a (int (Suc i)) (int n) s1"
      "terminal_ok (terminal_of view s1)" "map_apart a n s1" "visited (mem s1) a (Suc i) n = visited (mem s) a (Suc i) n"
      "\<forall>c < 2 ^ 21. frame_bit s1 c \<longleftrightarrow> (if usable ?r then c = 0 \<or> frame_bit s c \<and> \<not> freed ?r c else frame_bit s c)"
      using map_round [OF assms(1) Suc.prems(1,2) i False] by blast
    have "k = n - Suc i" "Suc i \<le> n" using Suc.hyps(2) i by simp_all
    from Suc.hyps(1) [OF this(1) s1(2,3) this(2)] obtain s2 where
      s2: "map_loop bus a (int (Suc i)) (int n) s1 = Inr ((), s2)" "terminal_ok (terminal_of view s2)"
      "\<forall>c < 2 ^ 21. frame_bit s2 c \<longleftrightarrow>
        c = 0 \<and> (\<exists>r \<in> set (visited (mem s) a (Suc i) n). usable r) \<or>
        frame_bit s1 c \<and> \<not> (\<exists>r \<in> set (visited (mem s) a (Suc i) n). freed r c)"
      unfolding s1(4) by blast
    have v: "visited (mem s) a i n = ?r # visited (mem s) a (Suc i) n" using i False by (subst visited.simps) simp
    have "frame_bit s2 c \<longleftrightarrow>
        c = 0 \<and> (\<exists>r \<in> set (visited (mem s) a i n). usable r) \<or>
        frame_bit s c \<and> \<not> (\<exists>r \<in> set (visited (mem s) a i n). freed r c)" if "c < 2 ^ 21" for c
    proof -
      have fu: "usable r" if "freed r c" for r using that by (simp add: freed_def)
      have "frame_bit s1 c \<longleftrightarrow> (if usable ?r then c = 0 \<or> frame_bit s c \<and> \<not> freed ?r c else frame_bit s c)"
        "frame_bit s2 c \<longleftrightarrow> c = 0 \<and> (\<exists>r \<in> set (visited (mem s) a (Suc i) n). usable r) \<or>
          frame_bit s1 c \<and> \<not> (\<exists>r \<in> set (visited (mem s) a (Suc i) n). freed r c)"
        using s1(5) s2(3) that by blast+
      then show ?thesis unfolding v using fu fu [of ?r] by (cases "usable ?r"; cases "c = 0") auto
    qed
    then show ?thesis using s1(1) s2 by auto
  qed
qed

section \<open>Properties of the boot\<close>

text \<open>
  C13: The loop over the boot loader's memory map ends, and decides every frame: those of the usable
  regions it visits, and one more per region, are free afterwards, all others keep their state, and
  frame 0 is in use. Nothing is set aside for what lies in such a region already, the kernel, its
  stack and the bitmap itself: their frames are free for the allocator.
\<close>

theorem memory_map_frames:
  fixes s :: "('d, 'z) io_scheme"
  assumes "pc_conforms bus view" "terminal_ok (terminal_of view s)" "map_apart a n s"
  shows "\<exists>s'. map_loop bus a 0 (int n) s = Inr ((), s') \<and>
    (\<forall>c < 2 ^ 21. frame_bit s' c \<longleftrightarrow>
       c = 0 \<and> (\<exists>r \<in> set (visited (mem s) a 0 n). usable r) \<or>
       frame_bit s c \<and> \<not> (\<exists>r \<in> set (visited (mem s) a 0 n). freed r c))"
  using map_loop_spec [OF assms, of 0] by auto

definition demo_map :: "pc io" where
  "demo_map = demo_io\<lparr>mem := wr32 (wr32 (wr32 (\<lambda>_. 0xFF) (map_addr 0x50000 0) 0x100000) (map_addr 0x50000 2) 0x400000)
     (map_addr 0x50000 4) 1\<rparr>"

theorem memory_map_frames_witness:
  "\<exists>s'. map_loop demo_bus 0x50000 0 1 demo_map = Inr ((), s') \<and> \<not> frame_bit s' 0x110"
proof -
  have b: "mem_mngr demo_map = 0x1000" by (simp add: demo_map_def demo_io_def pmm.defs demo_pmm_def)
  have apart: "map_apart 0x50000 1 demo_map"
  proof -
    have "\<not> in_range 0x1000 262144 x" if "in_range 0x50000 24 x" for x
    proof -
      define k where "k = x - 0x50000"
      have k: "x = 0x50000 + k" "unat k < 24" using that by (simp_all add: k_def in_range_def)
      then have "unat (x - 0x1000) = 0x4F000 + unat k" by (simp add: unat_word_ariths)
      then show ?thesis by (simp add: in_range_def)
    qed
    then show ?thesis by (simp add: map_apart_def b)
  qed
  have t: "terminal_ok (terminal_of (\<lambda>a. a) demo_map)"
    using demo_terminal by (simp add: demo_map_def terminal_of_def terminal_ok_def)
  have "region_at (mem demo_map) 0x50000 0 = (0x100000, 0x400000, 1)"
    by (simp add: region_at_def demo_map_def map_word_wr32)
  then have "(0x100000, 0x400000, 1) \<in> set (visited (mem demo_map) 0x50000 0 1)"
    by (subst visited.simps) simp
  moreover have "freed (0x100000, 0x400000, 1) 0x110" by (simp add: freed_def usable_def)
  ultimately have f: "\<exists>r \<in> set (visited (mem demo_map) 0x50000 0 1). freed r 0x110" by blast
  from memory_map_frames [OF demo_bus_conforms t apart] obtain s' where
    s': "map_loop demo_bus 0x50000 0 1 demo_map = Inr ((), s')"
    "\<forall>c < 2 ^ 21. frame_bit s' c \<longleftrightarrow>
       c = 0 \<and> (\<exists>r \<in> set (visited (mem demo_map) 0x50000 0 1). usable r) \<or>
       frame_bit demo_map c \<and> \<not> (\<exists>r \<in> set (visited (mem demo_map) 0x50000 0 1). freed r c)" by auto
  from s'(2) [rule_format, of "0x110"] f have "\<not> frame_bit s' 0x110" by simp
  with s'(1) show ?thesis by blast
qed

end
