(* ===== verification/Pages.thy ===== *)
theory Pages
  imports Space
begin

text \<open>
  Pages for the kernel's own use. Once the tables for the frames to come exist, taking a page writes
  the bitmap and one table entry and nothing else, so that what other components keep in their pages
  stays as it is. The file system and the commands rely on this when they open files.
\<close>

section \<open>A kernel with pages to spare\<close>

text \<open>At least \<open>n\<close> frames can still be allocated.\<close>

definition spare :: "nat \<Rightarrow> 'a pmm_scheme \<Rightarrow> bool" where
  "spare n s \<longleftrightarrow> n \<le> unat (get_free_block_count s) \<and> n \<le> card {f. f < frame_limit s \<and> \<not> frame_bit s f}"

lemma spare_mono: "m \<le> n \<Longrightarrow> spare n s \<Longrightarrow> spare m s"
  by (simp add: spare_def)

lemma free_frames_next: "{f. f < frame_limit s \<and> \<not> frame_bit s f} = next_frames (Suc (frame_limit s)) s"
proof -
  have "card {b. b < f \<and> \<not> frame_bit s b} \<le> f" for f
    using card_mono [of "{..<f}" "{b. b < f \<and> \<not> frame_bit s b}"] by auto
  then show ?thesis by (auto simp: next_frames_def intro: le_less_trans less_SucI)
qed

lemma spare_cong:
  assumes "\<And>m. next_frames m t = next_frames m s" "mem_mngr_max_blocks t = mem_mngr_max_blocks s"
    "mem_mngr_used_blocks t = mem_mngr_used_blocks s"
  shows "spare n t \<longleftrightarrow> spare n s"
proof -
  have "frame_limit t = frame_limit s" using assms(2) by (simp add: frame_limit_def)
  then show ?thesis unfolding spare_def free_frames_next by (simp add: get_free_block_count_def assms)
qed

section \<open>Frames in their order\<close>

text \<open>
  Only allocations have happened between two states: the frames to come are those that were to come,
  without the first ones.
\<close>

definition in_order :: "'a pmm_scheme \<Rightarrow> 'b pmm_scheme \<Rightarrow> bool" where
  "in_order s s' \<longleftrightarrow> (\<exists>j. \<forall>n. next_frames n s' = next_frames (j + n) s - next_frames j s)"

lemma in_order_same: "(\<And>n. next_frames n s' = next_frames n s) \<Longrightarrow> in_order s s'"
  unfolding in_order_def by (intro exI [of _ 0]) simp

lemma in_order_refl [simp]: "in_order s s"
  by (rule in_order_same) simp

lemma in_order_trans:
  assumes "in_order s s'" "in_order s' s''"
  shows "in_order s s''"
proof -
  from assms obtain i j where i: "\<And>n. next_frames n s' = next_frames (i + n) s - next_frames i s"
    and j: "\<And>n. next_frames n s'' = next_frames (j + n) s' - next_frames j s'"
    unfolding in_order_def by blast
  have "next_frames i s \<subseteq> next_frames (i + j) s" by (rule next_frames_mono) simp
  then have "next_frames n s'' = next_frames (i + j + n) s - next_frames (i + j) s" for n
    unfolding j i by (auto simp: add.assoc)
  then show ?thesis unfolding in_order_def by blast
qed

lemma in_order_alloc:
  assumes "\<And>n. next_frames n s' = next_frames (Suc n) s - {f}" "f \<in> next_frames 1 s"
  shows "in_order s s'" "next_frames 1 s = {f}"
proof -
  show f: "next_frames 1 s = {f}" using assms(1) [of 0] assms(2) by auto
  show "in_order s s'" unfolding in_order_def using assms(1) f by (intro exI [of _ 1]) simp
qed

definition contiguous :: "nat set \<Rightarrow> bool" where
  "contiguous F \<longleftrightarrow> (\<forall>f \<in> F. \<forall>g \<in> F. {f..g} \<subseteq> F)"

lemma next_frames_down: "f \<in> next_frames n s \<Longrightarrow> h \<in> next_frames k s \<Longrightarrow> h \<le> f \<Longrightarrow> h \<in> next_frames n s"
proof -
  assume h: "f \<in> next_frames n s" "h \<in> next_frames k s" "h \<le> f"
  have "card {b. b < h \<and> \<not> frame_bit s b} \<le> card {b. b < f \<and> \<not> frame_bit s b}"
    using h(3) by (intro card_mono) auto
  with h show ?thesis by (simp add: next_frames_def)
qed

lemma contiguous_in_order:
  assumes "in_order b s" "contiguous (next_frames k b)" "next_frames n s \<subseteq> next_frames k b"
  shows "contiguous (next_frames n s)"
  unfolding contiguous_def
proof (intro ballI subsetI)
  fix f g h assume f: "f \<in> next_frames n s" and g: "g \<in> next_frames n s" and h: "h \<in> {f..g}"
  obtain j where j: "next_frames n s = next_frames (j + n) b - next_frames j b"
    using assms(1) by (auto simp: in_order_def)
  have k: "f \<in> next_frames k b" "h \<in> next_frames k b"
    using assms(2,3) f g h unfolding contiguous_def by blast+
  have "h \<in> next_frames (j + n) b" using next_frames_down [of g "j + n" b h k] g h k j by auto
  moreover have "h \<notin> next_frames j b" using next_frames_down [of h j b f k] f h k j by auto
  ultimately show "h \<in> next_frames n s" by (simp add: j)
qed

lemma next_frames_card:
  assumes "n \<le> card {f. f < frame_limit s \<and> \<not> frame_bit s f}"
  shows "card (next_frames n s) = n"
  using assms
proof (induction n)
  case (Suc n)
  let ?F = "{f. f < frame_limit s \<and> \<not> frame_bit s f}" and ?N = "next_frames n s"
  have N: "?N \<subseteq> ?F" "finite ?N" "card ?N = n" using Suc by (auto simp: next_frames_def)
  then have "card (?F - ?N) = card ?F - n" by (simp add: card_Diff_subset)
  then have "?F - ?N \<noteq> {}" using Suc.prems by (intro notI) simp
  define m where "m = Min (?F - ?N)"
  have m: "m \<in> ?F" "m \<notin> ?N" "\<And>x. x \<in> ?F - ?N \<Longrightarrow> m \<le> x"
    using Min_in [of "?F - ?N"] Min_le [of "?F - ?N"] \<open>?F - ?N \<noteq> {}\<close> by (auto simp: m_def)
  have rank: "x < m \<longleftrightarrow> x \<in> ?N" if "x \<in> ?F" for x
  proof
    assume "x \<in> ?N"
    moreover have "m \<in> next_frames (Suc (card {b. b < m \<and> \<not> frame_bit s b})) s" using m(1) by (simp add: next_frames_def)
    ultimately show "x < m" using next_frames_down [of x n s m] m(2) by (meson not_le)
  qed (use m(3) [of x] that in auto)
  have "{b. b < m \<and> \<not> frame_bit s b} = ?N"
  proof (intro set_eqI iffI; unfold mem_Collect_eq)
    fix x assume x: "x < m \<and> \<not> frame_bit s x"
    moreover from x have "x < frame_limit s" using m(1) by simp
    ultimately show "x \<in> ?N" using rank [of x] by simp
  next
    fix x assume "x \<in> ?N"
    then show "x < m \<and> \<not> frame_bit s x" using rank [of x] N(1) by auto
  qed
  then have c: "card {b. b < m \<and> \<not> frame_bit s b} = n" using N(3) by simp
  have "x \<in> insert m ?N" if x: "x \<in> next_frames (Suc n) s" for x
  proof (rule ccontr)
    assume "x \<notin> insert m ?N"
    then have "m < x" using rank [of x] x by (auto simp: next_frames_def)
    then have "{b. b < m \<and> \<not> frame_bit s b} \<subset> {b. b < x \<and> \<not> frame_bit s b}" using m(1) by auto
    then have "card {b. b < m \<and> \<not> frame_bit s b} < card {b. b < x \<and> \<not> frame_bit s b}" by (intro psubset_card_mono) auto
    then have "card {b. b < x \<and> \<not> frame_bit s b} = n" using x c by (simp add: next_frames_def)
    with c \<open>card {b. b < m \<and> \<not> frame_bit s b} < _\<close> show False by simp
  qed
  moreover have "m \<in> next_frames (Suc n) s" using m(1) c by (simp add: next_frames_def)
  ultimately have "next_frames (Suc n) s = insert m ?N" using next_frames_mono [of n "Suc n" s] by auto
  then show ?case using N(2,3) m(2) by simp
qed simp

text \<open>Frames that are contiguous and begin at \<open>f\<close>.\<close>

lemma contiguous_frames:
  assumes "contiguous (next_frames n s)" "spare n s" "f \<in> next_frames 1 s" "i < n"
  shows "f + i \<in> next_frames n s"
proof (rule ccontr)
  assume no: "f + i \<notin> next_frames n s"
  have f: "f \<in> next_frames n s" using assms(3,4) next_frames_mono [of 1 n s] by auto
  have "{b. b < f \<and> \<not> frame_bit s b} = {}" using assms(3) by (auto simp: next_frames_def)
  then have "f \<le> g" if "g \<in> next_frames n s" for g using that by (auto simp: next_frames_def not_less [symmetric])
  moreover have "g < f + i" if "g \<in> next_frames n s" for g
  proof (rule ccontr)
    assume "\<not> g < f + i"
    then have "f + i \<in> {f..g}" by simp
    with assms(1) f that no show False unfolding contiguous_def by blast
  qed
  ultimately have "next_frames n s \<subseteq> {f..<f + i}" by fastforce
  then have "card (next_frames n s) \<le> i" using card_mono [of "{f..<f + i}"] by fastforce
  then show False using next_frames_card [of n s] assms(2,4) by (simp add: spare_def)
qed

text \<open>The frame after the next one.\<close>

lemma next_frames_1: "g \<in> next_frames 1 s \<Longrightarrow> h \<in> next_frames 1 s \<Longrightarrow> g = h"
  by (rule linorder_cases [of g h]) (auto simp: next_frames_def)

lemma next_frames_2: "f \<in> next_frames 1 s \<Longrightarrow> f + 1 \<in> next_frames n s \<Longrightarrow> f + 1 \<in> next_frames 2 s"
proof -
  assume f: "f \<in> next_frames 1 s" "f + 1 \<in> next_frames n s"
  then have "{b. b < f \<and> \<not> frame_bit s b} = {}" by (auto simp: next_frames_def)
  then have "{b. b < f + 1 \<and> \<not> frame_bit s b} \<subseteq> {f}" by (auto simp: less_Suc_eq)
  then have "card {b. b < f + 1 \<and> \<not> frame_bit s b} \<le> 1" using card_mono [of "{f}"] by fastforce
  with f(2) show ?thesis by (simp add: next_frames_def)
qed

section \<open>Kernels with room\<close>

text \<open>
  The address space is well formed for \<open>n\<close> allocations that are possible, and the frames they take
  have their tables, with no stale frame bit in their entries.
\<close>

definition has_table :: "('d, 'z) vmm_scheme \<Rightarrow> nat \<Rightarrow> bool" where
  "has_table s f \<longleftrightarrow> bit (pde s (dir_index (P2V (frame_addr f)))) 0 \<and> \<not> bit (pte_of s (P2V (frame_addr f))) 31"

definition vm_ok :: "nat \<Rightarrow> ('d, 'z) vmm_scheme \<Rightarrow> bool" where
  "vm_ok n s \<longleftrightarrow> space_ok n s \<and> spare n s \<and> (\<forall>f \<in> next_frames n s. has_table s f)"

text \<open>The bytes of the bitmap, the directory and the tables lie in these pages.\<close>

definition kernel_byte :: "('d, 'z) vmm_scheme \<Rightarrow> u32 \<Rightarrow> bool" where
  "kernel_byte s x \<longleftrightarrow> structural s (V2P (page_frame x))"

lemma kernel_byte_cases:
  "bitmap_byte s x \<Longrightarrow> kernel_byte s x"
  "page_frame x = cur_directory s \<Longrightarrow> kernel_byte s x"
  "i < 1024 \<Longrightarrow> bit (pde s i) 0 \<Longrightarrow> page_frame x = P2V (page_frame (pde s i)) \<Longrightarrow> kernel_byte s x"
  by (auto simp: kernel_byte_def structural_def)

lemma kernel_byte_held:
  assumes "space_ok n s" "kernel_byte s x"
  shows "held n s (V2P (page_frame x))"
proof -
  from assms(2) consider "page_frame x = cur_directory s"
    | i where "i < 1024" "bit (pde s i) 0" "page_frame (pde s i) = V2P (page_frame x)"
    | y where "bitmap_byte s y" "page_frame y = page_frame x"
    by (auto simp: kernel_byte_def structural_def)
  then show ?thesis
  proof cases
    case 1
    then show ?thesis using space_dir(2) [OF assms(1)] by simp
  next
    case (2 i)
    then show ?thesis using space_table(1) [OF assms(1) 2(1,2)] by simp
  next
    case (3 y)
    then show ?thesis using space_bitmap(1) [OF assms(1) 3(1)] by simp
  qed
qed

text \<open>Writes that spare the bitmap, the directory and the tables change no entry.\<close>

lemma kernel_bytes_cong:
  assumes "space_ok n s" "mem_mngr t = mem_mngr s" "mem_mngr_max_blocks t = mem_mngr_max_blocks s"
    "cur_directory t = cur_directory s" and m: "\<And>x. kernel_byte s x \<Longrightarrow> mem t x = mem s x"
  shows "kernel_byte t = kernel_byte s" "has_table t = has_table s" "translate t = translate s"
proof -
  have b: "bitmap_byte t = bitmap_byte s" using assms(2,3) by (rule bitmap_byte_cong)
  have e: "pde t i = pde s i" if "i < 1024" for i
    using that kernel_byte_cases(2) m by (intro pde_cong [OF assms(1,4)]) auto
  show "kernel_byte t = kernel_byte s"
    by (auto simp: fun_eq_iff kernel_byte_def structural_def b e assms(4))
  have "pte_of t va = pte_of s va" if "bit (pde s (dir_index va)) 0" for va
    unfolding pte_of_def e [OF dir_index_less] using that m kernel_byte_cases(3) [of "dir_index va"]
    by (intro entry_cong) auto
  then show "has_table t = has_table s" "translate t = translate s"
    by (auto simp: fun_eq_iff has_table_def translate_pte e)
qed

lemma vm_transfer:
  assumes "vm_ok n s" "mem_mngr t = mem_mngr s" "mem_mngr_max_blocks t = mem_mngr_max_blocks s"
    "mem_mngr_used_blocks t = mem_mngr_used_blocks s" "cur_directory t = cur_directory s"
    and m: "\<And>x. kernel_byte s x \<Longrightarrow> mem t x = mem s x"
  shows "vm_ok n t" "kernel_byte t = kernel_byte s" "held k t = held k s" "next_frames k t = next_frames k s"
proof -
  have ok: "space_ok n s" using assms(1) by (simp add: vm_ok_def)
  have far: "mem t x = mem s x" if "bitmap_byte s x \<or> page_frame x = cur_directory s" for x
    using that m kernel_byte_cases(1,2) by blast
  note sp = space_ok_cong [OF ok assms(2,3,5) far] and k = kernel_bytes_cong [OF ok assms(2,3,5) m]
  with assms(1) k(2) spare_cong [OF sp(3) assms(3,4)] show "vm_ok n t" by (simp add: vm_ok_def)
  show "kernel_byte t = kernel_byte s" "held k t = held k s" using k(1) sp(2) by blast+
  show "next_frames k t = next_frames k s" by (rule sp(3))
qed

section \<open>Taking a page\<close>

lemma alloc_frame_spare:
  assumes "pmm_ok s" "spare (Suc n) s" "alloc_memory_block s = (t, s1)"
  shows "t \<noteq> 0" "spare n s1"
proof -
  let ?F = "\<lambda>s. {f. f < frame_limit s \<and> \<not> frame_bit s f}"
  obtain f where f: "0 < f" "f < frame_limit s" "f < 2 ^ 20" "\<not> frame_bit s f" "t = frame_addr f"
    "s1 = (mmap_set (int f) s)\<lparr>mem_mngr_used_blocks := mem_mngr_used_blocks s + 1\<rparr>"
    using assms(1)
  proof (cases rule: alloc_memory_block_cases)
    case none
    from none(2) have False
    proof
      assume "\<forall>b<frame_limit s. frame_bit s b"
      then have "?F s = {}" by auto
      with assms(2) show False by (simp only: spare_def card.empty) simp
    qed (use assms(2) in \<open>simp add: spare_def get_free_block_count_def\<close>)
    then show ?thesis ..
  next
    case (frame f)
    with assms(3) show ?thesis by (intro that [of f]) simp_all
  qed
  show "t \<noteq> 0" using f(1,3,5) by (simp add: frame_addr_0_iff)
  have l: "frame_limit s1 = frame_limit s" by (simp add: f(6))
  have "frame_bit s1 c \<longleftrightarrow> c = f \<or> frame_bit s c" if "c < frame_limit s" for c
    using that frame_limit_bound(1) [of s] assms(1) alloc_frame_bit [OF f(3), where c = c and s = s]
    by (simp add: f(6) pmm_ok_def)
  then have "?F s1 = ?F s - {f}" by (auto simp: l)
  then have "card (?F s1) = card (?F s) - 1" using f(2,4) by simp
  moreover have "get_free_block_count s1 = get_free_block_count s - 1"
    by (simp add: get_free_block_count_def f(6))
  moreover have "unat (get_free_block_count s - 1) = unat (get_free_block_count s) - 1"
    using assms(2) by (intro unat_minus_one) (auto simp: spare_def)
  ultimately show "spare n s1" using assms(2) unfolding spare_def by (elim conjE) (intro conjI; simp)
qed

text \<open>Writing the entry of a page whose table exists.\<close>

lemma map_entry_vm:
  fixes s :: "('d, 'z) vmm_scheme"
  assumes "vm_ok n s" "bit (pde s (dir_index va)) 0" "\<not> bit (pte_of s va) 31" "aligned t" "\<not> bit t 31"
  defines "s' \<equiv> map_entry t va (cur_directory s + 4 * of_nat (dir_index va)) s"
  shows "vm_ok n s'" "kernel_byte s' = kernel_byte s" "held k s' = held k s" "\<not> kernel_byte s x \<Longrightarrow> mem s' x = mem s x"
    "mem_mngr s' = mem_mngr s" "mem_mngr_max_blocks s' = mem_mngr_max_blocks s" "pmm.more s' = pmm.more s"
    "next_frames m s' = next_frames m s"
proof -
  have ok: "space_ok n s" using assms(1) by (simp add: vm_ok_def)
  let ?k = "dir_index va" and ?P = "P2V (page_frame (pde s (dir_index va)))"
  have s': "s' = store32 (?P + 4 * of_nat (table_index va)) (entry_value (pte_of s va) t) s"
    by (simp add: s'_def map_entry_eq Let_def pde_load) (simp add: load32_def pte_of_def entry_def)
  show f: "mem_mngr s' = mem_mngr s" "mem_mngr_max_blocks s' = mem_mngr_max_blocks s" "pmm.more s' = pmm.more s"
    by (simp_all add: s')
  have u: "mem_mngr_used_blocks s' = mem_mngr_used_blocks s" by (simp add: s')
  have dir: "cur_directory s' = cur_directory s" using f(3) by (rule vmm_fields_more)
  note tb = space_table [OF ok dir_index_less assms(2)]
  have m: "mem s' x = mem s x" if "page_frame x \<noteq> ?P" for x
    using that entry_byte [of "table_index va" ?P x] by (auto simp: s' intro!: wr32_outside)
  then show "\<not> kernel_byte s x \<Longrightarrow> mem s' x = mem s x" for x
    using kernel_byte_cases(3) [OF dir_index_less assms(2)] by blast
  have far: "mem s' x = mem s x" if "bitmap_byte s x \<or> page_frame x = cur_directory s" for x
    using that tb(2,3) by (intro m) auto
  note sp = space_ok_cong [OF ok f(1,2) dir far]
  have b: "bitmap_byte s' = bitmap_byte s" using f(1,2) by (rule bitmap_byte_cong)
  have e: "pde s' i = pde s i" if "i < 1024" for i
    using that far by (intro pde_cong [OF ok dir]) auto
  show "kernel_byte s' = kernel_byte s"
    by (auto simp: fun_eq_iff kernel_byte_def structural_def b e dir)
  show "held k s' = held k s" by (rule sp(2))
  show "next_frames m s' = next_frames m s" by (rule sp(3))
  have "has_table s' g" if "has_table s g" for g
  proof -
    let ?q = "P2V (frame_addr g)"
    have "entry (mem s') (P2V (page_frame x)) (table_index ?q) = (if P2V (page_frame x) = ?P \<and>
        table_index ?q = table_index va then entry_value (pte_of s va) t
        else entry (mem s) (P2V (page_frame x)) (table_index ?q))" for x
      by (simp add: s' entry_wr32)
    moreover have "\<not> bit (entry_value (pte_of s va) t) 31" using assms(3,5) by (simp add: entry_value_def bit_simps)
    ultimately have "\<not> bit (pte_of s' ?q) 31"
      using that by (simp add: has_table_def pte_of_def e)
    with that show ?thesis by (simp add: has_table_def e)
  qed
  moreover have "spare n s' \<longleftrightarrow> spare n s" by (rule spare_cong [OF sp(3) f(2) u])
  ultimately show "vm_ok n s'" using assms(1) sp by (simp add: vm_ok_def)
qed

lemma alloc_page_order:
  fixes s :: "('d, 'z) vmm_scheme"
  assumes "vm_ok (Suc n) s"
  obtains v s' where "vmmngr_alloc_page s = (v, s')" "v \<noteq> 0" "aligned v" "\<not> held (Suc n) s (V2P v)" "\<not> kernel_byte s v"
    "vm_ok n s'" "kernel_byte s' = kernel_byte s" "\<forall>q. held (Suc n) s q \<or> q = V2P v \<longrightarrow> held n s' q"
    "\<forall>x. \<not> kernel_byte s x \<longrightarrow> mem s' x = mem s x"
    "mem_mngr s' = mem_mngr s" "mem_mngr_max_blocks s' = mem_mngr_max_blocks s" "pmm.more s' = pmm.more s"
    "\<forall>va. translate s' va = (if page_frame va = v then Some (V2P v OR (va AND 0xfff)) else translate s va)"
    "unat (V2P v) div 4096 \<in> next_frames 1 s" "\<forall>k. next_frames k s' = next_frames (Suc k) s - {unat (V2P v) div 4096}"
proof -
  have ok: "space_ok (Suc n) s" "spare (Suc n) s" using assms by (simp_all add: vm_ok_def)
  define t s1 where "t = fst (alloc_memory_block s)" and "s1 = snd (alloc_memory_block s)"
  have al: "alloc_memory_block s = (t, s1)" by (simp add: t_def s1_def)
  note sp1 = alloc_frame_spare [OF space_ok_parts(1) [OF ok(1)] ok(2) al]
  note a = alloc_frame_facts [OF space_ok_parts(1) [OF ok(1)] al sp1(1)] and sa = space_alloc [OF ok(1) al sp1(1)]
  let ?v = "P2V t"
  have fa: "frame_addr (unat t div 4096) = t" using a(2) by (intro frame_addr_unat) (simp add: aligned_def)
  have ht: "has_table s (unat t div 4096)" using assms a(9) by (simp add: vm_ok_def)
  then have d: "bit (pde s (dir_index ?v)) 0" "\<not> bit (pte_of s ?v) 31" by (simp_all add: has_table_def fa)
  have low: "?v \<noteq> 0" "\<not> bit t 31"
    using low_frame [of t] alloc_low [OF ok(1)] sp1(1) by (simp_all add: t_def)
  have pte: "pte_of s1 va = pte_of s va" if "bit (pde s (dir_index va)) 0" for va
    unfolding pte_of_def sa(4) [OF dir_index_less] using space_table(3) [OF ok(1) dir_index_less that]
    by (intro entry_cong a(5)) auto
  have b1: "bitmap_byte s1 = bitmap_byte s" using a(6,7) by (rule bitmap_byte_cong)
  have k1: "kernel_byte s1 = kernel_byte s"
    by (auto simp: fun_eq_iff kernel_byte_def structural_def b1 sa(3,4))
  have "has_table s1 f" if "has_table s f" for f using that pte by (simp add: has_table_def sa(4))
  then have vm1: "vm_ok n s1" using assms sa(1) sp1(2) a(10) by (simp add: vm_ok_def)
  have d1: "bit (pde s1 (dir_index ?v)) 0" "\<not> bit (pte_of s1 ?v) 31" using d pte by (simp_all add: sa(4))
  define s' where "s' = map_entry t ?v (cur_directory s1 + 4 * of_nat (dir_index ?v)) s1"
  note m = map_entry_vm [OF vm1 d1 a(2) low(2), folded s'_def]
  have run: "vmmngr_alloc_page s = (?v, s')"
    using sp1(1) low(1) d1(1) by (simp add: vmmngr_alloc_page_def al map_page_cases s'_def Let_def)
  have pv: "page_frame ?v = ?v" using a(2) by (simp add: aligned_P2V page_frame_aligned)
  have nk: "\<not> kernel_byte s ?v" using kernel_byte_held [OF ok(1), of ?v] a(11) pv by auto
  have "unat t < 2 ^ 30" using alloc_low [OF ok(1)] sp1(1) by (simp add: t_def)
  then have "held n s1 t" using a(2,10) by (simp add: held_def)
  then have "\<forall>q. held (Suc n) s q \<or> q = V2P ?v \<longrightarrow> held n s' q" using a(12) m(3) by auto
  moreover have "\<forall>x. \<not> kernel_byte s x \<longrightarrow> mem s' x = mem s x"
    using m(4) a(5) kernel_byte_cases(1) by (metis k1)
  moreover have "can_map (snd (alloc_memory_block s)) ?v" using d1 by (simp add: can_map_def al pte_of_def)
  then have "\<forall>va. translate s' va = (if page_frame va = ?v then Some (V2P ?v OR (va AND 0xfff)) else translate s va)"
    using alloc_page_space(7) [OF run low(1)] ok(1) d(1) by simp
  moreover have "unat (V2P ?v) div 4096 \<in> next_frames 1 s" using a(9) [of 0] by simp
  moreover have "\<forall>k. next_frames k s' = next_frames (Suc k) s - {unat (V2P ?v) div 4096}" using m(8) a(10) by simp
  ultimately show thesis
    using run low(1) a(2,11) nk m(1,2,5-7) k1 a(6-8) by (intro that [of ?v s']) (simp_all add: aligned_P2V)
qed

lemma alloc_page_vm:
  fixes s :: "('d, 'z) vmm_scheme"
  assumes "vm_ok (Suc n) s"
  obtains v s' where "vmmngr_alloc_page s = (v, s')" "v \<noteq> 0" "aligned v" "\<not> held (Suc n) s (V2P v)" "\<not> kernel_byte s v"
    "vm_ok n s'" "kernel_byte s' = kernel_byte s" "\<forall>q. held (Suc n) s q \<or> q = V2P v \<longrightarrow> held n s' q"
    "\<forall>x. \<not> kernel_byte s x \<longrightarrow> mem s' x = mem s x"
    "mem_mngr s' = mem_mngr s" "mem_mngr_max_blocks s' = mem_mngr_max_blocks s" "pmm.more s' = pmm.more s"
    "\<forall>va. translate s' va = (if page_frame va = v then Some (V2P v OR (va AND 0xfff)) else translate s va)"
  using alloc_page_order [OF assms] .

end
