(* ===== verification/Vminit.thy ===== *)
theory Vminit
  imports Pages
begin

text \<open>
  \<open>vmmngr_initialize\<close> of \<^verbatim>\<open>mm/paging.c\<close>: how the kernel's own page directory comes about. The boot
  loader's tables are copied, the rest of the memory is mapped at 0xC0000000 and the identity mapping
  goes. Each loop is followed to its end with the number of frames it may still need.
\<close>

section \<open>States that differ in other fields\<close>

text \<open>All that the address space depends on.\<close>

definition same_space :: "('d, 'y) vmm_scheme \<Rightarrow> ('d, 'z) vmm_scheme \<Rightarrow> bool" where
  "same_space s t \<longleftrightarrow> mem t = mem s \<and> mem_mngr t = mem_mngr s \<and> mem_mngr_max_blocks t = mem_mngr_max_blocks s \<and>
     mem_mngr_used_blocks t = mem_mngr_used_blocks s \<and> cur_directory t = cur_directory s"

lemma same_spaceD:
  assumes "same_space s t"
  shows "frame_limit t = frame_limit s" "frame_bit t = frame_bit s" "pmm_ok t = pmm_ok s" "next_frames n t = next_frames n s"
    "held n t = held n s" "bitmap_byte t = bitmap_byte s" "pde t = pde s" "pte_of t = pte_of s" "translate t = translate s"
    "space_ok n t = space_ok n s" "spare n t = spare n s" "vm_ok n t = vm_ok n s"
proof -
  note e = assms [unfolded same_space_def]
  show l: "frame_limit t = frame_limit s" by (simp add: e frame_limit_def)
  show b: "frame_bit t = frame_bit s" by (simp add: fun_eq_iff frame_bit_def mem_mngr_at_def e)
  show p: "pmm_ok t = pmm_ok s" by (simp add: pmm_ok_def b e)
  show n: "next_frames n t = next_frames n s" for n by (simp add: next_frames_def l b)
  show h: "held n t = held n s" for n by (simp add: fun_eq_iff held_def n)
  show bm: "bitmap_byte t = bitmap_byte s" by (simp add: bitmap_byte_def e)
  show d: "pde t = pde s" by (simp add: fun_eq_iff pde_def e)
  show pt: "pte_of t = pte_of s" by (simp add: fun_eq_iff pte_of_def d e)
  show "translate t = translate s" by (simp add: fun_eq_iff translate_def e)
  have "table_ok n t x = table_ok n s x" for n x by (simp add: table_ok_def h bm e)
  then show so: "space_ok n t = space_ok n s" for n by (simp add: space_ok_def l p n h bm d e)
  show sp: "spare n t = spare n s" for n by (simp add: spare_def l b get_free_block_count_def e)
  have "has_table t f = has_table s f" for f by (simp add: has_table_def d pt)
  then show "vm_ok n t = vm_ok n s" by (simp add: vm_ok_def so sp n)
qed

lemma same_space_screen: "screen_only view s t \<Longrightarrow> same_space s t"
  by (auto simp: same_space_def screen_only_def)

text \<open>The frames to come do not depend on the directory, and allocation does not look at it.\<close>

lemma next_frames_directory [simp]: "next_frames n (s\<lparr>cur_directory := d\<rparr>) = next_frames n s"
  by (rule next_frames_cong) (simp_all add: frame_limit_def frame_bit_def mem_mngr_at_def)

lemma in_order_fields:
  "mem s' = mem s \<Longrightarrow> mem_mngr s' = mem_mngr s \<Longrightarrow> mem_mngr_max_blocks s' = mem_mngr_max_blocks s \<Longrightarrow> in_order s s'"
  by (intro in_order_same next_frames_cong) (simp_all add: frame_limit_def frame_bit_def mem_mngr_at_def)

lemma in_order_directory [simp]:
  "in_order (s\<lparr>cur_directory := d\<rparr>) s' = in_order s s'" "in_order s (s'\<lparr>cur_directory := d\<rparr>) = in_order s s'"
  by (simp_all add: in_order_def)

lemma alloc_directory:
  assumes "pmm_ok s"
  shows "alloc_memory_block (s\<lparr>cur_directory := d\<rparr>) =
    (fst (alloc_memory_block s), (snd (alloc_memory_block s))\<lparr>cur_directory := d\<rparr>)"
proof -
  have m: "mem_mngr_max_blocks s \<le> 2 ^ 20" using assms by (simp add: pmm_ok_def)
  have "least_free (s\<lparr>cur_directory := d\<rparr>) = least_free s"
    by (simp add: least_free_def frame_bit_def [abs_def] mem_mngr_at_def frame_limit_def)
  then have "mmap_first_free (s\<lparr>cur_directory := d\<rparr>) = mmap_first_free s"
    using mmap_first_free_least [of s] mmap_first_free_least [of "s\<lparr>cur_directory := d\<rparr>"] m by simp
  then show ?thesis
    by (simp add: alloc_memory_block_def get_free_block_count_def mmap_set_def mem_mngr_put_def mem_mngr_at_def Let_def)
qed

section \<open>Copying the boot tables\<close>

text \<open>The pages of the boot directory and its tables; no byte of the bitmap lies in them.\<close>

definition boot_page :: "('d, 'z) vmm_scheme \<Rightarrow> u32 \<Rightarrow> bool" where
  "boot_page b P \<longleftrightarrow> P = cur_directory b \<or> (\<exists>j<1024. bit (pde b j) 0 \<and> P = P2V (page_frame (pde b j)))"

lemma boot_page_facts:
  assumes "space_ok n b"
  shows "boot_page b P \<Longrightarrow> held n b (V2P P)" "boot_page b (page_frame x) \<Longrightarrow> \<not> bitmap_byte b x"
    "boot_page b P \<Longrightarrow> aligned P"
  using space_dir [OF assms] space_table [OF assms] space_bitmap(2) [OF assms] by (auto simp: boot_page_def)

text \<open>
  \<open>d\<close> is the directory of \<open>t\<close>, and its entries below \<open>i\<close> have tables of their own with the
  contents of those of \<open>b\<close>, which are as they were.
\<close>

definition copied :: "('d, 'z) vmm_scheme \<Rightarrow> u32 \<Rightarrow> nat \<Rightarrow> ('d, 'z) vmm_scheme \<Rightarrow> bool" where
  "copied b d i t \<longleftrightarrow> cur_directory t = d \<and> mem_mngr t = mem_mngr b \<and> mem_mngr_max_blocks t = mem_mngr_max_blocks b \<and>
     \<not> boot_page b d \<and> (\<forall>x. boot_page b (page_frame x) \<longrightarrow> mem t x = mem b x) \<and>
     (\<forall>j<1024. if j < i \<and> bit (pde b j) 0
        then bit (pde t j) 0 \<and> (\<forall>l<1024. entry (mem t) (P2V (page_frame (pde t j))) l = entry (mem b) (P2V (page_frame (pde b j))) l)
        else pde t j = 0)"

lemma copied_cong: "same_space s t \<Longrightarrow> copied b d i s \<Longrightarrow> copied b d i t"
  using same_spaceD(7) [of s t] by (simp add: copied_def same_space_def)

lemma copied_translate:
  assumes "copied b d 1024 t"
  shows "translate t = translate b"
proof
  fix va
  have "if bit (pde b (dir_index va)) 0 then bit (pde t (dir_index va)) 0 \<and> pte_of t va = pte_of b va
    else pde t (dir_index va) = 0"
    using assms dir_index_less [of va] table_index_less [of va] unfolding copied_def pte_of_def by (metis (no_types))
  then show "translate t va = translate b va" by (auto simp: translate_pte split: if_splits)
qed

lemma wr32_cong: "m x = m' x \<Longrightarrow> wr32 m e v x = wr32 m' e v x"
  by (simp add: wr32_def)

text \<open>The new entry and its table, with the copy made before the directory entry.\<close>

lemma copy_table_space:
  fixes t :: "('d, 'z) vmm_scheme"
  assumes "space_ok (Suc k) t" "spare (Suc k) t" "i < 1024" "\<not> bit (pde t i) 0"
    and "alloc_memory_block t = (u, t1)" "aligned Q" "held (Suc k) t (V2P Q)"
  defines "t' \<equiv> new_pd_entry (cur_directory t + 4 * of_nat i) u (copy_ptes (P2V u) Q 0 (clear_page (P2V u) t1))"
  shows "u \<noteq> 0" "space_ok k t'" "spare k t'" "held (Suc k) t p \<Longrightarrow> held k t' p" "cur_directory t' = cur_directory t"
    "mem_mngr t' = mem_mngr t" "mem_mngr_max_blocks t' = mem_mngr_max_blocks t" "P2V u \<noteq> Q"
    "j < 1024 \<Longrightarrow> pde t' j = (if j = i then entry_value 0 u else pde t j)"
    "page_frame x \<noteq> cur_directory t \<Longrightarrow> page_frame x \<noteq> P2V u \<Longrightarrow> \<not> bitmap_byte t x \<Longrightarrow> mem t' x = mem t x"
    "l < 1024 \<Longrightarrow> (\<And>x. page_frame x = Q \<Longrightarrow> \<not> bitmap_byte t x) \<Longrightarrow> entry (mem t') (P2V u) l = entry (mem t) Q l"
    "page_frame (entry_value 0 u) = u" "in_order t t'"
proof -
  note pm = space_ok_parts(1) [OF assms(1)]
  note sp = alloc_frame_spare [OF pm assms(2,5)]
  show u0: "u \<noteq> 0" by (rule sp(1))
  note a = alloc_frame_facts [OF pm assms(5) u0] and sa = space_alloc [OF assms(1,5) u0]
  define t2 t3 n3 where "t2 = clear_page (P2V u) t1" and "t3 = copy_ptes (P2V u) Q 0 t2"
    and "n3 = new_pd_entry (cur_directory t + 4 * of_nat i) u t2"
  note n = space_new_table [OF assms(1,5) u0 assms(3,4), folded t2_def, folded n3_def]
  have U: "aligned (P2V u)" using a(2) by (rule aligned_P2V)
  have D: "aligned (cur_directory t)" by (rule space_dir [OF assms(1)])
  show uq: "P2V u \<noteq> Q" using assms(7) a(11) by auto
  note c = copy_ptes_effect [OF U assms(6) uq, where s = t2, folded t3_def]
  have t': "t' = store32 (cur_directory t + 4 * of_nat i) (entry_value (load32 (cur_directory t + 4 * of_nat i) t3) u) t3"
    by (simp add: t'_def new_pd_entry_eq t2_def t3_def)
  have ld: "load32 (cur_directory t + 4 * of_nat i) t3 = load32 (cur_directory t + 4 * of_nat i) t2"
  proof -
    have "entry (mem t3) (cur_directory t) i = entry (mem t2) (cur_directory t) i"
      using assms(3) D sa(5) c(2) by (intro entry_cong) auto
    then show ?thesis by (simp add: load32_def entry_def)
  qed
  have m: "mem t' x = mem n3 x" if "page_frame x \<noteq> P2V u" for x
    using c(2) [OF that] by (simp add: t' ld n3_def new_pd_entry_eq) (rule wr32_cong, simp)
  have f3: "mem_mngr t3 = mem_mngr t2" "mem_mngr_max_blocks t3 = mem_mngr_max_blocks t2"
    "mem_mngr_used_blocks t3 = mem_mngr_used_blocks t2"
    by (simp_all add: t3_def copy_ptes_step [OF U assms(6) uq])
  have f: "mem_mngr t' = mem_mngr n3" "mem_mngr_max_blocks t' = mem_mngr_max_blocks n3" "mem_mngr_used_blocks t' = mem_mngr_used_blocks n3"
    "pmm.more t' = pmm.more n3"
    using f3 c(3) by (simp_all add: t' n3_def new_pd_entry_eq)
  have dir: "cur_directory t' = cur_directory n3" using f(4) by (rule vmm_fields_more)
  show "cur_directory t' = cur_directory t" using dir n(3) by simp
  have b3: "mem_mngr n3 = mem_mngr t" "mem_mngr_max_blocks n3 = mem_mngr_max_blocks t"
    "mem_mngr_used_blocks n3 = mem_mngr_used_blocks t1" "mem_mngr_max_blocks t1 = mem_mngr_max_blocks t"
    using a(6,7) by (simp_all add: n3_def t2_def new_pd_entry_eq) (simp add: clear_page_def)
  with f show "mem_mngr t' = mem_mngr t" "mem_mngr_max_blocks t' = mem_mngr_max_blocks t" by simp_all
  have "bitmap_byte n3 = bitmap_byte t" using b3(1,2) by (rule bitmap_byte_cong)
  then have far: "mem t' x = mem n3 x" if "bitmap_byte n3 x \<or> page_frame x = cur_directory n3" for x
    using that sa(5,6) n(3) by (intro m) auto
  note so = space_ok_cong [OF n(1) f(1,2) dir far]
  show "space_ok k t'" by (rule so(1))
  show "in_order t t'"
    by (rule in_order_alloc(1) [of _ _ "unat u div 4096"]) (use a(9) [of 0] a(10) so(3) n(7) in simp_all)
  show "spare k t'"
    using sp(2) spare_cong [of t' t1] so(3) n(7) f(2,3) b3 by simp
  show "held k t' p" if "held (Suc k) t p" for p using a(12) [OF that] by (simp add: held_def so(3) n(7))
  show "pde t' j = (if j = i then entry_value 0 u else pde t j)" if "j < 1024" for j
    using pde_cong [OF n(1) dir, of j] far that n(4) by simp
  show "mem t' x = mem t x" if "page_frame x \<noteq> cur_directory t" "page_frame x \<noteq> P2V u" "\<not> bitmap_byte t x" for x
    using m [OF that(2)] n(8) [OF that] by simp
  show "page_frame (entry_value 0 u) = u" using a(2) by (intro page_frame_entry_value) auto
  show "entry (mem t') (P2V u) l = entry (mem t) Q l" if "l < 1024" "\<And>x. page_frame x = Q \<Longrightarrow> \<not> bitmap_byte t x" for l
  proof -
    have "entry (mem t') (P2V u) l = entry (mem t3) (P2V u) l"
      using that(1) U sa(5) entry_byte [OF assms(3) D] by (intro entry_cong) (auto simp: t' intro!: wr32_outside)
    also have "\<dots> = entry (mem t2) Q l" by (rule c(1) [OF that(1)])
    also have "\<dots> = entry (mem t) Q l"
      using that uq a(5) by (intro entry_cong assms(6)) (auto simp: t2_def memset_page [OF U])
    finally show ?thesis .
  qed
qed

text \<open>
  What stays: the screen apart, every device, and the state of the other components; frames are taken
  in their order.
\<close>

definition vm_frame :: "('d \<Rightarrow> pc) \<Rightarrow> ('d, 'z) vmm_scheme \<Rightarrow> ('d, 'z) vmm_scheme \<Rightarrow> bool" where
  "vm_frame view s s' \<longleftrightarrow> crtc_only (view (dev s)) (view (dev s')) \<and> terminal_ok (terminal_of view s') \<and>
     mem_mngr s' = mem_mngr s \<and> mem_mngr_max_blocks s' = mem_mngr_max_blocks s \<and>
     current_level s' = current_level s \<and> vmm.more s' = vmm.more s \<and> in_order s s'"

lemma vm_frame_trans: "vm_frame view s s' \<Longrightarrow> vm_frame view s' s'' \<Longrightarrow> vm_frame view s s''"
  by (auto simp: vm_frame_def intro: crtc_only_trans in_order_trans)

lemma vm_frame_screen: "screen_only view s s' \<Longrightarrow> vm_frame view s s'"
  using in_order_fields [of s' s] by (auto simp: vm_frame_def screen_only_def)

lemma vm_frame_more:
  assumes "terminal_ok (terminal_of view s)" "pmm.more s' = pmm.more s"
    "mem_mngr s' = mem_mngr s" "mem_mngr_max_blocks s' = mem_mngr_max_blocks s" "in_order s s'"
  shows "vm_frame view s s'"
proof -
  have "dev s' = dev s" "vidmem s' = vidmem s" using assms(2) by (rule vmm_fields_more)+
  moreover have "current_level s' = current_level s" "vmm.more s' = vmm.more s"
    using assms(2) by (cases s; cases s'; simp)+
  ultimately show ?thesis using assms(1,3-5) by (simp add: vm_frame_def terminal_of_def)
qed

text \<open>A round of the loop that finds a present entry: what it does to the new directory.\<close>

lemma copied_step:
  fixes t :: "('d, 'z) vmm_scheme"
  assumes b: "space_ok m b" and "copied b d i t" "space_ok (Suc k) t" "spare (Suc k) t"
    and "\<forall>P. boot_page b P \<longrightarrow> held (Suc k) t (V2P P)" and i: "i < 1024" "bit (pde b i) 0"
    and al: "alloc_memory_block t = (u, t1)"
  defines "Q \<equiv> P2V (page_frame (pde b i))"
  defines "t' \<equiv> new_pd_entry (d + 4 * of_nat i) u (copy_ptes (P2V u) Q 0 (clear_page (P2V u) t1))"
  shows "copied b d (Suc i) t'" "space_ok k t'" "spare k t'" "held (Suc k) t p \<Longrightarrow> held k t' p"
    "boot_page b (page_frame x) \<Longrightarrow> mem (clear_page (P2V u) t1) x = mem b x" "P2V u \<noteq> Q" "aligned (P2V u)" "in_order t t'"
proof -
  have ct: "cur_directory t = d" "mem_mngr t = mem_mngr b" "mem_mngr_max_blocks t = mem_mngr_max_blocks b"
    "\<not> boot_page b d" "\<And>x. boot_page b (page_frame x) \<Longrightarrow> mem t x = mem b x"
    using assms(2) by (simp_all add: copied_def)
  have tab: "if j < i \<and> bit (pde b j) 0
      then bit (pde t j) 0 \<and> (\<forall>l<1024. entry (mem t) (P2V (page_frame (pde t j))) l = entry (mem b) (P2V (page_frame (pde b j))) l)
      else pde t j = 0" if "j < 1024" for j
    using assms(2) that unfolding copied_def by blast
  have bQ: "boot_page b Q" using i by (auto simp: boot_page_def Q_def)
  have Q: "aligned Q" "held (Suc k) t (V2P Q)" using assms(5) bQ by (simp add: Q_def, blast)
  have abs: "\<not> bit (pde t i) 0" using tab [OF i(1)] by simp
  note n = copy_table_space [OF assms(3,4) i(1) abs al Q, unfolded ct(1), folded t'_def]
  show "space_ok k t'" "spare k t'" "held (Suc k) t p \<Longrightarrow> held k t' p" "P2V u \<noteq> Q" "in_order t t'" by (fact n(2,3,4,8,13))+
  note af = alloc_frame_facts [OF space_ok_parts(1) [OF assms(3)] al n(1)]
  show U: "aligned (P2V u)" using af(2) by (rule aligned_P2V)
  have bit_t: "bitmap_byte t = bitmap_byte b" using ct(2,3) by (rule bitmap_byte_cong)
  have apart: "page_frame x \<noteq> d" "page_frame x \<noteq> P2V u" "\<not> bitmap_byte t x" if "boot_page b (page_frame x)" for x
  proof -
    show "page_frame x \<noteq> d" using that ct(4) by auto
    have "held (Suc k) t (V2P (page_frame x))" using assms(5) that by simp
    with af(11) [of k] show "page_frame x \<noteq> P2V u" by auto
    show "\<not> bitmap_byte t x" using boot_page_facts(2) [OF b] that by (simp add: bit_t)
  qed
  show "boot_page b (page_frame x) \<Longrightarrow> mem (clear_page (P2V u) t1) x = mem b x"
    using af(5) apart(2,3) ct(5) by (simp add: memset_page [OF U])
  have "if j < Suc i \<and> bit (pde b j) 0
      then bit (pde t' j) 0 \<and> (\<forall>l<1024. entry (mem t') (P2V (page_frame (pde t' j))) l = entry (mem b) (P2V (page_frame (pde b j))) l)
      else pde t' j = 0" if j: "j < 1024" for j
  proof (cases "j = i")
    case True
    have "entry (mem t') (P2V u) l = entry (mem b) Q l" if "l < 1024" for l
    proof -
      have "entry (mem t') (P2V u) l = entry (mem t) Q l" by (rule n(11) [OF that apart(3)]) (simp add: bQ)
      also have "\<dots> = entry (mem b) Q l" using bQ by (intro entry_cong that Q(1) ct(5)) simp
      finally show ?thesis .
    qed
    then show ?thesis using True i by (simp add: n(9,12) Q_def bit_entry_value_0)
  next
    case False
    have "entry (mem t') (P2V (page_frame (pde t j))) l = entry (mem t) (P2V (page_frame (pde t j))) l"
      if "bit (pde t j) 0" "l < 1024" for l
      using space_table(2,3) [OF assms(3) j that(1)] space_alloc(7) [OF assms(3) al n(1) j that(1)] ct(1)
      by (intro entry_cong that(2) n(10)) auto
    with tab [OF j] False show ?thesis by (auto simp: n(9) [OF j] split: if_splits)
  qed
  then show "copied b d (Suc i) t'"
    using n(5-7) ct(1-5) n(10) apart by (simp add: copied_def)
qed

lemma copy_step:
  fixes s :: "('d, 'z) vmm_scheme"
  assumes c: "pc_conforms bus view" and "terminal_ok (terminal_of view s)" and b: "space_ok m b"
    and h: "copied b d i (s\<lparr>cur_directory := d\<rparr>)" "space_ok (Suc k) (s\<lparr>cur_directory := d\<rparr>)" "spare (Suc k) (s\<lparr>cur_directory := d\<rparr>)"
      "\<forall>P. boot_page b P \<longrightarrow> held (Suc k) (s\<lparr>cur_directory := d\<rparr>) (V2P P)" and i: "i < 1024" "bit (pde b i) 0"
  obtains s' where "copy_table bus (cur_directory b + 4 * of_nat i) d i s = Inr ((), s')" "vm_frame view s s'"
    "copied b d (Suc i) (s'\<lparr>cur_directory := d\<rparr>)" "space_ok k (s'\<lparr>cur_directory := d\<rparr>)" "spare k (s'\<lparr>cur_directory := d\<rparr>)"
    "\<forall>p. held (Suc k) (s\<lparr>cur_directory := d\<rparr>) p \<longrightarrow> held k (s'\<lparr>cur_directory := d\<rparr>) p"
proof -
  define u s1 Q where "u = fst (alloc_memory_block s)" and "s1 = snd (alloc_memory_block s)" and "Q = P2V (page_frame (pde b i))"
  define s4 where "s4 = new_pd_entry (d + 4 * of_nat i) u (copy_ptes (P2V u) Q 0 (clear_page (P2V u) s1))"
  have pm: "pmm_ok s" using space_ok_parts(1) [OF h(2)] by (simp add: pmm_ok_def frame_bit_def mem_mngr_at_def)
  have al: "alloc_memory_block (s\<lparr>cur_directory := d\<rparr>) = (u, s1\<lparr>cur_directory := d\<rparr>)"
    unfolding u_def s1_def by (rule alloc_directory [OF pm])
  note st = copied_step [OF b h i al, folded Q_def]
  have Q: "aligned Q" by (simp add: Q_def)
  have s4: "new_pd_entry (d + 4 * of_nat i) u (copy_ptes (P2V u) Q 0 (clear_page (P2V u) (s1\<lparr>cur_directory := d\<rparr>)))
      = s4\<lparr>cur_directory := d\<rparr>"
    by (simp add: copy_ptes_step [OF st(7) Q st(6)] s4_def clear_page_def new_pd_entry_eq load32_def store32_def)
  have "entry (mem (clear_page (P2V u) s1)) (cur_directory b) i = entry (mem b) (cur_directory b) i"
    using st(5) by (intro entry_cong [OF i(1) space_dir(1) [OF b]]) (simp add: boot_page_def clear_page_def)
  then have old: "load32 (cur_directory b + 4 * of_nat i) (clear_page (P2V u) s1) = pde b i"
    by (simp add: load32_def entry_def pde_def)
  have run: "copy_table bus (cur_directory b + 4 * of_nat i) d i s = pr bus KERN_DEBUG ''VMM''
      ''Copied PD[%d]: old_table=0x%x, new_table=0x%x'' [VInt (of_nat i), VInt (page_frame (pde b i)), VInt u] s4"
    by (simp add: copy_table_def u_def [symmetric] s1_def [symmetric] old Q_def [symmetric] s4_def split_beta Let_def)
  have m4: "pmm.more s4 = pmm.more s" "mem_mngr s4 = mem_mngr s" "mem_mngr_max_blocks s4 = mem_mngr_max_blocks s"
    by (simp_all add: copy_ptes_step [OF st(7) Q st(6)] s4_def new_pd_entry_eq s1_def)
  have "in_order (s\<lparr>cur_directory := d\<rparr>) (s4\<lparr>cur_directory := d\<rparr>)" using st(8) by (simp add: s4)
  then have "in_order s s4" by (simp add: in_order_directory)
  note fr4 = vm_frame_more [OF assms(2) m4 this]
  have "talks view (pr bus KERN_DEBUG ''VMM'' ''Copied PD[%d]: old_table=0x%x, new_table=0x%x''
      [VInt (of_nat i), VInt (page_frame (pde b i)), VInt u]) (\<lambda>_. True)"
    by (rule talks_pr [OF c]) (simp_all add: cs_def)
  moreover have "terminal_ok (terminal_of view s4)" using fr4 by (simp add: vm_frame_def)
  ultimately obtain s' where s': "copy_table bus (cur_directory b + 4 * of_nat i) d i s = Inr ((), s')" "screen_only view s4 s'"
    unfolding run by (rule talksE) auto
  have ss: "same_space (s4\<lparr>cur_directory := d\<rparr>) (s'\<lparr>cur_directory := d\<rparr>)"
    using s'(2) by (auto simp: same_space_def screen_only_def)
  note sd = same_spaceD [OF ss]
  show thesis
    using s'(1) vm_frame_trans [OF fr4 vm_frame_screen [OF s'(2)]] st(1-4) copied_cong [OF ss]
    by (intro that [of s']) (simp_all add: sd s4)
qed

text \<open>The whole loop: one frame for each entry that is present.\<close>

definition tables_from :: "nat \<Rightarrow> ('d, 'z) vmm_scheme \<Rightarrow> nat" where
  "tables_from i b = card {j. i \<le> j \<and> j < 1024 \<and> bit (pde b j) 0}"

lemma tables_from_Suc:
  assumes "i < 1024"
  shows "tables_from i b = (if bit (pde b i) 0 then Suc (tables_from (Suc i) b) else tables_from (Suc i) b)"
proof -
  let ?S = "{j. Suc i \<le> j \<and> j < 1024 \<and> bit (pde b j) 0}"
  have "{j. i \<le> j \<and> j < 1024 \<and> bit (pde b j) 0} = (if bit (pde b i) 0 then insert i ?S else ?S)"
    using assms by (auto simp: Suc_le_eq intro: le_neq_implies_less)
  then show ?thesis by (simp add: tables_from_def)
qed

lemma copied_skip: "copied b d i t \<Longrightarrow> \<not> bit (pde b i) 0 \<Longrightarrow> copied b d (Suc i) t"
  unfolding copied_def by (auto simp: less_Suc_eq)

lemma copy_loop:
  fixes s :: "('d, 'z) vmm_scheme"
  assumes c: "pc_conforms bus view" and b: "space_ok m b"
    and "terminal_ok (terminal_of view s)" "i \<le> 1024" "copied b d i (s\<lparr>cur_directory := d\<rparr>)"
    and "space_ok (tables_from i b + k) (s\<lparr>cur_directory := d\<rparr>)" "spare (tables_from i b + k) (s\<lparr>cur_directory := d\<rparr>)"
    and "\<forall>P. boot_page b P \<longrightarrow> held (tables_from i b + k) (s\<lparr>cur_directory := d\<rparr>) (V2P P)"
  shows "\<exists>s'. copy_tables bus (cur_directory b) d i s = Inr ((), s') \<and> vm_frame view s s' \<and>
    copied b d 1024 (s'\<lparr>cur_directory := d\<rparr>) \<and> space_ok k (s'\<lparr>cur_directory := d\<rparr>) \<and> spare k (s'\<lparr>cur_directory := d\<rparr>) \<and>
    (\<forall>p. held (tables_from i b + k) (s\<lparr>cur_directory := d\<rparr>) p \<longrightarrow> held k (s'\<lparr>cur_directory := d\<rparr>) p)"
  using assms(3-)
proof (induction "1024 - i" arbitrary: i s)
  case 0
  moreover have "tables_from 1024 b = 0" by (simp add: tables_from_def)
  ultimately show ?case by (auto simp: copy_tables.simps vm_frame_screen screen_only_refl intro!: exI [of _ s])
next
  case (Suc n)
  then have i: "i < 1024" "n = 1024 - Suc i" by simp_all
  have ld: "load32 (cur_directory b + 4 * of_nat i) s = pde b i"
  proof -
    have "aligned (cur_directory b)" by (rule space_dir [OF b])
    moreover have "mem s x = mem b x" if "page_frame x = cur_directory b" for x
      using Suc.prems(3) that by (simp add: copied_def boot_page_def)
    ultimately have "entry (mem s) (cur_directory b) i = entry (mem b) (cur_directory b) i"
      using i(1) by (intro entry_cong) auto
    then show ?thesis by (simp add: load32_def entry_def pde_def)
  qed
  have run: "copy_tables bus (cur_directory b) d i s = bindk
      (if bit (pde b i) 0 then copy_table bus (cur_directory b + 4 * of_nat i) d i s else Inr ((), s))
      (\<lambda>_ s. copy_tables bus (cur_directory b) d (Suc i) s)"
    using i(1) by (subst copy_tables.simps) (simp add: ld and_1_eq_0)
  show ?case
  proof (cases "bit (pde b i) 0")
    case True
    have tf: "tables_from i b + k = Suc (tables_from (Suc i) b + k)" using True by (simp add: tables_from_Suc [OF i(1)])
    obtain s1 where s1: "copy_table bus (cur_directory b + 4 * of_nat i) d i s = Inr ((), s1)" "vm_frame view s s1"
      "copied b d (Suc i) (s1\<lparr>cur_directory := d\<rparr>)" "space_ok (tables_from (Suc i) b + k) (s1\<lparr>cur_directory := d\<rparr>)"
      "spare (tables_from (Suc i) b + k) (s1\<lparr>cur_directory := d\<rparr>)"
      "\<forall>p. held (tables_from i b + k) (s\<lparr>cur_directory := d\<rparr>) p \<longrightarrow> held (tables_from (Suc i) b + k) (s1\<lparr>cur_directory := d\<rparr>) p"
      unfolding tf by (rule copy_step [OF c Suc.prems(1) b Suc.prems(3) Suc.prems(4-6) [unfolded tf] i(1) True])
    have "terminal_ok (terminal_of view s1)" using s1(2) by (simp add: vm_frame_def)
    moreover have "\<forall>P. boot_page b P \<longrightarrow> held (tables_from (Suc i) b + k) (s1\<lparr>cur_directory := d\<rparr>) (V2P P)"
      using Suc.prems(6) s1(6) by blast
    ultimately obtain s' where "copy_tables bus (cur_directory b) d (Suc i) s1 = Inr ((), s')" "vm_frame view s1 s'"
      "copied b d 1024 (s'\<lparr>cur_directory := d\<rparr>)" "space_ok k (s'\<lparr>cur_directory := d\<rparr>)" "spare k (s'\<lparr>cur_directory := d\<rparr>)"
      "\<forall>p. held (tables_from (Suc i) b + k) (s1\<lparr>cur_directory := d\<rparr>) p \<longrightarrow> held k (s'\<lparr>cur_directory := d\<rparr>) p"
      using Suc.hyps(1) [OF i(2) _ _ s1(3-5)] i(1) by auto
    with s1(1,2,6) True show ?thesis by (auto simp: run intro: vm_frame_trans)
  next
    case False
    have tf: "tables_from i b = tables_from (Suc i) b" using False by (simp add: tables_from_Suc [OF i(1)])
    from Suc.hyps(1) [OF i(2) Suc.prems(1) _ copied_skip [OF Suc.prems(3) False] Suc.prems(4-6) [unfolded tf]] i(1)
    show ?thesis using False by (simp add: run tf)
  qed
qed

section \<open>Mapping the rest of the memory\<close>

text \<open>No entry of a table has bit 31 set, which \<open>pt_entry_set_frame\<close> would keep.\<close>

definition no_high :: "('d, 'z) vmm_scheme \<Rightarrow> bool" where
  "no_high s \<longleftrightarrow> (\<forall>i<1024. bit (pde s i) 0 \<longrightarrow> (\<forall>j<1024. \<not> bit (entry (mem s) (P2V (page_frame (pde s i))) j) 31))"

lemma no_high_pte: "no_high s \<Longrightarrow> bit (pde s (dir_index va)) 0 \<Longrightarrow> \<not> bit (pte_of s va) 31"
  by (simp add: no_high_def pte_of_def)

lemma map_entry_low:
  fixes s :: "('d, 'z) vmm_scheme"
  assumes "space_ok n s" "no_high s" "bit (pde s (dir_index virt)) 0" "aligned phys" "\<not> bit phys 31"
  defines "s' \<equiv> map_entry phys virt (cur_directory s + 4 * of_nat (dir_index virt)) s"
  shows "no_high s'" "spare m s' \<longleftrightarrow> spare m s"
proof -
  let ?P = "P2V (page_frame (pde s (dir_index virt)))"
  note high = no_high_pte [OF assms(2,3)]
  note me = space_map_entry [OF assms(1,3,4) disjI1 [OF high [unfolded pte_of_def]], folded s'_def]
  have s': "s' = store32 (?P + 4 * of_nat (table_index virt)) (entry_value (pte_of s virt) phys) s"
    by (simp add: s'_def map_entry_eq Let_def pde_load) (simp add: load32_def pte_of_def entry_def)
  have "\<not> bit (entry_value (pte_of s virt) phys) 31" using high assms(5) by (simp add: entry_value_def bit_simps)
  then have "\<not> bit (entry (mem s') (P2V (page_frame (pde s i))) j) 31" if "i < 1024" "j < 1024" "bit (pde s i) 0" for i j
    using that assms(2) by (simp add: s' entry_wr32 no_high_def)
  then show "no_high s'" by (simp add: no_high_def me(3))
  show "spare m s' \<longleftrightarrow> spare m s" by (rule spare_cong [OF me(6)]) (simp_all add: s')
qed

lemma new_table_low:
  fixes s :: "('d, 'z) vmm_scheme"
  assumes "space_ok (Suc n) s" "spare (Suc n) s" "no_high s" "k < 1024" "\<not> bit (pde s k) 0" "alloc_memory_block s = (t, s1)"
  defines "s3 \<equiv> new_pd_entry (cur_directory s + 4 * of_nat k) t (clear_page (P2V t) s1)"
  shows "no_high s3" "spare n s3" "t \<noteq> 0" "page_frame (entry_value 0 t) = t"
proof -
  note pm = space_ok_parts(1) [OF assms(1)]
  note sp = alloc_frame_spare [OF pm assms(2,6)]
  note a = alloc_frame_facts [OF pm assms(6) sp(1)]
  note n = space_new_table [OF assms(1,6) sp(1) assms(4,5), folded s3_def] and sa = space_alloc [OF assms(1,6) sp(1)]
  show "t \<noteq> 0" by (rule sp(1))
  show pf: "page_frame (entry_value 0 t) = t" using a(2) by (intro page_frame_entry_value) auto
  show "no_high s3"
    unfolding no_high_def
  proof (intro allI impI)
    fix i j assume i: "i < 1024" "bit (pde s3 i) 0" and j: "j < (1024 :: nat)"
    show "\<not> bit (entry (mem s3) (P2V (page_frame (pde s3 i))) j) 31"
    proof (cases "i = k")
      case True
      then show ?thesis using i j by (simp add: n(4,5) pf)
    next
      case False
      then have p: "bit (pde s i) 0" using i by (simp add: n(4))
      have "entry (mem s3) (P2V (page_frame (pde s i))) j = entry (mem s) (P2V (page_frame (pde s i))) j"
        using space_table(2,3) [OF assms(1) i(1) p] sa(7) [OF i(1) p] by (intro entry_cong j n(8)) auto
      then show ?thesis using False i(1) j p assms(3) by (simp add: n(4) no_high_def)
    qed
  qed
  have "mem_mngr_max_blocks s3 = mem_mngr_max_blocks s1" "mem_mngr_used_blocks s3 = mem_mngr_used_blocks s1"
    by (simp_all add: s3_def new_pd_entry_eq) (simp add: clear_page_def)
  then show "spare n s3" using sp(2) spare_cong [of s3 s1] n(7) by simp
qed

text \<open>One page of the linear mapping; a new table costs one frame.\<close>

lemma extend_step:
  fixes s :: "('d, 'z) vmm_scheme"
  assumes "space_ok (if bit (pde s (dir_index (P2V phys))) 0 then n else Suc n) s" (is "space_ok ?N s")
    and "spare (if bit (pde s (dir_index (P2V phys))) 0 then n else Suc n) s" "no_high s"
    and "phys \<noteq> 0" "aligned phys" "unat phys < 2 ^ 30"
  defines "s' \<equiv> vmmngr_map_page phys (P2V phys) s"
  shows "space_ok n s'" "spare n s'" "no_high s'" "cur_directory s' = cur_directory s"
    "i < 1024 \<Longrightarrow> bit (pde s' i) 0 \<longleftrightarrow> bit (pde s i) 0 \<or> i = dir_index (P2V phys)"
    "translate s' va = (if page_frame va = P2V phys then Some (phys OR (va AND 0xfff)) else translate s va)"
    "next_frames n s' \<subseteq> next_frames ?N s" "in_order s s'"
proof -
  let ?v = "P2V phys" and ?k = "dir_index (P2V phys)"
  have low: "?v \<noteq> 0" "\<not> bit phys 31" using low_frame [OF assms(6)] by simp_all
  have pv: "page_frame ?v = ?v" using assms(5) by (simp add: aligned_P2V page_frame_aligned)
  have first: "fst (alloc_memory_block s) \<noteq> 0" if "\<not> bit (pde s ?k) 0"
    using that alloc_frame_spare(1) [OF space_ok_parts(1) [OF assms(1)] _ prod.collapse [symmetric], of n] assms(2) by simp
  have can: "can_map s ?v" using first no_high_pte [OF assms(3), of ?v] by (simp add: can_map_def pte_of_def)
  have second: "\<not> bit (pde s ?k) 0 \<longrightarrow> P2V (fst (alloc_memory_block s)) \<noteq> 0"
    using first low_frame(1) [OF alloc_low [of n s]] assms(1) by auto
  note m = map_page_space [OF assms(1,4) low(1) assms(5) can second, folded s'_def]
  show "space_ok n s'" "cur_directory s' = cur_directory s"
    "translate s' va = (if page_frame va = P2V phys then Some (phys OR (va AND 0xfff)) else translate s va)"
    using m by (simp_all add: pv)
  have "no_high s' \<and> spare n s' \<and> (\<forall>i<1024. bit (pde s' i) 0 \<longleftrightarrow> bit (pde s i) 0 \<or> i = ?k) \<and> next_frames n s' \<subseteq> next_frames ?N s \<and>
    in_order s s'"
  proof (cases "bit (pde s ?k) 0")
    case True
    then have s': "s' = map_entry phys ?v (cur_directory s + 4 * of_nat ?k) s"
      using assms(4) low(1) by (simp add: s'_def map_page_cases)
    have old: "\<not> bit (entry (mem s) (P2V (page_frame (pde s ?k))) (table_index ?v)) 31"
      using no_high_pte [OF assms(3) True] by (simp add: pte_of_def)
    show ?thesis
      using map_entry_low [OF assms(1,3) True assms(5) low(2), folded s'] assms(2) True
        space_map_entry(3,6) [OF assms(1) True assms(5) disjI1 [OF old], folded s']
        in_order_same [OF space_map_entry(6) [OF assms(1) True assms(5) disjI1 [OF old], folded s']] by auto
  next
    case False
    define t s1 where "t = fst (alloc_memory_block s)" and "s1 = snd (alloc_memory_block s)"
    define s3 where "s3 = new_pd_entry (cur_directory s + 4 * of_nat ?k) t (clear_page (P2V t) s1)"
    have al: "alloc_memory_block s = (t, s1)" by (simp add: t_def s1_def)
    have ok: "space_ok (Suc n) s" "spare (Suc n) s" using assms(1,2) False by simp_all
    note nt = new_table_low [OF ok assms(3) dir_index_less False al, folded s3_def]
    note n3 = space_new_table [OF ok(1) al nt(3) dir_index_less False, folded s3_def]
    have s': "s' = map_entry phys ?v (cur_directory s3 + 4 * of_nat ?k) s3"
      using assms(4) low(1) False second by (simp add: s'_def map_page_cases al s3_def [symmetric] n3(3))
    have b: "bit (pde s3 ?k) 0" by (simp add: n3(4) bit_entry_value_0)
    have old: "\<not> bit (entry (mem s3) (P2V (page_frame (pde s3 ?k))) (table_index ?v)) 31"
      by (simp add: n3(4,5) nt(4))
    note me = space_map_entry(3,6) [OF n3(1) b assms(5) disjI1 [OF old], folded s']
    have "bit (pde s' i) 0 \<longleftrightarrow> bit (pde s i) 0 \<or> i = ?k" if "i < 1024" for i
      using me(1) [OF that] n3(4) [OF that] by (simp add: bit_entry_value_0)
    moreover have nf: "next_frames m s' = next_frames (Suc m) s - {unat t div 4096}" for m
      using me(2) n3(7) alloc_frame_facts(10) [OF space_ok_parts(1) [OF ok(1)] al nt(3)] by simp
    then have "in_order s s'"
      using alloc_frame_facts(9) [OF space_ok_parts(1) [OF ok(1)] al nt(3), of 0] by (intro in_order_alloc(1)) simp_all
    ultimately show ?thesis
      using map_entry_low [OF n3(1) nt(1) b assms(5) low(2), folded s'] nt(2) False nf [of n] by auto
  qed
  then show "no_high s'" "spare n s'" "next_frames n s' \<subseteq> next_frames ?N s" "in_order s s'"
    "i < 1024 \<Longrightarrow> bit (pde s' i) 0 \<longleftrightarrow> bit (pde s i) 0 \<or> i = ?k" by blast+
qed

text \<open>The linear address of a page's frame; the entries its table hangs on.\<close>

definition linear_page :: "u32 \<Rightarrow> nat" where
  "linear_page va = unat (page_frame (V2P va))"

lemma linear_page_eq: "linear_page va = unat (p :: u32) \<longleftrightarrow> page_frame va = P2V p"
proof -
  have "page_frame va = P2V (page_frame (V2P va))" using page_frame_P2V [of "V2P va"] by simp
  then show ?thesis unfolding linear_page_def word_unat_eq_iff [symmetric] by (metis P2V_inject)
qed

lemma linear_address: "page_frame (V2P va) OR (va AND 0xfff) = V2P va"
proof -
  have m: "(0xfff :: u32) = mask 12" by (simp add: mask_eq_exp_minus_1)
  have "unat va = (unat (V2P va) + 786432 * 4096) mod 2 ^ 32"
    using unat_word_ariths(1) [of "V2P va" "0xC0000000"] by (simp add: V2P_def)
  moreover have "(unat (V2P va) + 786432 * 4096) mod 2 ^ 32 mod 4096 = (unat (V2P va) + 786432 * 4096) mod 4096"
    by (rule mod_mod_cancel) simp
  ultimately have "unat va mod 4096 = unat (V2P va) mod 4096" by (simp only: mod_mult_self1)
  then have "va AND 0xfff = V2P va AND 0xfff"
    by (simp add: m word_unat_eq_iff unat_mod take_bit_eq_mod flip: take_bit_eq_mask)
  then show ?thesis by (simp add: page_frame_def m) (rule bit_word_eqI, auto simp: bit_simps)
qed

lemma dir_index_linear:
  assumes "phys < 2 ^ 30"
  shows "dir_index (P2V (of_nat phys)) = 768 + phys div 2 ^ 22"
proof -
  have p: "unat (of_nat phys :: u32) = phys" using assms by (intro unat_of_nat32) simp
  have "unat (P2V (of_nat phys)) = phys + 0xC0000000"
    unfolding P2V_def using assms p by (subst unat_plus_simple [THEN iffD1]) (simp_all add: word_le_nat_alt unat_word_ariths)
  then show ?thesis by (simp add: dir_index_def)
qed

text \<open>Directory entries that the mapping of the first \<open>T\<close> bytes needs and that are not there yet.\<close>

definition lacking :: "nat \<Rightarrow> nat \<Rightarrow> ('d, 'z) vmm_scheme \<Rightarrow> nat" where
  "lacking a T s = card {i. a \<le> i \<and> i < 768 + (T + 0x3FFFFF) div 0x400000 \<and> \<not> bit (pde s i) 0}"

lemma lacking_mono:
  assumes "a \<le> b" "\<And>i. b \<le> i \<Longrightarrow> i < 768 + (T + 0x3FFFFF) div 0x400000 \<Longrightarrow> bit (pde s i) 0 \<Longrightarrow> bit (pde s' i) 0"
  shows "lacking b T s' \<le> lacking a T s"
  unfolding lacking_def using assms by (intro card_mono) auto

lemma lacking_less:
  assumes "a < 768 + (T + 0x3FFFFF) div 0x400000" "\<not> bit (pde s a) 0" "a \<le> b" "bit (pde s' a) 0"
    and "\<And>i. b \<le> i \<Longrightarrow> i < 768 + (T + 0x3FFFFF) div 0x400000 \<Longrightarrow> bit (pde s i) 0 \<Longrightarrow> bit (pde s' i) 0"
  shows "Suc (lacking b T s') \<le> lacking a T s"
proof -
  let ?e = "768 + (T + 0x3FFFFF) div 0x400000"
  have "{i. b \<le> i \<and> i < ?e \<and> \<not> bit (pde s' i) 0} \<subset> {i. a \<le> i \<and> i < ?e \<and> \<not> bit (pde s i) 0}"
    using assms by (intro psubsetI) auto
  then show ?thesis unfolding lacking_def Suc_le_eq by (intro psubset_card_mono) auto
qed

definition extended :: "nat \<Rightarrow> nat \<Rightarrow> ('d, 'z) vmm_scheme \<Rightarrow> ('d, 'z) vmm_scheme \<Rightarrow> bool" where
  "extended a T s s' \<longleftrightarrow>
     (\<forall>va. translate s' va =
        (if translate s va = None \<and> a \<le> linear_page va \<and> linear_page va < T then Some (V2P va) else translate s va)) \<and>
     (\<forall>i<1024. bit (pde s i) 0 \<longrightarrow> bit (pde s' i) 0) \<and>
     (\<forall>f. a \<le> 4096 * f \<and> 4096 * f < T \<longrightarrow> bit (pde s' (768 + f div 1024)) 0)"

lemma cr3_alloc [simp]: "cr3 (snd (alloc_memory_block s)) = cr3 s"
  by (simp add: alloc_memory_block_def mmap_set_def mem_mngr_put_def Let_def)

lemma cr3_map_page [simp]: "cr3 (vmmngr_map_page phys virt s) = cr3 s"
  by (auto simp: vmmngr_map_page_def map_entry_eq new_pd_entry_eq store32_def clear_page_def Let_def split: prod.splits)
    (metis cr3_alloc snd_conv)+

lemma extend_more: "pmm.more (extend_mappings phys tm s) = pmm.more s"
proof (induction phys tm s rule: extend_mappings.induct)
  case (1 phys tm s)
  then show ?case by (subst extend_mappings.simps) (simp add: Let_def)
qed

lemma translate_page: "page_frame va = page_frame vb \<Longrightarrow> translate s va = None \<longleftrightarrow> translate s vb = None"
  by (auto simp: translate_pte pte_of_def same_page_iff)

text \<open>A round of the loop: the page at \<open>phys\<close> is mapped unless it is already.\<close>

lemma extend_round:
  fixes s :: "('d, 'z) vmm_scheme"
  assumes "phys < T" "T \<le> 2 ^ 30" "0 < phys" "phys mod 4096 = 0" "no_high s"
    and "space_ok (lacking (768 + phys div 2 ^ 22) T s + n) s" "spare (lacking (768 + phys div 2 ^ 22) T s + n) s"
  defines "s1 \<equiv> (if translate s (P2V (of_nat phys)) = None then vmmngr_map_page (of_nat phys) (P2V (of_nat phys)) s else s)"
  shows "space_ok (lacking (768 + (phys + 4096) div 2 ^ 22) T s1 + n) s1" "spare (lacking (768 + (phys + 4096) div 2 ^ 22) T s1 + n) s1" "no_high s1"
    "next_frames (lacking (768 + (phys + 4096) div 2 ^ 22) T s1 + n) s1 \<subseteq> next_frames (lacking (768 + phys div 2 ^ 22) T s + n) s"
    "translate s1 va = (if translate s va = None \<and> linear_page va = phys then Some (V2P va) else translate s va)"
    "i < 1024 \<Longrightarrow> bit (pde s1 i) 0 \<longleftrightarrow> bit (pde s i) 0 \<or> i = 768 + phys div 2 ^ 22" "in_order s s1"
proof -
  let ?k = "768 + phys div 2 ^ 22" and ?k1 = "768 + (phys + 4096) div 2 ^ 22"
  define p :: u32 where "p = of_nat phys"
  have up: "unat p = phys" unfolding p_def using assms(1,2) by (intro unat_of_nat32) simp
  have p: "p \<noteq> 0" "aligned p" "unat p < 2 ^ 30" using assms(1-4) up by (auto simp: aligned_def)
  have k: "dir_index (P2V p) = ?k" unfolding p_def using assms(1,2) by (intro dir_index_linear) simp
  have kt: "?k < 768 + (T + 0x3FFFFF) div 0x400000" and k1: "?k \<le> ?k1" using assms(1) by simp_all
  have page: "linear_page va = phys \<longleftrightarrow> page_frame va = P2V p" for va using linear_page_eq [of va p] up by simp
  have pv: "page_frame (P2V p) = P2V p" using p(2) by (simp add: aligned_P2V page_frame_aligned)
  let ?L = "lacking ?k T s"
  define l1 where "l1 = lacking (768 + (phys + 4096) div 2 ^ 22) T s1"
  have "space_ok (l1 + n) s1 \<and> spare (l1 + n) s1 \<and> no_high s1 \<and> next_frames (l1 + n) s1 \<subseteq> next_frames (?L + n) s \<and>
    (\<forall>va. translate s1 va = (if translate s va = None \<and> page_frame va = P2V p then Some (V2P va) else translate s va)) \<and>
    (\<forall>i<1024. bit (pde s1 i) 0 \<longleftrightarrow> bit (pde s i) 0 \<or> i = ?k) \<and> in_order s s1"
  proof (cases "translate s (P2V p) = None")
    case False
    have s1: "s1 = s" unfolding s1_def p_def [symmetric] using False by (rule if_not_P)
    have l: "l1 + n \<le> ?L + n" using lacking_mono [OF k1] by (simp add: l1_def s1)
    have "bit (pde s ?k) 0" using False by (auto simp: translate_pte k split: if_splits)
    moreover have "translate s va \<noteq> None" if "page_frame va = P2V p" for va
      using translate_page [of va "P2V p" s] that pv False by simp
    ultimately show ?thesis
      using assms(5) space_ok_mono [OF l assms(6)] spare_mono [OF l assms(7)] next_frames_mono [OF l] by (auto simp: s1)
  next
    case True
    then have s1: "s1 = vmmngr_map_page p (P2V p) s" by (simp add: s1_def p_def)
    let ?N = "\<lambda>m. if bit (pde s (dir_index (P2V p))) 0 then m else Suc m"
    have "0 < ?L" if "\<not> bit (pde s ?k) 0"
      using that kt by (auto simp: lacking_def card_gt_0_iff intro!: exI [of _ ?k])
    then have "?N 0 \<le> ?L + n" by (auto simp: k Suc_le_eq)
    then have "space_ok (?N 0) s" "spare (?N 0) s" using assms(6,7) by (blast intro: space_ok_mono spare_mono)+
    note e0 = extend_step [OF this assms(5) p, folded s1]
    have l: "?N (l1 + n) \<le> ?L + n"
    proof -
      have "bit (pde s1 i) 0" if "i < 768 + (T + 0x3FFFFF) div 0x400000" "bit (pde s i) 0" for i
      proof -
        have "i < 1024" using that(1) assms(2) by simp
        then show ?thesis using that(2) e0(5) by blast
      qed
      moreover have "bit (pde s1 ?k) 0" using e0(5) [of ?k] kt assms(2) by (simp add: k)
      ultimately show ?thesis
        using lacking_mono [OF k1, of T s s1] lacking_less [OF kt _ k1, of s s1] by (simp add: k l1_def)
    qed
    have "space_ok (?N (l1 + n)) s" "spare (?N (l1 + n)) s" using assms(6,7) l by (blast intro: space_ok_mono spare_mono)+
    note e = extend_step [OF this assms(5) p, folded s1]
    have "page_frame va = P2V p \<Longrightarrow> p OR (va AND 0xfff) = V2P va" for va
      using linear_address [of va] page_frame_P2V [of "V2P va"] by simp
    moreover have "translate s va = None" if "page_frame va = P2V p" for va
      using translate_page [of va "P2V p" s] that pv True by simp
    ultimately show ?thesis
      using e(1-3,5-8) next_frames_mono [OF l, of s] by (auto simp: k)
  qed
  then show "space_ok (lacking (768 + (phys + 4096) div 2 ^ 22) T s1 + n) s1" "spare (lacking (768 + (phys + 4096) div 2 ^ 22) T s1 + n) s1" "no_high s1" "next_frames (lacking (768 + (phys + 4096) div 2 ^ 22) T s1 + n) s1 \<subseteq> next_frames (?L + n) s"
    "translate s1 va = (if translate s va = None \<and> linear_page va = phys then Some (V2P va) else translate s va)"
    "i < 1024 \<Longrightarrow> bit (pde s1 i) 0 \<longleftrightarrow> bit (pde s i) 0 \<or> i = ?k" "in_order s s1"
    unfolding page l1_def by blast+
qed

lemma extended_round:
  assumes "T \<le> 2 ^ 30" "phys < T" "phys mod 4096 = 0" "extended (phys + 4096) T s1 s'"
    and "\<And>va. translate s1 va = (if translate s va = None \<and> linear_page va = phys then Some (V2P va) else translate s va)"
    and "\<And>i. i < 1024 \<Longrightarrow> bit (pde s1 i) 0 \<longleftrightarrow> bit (pde s i) 0 \<or> i = 768 + phys div 2 ^ 22"
  shows "extended phys T s s'"
proof -
  note e = assms(4) [unfolded extended_def]
  have nx: "phys + 4096 \<le> 4096 * f \<longleftrightarrow> phys \<le> 4096 * f \<and> 4096 * f \<noteq> phys" for f using assms(3) by auto
  have lp: "phys + 4096 \<le> linear_page va \<longleftrightarrow> phys \<le> linear_page va \<and> linear_page va \<noteq> phys" for va
    unfolding linear_page_def unat_page_frame by (rule nx)
  have "translate s' va =
      (if translate s va = None \<and> phys \<le> linear_page va \<and> linear_page va < T then Some (V2P va) else translate s va)" for va
    using e assms(2) by (auto simp: assms(5) lp)
  moreover have "bit (pde s' i) 0" if "i < 1024" "bit (pde s i) 0" for i using that e assms(6) by blast
  moreover have "bit (pde s' (768 + f div 1024)) 0" if "phys \<le> 4096 * f" "4096 * f < T" for f
  proof (cases "4096 * f = phys")
    case True
    then have f: "phys div 2 ^ 22 = f div 1024" by auto
    have "768 + phys div 2 ^ 22 < 1024" using assms(1,2) by simp
    then have "bit (pde s' (768 + phys div 2 ^ 22)) 0" using e assms(6) by blast
    then show ?thesis by (simp only: f)
  next
    case False
    then show ?thesis using e that by (auto simp: nx)
  qed
  ultimately show ?thesis by (simp add: extended_def)
qed

lemma extend_loop:
  fixes s :: "('d, 'z) vmm_scheme"
  assumes "unat tm \<le> 2 ^ 30" "0 < phys" "phys mod 4096 = 0" "kernel_directory s = cur_directory s" "no_high s"
    and "space_ok (lacking (768 + phys div 2 ^ 22) (unat tm) s + n) s" "spare (lacking (768 + phys div 2 ^ 22) (unat tm) s + n) s"
  shows "let s' = extend_mappings phys tm s in space_ok n s' \<and> spare n s' \<and> no_high s' \<and> extended phys (unat tm) s s' \<and>
    next_frames n s' \<subseteq> next_frames (lacking (768 + phys div 2 ^ 22) (unat tm) s + n) s \<and> cr3 s' = cr3 s \<and>
    mem_mngr s' = mem_mngr s \<and> mem_mngr_max_blocks s' = mem_mngr_max_blocks s \<and> pmm.more s' = pmm.more s \<and> in_order s s'"
  using assms(2-)
proof (induction "unat tm - phys" arbitrary: phys s rule: less_induct)
  case less
  let ?T = "unat tm" and ?k = "768 + phys div 2 ^ 22" and ?v = "P2V (of_nat phys)"
  show ?case
  proof (cases "phys < ?T")
    case False
    have "n \<le> lacking ?k ?T s + n" by simp
    then have "space_ok n s" "spare n s" "next_frames n s \<subseteq> next_frames (lacking ?k ?T s + n) s"
      using less.prems(5,6) by (blast intro: space_ok_mono spare_mono, blast intro: spare_mono, blast intro!: next_frames_mono)
    moreover have "extended phys ?T s s" using False by (auto simp: extended_def)
    ultimately show ?thesis using False less.prems(4) by (subst extend_mappings.simps) (simp add: Let_def)
  next
    case True
    define s1 where "s1 = (if translate s ?v = None then vmmngr_map_page (of_nat phys) ?v s else s)"
    note r = extend_round [OF True assms(1) less.prems(1,2,4-6), folded s1_def]
    have m1: "pmm.more s1 = pmm.more s" "cr3 s1 = cr3 s" "mem_mngr s1 = mem_mngr s" "mem_mngr_max_blocks s1 = mem_mngr_max_blocks s"
      by (simp_all add: s1_def)
    have kd: "kernel_directory s1 = cur_directory s1" using vmm_fields_more(1,2) [OF m1(1)] less.prems(3) by simp
    have run: "extend_mappings phys tm s = extend_mappings (phys + 4096) tm s1"
    proof -
      have "0xC0000000 + of_nat phys = ?v" by (simp add: P2V_def add.commute)
      moreover have "load32 (P2V (page_frame (pde s (dir_index ?v))) + 4 * of_nat (table_index ?v)) s = pte_of s ?v"
        by (simp add: load32_def pte_of_def entry_def)
      ultimately show ?thesis
        using True by (subst extend_mappings.simps)
          (simp add: Let_def less.prems(3) PAGE_DIRECTORY_INDEX_eq PAGE_TABLE_INDEX_eq pde_load and_1_eq_0 s1_def translate_pte)
    qed
    have "?T - (phys + 4096) < ?T - phys" "0 < phys + 4096" "(phys + 4096) mod 4096 = 0" using True less.prems(2) by simp_all
    note ih = less.hyps [OF this kd r(3,1,2)]
    have "extended phys ?T s (extend_mappings phys tm s)"
      using ih extended_round [OF assms(1) True less.prems(2) _ r(5,6)] by (simp add: run Let_def)
    then show ?thesis using ih r(4,7) m1 by (auto simp: run Let_def intro: in_order_trans)
  qed
qed

section \<open>The whole initialisation\<close>

text \<open>The address space the processor uses before it, and the frames the initialisation takes.\<close>

definition boot_view :: "('d, 'z) vmm_scheme \<Rightarrow> ('d, 'z) vmm_scheme" where
  "boot_view s = s\<lparr>cur_directory := P2V (cr3 s)\<rparr>"

lemma no_high_cong: "same_space s t \<Longrightarrow> no_high t \<longleftrightarrow> no_high s"
  using same_spaceD(7) [of s t] by (simp add: no_high_def same_space_def)

definition frames_needed :: "nat \<Rightarrow> ('d, 'z) vmm_scheme \<Rightarrow> nat" where
  "frames_needed T b = 1 + tables_from 0 b + lacking 769 T b"

text \<open>A directory of zeros in a fresh frame.\<close>

lemma new_directory:
  fixes b :: "('d, 'z) vmm_scheme"
  assumes "space_ok (Suc k) b" "spare (Suc k) b" "alloc_memory_block b = (u, b1)"
  defines "t \<equiv> (clear_page (P2V u) b1)\<lparr>cur_directory := P2V u\<rparr>"
  shows "u \<noteq> 0" "copied b (P2V u) 0 t" "space_ok k t" "spare k t" "held (Suc k) b p \<Longrightarrow> held k t p"
    "next_frames k t \<subseteq> next_frames (Suc k) b" "in_order b t"
proof -
  note pm = space_ok_parts [OF assms(1)]
  note sp = alloc_frame_spare [OF pm(1) assms(2,3)]
  show u0: "u \<noteq> 0" by (rule sp(1))
  note a = alloc_frame_facts [OF pm(1) assms(3) u0] and sa = space_alloc [OF assms(1,3) u0]
  have U: "aligned (P2V u)" using a(2) by (rule aligned_P2V)
  have f: "mem_mngr t = mem_mngr b1" "mem_mngr_max_blocks t = mem_mngr_max_blocks b1"
    "mem_mngr_used_blocks t = mem_mngr_used_blocks b1" "cur_directory t = P2V u"
    by (simp_all add: t_def) (simp add: clear_page_def)
  have b1: "bitmap_byte b1 = bitmap_byte b" "bitmap_byte t = bitmap_byte b"
    using a(6,7) f by (simp_all add: bitmap_byte_def)
  have m: "mem t x = (if page_frame x = P2V u then 0 else mem b1 x)" for x
    by (simp add: t_def memset_page [OF U])
  have far: "mem t x = mem b1 x" if "bitmap_byte b1 x" for x using that sa(6) by (simp add: m b1)
  have h: "next_frames n t = next_frames n b1" "held n t = held n b1" for n
    using f(1,2) far by (intro held_cong; simp)+
  show "held (Suc k) b p \<Longrightarrow> held k t p" using a(12) by (simp add: h)
  show "next_frames k t \<subseteq> next_frames (Suc k) b" using a(10) by (auto simp: h)
  show "in_order b t" by (rule in_order_alloc(1) [of _ _ "unat u div 4096"]) (use a(9) [of 0] a(10) in \<open>simp_all add: h\<close>)
  show "spare k t" using sp(2) spare_cong [OF h(1) f(2,3)] by simp
  have z: "pde t i = 0" if "i < 1024" for i
  proof -
    have "entry (mem t) (P2V u) i = entry (\<lambda>_. 0) (P2V u) i" using that U by (intro entry_cong) (simp_all add: m)
    then show ?thesis by (simp add: pde_def f(4) entry_def rd32_def)
  qed
  have "unat u div 4096 < 2 ^ 18" using a(9) pm(3) by blast
  then have "held k b1 u" using a(2,10) by (simp add: held_def)
  moreover have "pmm_ok t" "frame_limit t = frame_limit b"
    using far a(1) pm(2) f a(7) by (subst pmm_ok_cong [where s = b1]; simp add: frame_limit_def) (simp add: frame_limit_def f a(7))
  moreover have "held k b1 (V2P (page_frame x)) \<and> page_frame x \<noteq> P2V u" if "bitmap_byte b x" for x
    using space_bitmap(1) [OF assms(1) that] a(12) sa(6) that by blast
  moreover have "\<forall>g \<in> next_frames k b1. g < 2 ^ 18" using a(10) pm(3) by auto
  ultimately show "space_ok k t"
    using pm(2) by (simp add: space_ok_def table_ok_def h b1 f(4) z)
  have bu: "\<not> boot_page b (P2V u)" using boot_page_facts(1) [OF assms(1), of "P2V u"] a(11) by auto
  moreover have "mem t x = mem b x" if "boot_page b (page_frame x)" for x
    using that bu a(5) boot_page_facts(2) [OF assms(1) that] by (auto simp: m)
  ultimately show "copied b (P2V u) 0 t" using z f a(6,7) by (simp add: copied_def)
qed

lemma copied_present: "copied b d 1024 t \<Longrightarrow> i < 1024 \<Longrightarrow> bit (pde t i) 0 \<longleftrightarrow> bit (pde b i) 0"
  unfolding copied_def by (metis bit_0_eq bot_apply bot_bool_def)

lemma copied_high:
  assumes "copied b d 1024 t" "no_high b"
  shows "no_high t"
  unfolding no_high_def
proof (intro allI impI)
  fix i j assume i: "i < 1024" "bit (pde t i) 0" and j: "j < (1024 :: nat)"
  then have "bit (pde b i) 0" using copied_present [OF assms(1)] by blast
  moreover from this have "entry (mem t) (P2V (page_frame (pde t i))) j = entry (mem b) (P2V (page_frame (pde b i))) j"
    using assms(1) i(1) j by (simp add: copied_def)
  ultimately show "\<not> bit (entry (mem t) (P2V (page_frame (pde t i))) j) 31"
    using assms(2) i(1) j by (simp add: no_high_def)
qed

lemma copied_lacking: "copied b d 1024 t \<Longrightarrow> T \<le> 2 ^ 30 \<Longrightarrow> lacking a T t = lacking a T b"
proof -
  assume h: "copied b d 1024 t" "T \<le> 2 ^ 30"
  have "i < 1024" if "i < 768 + (T + 0x3FFFFF) div 0x400000" for i using that h(2) by simp
  then have "{i. a \<le> i \<and> i < 768 + (T + 0x3FFFFF) div 0x400000 \<and> \<not> bit (pde t i) 0}
      = {i. a \<le> i \<and> i < 768 + (T + 0x3FFFFF) div 0x400000 \<and> \<not> bit (pde b i) 0}"
    using copied_present [OF h(1)] by blast
  then show ?thesis by (simp only: lacking_def)
qed

text \<open>From the boot tables to the copied ones.\<close>

lemma boot_copied:
  fixes s :: "('d, 'z) vmm_scheme"
  assumes c: "pc_conforms bus view" and "terminal_ok (terminal_of view s)"
    and "space_ok (1 + tables_from 0 (boot_view s) + k) (boot_view s)" "spare (1 + tables_from 0 (boot_view s) + k) (boot_view s)"
    and "alloc_memory_block s = (u, s1)"
    and s2: "screen_only view (clear_page (P2V u) s1) s2"
  shows "u \<noteq> 0"
    "\<exists>s'. copy_tables bus (P2V (cr3 s)) (P2V u) 0 s2 = Inr ((), s') \<and> vm_frame view s s' \<and>
      copied (boot_view s) (P2V u) 1024 (s'\<lparr>cur_directory := P2V u\<rparr>) \<and> space_ok k (s'\<lparr>cur_directory := P2V u\<rparr>) \<and>
      spare k (s'\<lparr>cur_directory := P2V u\<rparr>) \<and>
      (\<forall>p. held (1 + tables_from 0 (boot_view s) + k) (boot_view s) p \<longrightarrow> held k (s'\<lparr>cur_directory := P2V u\<rparr>) p)"
proof -
  let ?b = "boot_view s" and ?m = "tables_from 0 (boot_view s) + k"
  have ok: "space_ok (Suc ?m) ?b" "spare (Suc ?m) ?b" using assms(3,4) by simp_all
  have pm: "pmm_ok s" using space_ok_parts(1) [OF ok(1)] by (simp add: pmm_ok_def frame_bit_def mem_mngr_at_def boot_view_def)
  define t where "t = (clear_page (P2V u) s1)\<lparr>cur_directory := P2V u\<rparr>"
  have t: "t = (clear_page (P2V u) (s1\<lparr>cur_directory := P2V (cr3 s)\<rparr>))\<lparr>cur_directory := P2V u\<rparr>"
    by (simp add: t_def clear_page_def)
  have al: "alloc_memory_block ?b = (u, s1\<lparr>cur_directory := P2V (cr3 s)\<rparr>)"
    using alloc_directory [OF pm] assms(5) by (simp add: boot_view_def)
  note nd = new_directory [OF ok al, folded t]
  show "u \<noteq> 0" by (rule nd(1))
  have m1: "pmm.more (clear_page (P2V u) s1) = pmm.more s" "mem_mngr (clear_page (P2V u) s1) = mem_mngr s"
    "mem_mngr_max_blocks (clear_page (P2V u) s1) = mem_mngr_max_blocks s"
    using alloc_fields [of s] assms(5) by simp_all
  have "in_order s (clear_page (P2V u) s1)" using nd(7) by (simp add: t_def boot_view_def)
  then have fr: "vm_frame view s s2"
    by (intro vm_frame_trans [OF vm_frame_more [OF assms(2) m1] vm_frame_screen [OF s2]])
  have ss: "same_space t (s2\<lparr>cur_directory := P2V u\<rparr>)"
    using s2 by (auto simp: t_def same_space_def screen_only_def)
  note sd = same_spaceD [OF ss]
  have "copied ?b (P2V u) 0 (s2\<lparr>cur_directory := P2V u\<rparr>)" by (rule copied_cong [OF ss nd(2)])
  moreover have "\<forall>P. boot_page ?b P \<longrightarrow> held ?m (s2\<lparr>cur_directory := P2V u\<rparr>) (V2P P)"
    using boot_page_facts(1) [OF ok(1)] nd(5) by (simp add: sd)
  moreover have "terminal_ok (terminal_of view s2)" using screen_only_ok [OF s2] .
  ultimately obtain s' where "copy_tables bus (cur_directory ?b) (P2V u) 0 s2 = Inr ((), s')" "vm_frame view s2 s'"
    "copied ?b (P2V u) 1024 (s'\<lparr>cur_directory := P2V u\<rparr>)" "space_ok k (s'\<lparr>cur_directory := P2V u\<rparr>)"
    "spare k (s'\<lparr>cur_directory := P2V u\<rparr>)"
    "\<forall>p. held ?m (s2\<lparr>cur_directory := P2V u\<rparr>) p \<longrightarrow> held k (s'\<lparr>cur_directory := P2V u\<rparr>) p"
    using copy_loop [OF c ok(1), of s2 0 "P2V u" k] nd(3,4) by (auto simp: sd)
  moreover have "cur_directory ?b = P2V (cr3 s)" by (simp add: boot_view_def)
  ultimately show "\<exists>s'. copy_tables bus (P2V (cr3 s)) (P2V u) 0 s2 = Inr ((), s') \<and> vm_frame view s s' \<and>
      copied ?b (P2V u) 1024 (s'\<lparr>cur_directory := P2V u\<rparr>) \<and> space_ok k (s'\<lparr>cur_directory := P2V u\<rparr>) \<and>
      spare k (s'\<lparr>cur_directory := P2V u\<rparr>) \<and>
      (\<forall>p. held (1 + tables_from 0 (boot_view s) + k) (boot_view s) p \<longrightarrow> held k (s'\<lparr>cur_directory := P2V u\<rparr>) p)"
    using fr nd(5) vm_frame_trans by (auto simp: sd)
qed

text \<open>From the new directory in CR3 to the end of the extension.\<close>

lemma next_frames_held:
  assumes "\<forall>p. held m b p \<longrightarrow> held n s p" "\<forall>f \<in> next_frames n s. f < 2 ^ 18"
  shows "next_frames n s \<subseteq> next_frames m b"
proof
  fix f assume f: "f \<in> next_frames n s"
  then have f20: "f < 2 ^ 20" "4096 * f < 2 ^ 30" using assms(2) by auto
  have u: "unat (frame_addr f) = 4096 * f" by (rule unat_frame_addr [OF f20(1)])
  with f have "\<not> held n s (frame_addr f)" by (simp add: held_def)
  then have "\<not> held m b (frame_addr f)" using assms(1) by blast
  then show "f \<in> next_frames m b" using u f20(2) by (simp add: held_def aligned_def)
qed

lemma has_table_linear:
  assumes "f < 2 ^ 18" "no_high s" "bit (pde s (768 + f div 1024)) 0"
  shows "has_table s f"
proof -
  have f: "4096 * f < 2 ^ 30" using assms(1) by simp
  have "frame_addr f = of_nat (4096 * f)" by (simp add: frame_addr_def)
  then have "dir_index (P2V (frame_addr f)) = 768 + 4096 * f div 2 ^ 22" using dir_index_linear [OF f] by simp
  also have "4096 * f div 2 ^ 22 = f div 1024" using div_mult_mult1 [of "4096 :: nat" f 1024] by simp
  finally have d: "dir_index (P2V (frame_addr f)) = 768 + f div 1024" .
  show ?thesis using assms(3) no_high_pte [OF assms(2), of "P2V (frame_addr f)"] by (simp add: has_table_def d)
qed

lemma drop_has_table:
  assumes "identity_dropped s s'" "f < 2 ^ 18" "has_table s f"
  shows "has_table s' f"
proof -
  let ?v = "P2V (frame_addr f)"
  have "4096 * f < 2 ^ 30" using assms(2) by simp
  moreover have "frame_addr f = of_nat (4096 * f)" by (simp add: frame_addr_def)
  ultimately have "dir_index ?v \<noteq> 0" using dir_index_linear [of "4096 * f"] by simp
  moreover from this have "pde s' (dir_index ?v) = pde s (dir_index ?v)"
    using assms(1) dir_index_less [of ?v] unfolding identity_dropped_def by presburger
  ultimately show ?thesis using assms(1,3) by (simp add: identity_dropped_def has_table_def)
qed

lemma space_finished:
  fixes s :: "('d, 'z) vmm_scheme"
  assumes c: "pc_conforms bus view" and "terminal_ok (terminal_of view s)" and T: "unat tm \<le> 2 ^ 30"
    and "kernel_directory s = cur_directory s" "copied b d 1024 s" "no_high b" "bit (pde b 768) 0"
    and "space_ok (lacking 769 (unat tm) b + n) s" "spare (lacking 769 (unat tm) b + n) s"
    and "\<forall>f \<in> next_frames (lacking 769 (unat tm) b + n) s. 4096 * f < unat tm"
    and "screen_only view (extend_mappings 0x400000 tm s) s1"
  shows "\<exists>s'. remove_identity bus s1 = Inr ((), s') \<and> vm_ok n s' \<and> vm_frame view s s' \<and> cr3 s' = cr3 s \<and>
    cur_directory s' = cur_directory s \<and> kernel_directory s' = cur_directory s \<and>
    kernel_directory_physical s' = kernel_directory_physical s \<and>
    next_frames n s' \<subseteq> next_frames (lacking 769 (unat tm) b + n) s \<and>
    (\<forall>va. translate s' va = (if unat va < 0x400000 then None
       else if translate b va = None \<and> 0x400000 \<le> linear_page va \<and> linear_page va < unat tm then Some (V2P va)
       else translate b va))"
proof -
  let ?T = "unat tm" and ?s = "extend_mappings 0x400000 tm s"
  have l: "lacking 769 ?T s = lacking 769 ?T b" by (rule copied_lacking [OF assms(5) T])
  have "768 + (0x400000 :: nat) div 2 ^ 22 = 769" by simp
  then have e: "space_ok n ?s" "spare n ?s" "no_high ?s" "extended 0x400000 ?T s ?s"
    "next_frames n ?s \<subseteq> next_frames (lacking 769 ?T b + n) s" "cr3 ?s = cr3 s" "mem_mngr ?s = mem_mngr s"
    "mem_mngr_max_blocks ?s = mem_mngr_max_blocks s" "pmm.more ?s = pmm.more s" "in_order s ?s"
    using extend_loop [OF T, where phys = "0x400000" and s = s and n = n] assms(4,8,9) copied_high [OF assms(5,6)] by (simp_all add: l Let_def)
  have "vm_frame view s ?s" by (rule vm_frame_more [OF assms(2) e(9,7,8,10)])
  then have fr1: "vm_frame view s s1" by (rule vm_frame_trans [OF _ vm_frame_screen [OF assms(11)]])
  have ss: "same_space ?s s1" by (rule same_space_screen [OF assms(11)])
  note sd = same_spaceD [OF ss]
  have kd: "kernel_directory s1 = cur_directory s1"
    using vmm_fields_more(1,2) [OF e(9)] assms(4) space_screen(4,5) [OF assms(11)] by simp
  obtain s' where s': "remove_identity bus s1 = Inr ((), s')" "space_ok n s'" "identity_dropped s1 s'" "terminal_ok (terminal_of view s')"
    "crtc_only (view (dev s1)) (view (dev s'))"
    using remove_identity_space [OF c _ _ kd] fr1 e(1) by (auto simp: sd vm_frame_def)
  note di = s'(3) [unfolded identity_dropped_def]
  have "has_table s' f" if "f \<in> next_frames n s'" for f
  proof -
    have f18: "f < 2 ^ 18" using space_ok_parts(3) [OF s'(2) that] .
    have "f \<in> next_frames n ?s" using that di by (simp add: sd)
    then have "4096 * f < ?T" using e(5) assms(10) by blast
    moreover have "bit (pde ?s 768) 0"
      using e(4) copied_present [OF assms(5), of 768] assms(7) by (simp add: extended_def)
    moreover have "4096 * f < 0x400000 \<Longrightarrow> f div 1024 = 0" by simp
    ultimately have "bit (pde ?s (768 + f div 1024)) 0"
      using e(4) by (cases "4096 * f < 0x400000") (simp_all add: extended_def)
    from has_table_linear [OF f18 e(3) this] have "has_table s1 f" by (simp add: has_table_def sd)
    from drop_has_table [OF s'(3) f18 this] show ?thesis .
  qed
  moreover have "spare n s'" using e(2) spare_cong [of s' s1] di by (simp add: sd)
  ultimately have "vm_ok n s'" using s'(2) by (simp add: vm_ok_def)
  moreover have "translate s' va = (if unat va < 0x400000 then None
      else if translate b va = None \<and> 0x400000 \<le> linear_page va \<and> linear_page va < ?T then Some (V2P va)
      else translate b va)" for va
  proof -
    have "dir_index va = 0 \<longleftrightarrow> unat va < 0x400000" by (auto simp: dir_index_def div_eq_0_iff)
    then show ?thesis
      using e(4) by (simp add: identity_dropped_translate [OF s'(3)] sd extended_def copied_translate [OF assms(5)])
  qed
  moreover have more: "io.more s' = io.more s1" using di by simp
  have rest: "current_level s' = current_level s1" "vmm.more s' = vmm.more s1" "cur_directory s' = cur_directory s1"
    "kernel_directory s' = kernel_directory s1" "kernel_directory_physical s' = kernel_directory_physical s1"
    using more by (cases s'; cases s1; simp)+
  have "vm_frame view s s'"
    by (rule vm_frame_trans [OF fr1]) (use di s'(4,5) rest in \<open>simp add: vm_frame_def in_order_same\<close>)
  moreover have "kernel_directory_physical s1 = kernel_directory_physical s"
    using e(9) assms(11) by (cases s; cases "?s"; auto simp: screen_only_def)
  moreover have "cur_directory s1 = cur_directory s" using vmm_fields_more(1) [OF e(9)] space_screen(4) [OF assms(11)] by simp
  moreover have "cr3 s' = cr3 s" using di e(6) screen_only_fields(3) [OF assms(11)] by simp
  moreover have "next_frames n s' \<subseteq> next_frames (lacking 769 ?T b + n) s" using di e(5) by (simp add: sd)
  ultimately show ?thesis using s'(1) rest kd by simp
qed

text \<open>All that follows the copies, from the switch of the directory on.\<close>

lemma space_switched:
  fixes s :: "('d, 'z) vmm_scheme"
  assumes c: "pc_conforms bus view" and "terminal_ok (terminal_of view s)" and T: "unat tm \<le> 2 ^ 30" and "u \<noteq> 0"
    and "copied b (P2V u) 1024 (s\<lparr>cur_directory := P2V u\<rparr>)" "no_high b" "bit (pde b 768) 0"
    and "space_ok (lacking 769 (unat tm) b + n) (s\<lparr>cur_directory := P2V u\<rparr>)"
    and "spare (lacking 769 (unat tm) b + n) (s\<lparr>cur_directory := P2V u\<rparr>)"
    and "\<forall>f \<in> next_frames (lacking 769 (unat tm) b + n) (s\<lparr>cur_directory := P2V u\<rparr>). 4096 * f < unat tm"
  shows "\<exists>s'. bindk (pr bus KERN_INFO ''VMM'' ''Switching to new page directory...'' [] s) (\<lambda>_ s.
       let s = s\<lparr>kernel_directory := P2V u\<rparr>;
           s = s\<lparr>kernel_directory_physical := u\<rparr>;
           s = s\<lparr>cur_directory := P2V u\<rparr>;
           s = s\<lparr>cur_pdbr := u\<rparr>;
           s = snd (vmmngr_switch_pdirectory u s) in
       bindk (pr bus KERN_INFO ''VMM'' ''Successfully switched to new PD!'' [] s) (\<lambda>_ s.
       bindk (pr bus KERN_INFO ''VMM'' ''Extending memory mappings...'' [] s) (\<lambda>_ s.
       let s = extend_mappings 0x400000 tm s in
       bindk (pr bus KERN_INFO ''VMM'' ''Removing identity mapping...'' [] s) (\<lambda>_ s.
       bindk (remove_identity bus s) (\<lambda>_ s.
       bindk (pr bus KERN_INFO ''PAGING'' ''=== VMM INITIALIZATION COMPLETE ==='' [] s) (\<lambda>_ s.
         pr bus KERN_INFO ''VMM'' ''Kernel PD at 0x%x (phys: 0x%x)''
           [VInt (kernel_directory s), VInt (kernel_directory_physical s)] s)))))) = Inr ((), s') \<and>
    vm_ok n s' \<and> vm_frame view s s' \<and> cr3 s' = V2P (cur_directory s') \<and>
    kernel_directory s' = cur_directory s' \<and> kernel_directory_physical s' = cr3 s' \<and>
    next_frames n s' \<subseteq> next_frames (lacking 769 (unat tm) b + n) s \<and>
    (\<forall>va. translate s' va = (if unat va < 0x400000 then None
       else if translate b va = None \<and> 0x400000 \<le> linear_page va \<and> linear_page va < unat tm then Some (V2P va)
       else translate b va))"
proof -
  obtain s1 where s1: "pr bus KERN_INFO ''VMM'' ''Switching to new page directory...'' [] s = Inr ((), s1)"
    "screen_only view s s1" "terminal_ok (terminal_of view s1)"
    by (rule pr_step [OF c assms(2)]; (rule that; assumption)?) (simp_all add: cs_def)
  define s2 where "s2 = snd (vmmngr_switch_pdirectory u
    (s1\<lparr>kernel_directory := P2V u, kernel_directory_physical := u, cur_directory := P2V u, cur_pdbr := u\<rparr>))"
  have s2: "s2 = s1\<lparr>kernel_directory := P2V u, kernel_directory_physical := u, cur_directory := P2V u, cur_pdbr := u, cr3 := u\<rparr>"
    using assms(4) by (simp add: s2_def vmmngr_switch_pdirectory_def load_PDBR_def)
  have fr2: "vm_frame view s s2"
    by (rule vm_frame_trans [OF vm_frame_screen [OF s1(2)]]) (use s1(3) in \<open>simp add: s2 vm_frame_def terminal_of_def in_order_fields\<close>)
  obtain s3 where s3: "pr bus KERN_INFO ''VMM'' ''Successfully switched to new PD!'' [] s2 = Inr ((), s3)"
    "screen_only view s2 s3" "terminal_ok (terminal_of view s3)"
    by (rule pr_step [OF c]; (rule that; assumption)?) (use fr2 in \<open>simp_all add: cs_def vm_frame_def\<close>)
  obtain s4 where s4: "pr bus KERN_INFO ''VMM'' ''Extending memory mappings...'' [] s3 = Inr ((), s4)"
    "screen_only view s3 s4" "terminal_ok (terminal_of view s4)"
    by (rule pr_step [OF c s3(3)]; (rule that; assumption)?) (simp_all add: cs_def)
  have sc: "screen_only view s2 s4" by (rule screen_only_trans [OF s3(2) s4(2)])
  have ss: "same_space (s\<lparr>cur_directory := P2V u\<rparr>) s4"
    using s1(2) sc by (auto simp: same_space_def s2 screen_only_def)
  note sd = same_spaceD [OF ss]
  have f4: "kernel_directory s4 = P2V u" "cur_directory s4 = P2V u" "kernel_directory_physical s4 = u" "cr3 s4 = u"
    using sc by (auto simp: s2 screen_only_def)
  have cp: "copied b (P2V u) 1024 s4" by (rule copied_cong [OF ss assms(5)])
  obtain s5 where s5: "pr bus KERN_INFO ''VMM'' ''Removing identity mapping...'' [] (extend_mappings 0x400000 tm s4) = Inr ((), s5)"
    "screen_only view (extend_mappings 0x400000 tm s4) s5"
    by (rule pr_step [OF c]; (rule that; assumption)?)
      (use s4(3) in \<open>simp_all add: cs_def terminal_of_def vmm_fields_more(3,4) [OF extend_more]\<close>)
  have kd: "kernel_directory s4 = cur_directory s4" by (simp add: f4)
  obtain s6 where s6: "remove_identity bus s5 = Inr ((), s6)" "vm_ok n s6" "vm_frame view s4 s6" "cr3 s6 = u"
    "cur_directory s6 = P2V u" "kernel_directory s6 = P2V u" "kernel_directory_physical s6 = u"
    "next_frames n s6 \<subseteq> next_frames (lacking 769 (unat tm) b + n) s4"
    "\<forall>va. translate s6 va = (if unat va < 0x400000 then None
       else if translate b va = None \<and> 0x400000 \<le> linear_page va \<and> linear_page va < unat tm then Some (V2P va)
       else translate b va)"
    using space_finished [OF c s4(3) T kd cp assms(6,7) _ _ _ s5(2), of n] assms(8-10) by (auto simp: sd f4)
  obtain s7 where s7: "pr bus KERN_INFO ''PAGING'' ''=== VMM INITIALIZATION COMPLETE ==='' [] s6 = Inr ((), s7)"
    "screen_only view s6 s7" "terminal_ok (terminal_of view s7)"
    by (rule pr_step [OF c]; (rule that; assumption)?) (use s6(3) in \<open>simp_all add: cs_def vm_frame_def\<close>)
  obtain s8 where s8: "pr bus KERN_INFO ''VMM'' ''Kernel PD at 0x%x (phys: 0x%x)''
      [VInt (kernel_directory s7), VInt (kernel_directory_physical s7)] s7 = Inr ((), s8)" "screen_only view s7 s8"
    by (rule pr_step [OF c s7(3)]; (rule that; assumption)?) (simp_all add: cs_def)
  have sc8: "screen_only view s6 s8" by (rule screen_only_trans [OF s7(2) s8(2)])
  note sd8 = same_spaceD [OF same_space_screen [OF sc8]]
  have f8: "kernel_directory s8 = P2V u" "cur_directory s8 = P2V u" "kernel_directory_physical s8 = u" "cr3 s8 = u"
    using sc8 s6(4-7) by (auto simp: screen_only_def)
  have "vm_frame view s s8"
    using fr2 vm_frame_screen [OF sc] s6(3) vm_frame_screen [OF sc8] by (blast intro: vm_frame_trans)
  then show ?thesis
    using s6(2,8,9) by (intro exI [of _ s8]) (simp add: s1(1) s3(1) s4(1) s5(1) s6(1) s7(1) s8(1) f8 sd8 sd(4) flip: s2_def)
qed

section \<open>Property of the initialisation\<close>

lemma boot_view_screen: "screen_only view s s' \<Longrightarrow> same_space (boot_view s) (boot_view s')"
  by (auto simp: same_space_def boot_view_def screen_only_def)

lemma frames_needed_cong: "pde b' = pde b \<Longrightarrow> frames_needed T b' = frames_needed T b"
  by (simp add: frames_needed_def tables_from_def lacking_def)

text \<open>The boot's page tables and bitmap keep clear of the frames the initialisation takes, and \<open>n\<close> more.\<close>

definition clear_start :: "nat \<Rightarrow> u32 \<Rightarrow> ('d, 'z) vmm_scheme \<Rightarrow> bool" where
  "clear_start n tm b \<longleftrightarrow>
     (let k = frames_needed (min (unat tm) (2 ^ 30)) b + n in
       space_ok k b \<and> spare k b \<and> no_high b \<and> bit (pde b 768) 0 \<and> (\<forall>f \<in> next_frames k b. 4096 * f < unat tm))"

lemma clear_start_cong: "same_space b b' \<Longrightarrow> clear_start n tm b' \<longleftrightarrow> clear_start n tm b"
  using same_spaceD(4,7,10,11) [of b b'] frames_needed_cong [of b' b] no_high_cong [of b b'] by (simp add: clear_start_def)

lemma initialize_space:
  fixes s :: "('d, 'z) vmm_scheme"
  assumes "pc_conforms bus view" "terminal_ok (terminal_of view s)" "clear_start n tm (boot_view s)"
  shows "\<exists>s'. vmmngr_initialize bus tm s = Inr ((), s') \<and> vm_ok n s' \<and> vm_frame view s s' \<and>
    cr3 s' = V2P (cur_directory s') \<and> kernel_directory s' = cur_directory s' \<and>
    kernel_directory_physical s' = cr3 s' \<and>
    next_frames n s' \<subseteq> next_frames (frames_needed (min (unat tm) (2 ^ 30)) (boot_view s) + n) (boot_view s) \<and>
    (\<forall>va. translate s' va = (if unat va < 0x400000 then None
       else if translate (boot_view s) va = None \<and> 0x400000 \<le> linear_page va \<and> linear_page va < min (unat tm) (2 ^ 30)
       then Some (V2P va) else translate (boot_view s) va))"
proof -
  let ?T = "min (unat tm) (2 ^ 30)"
  note c = assms(1)
  obtain s1 where s1: "pr bus KERN_INFO ''PAGING'' ''=== VMM INITIALIZATION START ==='' [] s = Inr ((), s1)"
    "screen_only view s s1" "terminal_ok (terminal_of view s1)"
    by (rule pr_step [OF c assms(2)]; (rule that; assumption)?) (simp_all add: cs_def)
  obtain s2 where s2: "pr bus KERN_INFO ''VMM'' ''Boot PD: phys=0x%x, virt=0x%x'' [VInt (cr3 s1), VInt (P2V (cr3 s1))] s1 = Inr ((), s2)"
    "screen_only view s1 s2" "terminal_ok (terminal_of view s2)"
    by (rule pr_step [OF c s1(3)]; (rule that; assumption)?) (simp_all add: cs_def)
  obtain tm' s3 where s3: "(if tm > 0x40000000 then bindk (pr bus KERN_WARN ''VMM'' ''Memory > 1GB, capping at 1GB'' [] s2)
      (\<lambda>_ s. Inr (0x40000000, s)) else Inr (tm, s2)) = Inr (tm', s3)"
    "screen_only view s2 s3" "terminal_ok (terminal_of view s3)" "unat tm' = ?T"
  proof (cases "tm > 0x40000000")
    case True
    obtain s3 where "pr bus KERN_WARN ''VMM'' ''Memory > 1GB, capping at 1GB'' [] s2 = Inr ((), s3)"
      "screen_only view s2 s3" "terminal_ok (terminal_of view s3)"
      by (rule pr_step [OF c s2(3)]; (rule that; assumption)?) (simp_all add: cs_def)
    with True show thesis by (intro that [of "0x40000000" s3]) (simp_all add: word_less_nat_alt)
  next
    case False
    then show thesis
      using s2(3) by (intro that [of tm s2]) (simp_all add: screen_only_refl word_less_nat_alt)
  qed
  have sc: "screen_only view s s3" using s1(2) s2(2) s3(2) by (blast intro: screen_only_trans)
  note bs = boot_view_screen [OF sc]
  note bv = same_spaceD [OF bs]
  let ?b = "boot_view s3" and ?k = "lacking 769 (unat tm') (boot_view s3) + n"
  have N: "frames_needed (unat tm') (boot_view s) + n = 1 + tables_from 0 ?b + ?k"
    using frames_needed_cong [OF bv(7), of "unat tm'"] by (simp add: frames_needed_def)
  have st: "space_ok (frames_needed ?T (boot_view s) + n) (boot_view s)" "spare (frames_needed ?T (boot_view s) + n) (boot_view s)"
    "no_high (boot_view s)" "bit (pde (boot_view s) 768) 0"
    "\<forall>f \<in> next_frames (frames_needed ?T (boot_view s) + n) (boot_view s). 4096 * f < unat tm"
    using assms(3) by (simp_all add: clear_start_def Let_def)
  note hyp = st [folded s3(4), unfolded N, folded bv no_high_cong [OF bs]]
  define u s4 where "u = fst (alloc_memory_block s3)" and "s4 = snd (alloc_memory_block s3)"
  have al: "alloc_memory_block s3 = (u, s4)" by (simp add: u_def s4_def)
  have m4: "pmm.more (clear_page (P2V u) s4) = pmm.more s3" by (simp add: s4_def)
  have t4: "terminal_ok (terminal_of view (clear_page (P2V u) s4))"
    using s3(3) vmm_fields_more(3,4) [OF m4] by (simp add: terminal_of_def)
  obtain s5 where s5: "pr bus KERN_INFO ''VMM'' ''Allocated new PD: phys=0x%x, virt=0x%x'' [VInt u, VInt (P2V u)]
      (clear_page (P2V u) s4) = Inr ((), s5)" "screen_only view (clear_page (P2V u) s4) s5" "terminal_ok (terminal_of view s5)"
    by (rule pr_step [OF c t4]; (rule that; assumption)?) (simp_all add: cs_def)
  obtain s6 where s6: "pr bus KERN_INFO ''VMM'' ''Copying boot mappings to new PD...'' [] s5 = Inr ((), s6)"
    "screen_only view s5 s6"
    by (rule pr_step [OF c s5(3)]; (rule that; assumption)?) (simp_all add: cs_def)
  note bc = boot_copied [OF c s3(3) hyp(1,2) al screen_only_trans [OF s5(2) s6(2)]]
  from bc(2) obtain s7 where s7: "copy_tables bus (P2V (cr3 s3)) (P2V u) 0 s6 = Inr ((), s7)" "vm_frame view s3 s7"
    "copied ?b (P2V u) 1024 (s7\<lparr>cur_directory := P2V u\<rparr>)" "space_ok ?k (s7\<lparr>cur_directory := P2V u\<rparr>)"
    "spare ?k (s7\<lparr>cur_directory := P2V u\<rparr>)"
    "\<forall>p. held (1 + tables_from 0 ?b + ?k) ?b p \<longrightarrow> held ?k (s7\<lparr>cur_directory := P2V u\<rparr>) p" by blast
  have sub: "next_frames ?k (s7\<lparr>cur_directory := P2V u\<rparr>) \<subseteq> next_frames (1 + tables_from 0 ?b + ?k) ?b"
    using s7(6) space_ok_parts(3) [OF s7(4)] by (intro next_frames_held) auto
  then have below: "\<forall>f \<in> next_frames ?k (s7\<lparr>cur_directory := P2V u\<rparr>). 4096 * f < unat tm'"
    using hyp(5) space_ok_parts(3) [OF s7(4)] s3(4) by fastforce
  have t7: "terminal_ok (terminal_of view s7)" using s7(2) by (simp add: vm_frame_def)
  have T: "unat tm' \<le> 2 ^ 30" by (simp add: s3(4))
  note sw = space_switched [OF c t7 T bc(1) s7(3) hyp(3,4) s7(4,5) below]
  have fr: "vm_frame view s s'" if "vm_frame view s7 s'" for s'
    using vm_frame_trans [OF vm_frame_trans [OF vm_frame_screen [OF sc] s7(2)] that] .
  have cr: "cr3 s1 = cr3 s3" using screen_only_fields(3) [OF s2(2)] screen_only_fields(3) [OF s3(2)] by simp
  show ?thesis
    unfolding s3(4) [symmetric] bv(9) [symmetric]
    using sw
  proof (elim exE conjE, goal_cases)
    case (1 s')
    from 1(1) have "vmmngr_initialize bus tm s = Inr ((), s')"
      by (simp add: vmmngr_initialize_def s1(1) s2(1) [unfolded cr] s3(1) al bc(1) s5(1) s6(1) s7(1) cr Let_def)
    moreover have "next_frames n s' \<subseteq> next_frames (frames_needed (unat tm') (boot_view s) + n) (boot_view s)"
      using 1(7) sub unfolding N bv(4) [symmetric] by simp
    ultimately show ?case using 1(2-) fr [OF 1(3)] by (intro exI [of _ s']) blast
  qed
qed

text \<open>
  C8: Paging starts: on a machine whose boot tables and bitmap keep clear of the frames the
  initialisation takes (one for the directory, one for each boot table, one for each table the rest
  of the memory needs) \<open>vmmngr_initialize\<close> returns with its new directory in CR3. The first 4 MiB of
  addresses fault, memory from 4 MiB to the end (or to 1 GiB) is mapped at 0xC0000000 wherever the boot
  tables had nothing, every other address translates as the boot tables had it, and the address space
  is fit for \<open>n\<close> more page allocations.
\<close>

theorem vmmngr_initialize_establishes:
  fixes s :: "('d, 'z) vmm_scheme"
  assumes "pc_conforms bus view" "terminal_ok (terminal_of view s)"
    and "space_ok (frames_needed (min (unat tm) (2 ^ 30)) (boot_view s) + n) (boot_view s)"
    and "spare (frames_needed (min (unat tm) (2 ^ 30)) (boot_view s) + n) (boot_view s)"
    and "no_high (boot_view s)" "bit (pde (boot_view s) 768) 0"
    and "\<forall>f \<in> next_frames (frames_needed (min (unat tm) (2 ^ 30)) (boot_view s) + n) (boot_view s). 4096 * f < unat tm"
  shows "\<exists>s'. vmmngr_initialize bus tm s = Inr ((), s') \<and> vm_ok n s' \<and> vm_frame view s s' \<and>
    cr3 s' = V2P (cur_directory s') \<and> kernel_directory s' = cur_directory s' \<and>
    kernel_directory_physical s' = cr3 s' \<and>
    (\<forall>va. translate s' va = (if unat va < 0x400000 then None
       else if translate (boot_view s) va = None \<and> 0x400000 \<le> linear_page va \<and> linear_page va < min (unat tm) (2 ^ 30)
       then Some (V2P va) else translate (boot_view s) va))"
proof -
  have "clear_start n tm (boot_view s)" using assms(3-) by (simp add: clear_start_def Let_def)
  from initialize_space [OF assms(1,2) this] show ?thesis by blast
qed

lemma demo_boot:
  "boot_view demo_vmm = demo_vmm" "frames_needed 0x800000 demo_vmm = 3" "spare 5 demo_vmm" "no_high demo_vmm"
  "f \<in> next_frames n demo_vmm \<Longrightarrow> f < 64"
proof -
  show "boot_view demo_vmm = demo_vmm" by (simp add: boot_view_def demo_vmm_def P2V_def)
  have "{j. 0 \<le> j \<and> j < 1024 \<and> bit (pde demo_vmm j) 0} = {768}"
    by (auto simp: demo_pde bit_numeral_rec split: if_splits)
  moreover have "{i. 769 \<le> i \<and> i < 768 + ((0x800000 :: nat) + 0x3FFFFF) div 0x400000 \<and> \<not> bit (pde demo_vmm i) 0} = {769}"
    by (auto simp: demo_pde)
  ultimately show "frames_needed 0x800000 demo_vmm = 3" by (simp only: frames_needed_def tables_from_def lacking_def) simp
  have l: "frame_limit demo_vmm = 64" by (simp add: frame_limit_def)
  then show "f \<in> next_frames n demo_vmm \<Longrightarrow> f < 64" by (simp add: next_frames_def)
  have "{3, 4, 7, 8, 9} \<subseteq> {f. f < frame_limit demo_vmm \<and> \<not> frame_bit demo_vmm f}" by (auto simp: l demo_vmm_bit)
  then have "card {3 :: nat, 4, 7, 8, 9} \<le> card {f. f < frame_limit demo_vmm \<and> \<not> frame_bit demo_vmm f}" by (intro card_mono) simp_all
  then show "spare 5 demo_vmm" by (simp add: spare_def get_free_block_count_def)
  show "no_high demo_vmm" by (auto simp: no_high_def demo_pde P2V_def demo_table_zero)
qed

theorem vmmngr_initialize_establishes_witness:
  "\<exists>s'. vmmngr_initialize demo_bus 0x800000 demo_vmm = Inr ((), s') \<and> vm_ok 2 s' \<and> translate s' 0xC0400123 = Some 0x400123"
proof -
  have p: "bit (pde demo_vmm 768) 0" "translate demo_vmm 0xC0400123 = None"
    by (simp_all add: demo_pde translate_pte dir_index_def)
  have l: "linear_page 0xC0400123 = 0x400000" by (simp add: linear_page_def V2P_def)
  have "\<forall>f \<in> next_frames 5 demo_vmm. 4096 * f < unat (0x800000 :: u32)" using demo_boot(5) [of _ 5] by fastforce
  then obtain s' where "vmmngr_initialize demo_bus 0x800000 demo_vmm = Inr ((), s')" "vm_ok 2 s'"
    "translate s' 0xC0400123 = Some (V2P 0xC0400123)"
    using vmmngr_initialize_establishes [OF demo_bus_conforms demo_vmm_terminal, of "0x800000" 2] demo_space demo_boot p l by auto
  then show ?thesis by (auto simp: V2P_def)
qed

end
