(* ===== verification/Commands.thy ===== *)
theory Commands
  imports Syscall Pages
begin

text \<open>
  The commands \<open>create\<close> and \<open>cat\<close> of \<^verbatim>\<open>cpu/syscall.c\<close> from end to end: what the first stores on disk
  the second shows. Each runs the file system on a handle in a fresh page; that these pages stay
  clear of each other, of the cached cluster table and of the page tables is what the lemmas carry
  from one operation to the next.
\<close>

section \<open>What the file system relies on between two operations\<close>

text \<open>
  The two bytes of a cluster's entry lie in pages that hold no bitmap, directory or table and that
  the next \<open>n\<close> allocations do not take.
\<close>

definition entry_byte_of :: "u16 \<Rightarrow> ('d, 'z) fs_scheme \<Rightarrow> u32 \<Rightarrow> bool" where
  "entry_byte_of c s = in_range (fat_buffer (mount_info s) + fat_offset c) 2"

definition table_safe :: "u16 \<Rightarrow> nat \<Rightarrow> ('d, 'z) fs_scheme \<Rightarrow> bool" where
  "table_safe c n s \<longleftrightarrow> (\<forall>x. entry_byte_of c s x \<longrightarrow> held n s (V2P (page_frame x)) \<and> \<not> kernel_byte s x)"

definition ready :: "'d bus \<Rightarrow> ('d \<Rightarrow> pc) \<Rightarrow> u16 \<Rightarrow> nat \<Rightarrow> ('d, 'z) fs_scheme \<Rightarrow> bool" where
  "ready bus view c n s \<longleftrightarrow> fs_ok bus view s \<and> vm_ok n s \<and> table_safe c n s"

text \<open>The memory manager's variables and the mounted volume are the same.\<close>

definition same_kernel :: "('d, 'z) fs_scheme \<Rightarrow> ('d, 'z) fs_scheme \<Rightarrow> bool" where
  "same_kernel s t \<longleftrightarrow> mem_mngr t = mem_mngr s \<and> mem_mngr_max_blocks t = mem_mngr_max_blocks s \<and>
     mem_mngr_used_blocks t = mem_mngr_used_blocks s \<and> cur_directory t = cur_directory s \<and> mount_info t = mount_info s"

lemma same_kernel_frames:
  "io_only s t \<Longrightarrow> same_kernel s t" "file_frame f s t \<Longrightarrow> same_kernel s t" "same_kernel s (s\<lparr>mem := m\<rparr>)"
  "same_kernel s t \<Longrightarrow> same_kernel t u \<Longrightarrow> same_kernel s u"
  by (auto simp: same_kernel_def io_only_fields file_frame_def)

lemma ready_transfer:
  assumes "ready bus view c n s" "fs_ok bus view t" "same_kernel s t" "\<And>x. kernel_byte s x \<Longrightarrow> mem t x = mem s x"
  shows "ready bus view c n t" "kernel_byte t = kernel_byte s" "held k t = held k s"
proof -
  have vm: "vm_ok n s" "table_safe c n s" using assms(1) by (simp_all add: ready_def)
  have f: "mem_mngr t = mem_mngr s" "mem_mngr_max_blocks t = mem_mngr_max_blocks s"
    "mem_mngr_used_blocks t = mem_mngr_used_blocks s" "cur_directory t = cur_directory s" "mount_info t = mount_info s"
    using assms(3) by (simp_all add: same_kernel_def)
  note v = vm_transfer [OF vm(1) f(1-4) assms(4)]
  show "kernel_byte t = kernel_byte s" "held k t = held k s" for k by (rule v(2), assumption, rule v(3), assumption)
  with v(1) vm assms(2) show "ready bus view c n t"
    by (simp add: ready_def table_safe_def entry_byte_of_def f(5))
qed

lemma ready_io:
  assumes "ready bus view c n s" "fs_ok bus view t" "io_only s t"
  shows "ready bus view c n t" "kernel_byte t = kernel_byte s" "held k t = held k s"
  using ready_transfer [OF assms(1,2) same_kernel_frames(1) [OF assms(3)]] io_only_fields(1) [OF assms(3)] by simp_all

text \<open>
  Memory changes at most where \<open>P\<close> says, no page has become the kernel's, the volume is the one that was
  mounted, and neither the keyboard nor the tables of interrupts are concerned.
\<close>

definition kept :: "(u32 \<Rightarrow> bool) \<Rightarrow> ('d, 'z) fs_scheme \<Rightarrow> ('d, 'z) fs_scheme \<Rightarrow> bool" where
  "kept P s t \<longleftrightarrow> kernel_byte t = kernel_byte s \<and> mount_info t = mount_info s \<and> fs.more t = fs.more s \<and>
     (\<forall>x. \<not> P x \<longrightarrow> mem t x = mem s x)"

lemma kept_trans: "kept P s t \<Longrightarrow> kept P t u \<Longrightarrow> kept P s u"
  by (simp add: kept_def)

lemma kept_mono: "kept P s t \<Longrightarrow> (\<And>x. P x \<Longrightarrow> Q x) \<Longrightarrow> kept Q s t"
  by (auto simp: kept_def)

text \<open>The bytes of the pages that the next \<open>n\<close> allocations take, and all that a new file of cluster \<open>c\<close> touches.\<close>

definition to_come :: "nat \<Rightarrow> ('d, 'z) fs_scheme \<Rightarrow> u32 \<Rightarrow> bool" where
  "to_come n s x \<longleftrightarrow> unat (V2P (page_frame x)) < 2 ^ 30 \<and> \<not> held n s (V2P (page_frame x))"

definition touched :: "u16 \<Rightarrow> nat \<Rightarrow> ('d, 'z) fs_scheme \<Rightarrow> u32 \<Rightarrow> bool" where
  "touched c n s x \<longleftrightarrow> kernel_byte s x \<or> entry_byte_of c s x \<or> to_come n s x"

lemma io_only_more: "io_only s t \<Longrightarrow> fs.more t = fs.more s"
  by (auto simp: io_only_def)

lemma io_kept: "ready bus view c n s \<Longrightarrow> fs_ok bus view t \<Longrightarrow> io_only s t \<Longrightarrow> kept P s t"
  using ready_io(2) by (simp add: kept_def io_only_fields io_only_more)

lemma fs_more_pmm:
  fixes s :: "('d, 'z) fs_scheme"
  shows "pmm.more s' = pmm.more s \<Longrightarrow> fs.more s' = fs.more s"
  by (cases s; cases s') simp

lemma next_cluster_cong:
  assumes "mount_info t = mount_info s" "\<And>x. entry_byte_of c s x \<Longrightarrow> mem t x = mem s x"
  shows "get_next_cluster c t = get_next_cluster c s"
proof -
  have "rd16 (mem t) (fat_buffer (mount_info s) + fat_offset c) = rd16 (mem s) (fat_buffer (mount_info s) + fat_offset c)"
    by (rule rd16_cong) (simp add: assms(2) entry_byte_of_def)
  then show ?thesis by (simp add: get_next_cluster_def assms(1))
qed

lemma directory_cong:
  "mount_info t = mount_info s \<Longrightarrow> disk_content view' t = disk_content view s \<Longrightarrow> directory view' t = directory view s"
  by (simp add: directory_def root_entries_from_def)

section \<open>Handles in pages of their own\<close>

text \<open>The page at \<open>f\<close> holds a handle and nothing the kernel or the cluster's entry needs.\<close>

definition own_page :: "u32 \<Rightarrow> u16 \<Rightarrow> ('d, 'z) fs_scheme \<Rightarrow> bool" where
  "own_page f c s \<longleftrightarrow> aligned f \<and> f \<noteq> 0 \<and> \<not> kernel_byte s f \<and> (\<forall>x. entry_byte_of c s x \<longrightarrow> page_frame x \<noteq> f)"

lemma handle_byte: "aligned f \<Longrightarrow> in_range f 276 x \<Longrightarrow> page_frame x = f"
  by (simp add: page_frame_iff in_range_def)

lemma own_page_bytes:
  assumes "own_page f c s" "in_range f 276 x"
  shows "\<not> kernel_byte s x" "\<not> entry_byte_of c s x"
proof -
  have f: "page_frame x = f" "page_frame f = f"
    using assms handle_byte page_frame_aligned by (auto simp: own_page_def)
  with assms(1) show "\<not> kernel_byte s x" "\<not> entry_byte_of c s x" by (auto simp: own_page_def kernel_byte_def)
qed

lemma own_page_apart: "own_page f c s \<Longrightarrow> apart f [c] s"
  using own_page_bytes(2) by (auto simp: apart_def entry_byte_of_def)

lemma ready_file:
  assumes "ready bus view c n s" "fs_ok bus view t" "file_frame f s t" "own_page f c s"
  shows "ready bus view c n t" "kernel_byte t = kernel_byte s" "held k t = held k s"
    "get_next_cluster c t = get_next_cluster c s"
proof -
  have m: "mem t x = mem s x" if "kernel_byte s x \<or> entry_byte_of c s x" for x
    using that own_page_bytes [OF assms(4)] file_frame_fields(2) [OF assms(3)] by blast
  show "get_next_cluster c t = get_next_cluster c s"
    by (rule next_cluster_cong) (simp_all add: file_frame_fields(1) [OF assms(3)] m)
  show "ready bus view c n t" "kernel_byte t = kernel_byte s" "held k t = held k s"
    using ready_transfer [OF assms(1,2) same_kernel_frames(2) [OF assms(3)]] m by simp_all
qed

lemma open_ready:
  fixes s :: "('d, 'z) fs_scheme"
  assumes "ready bus view c (Suc n) s" "c_string filename xs"
    and "dir_lookup (dos_8_3 xs) (directory view s) = Some e" "buf16 e 26 = c"
  obtains f s' where "fat12_open bus filename s = Inr (f, s')" "own_page f c s'" "handle f c c (buf32 e 28) 0 0 s'"
    "ready bus view c n s'" "disk_content view s' = disk_content view s" "kept (touched c (Suc n) s) s s'"
    "get_next_cluster c s' = get_next_cluster c s" "to_come (Suc n) s f"
proof -
  have fs: "fs_ok bus view s" using assms(1) by (simp add: ready_def)
  obtain s1 where s1: "io_only s s1" "fs_ok bus view s1" "disk_content view s1 = disk_content view s"
    "case vmmngr_alloc_page s1 of (f, s2) \<Rightarrow>
       if f = 0 then fat12_open bus filename s = Inr (0, s2)
       else \<exists>m. fat12_open bus filename s = Inr (f, s2\<lparr>mem := m\<rparr>) \<and>
         (\<forall>x. \<not> in_range f 276 x \<longrightarrow> m x = mem s2 x) \<and> rd_bytes m f 256 = map filename [0..<256] \<and>
         handle f c c (buf32 e 28) 0 0 (s2\<lparr>mem := m\<rparr>)"
    using fat12_open_spec [OF fs assms(2)] unfolding assms(3,4) option.case by (elim exE conjE) (rule that)
  note f1 = io_only_fields [OF s1(1)]
  note io = ready_io [OF assms(1) s1(2,1)]
  have r1: "vm_ok (Suc n) s1" "table_safe c (Suc n) s1" using io(1) by (simp_all add: ready_def)
  obtain f s2 where al: "vmmngr_alloc_page s1 = (f, s2)" "f \<noteq> 0" "aligned f" "\<not> held (Suc n) s1 (V2P f)" "\<not> kernel_byte s1 f"
    "vm_ok n s2" "kernel_byte s2 = kernel_byte s1" "\<forall>q. held (Suc n) s1 q \<or> q = V2P f \<longrightarrow> held n s2 q"
    "\<forall>x. \<not> kernel_byte s1 x \<longrightarrow> mem s2 x = mem s1 x"
    "mem_mngr s2 = mem_mngr s1" "mem_mngr_max_blocks s2 = mem_mngr_max_blocks s1" "pmm.more s2 = pmm.more s1"
    "\<forall>va. translate s2 va = (if page_frame va = f then Some (V2P f OR (va AND 0xfff)) else translate s1 va)"
    by (rule alloc_page_vm [OF r1(1)])
  note f2 = fs_fields_more [OF al(12)]
  obtain m where m: "fat12_open bus filename s = Inr (f, s2\<lparr>mem := m\<rparr>)" "\<And>x. \<not> in_range f 276 x \<Longrightarrow> m x = mem s2 x"
    "handle f c c (buf32 e 28) 0 0 (s2\<lparr>mem := m\<rparr>)"
    using s1(4) al(1,2) by auto
  have r2: "ready bus view c n s2"
    using al(6-8) r1(2) s1(2) f2 by (auto simp: ready_def table_safe_def entry_byte_of_def)
  have own: "own_page f c s2"
    using al(2-5,7) r1(2) f2 by (auto simp: own_page_def table_safe_def entry_byte_of_def)
  let ?t = "s2\<lparr>mem := m\<rparr>"
  have fr: "file_frame f s2 ?t" using m(2) by (rule file_frame_mem)
  have ok3: "fs_ok bus view ?t" using r2 by (simp add: ready_def)
  note r3 = ready_file [OF r2 ok3 fr own]
  have "get_next_cluster c s2 = get_next_cluster c s1"
    using r1(2) al(9) f2 by (intro next_cluster_cong) (auto simp: table_safe_def)
  then have g: "get_next_cluster c ?t = get_next_cluster c s" using r3(4) f1(8) by simp
  have "own_page f c ?t" using own r3(2) by (simp add: own_page_def entry_byte_of_def)
  moreover have tc: "to_come (Suc n) s f"
  proof -
    have "held n s2 (V2P f)" using al(8) by blast
    then show ?thesis using al(3,4) by (simp add: to_come_def page_frame_aligned io(3)) (simp add: held_def)
  qed
  moreover have "kept (touched c (Suc n) s) s ?t"
  proof -
    have "m x = mem s x" if "\<not> touched c (Suc n) s x" for x
    proof -
      have "page_frame x \<noteq> f" using that tc al(3) by (auto simp: touched_def to_come_def page_frame_aligned)
      then have "\<not> in_range f 276 x" using handle_byte [OF al(3)] by blast
      with that show ?thesis using m(2) al(9) io(2) f1(1) by (simp add: touched_def)
    qed
    then show ?thesis using r3(2) al(7) io(2) f2 f1(2) fs_more_pmm [OF al(12)] io_only_more [OF s1(1)] by (simp add: kept_def)
  qed
  ultimately show thesis using r3(1) s1(3) f2 g by (intro that [OF m(1) _ m(3)]) simp_all
qed

section \<open>A file of one cluster\<close>

text \<open>The areas of the volume follow each other, and the clusters the table can name lie on the drive.\<close>

definition volume_ok :: "FAT12_MountInfo \<Rightarrow> bool" where
  "volume_ok m \<longleftrightarrow> layout_ok m \<and> unat (root_start m) + unat (root_size m) \<le> unat (data_start m) \<and>
     unat (data_start m) + 4084 * unat (sectors_per_cluster m) < 2 ^ 28"

lemma data_sector:
  assumes "volume_ok m" "2 \<le> unat c" "unat c < 4084"
  shows "unat (root_start m) + unat (root_size m) \<le> sector_index (cluster_lba c m)"
proof -
  let ?k = "(unat c - 2) * unat (sectors_per_cluster m)"
  have "(uint c - 2) * uint (sectors_per_cluster m) = int ?k" using assms(2) by simp
  then have l: "cluster_lba c m = data_start m + of_nat ?k" unfolding cluster_lba_def by (simp only: of_int_of_nat_eq)
  have "?k \<le> 4084 * unat (sectors_per_cluster m)" using assms(3) by (intro mult_right_mono) simp_all
  moreover have "unat (data_start m) + 4084 * unat (sectors_per_cluster m) < 2 ^ 28"
    using assms(1) by (simp add: volume_ok_def)
  ultimately have "unat (data_start m) + ?k < 2 ^ 28" by linarith
  from sector_index_add [OF this] show ?thesis using assms(1) unfolding l by (simp add: volume_ok_def)
qed

text \<open>No entry of that name, a free entry, and \<open>c\<close> the first free cluster.\<close>

definition room_for :: "('d \<Rightarrow> pc) \<Rightarrow> u8 list \<Rightarrow> u16 \<Rightarrow> ('d, 'z) fs_scheme \<Rightarrow> bool" where
  "room_for view xs c s \<longleftrightarrow> volume_ok (mount_info s) \<and> dir_lookup (dos_8_3 xs) (directory view s) = None \<and>
     (\<exists>e \<in> set (directory view s). e ! 0 = 0) \<and> find_free_cluster s = c \<and> c \<noteq> 0"

text \<open>The directory has the name, its cluster is \<open>c\<close> and the only one, and its sector holds the data.\<close>

definition listed :: "('d \<Rightarrow> pc) \<Rightarrow> u8 list \<Rightarrow> u16 \<Rightarrow> u32 \<Rightarrow> ('d, 'z) fs_scheme \<Rightarrow> bool" where
  "listed view xs c sz s \<longleftrightarrow> 2 \<le> unat c \<and> unat c < 4084 \<and> volume_ok (mount_info s) \<and> get_next_cluster c s = FAT12_EOF \<and>
     (\<exists>e. dir_lookup (dos_8_3 xs) (directory view s) = Some e \<and> buf16 e 26 = c \<and> buf32 e 28 = sz)"

lemma listed_cong:
  assumes "listed view xs c sz s" "mount_info t = mount_info s" "get_next_cluster c t = get_next_cluster c s"
    "directory view t = directory view s"
  shows "listed view xs c sz t"
  using assms by (simp add: listed_def)

lemma listed_chain: "listed view xs c sz s \<Longrightarrow> chain_of s c [c]"
  by (simp add: listed_def word_less_nat_alt)

lemma create_ready:
  fixes s :: "('d, 'z) fs_scheme"
  assumes "ready bus view c n s" "c_string filename xs" "room_for view xs c s" "0 < sz" "sz \<le> 0xFFFFFE00"
  obtains s' where "fat12_create bus filename sz s = Inr (0, s')" "ready bus view c n s'" "listed view xs c sz s'" "kept (touched c n s) s s'"
    "held n s' = held n s"
proof -
  have fs: "fs_ok bus view s" and safe: "table_safe c n s" using assms(1) by (simp_all add: ready_def)
  from assms(3) have room: "volume_ok (mount_info s)" "dir_lookup (dos_8_3 xs) (directory view s) = None"
    "find_free_cluster s = c" "c \<noteq> 0" "\<exists>e \<in> set (directory view s). e ! 0 = 0" by (simp_all add: room_for_def)
  obtain pre e post where e: "directory view s = pre @ e # post" "e ! 0 = 0" "\<forall>d \<in> set pre. d ! 0 \<noteq> 0"
    using split_list_first_prop [OF room(5)] by blast
  have lay: "layout_ok (mount_info s)" using room(1) by (simp add: volume_ok_def)
  have l32: "length e = 32" using directory_entry_length [OF fs, of e] e(1) by simp
  let ?e = "new_entry (dos_8_3 xs) c sz e"
  obtain s' m where s': "fat12_create bus filename sz s = Inr (0, s')" "fs_ok bus view s'" "mount_info s' = mount_info s"
    "directory view s' = pre @ ?e # post" "get_next_cluster c s' = FAT12_EOF" "io_only (s\<lparr>mem := m\<rparr>) s'" "entry_frame c s m"
    using fat12_create_spec [OF fs assms(2) lay room(2) e(1,3,2) room(3,4) assms(4,5)] by metis
  have m: "mem s' x = mem s x" if "kernel_byte s x" for x
    using that safe s'(7) io_only_fields(1) [OF s'(6)] by (auto simp: entry_frame_def table_safe_def entry_byte_of_def)
  have "same_kernel s s'"
    by (rule same_kernel_frames(4) [OF same_kernel_frames(3) same_kernel_frames(1) [OF s'(6)]])
  note r = ready_transfer [OF assms(1) s'(2) this m]
  have "kept (touched c n s) s s'"
    using r(2) s'(3,7) io_only_more [OF s'(6)] io_only_fields(1) [OF s'(6)]
    by (auto simp: kept_def touched_def entry_frame_def entry_byte_of_def)
  moreover have "dir_lookup (dos_8_3 xs) (directory view s') = Some ?e"
    using created_lookup [OF _ room(2) [unfolded e(1)] e(3,2) l32, of c sz] assms(2) by (simp add: s'(4) c_string_def)
  then have "listed view xs c sz s'"
    using find_free_cluster_range [of s] room s'(3,5) new_entry_fields(3,4) [OF dos_8_3_length l32]
    by (simp add: listed_def)
  ultimately show thesis using s'(1) r(1,3) by (intro that)
qed

text \<open>Opening, writing and reading such a file.\<close>

lemma open_listed:
  fixes s :: "('d, 'z) fs_scheme"
  assumes "ready bus view c (Suc n) s" "c_string filename xs" "listed view xs c sz s"
  obtains f s' where "fat12_open bus filename s = Inr (f, s')" "own_page f c s'" "handle f c c sz 0 0 s'"
    "ready bus view c n s'" "listed view xs c sz s'" "disk_content view s' = disk_content view s"
    "kept (touched c (Suc n) s) s s'" "to_come (Suc n) s f"
proof -
  obtain e where e: "dir_lookup (dos_8_3 xs) (directory view s) = Some e" "buf16 e 26 = c" "buf32 e 28 = sz"
    using assms(3) by (auto simp: listed_def)
  show thesis
  proof (rule open_ready [OF assms(1,2) e(1,2)], goal_cases)
    case (1 f s')
    have "listed view xs c sz s'" using 1 by (intro listed_cong [OF assms(3)] directory_cong) (simp_all add: kept_def)
    with 1 show ?case unfolding e(3) by (intro that [of f s'])
  qed
qed

lemma directory_upto:
  assumes "layout_ok (mount_info s)" "mount_info t = mount_info s"
    and "\<And>j. j < unat (root_start (mount_info s)) + unat (root_size (mount_info s)) \<Longrightarrow> disk_content view t j = disk_content view s j"
  shows "directory view t = directory view s"
proof -
  have "sector_index (root_start (mount_info s) + of_nat k) = unat (root_start (mount_info s)) + k"
    if "k < unat (root_size (mount_info s))" for k
    using that assms(1) by (intro sector_index_add) (simp add: layout_ok_def)
  with assms(2,3) show ?thesis
    unfolding directory_def root_entries_from_def by (intro arg_cong [of _ _ concat] map_cong) auto
qed

lemma write_listed:
  fixes s :: "('d, 'z) fs_scheme"
  assumes "ready bus view c n s" "listed view xs c sz s" "own_page f c s" "handle f c c sz 0 0 s"
    and "length data = unat sz" "unat sz \<le> 512" "sz \<noteq> 0"
  obtains r s' where "fat12_write bus f data sz s = Inr (r, s')" "ready bus view c n s'" "listed view xs c sz s'"
    "disk_content view s' (lba_of s' c) = data @ replicate (512 - length data) 0" "kept (\<lambda>x. page_frame x = f) s s'"
proof -
  have fs: "fs_ok bus view s" using assms(1) by (simp add: ready_def)
  have f0: "f \<noteq> 0" using assms(3) by (simp add: own_page_def)
  have ch: "chain_of s (file_first_cluster f s) [c]" using assms(2,4) listed_chain by (simp add: handle_def)
  obtain r s' where s': "fat12_write bus f data sz s = Inr (r, s')" "file_frame f s s'" "fs_ok bus view s'"
    "disk_content view s' = put_chunks (lba_of s) [c] (take (unat sz) data) (disk_content view s)"
    using fat12_write_spec [OF fs f0 ch own_page_apart [OF assms(3)], of sz data] assms(5) by auto
  have len: "length data \<le> 512" using assms(5,6) by simp
  have ne: "data \<noteq> []" using assms(5,7) unat_eq_zero [of sz] by auto
  have d: "disk_content view s' = (disk_content view s)(lba_of s c := data @ replicate (512 - length data) 0)"
    using len ne by (simp add: s'(4) assms(5) [symmetric])
  note r = ready_file [OF assms(1) s'(3,2) assms(3)]
  have "unat (root_start (mount_info s)) + unat (root_size (mount_info s)) \<le> lba_of s c"
    using assms(2) by (intro data_sector) (simp_all add: listed_def)
  then have "directory view s' = directory view s"
    using assms(2) by (intro directory_upto) (simp_all add: d file_frame_fields(1) [OF s'(2)] listed_def volume_ok_def)
  then have "listed view xs c sz s'"
    using listed_cong [OF assms(2) file_frame_fields(1) [OF s'(2)] r(4)] by simp
  moreover have "fs.more s' = fs.more s" using s'(2) by (auto simp: file_frame_def)
  moreover have "mem s' x = mem s x" if "page_frame x \<noteq> f" for x
    using that handle_byte [of f x] assms(3) by (intro file_frame_fields(2) [OF s'(2)]) (auto simp: own_page_def)
  ultimately show thesis using s'(1) r(1) by (intro that [of r s']) (simp_all add: d kept_def r(2) file_frame_fields(1) [OF s'(2)])
qed

lemma read_listed:
  fixes s :: "('d, 'z) fs_scheme"
  assumes "ready bus view c n s" "listed view xs c sz s" "own_page f c s" "handle f c c sz 0 0 s"
    and "length buf = unat sz" "unat sz \<le> 512" "sz \<noteq> 0"
  obtains r s' where "fat12_read bus f buf sz s = Inr ((r, take (unat sz) (disk_content view s (lba_of s c))), s')" "fs_ok bus view s'"
proof -
  have fs: "fs_ok bus view s" using assms(1) by (simp add: ready_def)
  have f0: "f \<noteq> 0" using assms(3) by (simp add: own_page_def)
  have ch: "chain_of s (file_current_cluster f s) [c]" using assms(2,4) listed_chain by (simp add: handle_def)
  let ?got = "get_chunks (lba_of s) [c] (unat sz) (disk_content view s)"
  have got: "?got = take (unat sz) (disk_content view s (lba_of s c))" using assms(7) by (simp add: unat_eq_zero)
  have len: "length ?got = unat sz" using assms(6) fs_ok_content [OF fs] by (simp add: got)
  have n: "unat sz = min (unat sz) (unat (file_file_size f s - file_position f s))" "unat sz \<le> length buf"
    and e: "file_eof f s = 0"
    using assms(4,5) by (simp_all add: handle_def)
  from fat12_read_spec [OF fs f0 e ch own_page_apart [OF assms(3)] n refl] obtain r s' where
    "fat12_read bus f buf sz s = Inr ((r, ?got @ drop (length ?got) buf), s')" "fs_ok bus view s'" by blast
  moreover have "drop (length ?got) buf = []" using assms(5) len by simp
  ultimately show thesis by (intro that [of r s']) (simp_all only: got append_Nil2)
qed

section \<open>The commands\<close>

lemma vformat_text:
  fixes s :: "('d, 'z) io_scheme"
  assumes "pc_conforms bus view" "terminal_ok (terminal_of view s)" "render fmt args = Some xs" "8 \<notin> set xs"
  obtains s' where "vformat_print bus fmt args color s = Inr ((), s')" "screen_only view s s'"
    "terminal_of view s' = text_puts xs color (terminal_of view s)"
  using put_chars_terminal [OF assms(1,2,4)] vformat_renders [OF assms(3)] by metis

lemma file_name_string:
  "0 \<notin> set xs \<Longrightarrow> length xs < n \<Longrightarrow> c_string (after_array (xs @ replicate (n - length xs) 0) beyond) xs"
  by (auto simp: c_string_def after_array_def nth_append)

lemma array_string_padded: "0 \<notin> set xs \<Longrightarrow> 0 < n \<Longrightarrow> array_string (xs @ replicate n 0) = Inr xs"
  by (auto simp: array_string_def takeWhile_append)

text \<open>The name up to the blank, and the text after it.\<close>

lemma copy_name:
  assumes "mem_string m p (name @ 32 # rest)" "32 \<notin> set name" "length name < n"
  shows "copy_until (\<lambda>c. c = 32) m p (replicate n 0) 0
    = Inr (name @ replicate (n - length name) 0, int (length name), p + of_nat (length name))"
proof -
  have "rd_bytes m p (length name) = name" "m (p + of_nat (length name)) = 32"
    using assms(1) by (simp_all add: mem_string_append mem_string_Cons)
  then have "copy_until (\<lambda>c. c = 32) m p (replicate n 0) (int 0)
      = Inr (take 0 (replicate n 0) @ name @ drop (0 + length name) (replicate n 0), int (0 + length name), p + of_nat (length name))"
    using assms(2,3) by (intro copy_until_eq) auto
  then show ?thesis by simp
qed

lemma copy_text:
  assumes "mem_string m p text" "length text < n"
  shows "copy_until (\<lambda>c. c = 0) m p (replicate n 0) 0
    = Inr (text @ replicate (n - length text) 0, int (length text), p + of_nat (length text))"
proof -
  have "copy_until (\<lambda>c. c = 0) m p (replicate n 0) (int 0)
      = Inr (take 0 (replicate n 0) @ text @ drop (0 + length text) (replicate n 0), int (0 + length text), p + of_nat (length text))"
    using assms by (intro copy_until_eq) (auto simp: mem_string_def)
  then show ?thesis by simp
qed

lemma create_cmd:
  fixes s :: "('d, 'z) cpu_scheme"
  assumes "ready bus view c (Suc n) s" "room_for view name c s"
    and args: "mem_string (mem s) p (name @ 32 # text)" "32 \<notin> set name" "length name < 12" "length text < 256" "8 \<notin> set name"
  obtains s' where "cmd_create_file bus beyond p s = Inr ((), s')" "ready bus view c n s'" "listed view name c 256 s'"
    "take 256 (disk_content view s' (lba_of s' c)) = text @ replicate (256 - length text) 0" "kept (touched c (Suc n) s) s s'"
proof -
  let ?name = "name @ replicate (12 - length name) 0" and ?text = "text @ replicate (256 - length text) 0"
  have str: "0 \<notin> set name" "mem_string (mem s) (p + of_nat (length name) + 1) text"
    using args(1) by (simp_all add: mem_string_append mem_string_Cons)
  note fn = file_name_string [OF str(1) args(3), of beyond]
  have sz: "0 < (256 :: u32)" "(256 :: u32) \<le> 0xFFFFFE00" by simp_all
  obtain s1 where s1: "fat12_create bus (after_array ?name beyond) 256 s = Inr (0, s1)" "ready bus view c (Suc n) s1"
    "listed view name c 256 s1" "kept (touched c (Suc n) s) s s1" "held (Suc n) s1 = held (Suc n) s"
    by (rule create_ready [OF assms(1) fn assms(2) sz])
  obtain f s2 where s2: "fat12_open bus (after_array ?name beyond) s1 = Inr (f, s2)" "own_page f c s2" "handle f c c 256 0 0 s2"
    "ready bus view c n s2" "listed view name c 256 s2" "disk_content view s2 = disk_content view s1"
    "kept (touched c (Suc n) s1) s1 s2" "to_come (Suc n) s1 f"
    by (rule open_listed [OF s1(2) fn s1(3)])
  have tl: "length ?text = unat (256 :: u32)" "unat (256 :: u32) \<le> 512" "(256 :: u32) \<noteq> 0" using args(4) by simp_all
  obtain r s3 where s3: "fat12_write bus f ?text 256 s2 = Inr (r, s3)" "ready bus view c n s3" "listed view name c 256 s3"
    "disk_content view s3 (lba_of s3 c) = ?text @ replicate (512 - length ?text) 0" "kept (\<lambda>x. page_frame x = f) s2 s3"
    by (rule write_listed [OF s2(4,5,2,3) tl])
  have ok3: "fs_ok bus view s3" using s3(2) by (simp add: ready_def)
  then have t3: "pc_conforms bus view" "terminal_ok (terminal_of view s3)" using fs_ok_conforms by (auto simp: fs_ok_def)
  obtain s4 where s4: "vformat_print bus (cs ''\<newline>File %s Created\<newline>'') [VStr name] 14 s3 = Inr ((), s4)" "screen_only view s3 s4"
    by (rule vformat_text [OF t3, of "cs ''\<newline>File %s Created\<newline>''" "[VStr name]"
      "cs ''\<newline>File '' @ name @ cs '' Created\<newline>''" 14]) (use args(5) in \<open>simp_all add: cs_def\<close>)
  have run: "cmd_create_file bus beyond p s = Inr ((), s4)"
    using copy_name [OF args(1,2,3)] copy_text [OF str(2) args(4)] array_string_padded [OF str(1), of "12 - length name"]
      args(3) s1(1) s2(1) s3(1) s4(1)
    by (simp add: cmd_create_file_def printk_color_def)
  note io = screen_io [OF s4(2) ok3]
  have "listed view name c 256 s4"
    using io_only_fields [OF io(1)] io(3) by (intro listed_cong [OF s3(3)] directory_cong) simp_all
  moreover have "take 256 (disk_content view s4 (lba_of s4 c)) = ?text"
    using tl(1) s3(4) by (simp add: io(3) io_only_fields(2) [OF io(1)])
  moreover have "kept (touched c (Suc n) s) s s4"
  proof -
    have t: "touched c (Suc n) s1 = touched c (Suc n) s"
      using s1(4,5) by (simp add: fun_eq_iff touched_def kept_def entry_byte_of_def to_come_def)
    have "touched c (Suc n) s x" if "page_frame x = f" for x
      using that s2(2,8) s1(5) by (simp add: touched_def to_come_def own_page_def page_frame_aligned)
    then have "kept (touched c (Suc n) s) s2 s3" by (rule kept_mono [OF s3(5)])
    then show ?thesis using s1(4) s2(7) io_kept [OF s3(2) io(2,1)] kept_trans unfolding t by blast
  qed
  ultimately show thesis using run ready_io(1) [OF s3(2) io(2,1)] by (intro that [of s4])
qed

text \<open>What \<open>cat\<close> prints for a file of that name and content.\<close>

definition shown :: "u8 list \<Rightarrow> u8 list \<Rightarrow> u8 list" where
  "shown name text = cs ''\<newline>File '' @ name @ cs '' Contents :- \<newline>'' @ text @ cs ''\<newline>File Ended\<newline>''"

lemma cat_cmd:
  fixes s :: "('d, 'z) cpu_scheme"
  assumes "ready bus view c (Suc n) s" "listed view name c 256 s"
    and content: "take 256 (disk_content view s (lba_of s c)) = text @ replicate (256 - length text) 0" "length text < 256"
    and args: "mem_string (mem s) p (name @ 32 # rest)" "32 \<notin> set name" "length name < 12"
    and chars: "8 \<notin> set name" "8 \<notin> set text" "0 \<notin> set text"
  obtains T s' where "cmd_cat bus beyond p s = Inr ((), s')" "terminal_ok T"
    "terminal_of view s' = text_puts (shown name text) WHITE_ON_BLACK T"
proof -
  let ?name = "name @ replicate (12 - length name) 0" and ?text = "text @ replicate (256 - length text) 0"
  have str: "0 \<notin> set name" using args(1) by (simp add: mem_string_append)
  obtain f s1 where s1: "fat12_open bus (after_array ?name beyond) s = Inr (f, s1)" "own_page f c s1" "handle f c c 256 0 0 s1"
    "ready bus view c n s1" "listed view name c 256 s1" "disk_content view s1 = disk_content view s"
    "kept (touched c (Suc n) s) s s1" "to_come (Suc n) s f"
    by (rule open_listed [OF assms(1) file_name_string [OF str args(3)] assms(2)])
  have sz: "length (replicate 256 (0 :: u8)) = unat (256 :: u32)" "unat (256 :: u32) \<le> 512" "(256 :: u32) \<noteq> 0" by simp_all
  obtain r s2 where s2: "fat12_read bus f (replicate 256 0) 256 s1
      = Inr ((r, take (unat (256 :: u32)) (disk_content view s1 (lba_of s1 c))), s2)" "fs_ok bus view s2"
    by (rule read_listed [OF s1(4,5,2,3) sz])
  have got: "take (unat (256 :: u32)) (disk_content view s1 (lba_of s1 c)) = ?text"
    using s1(6,7) content(1) by (simp add: kept_def)
  have ok2: "pc_conforms bus view" "terminal_ok (terminal_of view s2)" using s2(2) fs_ok_conforms by (auto simp: fs_ok_def)
  let ?head = "cs ''\<newline>File '' @ name @ cs '' Contents :- \<newline>''"
  obtain s3 where s3: "vformat_print bus (cs ''\<newline>File %s Contents :- \<newline>'') [VStr name] WHITE_ON_BLACK s2 = Inr ((), s3)" "screen_only view s2 s3"
    "terminal_of view s3 = text_puts ?head WHITE_ON_BLACK (terminal_of view s2)"
    by (rule vformat_text [OF ok2, of "cs ''\<newline>File %s Contents :- \<newline>''" "[VStr name]" ?head WHITE_ON_BLACK])
      (use chars(1) in \<open>simp_all add: cs_def\<close>)
  obtain s4 where s4: "vformat_print bus (cs ''%s'') [VStr text] WHITE_ON_BLACK s3 = Inr ((), s4)" "screen_only view s3 s4"
    "terminal_of view s4 = text_puts text WHITE_ON_BLACK (terminal_of view s3)"
    by (rule vformat_text [OF ok2(1) screen_only_ok [OF s3(2)], of "cs ''%s''" "[VStr text]" "text" WHITE_ON_BLACK])
      (use chars(2) in \<open>simp_all add: cs_def\<close>)
  obtain s5 where s5: "vformat_print bus (cs ''\<newline>File Ended\<newline>'') [] WHITE_ON_BLACK s4 = Inr ((), s5)" "screen_only view s4 s5"
    "terminal_of view s5 = text_puts (cs ''\<newline>File Ended\<newline>'') WHITE_ON_BLACK (terminal_of view s4)"
    by (rule vformat_text [OF ok2(1) screen_only_ok [OF s4(2)], of "cs ''\<newline>File Ended\<newline>''" "[]"
      "cs ''\<newline>File Ended\<newline>''" WHITE_ON_BLACK]) (simp_all add: cs_def)
  have "cmd_cat bus beyond p s = Inr ((), s5)"
    using copy_name [OF args] array_string_padded [OF str, of "12 - length name"]
      array_string_padded [OF chars(3), of "256 - length text"] args(3) content(2) s1(1) s2(1) [unfolded got] s3(1) s4(1) s5(1)
    by (simp add: cmd_cat_def printk_def)
  moreover have "terminal_of view s5 = text_puts (shown name text) WHITE_ON_BLACK (terminal_of view s2)"
    using s3(3) s4(3) s5(3) by (simp add: shown_def text_puts_def)
  ultimately show thesis using ok2(2) by (intro that)
qed

text \<open>
  What may happen between two commands: the screen, the keyboard and the user's memory change, but
  neither the memory manager, nor the volume, nor the bytes that matter to the file.
\<close>

definition undisturbed :: "('d \<Rightarrow> pc) \<Rightarrow> u16 \<Rightarrow> ('d, 'z) fs_scheme \<Rightarrow> ('d, 'z) fs_scheme \<Rightarrow> bool" where
  "undisturbed view c s t \<longleftrightarrow> same_kernel s t \<and> disk_content view t = disk_content view s \<and>
     (\<forall>x. kernel_byte s x \<or> entry_byte_of c s x \<longrightarrow> mem t x = mem s x)"

lemma undisturbed_file:
  assumes "undisturbed view c s t" "ready bus view c n s" "listed view name c sz s" "fs_ok bus view t"
  shows "ready bus view c n t" "listed view name c sz t" "disk_content view t (lba_of t c) = disk_content view s (lba_of s c)"
proof -
  have k: "same_kernel s t" "disk_content view t = disk_content view s" "mount_info t = mount_info s"
    and m: "\<And>x. kernel_byte s x \<or> entry_byte_of c s x \<Longrightarrow> mem t x = mem s x"
    using assms(1) by (auto simp: undisturbed_def same_kernel_def)
  show "ready bus view c n t" using m by (intro ready_transfer(1) [OF assms(2,4) k(1)]) simp
  have "get_next_cluster c t = get_next_cluster c s" using m by (intro next_cluster_cong [OF k(3)]) simp
  then show "listed view name c sz t" using k by (intro listed_cong [OF assms(3)] directory_cong) simp_all
  show "disk_content view t (lba_of t c) = disk_content view s (lba_of s c)" by (simp add: k)
qed

text \<open>The two commands as the interpreter runs them.\<close>

lemma create_line:
  fixes s :: "('d, 'z) cpu_scheme"
  assumes "ready bus view c 2 s" "room_for view name c s"
    and "command_line (mem s) a i (cs ''create'') j (name @ 32 # text)"
    and "32 \<notin> set name" "length name < 12" "length text < 256" "8 \<notin> set name"
  obtains s1 where "process_cmd bus beyond a s = Inr (0, s1)" "ready bus view c 1 s1" "listed view name c 256 s1"
    "take 256 (disk_content view s1 (lba_of s1 c)) = text @ replicate (256 - length text) 0" "kept (touched c 2 s) s s1"
proof -
  have words: "selected (cs ''create'') = Some ''create''" "length (cs ''create'') < 20" "0 \<notin> set (cs ''create'')"
    by (simp_all add: selected_def cmd_names_def cs_def)
  have r: "ready bus view c (Suc 1) s" using assms(1) by (simp add: numeral_2_eq_2)
  obtain s1 where s1: "cmd_create_file bus beyond (args_at a i (cs ''create'') j) s = Inr ((), s1)" "ready bus view c 1 s1"
    "listed view name c 256 s1" "take 256 (disk_content view s1 (lba_of s1 c)) = text @ replicate (256 - length text) 0"
    "kept (touched c (Suc 1) s) s s1"
    by (rule create_cmd [OF r assms(2) command_line_parts(9) [OF assms(3)] assms(4-7)])
  have "process_cmd bus beyond a s = Inr (0, s1)"
    by (simp add: process_cmd_eq [OF assms(3) words(2)] run_cmd_eq [OF words(2,3)] words(1) s1(1))
  with s1(2-) show thesis by (intro that) (simp_all add: numeral_2_eq_2)
qed

lemma cat_line:
  fixes t :: "('d, 'z) cpu_scheme"
  assumes "ready bus view c 1 s" "listed view name c 256 s"
    and "take 256 (disk_content view s (lba_of s c)) = text @ replicate (256 - length text) 0"
    and t: "fs_ok bus view t" "undisturbed view c s t" "command_line (mem t) b i (cs ''cat'') j (name @ 32 # rest)"
    and "32 \<notin> set name" "length name < 12" "length text < 256" "8 \<notin> set name" "8 \<notin> set text" "0 \<notin> set text"
  shows "\<exists>T s2. process_cmd bus beyond b t = Inr (0, s2) \<and> terminal_ok T \<and>
    terminal_of view s2 = text_puts (shown name text) WHITE_ON_BLACK T"
proof -
  have words: "selected (cs ''cat'') = Some ''cat''" "length (cs ''cat'') < 20" "0 \<notin> set (cs ''cat'')"
    by (simp_all add: selected_def cmd_names_def cs_def)
  note u = undisturbed_file [OF t(2) assms(1,2) t(1)]
  obtain T s2 where s2: "cmd_cat bus beyond (args_at b i (cs ''cat'') j) t = Inr ((), s2)" "terminal_ok T"
    "terminal_of view s2 = text_puts (shown name text) WHITE_ON_BLACK T"
    by (rule cat_cmd [OF u(1) [unfolded One_nat_def] u(2) _ assms(9) command_line_parts(9) [OF t(3)] assms(7,8,10-12)])
      (use u(3) assms(3) in simp)
  have "process_cmd bus beyond b t = Inr (0, s2)"
    by (simp add: process_cmd_eq [OF t(3) words(2)] run_cmd_eq [OF words(2,3)] words(1) s2(1))
  with s2 show ?thesis by blast
qed

section \<open>Properties of the commands\<close>

text \<open>
  C2: What the command \<open>create\<close> stores, the command \<open>cat\<close> shows: on a mounted volume with room for the
  file, \<open>create\<close> with a name of at most 11 characters and a text of at most 255 answers 0, and when
  later, whatever has happened to the screen, the keyboard and the user's memory in between, \<open>cat\<close> is
  given the name and a blank, it answers 0 and its last output is the name and exactly that text.
\<close>

theorem create_then_cat:
  fixes s :: "('d, 'z) cpu_scheme"
  assumes "ready bus view c 2 s" "room_for view name c s"
    and "command_line (mem s) a i (cs ''create'') j (name @ 32 # text)"
    and "32 \<notin> set name" "length name < 12" "length text < 256" "8 \<notin> set name" "8 \<notin> set text"
  shows "\<exists>s1. process_cmd bus beyond a s = Inr (0, s1) \<and> fs_ok bus view s1 \<and> kept (touched c 2 s) s s1 \<and>
    (\<forall>t b i' j' rest beyond'.
       fs_ok bus view t \<and> undisturbed view c s1 t \<and> command_line (mem t) b i' (cs ''cat'') j' (name @ 32 # rest) \<longrightarrow>
       (\<exists>T s2. process_cmd bus beyond' b t = Inr (0, s2) \<and> terminal_ok T \<and>
          terminal_of view s2 = text_puts (shown name text) WHITE_ON_BLACK T))"
proof -
  note str = command_line_parts(9) [OF assms(3)]
  have t0: "0 \<notin> set text" using str by (simp add: mem_string_def)
  obtain s1 where s1: "process_cmd bus beyond a s = Inr (0, s1)" "ready bus view c 1 s1" "listed view name c 256 s1"
    "take 256 (disk_content view s1 (lba_of s1 c)) = text @ replicate (256 - length text) 0" "kept (touched c 2 s) s s1"
    by (rule create_line [OF assms(1-7)])
  have "fs_ok bus view s1" using s1(2) by (simp add: ready_def)
  with s1(1,5) cat_line [OF s1(2-4) _ _ _ assms(4-8) t0] show ?thesis by blast
qed

text \<open>The demo machine, with a command line at 0x5000.\<close>

definition demo_shop :: "u8 list \<Rightarrow> (u8 \<times> pc) cpu" where
  "demo_shop xs = (demo_cpu [])\<lparr>mem := wr_bytes (mem demo_fs) 0x5000 (xs @ [0])\<rparr>"

lemma demo_shop_fields:
  "mem_mngr (demo_shop xs) = mem_mngr demo_vmm" "mem_mngr_max_blocks (demo_shop xs) = mem_mngr_max_blocks demo_vmm"
  "mem_mngr_used_blocks (demo_shop xs) = mem_mngr_used_blocks demo_vmm" "cur_directory (demo_shop xs) = cur_directory demo_vmm"
  "mount_info (demo_shop xs) = mount_info demo_fs" "sector_buffer (demo_shop xs) = replicate 512 0"
  "dev (demo_shop xs) = (0, demo_pc)" "vidmem (demo_shop xs) = replicate 4000 0"
  "mem (demo_shop xs) = wr_bytes (mem demo_fs) 0x5000 (xs @ [0])"
  by (simp_all add: demo_shop_def demo_cpu_def irq.defs cpu.defs demo_irq_def kbd.defs demo_kbd_def)
    (simp_all add: demo_fs_def vmm.defs)

lemma demo_user_bytes: "length xs < 4096 \<Longrightarrow> in_range 0x5000 (Suc (length xs)) x \<Longrightarrow> unat x < 0x6000"
  using unat_lt32 [of x] by (auto simp: in_range_def unat_sub_if' split: if_splits)

lemma demo_kernel_byte: "kernel_byte demo_vmm x \<Longrightarrow> page_frame x \<in> {0xC0001000, 0xC0002000, 0xC0005000}"
  using P2V_V2P by (auto simp: kernel_byte_def structural_def demo_pde P2V_def V2P_def dest!: demo_bitmap_byte split: if_splits)

lemma demo_vm: "vm_ok 2 demo_vmm"
proof -
  have l: "frame_limit demo_vmm = 64" by (simp add: frame_limit_def)
  have "dir_index (P2V p) = 768" if "unat p div 4096 < 64" for p
  proof -
    have "unat (P2V p) = unat p + 0xC0000000"
      using that unfolding P2V_def by (subst unat_plus_simple [THEN iffD1]) (simp_all add: word_le_nat_alt unat_word_ariths)
    then show ?thesis using that by (simp add: dir_index_def)
  qed
  moreover have "entry (mem demo_vmm) 0xC0002000 (table_index va) = 0" for va by (simp add: demo_table_zero)
  moreover have "unat (frame_addr f) div 4096 < 64" if "f < 64" for f
    using that unat_frame_addr [of f] by simp
  ultimately have "has_table demo_vmm f" if "f < 64" for f
    using that by (simp add: has_table_def demo_pde pte_of_def P2V_def)
  moreover have "spare 2 demo_vmm"
  proof -
    have "{3, 4} \<subseteq> {f. f < frame_limit demo_vmm \<and> \<not> frame_bit demo_vmm f}" by (auto simp: l demo_vmm_bit)
    then have "card {3 :: nat, 4} \<le> card {f. f < frame_limit demo_vmm \<and> \<not> frame_bit demo_vmm f}" by (intro card_mono) simp_all
    then show ?thesis by (simp add: spare_def get_free_block_count_def)
  qed
  ultimately show ?thesis using demo_space by (simp add: vm_ok_def next_frames_def l)
qed

text \<open>Any state that has the demo machine's volume and memory manager, whatever is in low memory.\<close>

lemma demo_ready:
  fixes s :: "(u8 \<times> pc, 'z) fs_scheme"
  assumes f: "mem_mngr s = mem_mngr demo_vmm" "mem_mngr_max_blocks s = mem_mngr_max_blocks demo_vmm"
    "mem_mngr_used_blocks s = mem_mngr_used_blocks demo_vmm" "cur_directory s = cur_directory demo_vmm"
    "mount_info s = mount_info demo_fs" "sector_buffer s = replicate 512 0" "dev s = (0, demo_pc)" "vidmem s = replicate 4000 0"
    and m: "\<And>x. 0x8000 \<le> unat x \<Longrightarrow> mem s x = mem demo_fs x"
  shows "ready demo_kbus snd 2 2 s" "room_for snd (cs ''a.txt'') 2 s" "kernel_byte s = kernel_byte demo_vmm"
    "held n s = held n demo_vmm"
proof -
  have kern: "unat (page_frame x) \<le> unat x" for x by (simp add: unat_page_frame)
  have km: "mem s x = mem demo_vmm x" if "kernel_byte demo_vmm x" for x
    using demo_kernel_byte [OF that] kern [of x] by (subst m) auto
  note v = vm_transfer [OF demo_vm f(1-4) km]
  show k: "kernel_byte s = kernel_byte demo_vmm" by (rule v(2))
  show h: "held n s = held n demo_vmm" for n by (rule v(3))
  have fs: "fs_ok demo_kbus snd s"
    by (simp add: fs_ok_def drive_inv_def demo_kbus_conforms drive_ok_def demo_pc_def terminal_ok_def terminal_of_def
      cursor_of_def f)
  have e: "page_frame x = 0xC0006000" "0x8000 \<le> unat x" if "entry_byte_of 2 s x" for x
  proof -
    have "in_range 0xC0006003 2 x"
      using that by (simp add: entry_byte_of_def f fat_offset_def)
    then have x: "unat (0xC0006003 :: u32) \<le> unat x" "unat x < unat (0xC0006003 :: u32) + 2" by (auto dest!: in_range_num)
    then show "0x8000 \<le> unat x" by simp
    from x have "unat (page_frame x) = unat (0xC0006000 :: u32)" by (simp add: unat_page_frame)
    then show "page_frame x = 0xC0006000" by (simp only: word_unat_eq_iff)
  qed
  have "held 2 s (V2P (page_frame x)) \<and> \<not> kernel_byte s x" if "entry_byte_of 2 s x" for x
    using demo_kernel_byte [of x] by (auto simp: e(1) [OF that] k h demo_held V2P_def)
  then have "table_safe 2 2 s" by (simp add: table_safe_def)
  with fs v(1) show "ready demo_kbus snd 2 2 s" by (simp add: ready_def)
  have dc: "disk_content snd s = disk_content (\<lambda>a. a) demo_fs" by (simp add: fun_eq_iff disk_content_def f)
  have dir: "directory snd s = replicate 16 (replicate 32 0)"
    using directory_cong [OF f(5) dc] by (simp add: demo_directory)
  have "get_next_cluster 2 s = get_next_cluster 2 demo_fs"
    using e(2) m by (intro next_cluster_cong f) (simp add: entry_byte_of_def f)
  then have "find_free_cluster s = 2"
    unfolding find_free_cluster_def by (subst free_cluster_from.simps) (simp add: demo_fat)
  then show "room_for snd (cs ''a.txt'') 2 s"
    by (simp add: room_for_def volume_ok_def layout_ok_def f dir dir_lookup_def)
qed

lemma demo_shop_ready:
  assumes "length xs < 4096"
  shows "ready demo_kbus snd 2 2 (demo_shop xs)" "room_for snd (cs ''a.txt'') 2 (demo_shop xs)"
    "kernel_byte (demo_shop xs) = kernel_byte demo_vmm"
proof -
  have m: "mem (demo_shop xs) x = mem demo_fs x" if "0x8000 \<le> unat x" for x
    using that demo_user_bytes [OF assms, of x] assms
    by (subst demo_shop_fields, subst wr_bytes_outside) auto
  note r = demo_ready [OF demo_shop_fields(1-8) [of xs] m]
  show "ready demo_kbus snd 2 2 (demo_shop xs)" "room_for snd (cs ''a.txt'') 2 (demo_shop xs)"
    "kernel_byte (demo_shop xs) = kernel_byte demo_vmm" by (rule r(1), assumption, rule r(2), assumption, rule r(3))
qed

lemma demo_shop_line:
  assumes "0 \<notin> set xs" "length xs < 4096"
  shows "mem_string (wr_bytes m 0x5000 (xs @ [0])) 0x5000 xs"
proof -
  let ?m = "wr_bytes m 0x5000 (xs @ [0])"
  have r: "rd_bytes ?m 0x5000 (Suc (length xs)) = xs @ [0]"
    using rd_bytes_wr_bytes [of "xs @ [0]"] assms(2) by simp
  have "?m (0x5000 + of_nat i) = (xs @ [0]) ! i" if "i \<le> length xs" for i
    using arg_cong [OF r, of "\<lambda>ys. ys ! i"] that by simp
  then have "rd_bytes ?m 0x5000 (length xs) = xs" "?m (0x5000 + of_nat (length xs)) = 0"
    by (auto intro!: nth_equalityI simp: nth_append)
  with assms(1) show ?thesis by (simp add: mem_string_def)
qed

theorem create_then_cat_witness:
  "\<exists>s1 s2 T. process_cmd demo_kbus (\<lambda>_. 0) 0x5000 (demo_shop (cs ''create a.txt hello'')) = Inr (0, s1) \<and>
     process_cmd demo_kbus (\<lambda>_. 0) 0x5000 (s1\<lparr>mem := wr_bytes (mem s1) 0x5000 (cs ''cat a.txt '' @ [0])\<rparr>) = Inr (0, s2) \<and>
     terminal_of snd s2 = text_puts (shown (cs ''a.txt'') (cs ''hello'')) WHITE_ON_BLACK T"
proof -
  let ?create = "cs ''create a.txt hello''" and ?cat = "cs ''cat a.txt ''"
  have len: "length ?create < 4096" "length ?cat < 4096" "0 \<notin> set ?create" "0 \<notin> set ?cat" by (simp_all add: cs_def)
  have split: "cs ''create a.txt hello'' = cs ''create'' @ 32 # (cs ''a.txt'' @ 32 # cs ''hello'')"
    "cs ''cat a.txt '' = cs ''cat'' @ 32 # (cs ''a.txt'' @ 32 # [])" by (simp_all add: cs_def)
  have name: "32 \<notin> set (cs ''a.txt'')" "length (cs ''a.txt'') < 12" "length (cs ''hello'') < 256"
    "8 \<notin> set (cs ''a.txt'')" "8 \<notin> set (cs ''hello'')" by (simp_all add: cs_def)
  have words: "cs ''create'' \<noteq> []" "32 \<notin> set (cs ''create'')" "cs ''cat'' \<noteq> []" "32 \<notin> set (cs ''cat'')"
    "hd (cs ''a.txt'' @ 32 # xs) \<noteq> 32" for xs by (simp_all add: cs_def)
  have l1: "command_line (mem (demo_shop ?create)) 0x5000 0 (cs ''create'') 1 (cs ''a.txt'' @ 32 # cs ''hello'')"
    using demo_shop_line [OF len(3,1)] words by (simp add: command_line_def demo_shop_fields split)
  note shop = demo_shop_ready [OF len(1)]
  from create_then_cat [OF shop(1,2) l1 name, where beyond = "\<lambda>_. 0"] obtain s1 where
    s1: "process_cmd demo_kbus (\<lambda>_. 0) 0x5000 (demo_shop ?create) = Inr (0, s1)" "fs_ok demo_kbus snd s1" "kept (touched 2 2 (demo_shop ?create)) (demo_shop ?create) s1"
    and later: "\<forall>t b i' j' rest beyond'.
       fs_ok demo_kbus snd t \<and> undisturbed snd 2 s1 t \<and> command_line (mem t) b i' (cs ''cat'') j' (cs ''a.txt'' @ 32 # rest) \<longrightarrow>
       (\<exists>T s2. process_cmd demo_kbus beyond' b t = Inr (0, s2) \<and> terminal_ok T \<and>
          terminal_of snd s2 = text_puts (shown (cs ''a.txt'') (cs ''hello'')) WHITE_ON_BLACK T)" by blast
  define t where "t = s1\<lparr>mem := wr_bytes (mem s1) 0x5000 (?cat @ [0])\<rparr>"
  have k: "kernel_byte s1 = kernel_byte demo_vmm" "mount_info s1 = mount_info demo_fs"
    using s1(3) shop(3) by (simp_all add: kept_def demo_shop_fields)
  have "0x6000 \<le> unat x" if "kernel_byte s1 x \<or> entry_byte_of 2 s1 x" for x
  proof -
    have "0x6000 \<le> unat (page_frame x) \<or> in_range 0xC0006003 2 x"
      using that demo_kernel_byte [of x] by (auto simp: k entry_byte_of_def fat_offset_def)
    then show ?thesis by (auto simp: unat_page_frame dest!: in_range_num)
  qed
  then have "mem t x = mem s1 x" if "kernel_byte s1 x \<or> entry_byte_of 2 s1 x" for x
    using that demo_user_bytes [OF len(2), of x] len(2) unfolding t_def
    by (simp, subst wr_bytes_outside) force+
  moreover have "same_kernel s1 t" unfolding t_def by (rule same_kernel_frames(3))
  ultimately have "undisturbed snd 2 s1 t" by (simp add: undisturbed_def t_def)
  moreover have "fs_ok demo_kbus snd t" using s1(2) by (simp add: t_def)
  moreover have "command_line (mem t) 0x5000 0 (cs ''cat'') 1 (cs ''a.txt'' @ 32 # [])"
    using demo_shop_line [OF len(4,2)] words by (simp add: command_line_def t_def split)
  ultimately obtain T s2 where "process_cmd demo_kbus (\<lambda>_. 0) 0x5000 t = Inr (0, s2)"
    "terminal_of snd s2 = text_puts (shown (cs ''a.txt'') (cs ''hello'')) WHITE_ON_BLACK T"
    using later by blast
  with s1(1) show ?thesis unfolding t_def by blast
qed

end
