(* ===== verification/Boot.thy ===== *)
theory Boot
  imports Kernel Vminit Commands
begin

text \<open>
  The boot from end to end: \<open>main\<close> of \<^verbatim>\<open>kernel/kernel.c\<close> takes the machine from the state the boot loader
  leaves to user mode. What the file system, the commands and the shell rely on is established here.
\<close>

section \<open>The frames the memory map frees\<close>

text \<open>The loop over the memory map without its output: a region's type corrected, a region used.\<close>

definition clamp_region :: "u32 \<Rightarrow> 'a pmm_scheme \<Rightarrow> 'a pmm_scheme" where
  "clamp_region r s = (if region_type r s > 4 then set_region_type r 1 s else s)"

definition use_region :: "u32 \<Rightarrow> 'a pmm_scheme \<Rightarrow> 'a pmm_scheme" where
  "use_region r s = (if region_type r s = 1 then init_memory_region (region_startLo r s) (region_sizeLo r s) s else s)"

function map_frames :: "u32 \<Rightarrow> int \<Rightarrow> int \<Rightarrow> 'a pmm_scheme \<Rightarrow> 'a pmm_scheme" where
  "map_frames region i n s =
     (if i < n
      then let r = region + 24 * of_int i; s = clamp_region r s in
        if i > 0 \<and> region_startLo r s = 0 then s else map_frames region (i + 1) n (use_region r s)
      else s)"
  by pat_completeness auto
termination
  by (relation "measure (\<lambda>(region, i, n, s). nat (n - i))") auto

declare map_frames.simps [simp del]

text \<open>The physical memory manager's part of a state decides.\<close>

lemma truncate_fields [simp]:
  "mem (pmm.truncate s) = mem s" "mem_mngr (pmm.truncate s) = mem_mngr s"
  "mem_mngr_max_blocks (pmm.truncate s) = mem_mngr_max_blocks s" "mem_mngr_used_blocks (pmm.truncate s) = mem_mngr_used_blocks s"
  "cr3 (pmm.truncate s) = cr3 s"
  by (simp_all add: pmm.defs)

lemma region_truncate [simp]:
  "region_type r (pmm.truncate s) = region_type r s" "region_startLo r (pmm.truncate s) = region_startLo r s"
  "region_sizeLo r (pmm.truncate s) = region_sizeLo r s"
  "pmm.truncate (set_region_type r v s) = set_region_type r v (pmm.truncate s)"
  by (simp_all add: region_type_def region_startLo_def region_sizeLo_def set_region_type_def) (simp add: pmm.defs)

lemma mmap_truncate:
  "pmm.truncate (mmap_unset b s) = mmap_unset b (pmm.truncate s)" "pmm.truncate (mmap_set b s) = mmap_set b (pmm.truncate s)"
  "pmm.truncate (s\<lparr>mem_mngr_used_blocks := u\<rparr>) = (pmm.truncate s)\<lparr>mem_mngr_used_blocks := u\<rparr>"
  by (simp_all add: mmap_unset_def mmap_set_def mem_mngr_put_def mem_mngr_at_def) (simp_all add: pmm.defs)

lemma region_loop_truncate: "pmm.truncate (region_loop a n s) = region_loop a n (pmm.truncate s)"
proof (induction a n s rule: region_loop.induct)
  case (1 a n s)
  then show ?case
    by (subst (1 2) region_loop.simps) (simp add: Let_def mmap_truncate)
qed

lemma init_memory_region_truncate:
  "pmm.truncate (init_memory_region st sz s) = init_memory_region st sz (pmm.truncate s)"
  by (simp add: init_memory_region_def mmap_truncate region_loop_truncate Let_def)

lemma region_step_truncate:
  "pmm.truncate (clamp_region r s) = clamp_region r (pmm.truncate s)" "pmm.truncate (use_region r s) = use_region r (pmm.truncate s)"
  by (simp_all add: clamp_region_def use_region_def init_memory_region_truncate)

lemma region_step_more: "pmm.more (clamp_region r s) = pmm.more s" "pmm.more (use_region r s) = pmm.more s"
proof -
  have "pmm.more (init_memory_region st sz s) = pmm.more s" for st sz
  proof -
    obtain m k where "init_memory_region st sz s = s\<lparr>mem := m, mem_mngr_used_blocks := k\<rparr>"
      using init_memory_region_rest by blast
    then show ?thesis by simp
  qed
  then show "pmm.more (clamp_region r s) = pmm.more s" "pmm.more (use_region r s) = pmm.more s"
    by (simp_all add: clamp_region_def use_region_def set_region_type_def)
qed

lemma map_frames_truncate: "pmm.truncate (map_frames region i n s) = map_frames region i n (pmm.truncate s)"
proof (induction region i n s rule: map_frames.induct)
  case (1 region i n s)
  let ?c = "clamp_region (region + 24 * of_int i) s"
  have "region_startLo r (pmm.truncate ?c) = region_startLo r ?c" for r by simp
  then show ?case
    using "1.IH" [OF _ refl refl] by (subst (1 2) map_frames.simps) (simp add: Let_def region_step_truncate del: region_truncate)
qed

text \<open>The loop with its output leaves just that.\<close>

lemma more_map_frames: "pmm.more (map_frames region i n s) = pmm.more s"
proof (induction region i n s rule: map_frames.induct)
  case (1 region i n s)
  then show ?case by (subst map_frames.simps) (simp add: Let_def region_step_more)
qed

lemma pmm_eqI: "pmm.truncate s = pmm.truncate t \<Longrightarrow> pmm.more s = pmm.more t \<Longrightarrow> s = t"
  by (cases s; cases t) (simp add: pmm.defs)

text \<open>What works on the memory manager's fields alone does not see the screen.\<close>

lemma pmm_op_screen:
  fixes s :: "('d, 'z) io_scheme"
  assumes "\<And>s :: ('d, 'z) io_scheme. pmm.truncate (f s) = g (pmm.truncate s)"
    and "\<And>s :: ('d, 'z) io_scheme. pmm.more (f s) = pmm.more s"
  shows "f (s\<lparr>dev := d, vidmem := v\<rparr>) = (f s)\<lparr>dev := d, vidmem := v\<rparr>"
proof (rule pmm_eqI)
  have t: "pmm.truncate (s\<lparr>dev := d, vidmem := v\<rparr>) = pmm.truncate s" for s :: "('d, 'z) io_scheme" by (simp add: pmm.defs)
  then show "pmm.truncate (f (s\<lparr>dev := d, vidmem := v\<rparr>)) = pmm.truncate ((f s)\<lparr>dev := d, vidmem := v\<rparr>)"
    by (simp add: assms(1))
  have m: "pmm.more (s\<lparr>dev := d, vidmem := v\<rparr>) = pmm.more (t\<lparr>dev := d, vidmem := v\<rparr>)"
    if "pmm.more s = pmm.more t" for s t :: "('d, 'z) io_scheme"
    using that by (cases s; cases t) simp
  show "pmm.more (f (s\<lparr>dev := d, vidmem := v\<rparr>)) = pmm.more ((f s)\<lparr>dev := d, vidmem := v\<rparr>)"
    unfolding assms(2) by (rule m) (simp add: assms(2))
qed

lemma pmm_op_screen_only:
  fixes s :: "('d, 'z) io_scheme"
  assumes "\<And>s :: ('d, 'z) io_scheme. pmm.truncate (f s) = g (pmm.truncate s)"
    and more: "\<And>s :: ('d, 'z) io_scheme. pmm.more (f s) = pmm.more s"
  shows "terminal_of view (f s) = terminal_of view s" "screen_only view s t \<Longrightarrow> screen_only view (f s) (f t)"
proof -
  have d: "dev (f s) = dev s" "vidmem (f s) = vidmem s" for s
    using more [of s] by (cases s; cases "f s"; simp)+
  then show tm: "terminal_of view (f s) = terminal_of view s" for s by (simp add: terminal_of_def)
  assume "screen_only view s t"
  then obtain d' v' where t: "t = s\<lparr>dev := d', vidmem := v'\<rparr>" "crtc_only (view (dev s)) (view d')" "terminal_ok (terminal_of view t)"
    unfolding screen_only_def by blast
  have "f t = (f s)\<lparr>dev := d', vidmem := v'\<rparr>" unfolding t(1) by (rule pmm_op_screen [of f g]) (rule assms)+
  with t(2,3) d tm show "screen_only view (f s) (f t)" unfolding screen_only_def by (metis (no_types))
qed

lemma region_step_screen:
  fixes s :: "('d, 'z) io_scheme"
  shows "terminal_of view (clamp_region r s) = terminal_of view s"
    and "screen_only view s t \<Longrightarrow> screen_only view (use_region r s) (use_region r t)"
  using pmm_op_screen_only [of "clamp_region r", OF region_step_truncate(1) region_step_more(1)]
    pmm_op_screen_only [of "use_region r", OF region_step_truncate(2) region_step_more(2)] by blast+

lemma map_loop_frames:
  fixes s :: "('d, 'z) io_scheme"
  assumes "pc_conforms bus view" "terminal_ok (terminal_of view s)"
  shows "\<exists>s'. map_loop bus region i n s = Inr ((), s') \<and> screen_only view (map_frames region i n s) s'"
  using assms(2)
proof (induction "nat (n - i)" arbitrary: i s)
  case 0
  then show ?case by (intro exI [of _ s]) (simp add: map_loop.simps map_frames.simps screen_only_refl)
next
  case (Suc k)
  have i: "i < n" and k: "k = nat (n - (i + 1))" using Suc.hyps(2) by simp_all
  let ?r = "region + 24 * of_int i"
  define s1 where "s1 = clamp_region ?r s"
  have t1: "terminal_ok (terminal_of view s1)" using Suc.prems by (simp add: s1_def region_step_screen)
  show ?case
  proof (cases "i > 0 \<and> region_startLo ?r s1 = 0")
    case True
    then have "map_loop bus region i n s = Inr ((), s1)" "map_frames region i n s = s1"
      using i by (simp_all add: map_loop.simps [of bus region i n s] map_frames.simps [of region i n s] s1_def clamp_region_def Let_def)
    then show ?thesis using t1 by (auto intro: screen_only_refl)
  next
    case False
    obtain s2 where s2: "printk bus address_format [VInt (region_startLo ?r s1)] s1 = Inr ((), s2)"
      "screen_only view s1 s2" "terminal_ok (terminal_of view s2)"
      by (rule printk_step [OF assms(1) t1, of address_format "[VInt (region_startLo ?r s1)]"]) (simp_all, simp_all add: address_format_def cs_def)
    obtain s3 where s3: "printk bus (cs ''length: %d \<newline>'') [VInt (region_sizeLo ?r s2)] s2 = Inr ((), s3)"
      "screen_only view s2 s3" "terminal_ok (terminal_of view s3)"
      by (rule printk_step [OF assms(1) s2(3), of "cs ''length: %d \<newline>''" "[VInt (region_sizeLo ?r s2)]"]) (simp_all add: cs_def)
    have sc: "screen_only view (use_region ?r s1) (use_region ?r s3)"
      using screen_only_trans [OF s2(2) s3(2)] by (rule region_step_screen)
    obtain s' where s': "map_loop bus region (i + 1) n (use_region ?r s3) = Inr ((), s')"
      "screen_only view (map_frames region (i + 1) n (use_region ?r s3)) s'"
      using Suc.hyps(1) [OF k screen_only_ok [OF sc]] by blast
    have "map_loop bus region i n s = Inr ((), s')"
      using i False s2(1) s3(1) s'(1)
      by (auto simp: map_loop.simps [of bus region i n s] s1_def [unfolded clamp_region_def, symmetric] use_region_def Let_def)
    moreover have "map_frames region i n s = map_frames region (i + 1) n (use_region ?r s1)"
      using i False by (auto simp: map_frames.simps [of region i n s] s1_def Let_def)
    moreover have "screen_only view (map_frames region (i + 1) n (use_region ?r s1)) (map_frames region (i + 1) n (use_region ?r s3))"
      using sc by (rule pmm_op_screen_only(2) [of "map_frames region (i + 1) n", OF map_frames_truncate more_map_frames])
    ultimately show ?thesis using s'(2) screen_only_trans by (intro exI [of _ s']) simp
  qed
qed

section \<open>From the entry to the memory map\<close>

lemma register_handler_eq:
  assumes "length (interrupt_handlers s) = 256"
  shows "register_interrupt_handler n h s = Inr ((), s\<lparr>interrupt_handlers := (interrupt_handlers s)[unat n := Some h]\<rparr>)"
proof -
  have "unat n < length (interrupt_handlers s)" using assms unsigned_less [of n] by simp
  then have "arr_set (interrupt_handlers s) (uint n) v = Inr ((interrupt_handlers s)[unat n := v])" for v
    unfolding uint_nat by (rule arr_set_nat)
  then show ?thesis by (simp add: register_interrupt_handler_def)
qed

lemma color_step:
  fixes s :: "('d, 'z) io_scheme"
  assumes "pc_conforms bus view" "terminal_ok (terminal_of view s)" "plain fmt args"
  obtains s' where "printk_color bus color fmt args s = Inr ((), s')" "screen_only view s s'" "terminal_ok (terminal_of view s')"
  by (rule talksE [OF talks_color [OF assms(1,3)] assms(2)]) simp

lemma init_timer_quiet:
  fixes s :: "('d, 'z) irq_scheme"
  assumes "pc_conforms bus view" "length (interrupt_handlers s) = 256"
  shows "\<exists>d. init_timer bus 50 s = Inr ((), s\<lparr>interrupt_handlers := (interrupt_handlers s)[32 := Some Timer_callback], dev := d\<rparr>) \<and>
    view d = view (dev s)"
proof -
  let ?s = "s\<lparr>interrupt_handlers := (interrupt_handlers s)[32 := Some Timer_callback]\<rparr>"
  obtain d1 where d1: "port_byte_out bus 0x43 0x36 ?s = ?s\<lparr>dev := d1\<rparr>" "view d1 = view (dev s)"
    using port_out_quiet [OF assms(1), of "0x43" "0x36" ?s] by auto
  obtain d2 where d2: "port_byte_out bus 0x40 0x37 (?s\<lparr>dev := d1\<rparr>) = ?s\<lparr>dev := d2\<rparr>" "view d2 = view d1"
    using port_out_quiet [OF assms(1), of "0x40" "0x37" "?s\<lparr>dev := d1\<rparr>"] by auto
  obtain d3 where d3: "port_byte_out bus 0x40 0x5D (?s\<lparr>dev := d2\<rparr>) = ?s\<lparr>dev := d3\<rparr>" "view d3 = view d2"
    using port_out_quiet [OF assms(1), of "0x40" "0x5D" "?s\<lparr>dev := d2\<rparr>"] by auto
  show ?thesis
    using d1 d2 d3 by (intro exI [of _ d3]) (simp add: init_timer_def register_handler_eq [OF assms(2)])
qed

text \<open>The state with registers and tables as the first calls leave them, for the screen given.\<close>

definition set_up :: "kernel_env \<Rightarrow> idt_gate_t list \<Rightarrow> ('d, 'z) kernel_scheme \<Rightarrow> ('d, 'z) kernel_scheme" where
  "set_up k t s = set_idt (idt_address k) (s\<lparr>current_level := kern_level KERN_INFO,
     interrupt_handlers := (interrupt_handlers s)[32 := Some Timer_callback, 33 := Some Keyboard_callback], idt := t,
     data_segment := 0x10, code_segment := 0x08, interrupts_on := True\<rparr>)"

lemma boot_start:
  fixes s :: "('d, 'z) kernel_scheme"
  assumes "pc_conforms bus view" "terminal_ok (terminal_of view s)" "length (idt s) = 256" "length (interrupt_handlers s) = 256"
  obtains t s' where
    "\<And>g :: ('d, 'z) kernel_scheme \<Rightarrow> (unit, ('d, 'z) kernel_scheme) result. bindk (printk_color bus 3 (cs ''============kernel loaded================\<newline>'') [] (kernel_gdt_load s)) (\<lambda>_ s.
     bindk (isr_install bus (stub_address k) (idt_address k) (s\<lparr>interrupts_on := False\<rparr>)) (\<lambda>_ s.
     bindk (init_timer bus 50 s) (\<lambda>_ s. bindk (init_keyboard s) (\<lambda>_ s. bindk (printk_init bus s)
       (\<lambda>_ s. g s))))) = g s'"
    "screen_only view (set_up k t s) (s'\<lparr>interrupts_on := True\<rparr>)" "terminal_ok (terminal_of view (s'\<lparr>interrupts_on := True\<rparr>))"
    "\<forall>n < 256. n < 48 \<or> n = 0x80 \<longrightarrow> t ! n = gate (stub_address k n) (if n = 0x80 then 0xEE else 0x8E)"
proof -
  note c = assms(1)
  let ?s = "kernel_gdt_load s"
  have "terminal_ok (terminal_of view ?s)" using assms(2) by (simp add: kernel_gdt_load_def terminal_of_def)
  then obtain s1 where s1: "printk_color bus 3 (cs ''============kernel loaded================\<newline>'') [] ?s = Inr ((), s1)"
    "screen_only view ?s s1"
    by (rule color_step [OF c, of _ "cs ''============kernel loaded================\<newline>''" "[]" 3]) (simp_all add: cs_def)
  then obtain d1 v1 where d1: "s1 = ?s\<lparr>dev := d1, vidmem := v1\<rparr>" "crtc_only (view (dev s)) (view d1)" "terminal_ok (terminal_of view s1)"
    by (auto simp: screen_only_def kernel_gdt_load_def)
  have f1: "length (idt (s1\<lparr>interrupts_on := False\<rparr>)) = 256" "interrupt_handlers s1 = interrupt_handlers s"
    using assms(3) by (simp_all add: d1(1) kernel_gdt_load_def)
  obtain d2 t where s2: "isr_install bus (stub_address k) (idt_address k) (s1\<lparr>interrupts_on := False\<rparr>) = Inr ((), set_idt (idt_address k) (s1\<lparr>interrupts_on := False, dev := d2, idt := t\<rparr>))"
    "view d2 = view d1" "\<forall>n < 256. t ! n = (if n < 48 then gate (stub_address k n) 0x8E else if n = 0x80 then gate (stub_address k n) 0xEE else idt s1 ! n)"
    using isr_install_spec [OF c f1(1), of "stub_address k" "idt_address k"] d1(1) by auto
  define s2 where "s2 = set_idt (idt_address k) (s1\<lparr>interrupts_on := False, dev := d2, idt := t\<rparr>)"
  have f2: "length (interrupt_handlers s2) = 256" "interrupt_handlers s2 = interrupt_handlers s" "dev s2 = d2"
    using assms(4) by (simp_all add: s2_def set_idt_def Let_def f1)
  obtain d3 where s3: "init_timer bus 50 s2 = Inr ((), s2\<lparr>interrupt_handlers := (interrupt_handlers s)[32 := Some Timer_callback], dev := d3\<rparr>)"
    "view d3 = view d2"
    using init_timer_quiet [OF c f2(1)] by (auto simp: f2)
  define s3 where "s3 = s2\<lparr>interrupt_handlers := (interrupt_handlers s)[32 := Some Timer_callback], dev := d3\<rparr>"
  define s4 where "s4 = s3\<lparr>interrupt_handlers := (interrupt_handlers s)[32 := Some Timer_callback, 33 := Some Keyboard_callback]\<rparr>"
  have s4: "init_keyboard s3 = Inr ((), s4)"
    using assms(4) by (simp add: init_keyboard_def register_handler_eq s3_def s4_def)
  let ?s4 = "s4\<lparr>current_level := kern_level KERN_INFO\<rparr>"
  have v: "view (dev ?s4) = view d1" "terminal_of view ?s4 = terminal_of view s1"
    using s2(2) s3(2) by (simp_all add: s4_def s3_def s2_def set_idt_def Let_def terminal_of_def d1(1))
  from v(2) d1(3) have t4: "terminal_ok (terminal_of view ?s4)" by (simp only:)
  obtain s5 where s5: "printk_init bus s4 = Inr ((), s5)" "screen_only view ?s4 s5"
    unfolding printk_init_def
    by (rule pr_step [OF c t4, of "''Kernel print initialized..''" "[]" "''PRINTK''" KERN_INFO]) (simp_all add: cs_def)
  then obtain d5 v5 where d5: "s5 = ?s4\<lparr>dev := d5, vidmem := v5\<rparr>" "crtc_only (view d1) (view d5)" "terminal_ok (terminal_of view s5)"
    using v(1) by (auto simp: screen_only_def)
  let ?s = "s5\<lparr>interrupts_on := True\<rparr>"
  show thesis
  proof (rule that)
    show "bindk (printk_color bus 3 (cs ''============kernel loaded================\<newline>'') [] (kernel_gdt_load s)) (\<lambda>_ s.
     bindk (isr_install bus (stub_address k) (idt_address k) (s\<lparr>interrupts_on := False\<rparr>)) (\<lambda>_ s.
     bindk (init_timer bus 50 s) (\<lambda>_ s. bindk (init_keyboard s) (\<lambda>_ s. bindk (printk_init bus s)
       (\<lambda>_ s. g s))))) = g s5" for g :: "('d, 'z) kernel_scheme \<Rightarrow> (unit, ('d, 'z) kernel_scheme) result"
      using s1(1) s2(1) s3(1) s4 s5(1) by (simp add: s2_def [symmetric] s3_def [symmetric])
    have tm: "terminal_of view ?s = terminal_of view s5" by (simp add: terminal_of_def)
    then show "terminal_ok (terminal_of view ?s)" using d5(3) by simp
    have "?s = (set_up k t s)\<lparr>dev := d5, vidmem := v5\<rparr>" "dev (set_up k t s) = dev s"
      by (simp_all add: set_up_def d5(1) s4_def s3_def s2_def d1(1) kernel_gdt_load_def set_idt_def Let_def)
    then show "screen_only view (set_up k t s) ?s"
      using crtc_only_trans [OF d1(2) d5(2)] d5(3) tm unfolding screen_only_def by (metis (no_types))
  qed (use s2(3) in simp)
qed

section \<open>The memory map\<close>

lemma init_mem_mngr_pmm:
  "pmm.truncate (init_mem_mngr a n s) = init_mem_mngr a n (pmm.truncate s)" "pmm.more (init_mem_mngr a n s) = pmm.more s"
  by (simp_all add: init_mem_mngr_def get_memory_size_def get_block_count_def Let_def) (simp add: pmm.defs)

text \<open>What the boot reads from the structure of the boot loader, and the frames it frees.\<close>

definition boot_memory :: "u32 \<Rightarrow> 'a pmm_scheme \<Rightarrow> u32" where
  "boot_memory bootinfo s = (1024 + rd32 (mem s) (bootinfo + 4) + rd32 (mem s) (bootinfo + 8) * 64) * 1024"

definition mapped_memory :: "kernel_env \<Rightarrow> u32 \<Rightarrow> 'a pmm_scheme \<Rightarrow> 'a pmm_scheme" where
  "mapped_memory k bootinfo s = map_frames (rd32 (mem s) (bootinfo + 44)) 0 (sint (rd32 (mem s) (bootinfo + 40) div 24))
     (init_mem_mngr ((kernel_end k + 0xFFF) AND NOT 0xFFF) (boot_memory bootinfo s) s)"

lemma mapped_memory_pmm:
  "pmm.truncate (mapped_memory k bootinfo s) = mapped_memory k bootinfo (pmm.truncate s)"
  "pmm.more (mapped_memory k bootinfo s) = pmm.more s"
  by (simp_all add: mapped_memory_def map_frames_truncate more_map_frames init_mem_mngr_pmm boot_memory_def)

lemma boot_map:
  fixes s :: "('d, 'z) kernel_scheme"
  assumes "pc_conforms bus view" "terminal_ok (terminal_of view s)"
  obtains s' where
    "\<And>g :: ('d, 'z) kernel_scheme \<Rightarrow> (unit, ('d, 'z) kernel_scheme) result. bindk (pr bus KERN_DEBUG ''KERNEL'' ''Kernel ends at: %x\<newline>'' [VInt (kernel_end k)] s) (\<lambda>_ x.
     bindk (pr bus KERN_DEBUG ''KERNEL'' ''Bitmap starts at: %x\<newline>'' [VInt ((kernel_end k + 0xFFF) AND NOT 0xFFF)] x) (\<lambda>_ x.
     bindk (printk_color bus 5 (cs ''===========MEMORY MAP START========== \<newline>'') [] x) (\<lambda>_ x.
     bindk (map_loop bus (rd32 (mem s) (bootinfo + 44)) 0 (sint (rd32 (mem s) (bootinfo + 40) div 24))
       (init_mem_mngr ((kernel_end k + 0xFFF) AND NOT 0xFFF) (boot_memory bootinfo s) x)) (\<lambda>_ x.
     bindk (printk_color bus 5 (cs ''===========MEMORY MAP END========== \<newline>'') [] x) (\<lambda>_ x.
     bindk (pr bus KERN_INFO ''Memory'' ''Total Size %d'' [VInt (boot_memory bootinfo s)] x) (\<lambda>_ x.
     bindk (printk bus (cs ''Kernel stack top %x\<newline> '') [VInt (stack_top k)] x) (\<lambda>_ x. g x))))))) = g s'"
    "screen_only view (mapped_memory k bootinfo s) s'" "terminal_ok (terminal_of view s')"
proof -
  note c = assms(1)
  let ?b = "(kernel_end k + 0xFFF) AND NOT 0xFFF" and ?m = "boot_memory bootinfo s"
  let ?map = "map_frames (rd32 (mem s) (bootinfo + 44)) 0 (sint (rd32 (mem s) (bootinfo + 40) div 24))"
  obtain s1 where s1: "pr bus KERN_DEBUG ''KERNEL'' ''Kernel ends at: %x\<newline>'' [VInt (kernel_end k)] s = Inr ((), s1)"
    "screen_only view s s1" "terminal_ok (terminal_of view s1)"
    by (rule pr_step [OF c assms(2)]; (rule that; assumption)?) (simp_all add: cs_def)
  obtain s2 where s2: "pr bus KERN_DEBUG ''KERNEL'' ''Bitmap starts at: %x\<newline>'' [VInt ?b] s1 = Inr ((), s2)"
    "screen_only view s1 s2" "terminal_ok (terminal_of view s2)"
    by (rule pr_step [OF c s1(3)]; (rule that; assumption)?) (simp_all add: cs_def)
  obtain s3 where s3: "printk_color bus 5 (cs ''===========MEMORY MAP START========== \<newline>'') [] s2 = Inr ((), s3)"
    "screen_only view s2 s3" "terminal_ok (terminal_of view s3)"
    by (rule color_step [OF c s2(3)]; (rule that; assumption)?) (simp_all add: cs_def)
  note init = pmm_op_screen_only [of "init_mem_mngr ?b ?m", OF init_mem_mngr_pmm]
  have t4: "terminal_ok (terminal_of view (init_mem_mngr ?b ?m s3))" by (simp only: init(1) s3(3))
  obtain s4 where s4: "map_loop bus (rd32 (mem s) (bootinfo + 44)) 0 (sint (rd32 (mem s) (bootinfo + 40) div 24)) (init_mem_mngr ?b ?m s3) = Inr ((), s4)"
    "screen_only view (?map (init_mem_mngr ?b ?m s3)) s4"
    using map_loop_frames [OF c t4] by blast
  have "screen_only view (init_mem_mngr ?b ?m s) (init_mem_mngr ?b ?m s3)"
    using screen_only_trans [OF screen_only_trans [OF s1(2) s2(2)] s3(2)] by (rule init(2))
  then have "screen_only view (mapped_memory k bootinfo s) (?map (init_mem_mngr ?b ?m s3))"
    unfolding mapped_memory_def by (rule pmm_op_screen_only(2) [of ?map, OF map_frames_truncate more_map_frames])
  then have sc: "screen_only view (mapped_memory k bootinfo s) s4" using s4(2) by (rule screen_only_trans)
  obtain s5 where s5: "printk_color bus 5 (cs ''===========MEMORY MAP END========== \<newline>'') [] s4 = Inr ((), s5)"
    "screen_only view s4 s5" "terminal_ok (terminal_of view s5)"
    by (rule color_step [OF c screen_only_ok [OF s4(2)]]; (rule that; assumption)?) (simp_all add: cs_def)
  obtain s6 where s6: "pr bus KERN_INFO ''Memory'' ''Total Size %d'' [VInt ?m] s5 = Inr ((), s6)"
    "screen_only view s5 s6" "terminal_ok (terminal_of view s6)"
    by (rule pr_step [OF c s5(3)]; (rule that; assumption)?) (simp_all add: cs_def)
  obtain s7 where s7: "printk bus (cs ''Kernel stack top %x\<newline> '') [VInt (stack_top k)] s6 = Inr ((), s7)"
    "screen_only view s6 s7" "terminal_ok (terminal_of view s7)"
    by (rule printk_step [OF c s6(3)]; (rule that; assumption)?) (simp_all add: cs_def)
  show thesis
  proof (rule that)
    show "bindk (pr bus KERN_DEBUG ''KERNEL'' ''Kernel ends at: %x\<newline>'' [VInt (kernel_end k)] s) (\<lambda>_ x.
     bindk (pr bus KERN_DEBUG ''KERNEL'' ''Bitmap starts at: %x\<newline>'' [VInt ((kernel_end k + 0xFFF) AND NOT 0xFFF)] x) (\<lambda>_ x.
     bindk (printk_color bus 5 (cs ''===========MEMORY MAP START========== \<newline>'') [] x) (\<lambda>_ x.
     bindk (map_loop bus (rd32 (mem s) (bootinfo + 44)) 0 (sint (rd32 (mem s) (bootinfo + 40) div 24))
       (init_mem_mngr ((kernel_end k + 0xFFF) AND NOT 0xFFF) (boot_memory bootinfo s) x)) (\<lambda>_ x.
     bindk (printk_color bus 5 (cs ''===========MEMORY MAP END========== \<newline>'') [] x) (\<lambda>_ x.
     bindk (pr bus KERN_INFO ''Memory'' ''Total Size %d'' [VInt (boot_memory bootinfo s)] x) (\<lambda>_ x.
     bindk (printk bus (cs ''Kernel stack top %x\<newline> '') [VInt (stack_top k)] x) (\<lambda>_ x. g x))))))) = g s7" for g :: "('d, 'z) kernel_scheme \<Rightarrow> (unit, ('d, 'z) kernel_scheme) result"
      by (simp only: s1(1) s2(1) s3(1) s4(1) s5(1) s6(1) s7(1) bindk_simps fst_conv snd_conv)
    show "screen_only view (mapped_memory k bootinfo s) s7"
      using sc s5(2) s6(2) s7(2) by (blast intro: screen_only_trans)
  qed (rule s7(3))
qed

text \<open>The boot's memory depends on the memory manager's fields, and paging on them and CR3.\<close>

lemma mapped_memory_cong:
  assumes "pmm.truncate s = pmm.truncate t"
  shows "same_space (boot_view (mapped_memory k bootinfo s)) (boot_view (mapped_memory k bootinfo t))"
proof -
  have "pmm.truncate (mapped_memory k bootinfo s) = pmm.truncate (mapped_memory k bootinfo t)"
    using assms by (simp add: mapped_memory_pmm)
  then show ?thesis by (simp add: same_space_def boot_view_def pmm.defs)
qed

section \<open>The volume and the user's page\<close>

text \<open>The page of the cached FAT: out of reach of the allocator, and no page table or bitmap.\<close>

definition fat_page :: "nat \<Rightarrow> ('d, 'z) fs_scheme \<Rightarrow> bool" where
  "fat_page n s \<longleftrightarrow> (let p = fat_buffer (mount_info s) in aligned p \<and> p \<noteq> 0 \<and> held n s (V2P p) \<and> \<not> kernel_byte s p)"

lemma kernel_byte_frame: "kernel_byte s x \<longleftrightarrow> kernel_byte s (page_frame x)"
  by (simp add: kernel_byte_def page_frame_aligned)

lemma kernel_byte_space: "same_space s t \<Longrightarrow> kernel_byte t = kernel_byte s"
  using same_spaceD(6,7) [of s t] by (simp add: fun_eq_iff kernel_byte_def structural_def same_space_def)

lemma fat_page_entry:
  assumes "fat_page n s" "unat (fat_offset c) < 4095"
  shows "table_safe c n s"
  unfolding table_safe_def
proof (intro allI impI)
  fix x
  let ?p = "fat_buffer (mount_info s)"
  define d where "d = x - (?p + fat_offset c)"
  assume "entry_byte_of c s x"
  then have "unat d < 2" by (simp add: entry_byte_of_def in_range_def d_def)
  moreover have "x = ?p + (fat_offset c + d)" by (simp add: d_def)
  ultimately have "page_frame x = ?p"
    using assms by (simp add: page_frame_add fat_page_def Let_def unat_word_ariths)
  with assms(1) kernel_byte_frame [of s x] show "held n s (V2P (page_frame x)) \<and> \<not> kernel_byte s x"
    by (simp add: fat_page_def Let_def)
qed

text \<open>
  Where the cached FAT lies. \<open>fat12_init\<close> takes one page for it, which holds 8 sectors; a larger table runs
  on into the pages behind, which are still free. Then the frames to come have to be contiguous, and
  their addresses mapped linearly.
\<close>

definition fat_space :: "nat \<Rightarrow> nat \<Rightarrow> ('d, 'z) vmm_scheme \<Rightarrow> bool" where
  "fat_space n sectors s \<longleftrightarrow> sectors \<le> 8 \<or>
     sectors \<le> 8 * n \<and> contiguous (next_frames n s) \<and>
     (\<forall>va. unat (V2P va) div 4096 \<in> next_frames n s \<longrightarrow> translate s va = Some (V2P va))"

lemma fat_space_cong: "same_space s t \<Longrightarrow> fat_space n k t = fat_space n k s"
  using same_spaceD(4,9) [of s t] by (simp add: fat_space_def)

lemma V2P_page_frame: "V2P (page_frame x) = page_frame (V2P x)"
  using page_frame_P2V [of "V2P x"] by simp

lemma linear_in_page: "page_frame va = p \<Longrightarrow> V2P p OR (va AND 0xfff) = V2P va"
  using linear_address [of va] by (auto simp: V2P_page_frame)

lemma fat_bytes:
  fixes s :: "('d, 'z) vmm_scheme"
  assumes "vm_ok n s" "0 < n" "aligned p" "unat (V2P p) div 4096 \<in> next_frames 1 s" "fat_space n k s" "in_range p (512 * k) x"
  shows "\<not> kernel_byte s x" "page_frame x \<noteq> p \<Longrightarrow> translate s x = Some (V2P x)"
proof -
  have ok: "space_ok n s" "spare n s" using assms(1) by (simp_all add: vm_ok_def)
  let ?f = "unat (V2P p) div 4096" and ?o = "unat (x - p)"
  have o: "?o < 512 * k" using assms(6) by (simp add: in_range_def)
  have n: "?f + ?o div 4096 \<in> next_frames n s"
  proof (cases "k \<le> 8")
    case True
    then have "?o div 4096 = 0" using o by simp
    then show ?thesis using assms(2,4) next_frames_mono [of 1 n s] by auto
  next
    case False
    then have c: "k \<le> 8 * n" "contiguous (next_frames n s)" using assms(5) by (auto simp: fat_space_def)
    then have "?o div 4096 < n" using o by (simp add: less_mult_imp_div_less)
    then show ?thesis by (rule contiguous_frames [OF c(2) ok(2) assms(4)])
  qed
  have p: "unat (V2P p) = 4096 * ?f"
  proof -
    have "V2P p = page_frame (V2P p)" using assms(3) V2P_page_frame [of p] by (simp add: page_frame_aligned)
    then have "aligned (V2P p)" using aligned_page_frame by metis
    then show ?thesis by (auto simp: aligned_def)
  qed
  have "V2P x = V2P p + (x - p)" by (simp add: V2P_def)
  moreover have "unat (V2P p) + ?o < 2 ^ 32" using space_ok_parts(3) [OF ok(1) n] p by simp
  ultimately have "unat (V2P x) = 4096 * ?f + ?o" using p by (simp add: unat_word_ariths)
  then have x: "unat (V2P x) div 4096 \<in> next_frames n s" using n by simp
  then have "\<not> held n s (V2P (page_frame x))" by (simp add: held_def V2P_page_frame unat_page_frame)
  then show "\<not> kernel_byte s x" using kernel_byte_held [OF ok(1)] by blast
  show "translate s x = Some (V2P x)" if "page_frame x \<noteq> p"
  proof -
    have "\<not> k \<le> 8" using that o page_frame_iff [OF assms(3), of x] by auto
    then show ?thesis using assms(5) x by (simp add: fat_space_def)
  qed
qed

lemma fat12_init_vm:
  fixes s :: "('d, 'z) fs_scheme"
  assumes "fs_ok bus view s" "vm_ok (Suc n) s" "b = disk_content view s 0"
    and "take 8 (bpb_filesystem_type b) = cs ''FAT12   ''" "bpb_bytes_per_sector b \<noteq> 0"
    and "fat_space (Suc n) (unat (bpb_sectors_per_fat b)) s"
  obtains m p s' where "fat12_init bus s = Inr (0, s')" "fs_ok bus view s'" "disk_content view s' = disk_content view s"
    "mount_from b (mount_info s) = Inr m" "mount_info s' = m\<lparr>fat_buffer := p\<rparr>" "vm_ok n s'" "fat_page n s'"
    "rd_bytes (mem s') p (512 * unat (bpb_sectors_per_fat b)) = fat_on_disk view (fat_start m) 0 (unat (bpb_sectors_per_fat b)) s"
    "fs.more s' = fs.more s"
    "\<forall>va. translate s' va = (if page_frame va = p then Some (V2P p OR (va AND 0xfff)) else translate s va)"
    "\<forall>x. in_range p (512 * unat (bpb_sectors_per_fat b)) x \<longrightarrow> \<not> kernel_byte s' x \<and> translate s' x = Some (V2P x)"
    "unat (V2P p) div 4096 \<in> next_frames 1 s" "\<forall>k. next_frames k s' = next_frames (Suc k) s - {unat (V2P p) div 4096}"
proof -
  let ?n = "unat (bpb_sectors_per_fat b)"
  obtain s1 m where s1: "io_only s s1" "fs_ok bus view s1" and m: "mount_from b (mount_info s) = Inr m"
    and r: "case vmmngr_alloc_page (s1\<lparr>mount_info := m\<rparr>) of (p, s2) \<Rightarrow>
      if p = 0 then fat12_init bus s = Inr (-1, s2\<lparr>mount_info := m\<lparr>fat_buffer := p\<rparr>\<rparr>)
      else \<exists>s'. fat12_init bus s = Inr (0, s') \<and> fs_ok bus view s' \<and>
        io_only (s2\<lparr>mount_info := m\<lparr>fat_buffer := p\<rparr>,
          mem := wr_bytes (mem s2) p (fat_on_disk view (fat_start m) 0 (unat (sectors_per_fat m)) s)\<rparr>) s' \<and>
        disk_content view s' = disk_content view s"
    using fat12_init_spec [OF assms(1,3-5)] by (elim exE conjE) (rule that)
  let ?s1 = "s1\<lparr>mount_info := m\<rparr>"
  note f1 = io_only_fields [OF s1(1)]
  note v1 = vm_transfer [OF assms(2), of ?s1] 
  have vm1: "vm_ok (Suc n) ?s1" by (rule v1(1)) (simp_all add: f1)
  obtain p s2 where al: "vmmngr_alloc_page ?s1 = (p, s2)" "p \<noteq> 0" "aligned p" "\<not> held (Suc n) ?s1 (V2P p)" "\<not> kernel_byte ?s1 p"
    "vm_ok n s2" "kernel_byte s2 = kernel_byte ?s1" "\<forall>q. held (Suc n) ?s1 q \<or> q = V2P p \<longrightarrow> held n s2 q"
    "\<forall>x. \<not> kernel_byte ?s1 x \<longrightarrow> mem s2 x = mem ?s1 x"
    "mem_mngr s2 = mem_mngr ?s1" "mem_mngr_max_blocks s2 = mem_mngr_max_blocks ?s1" "pmm.more s2 = pmm.more ?s1"
    "\<forall>va. translate s2 va = (if page_frame va = p then Some (V2P p OR (va AND 0xfff)) else translate ?s1 va)"
    "unat (V2P p) div 4096 \<in> next_frames 1 ?s1" "\<forall>k. next_frames k s2 = next_frames (Suc k) ?s1 - {unat (V2P p) div 4096}"
    by (rule alloc_page_order [OF vm1])
  have ss1: "same_space s ?s1" by (simp add: same_space_def f1)
  note sd1 = same_spaceD [OF ss1]
  have fs1: "fat_space (Suc n) ?n ?s1" using assms(6) fat_space_cong [OF ss1] by simp
  note bytes = fat_bytes [OF vm1 _ al(3,14) fs1]
  have spf: "sectors_per_fat m = bpb_sectors_per_fat b" using m assms(5) by (auto simp: mount_from_def Let_def)
  define fat where "fat = fat_on_disk view (fat_start m) 0 ?n s"
  have "?n < 2 ^ LENGTH(16)" by (rule unsigned_less)
  then have len: "length fat = 512 * ?n" "length fat \<le> 2 ^ 32" by (simp_all add: fat_def fat_on_disk_length [OF assms(1)])
  obtain s' where s': "fat12_init bus s = Inr (0, s')" "fs_ok bus view s'" "disk_content view s' = disk_content view s"
    "io_only (s2\<lparr>mount_info := m\<lparr>fat_buffer := p\<rparr>, mem := wr_bytes (mem s2) p fat\<rparr>) s'"
    using r al(1,2) by (auto simp: spf fat_def)
  note f' = io_only_fields [OF s'(4)]
  have v2: "vm_ok n s'" "kernel_byte s' = kernel_byte s2" "held n s' = held n s2" "translate s' = translate s2"
    "next_frames k s' = next_frames k s2" for k
  proof -
    have k: "mem s' x = mem s2 x" if "kernel_byte s2 x" for x
    proof -
      have "\<not> in_range p (length fat) x" using bytes(1) [of x] that by (auto simp: len(1) al(7))
      with len(2) have "wr_bytes (mem s2) p fat x = mem s2 x" by (rule wr_bytes_outside)
      then show ?thesis by (simp add: f')
    qed
    note f = f'(3-6) [simplified]
    show "vm_ok n s'" "kernel_byte s' = kernel_byte s2" "held n s' = held n s2" "next_frames k s' = next_frames k s2"
      using vm_transfer [OF al(6) f k] by simp_all
    have "space_ok n s2" using al(6) by (simp add: vm_ok_def)
    then show "translate s' = translate s2" using f(1,2,4) k by (rule kernel_bytes_cong(3))
  qed
  show thesis
  proof (rule that [OF s'(1-3) m _ v2(1)])
    show "mount_info s' = m\<lparr>fat_buffer := p\<rparr>" by (simp add: f')
    then show "fat_page n s'" using al(2,3,5,7,8) by (simp add: fat_page_def Let_def v2)
    show "rd_bytes (mem s') p (512 * ?n) = fat_on_disk view (fat_start m) 0 ?n s"
      using len rd_bytes_wr_bytes [of fat "mem s2" p] by (simp add: f' fat_def)
    have "fs.more s2 = fs.more ?s1" using al(12) by (rule fs_more_pmm)
    then show "fs.more s' = fs.more s" using s'(4) s1(1) by (auto simp: io_only_def)
    show "\<forall>va. translate s' va = (if page_frame va = p then Some (V2P p OR (va AND 0xfff)) else translate s va)"
      using al(13) sd1(9) by (simp add: v2)
    show "\<forall>x. in_range p (512 * ?n) x \<longrightarrow> \<not> kernel_byte s' x \<and> translate s' x = Some (V2P x)"
      using bytes al(13) linear_in_page by (auto simp: v2 al(7))
    show "unat (V2P p) div 4096 \<in> next_frames 1 s" "\<forall>k. next_frames k s' = next_frames (Suc k) s - {unat (V2P p) div 4096}"
      using al(14,15) sd1(4) by (simp_all add: v2)
  qed
qed

text \<open>What the keyboard and the interrupts keep, apart from the screen.\<close>

definition input_side :: "('d, 'z) irq_scheme \<Rightarrow> _" where
  "input_side s = ((input_buffer s, read_pos s, write_pos s, line_buffer s, line_pos s),
     (shift_pressed s, ctrl_pressed s, alt_pressed s, caps_lock s),
     (tick s, interrupt_handlers s, idt s, idtr s, upcoming s))"

lemma input_side_more: "fs.more s' = fs.more s \<Longrightarrow> input_side s' = input_side s"
  by (cases s; cases s') (simp add: input_side_def)

lemma kernel_gdt_more:
  fixes s :: "('d, 'z) cpu_scheme"
  shows "fs.more s' = fs.more s \<Longrightarrow> kernel_gdt s' = kernel_gdt s"
  by (cases s; cases s') simp

lemma input_side_waiting:
  assumes "input_side s' = input_side s" "terminal_ok (terminal_of view s')" "typed s = []" "waiting view s"
  shows "waiting view s'" "typed s' = []"
proof -
  have "typed s' = typed s" "kbd_ok s' = kbd_ok s" using assms(1) by (simp_all add: input_side_def typed_def kbd_ok_def)
  with assms show "waiting view s'" "typed s' = []" by (simp_all add: waiting_def input_side_def)
qed

text \<open>The registers in user mode, with the stack in a page and the task state segment in place.\<close>

definition user_mode :: "kernel_env \<Rightarrow> u32 \<Rightarrow> ('d, 'z) kernel_scheme \<Rightarrow> bool" where
  "user_mode k page s \<longleftrightarrow> data_segment s = 0x23 \<and> code_segment s = 0x1B \<and> stack_pointer s = page + 0x1000 \<and>
     entry_point s = shell_address k \<and> interrupts_on s \<and> task_register s = 0x28 \<and> tss s = kernel_tss (stack_top k) \<and>
     kernel_gdt s ! 5 = (tss_descriptor (tss_address k) 103)\<lparr>access := 0x8B\<rparr>"

lemma jump_usermode_spec:
  fixes s :: "('d, 'z) kernel_scheme"
  assumes "pc_conforms bus view" "terminal_ok (terminal_of view s)"
  shows "\<exists>s1. jump_usermode bus shell stack s = Inr ((), s1\<lparr>data_segment := 0x23, code_segment := 0x1B, stack_pointer := stack,
    entry_point := shell, interrupts_on := True\<rparr>) \<and> screen_only view s s1"
proof -
  note c = assms(1)
  obtain s1 where s1: "printk bus (cs ''\<newline>=== Jumping to Ring 3 ===\<newline>'') [] s = Inr ((), s1)"
    "screen_only view s s1" "terminal_ok (terminal_of view s1)"
    by (rule printk_step [OF c assms(2)]; (rule that; assumption)?) (simp_all add: cs_def)
  obtain s2 where s2: "printk bus (cs ''User stack:  0x%x\<newline>'') [VInt stack] s1 = Inr ((), s2)"
    "screen_only view s1 s2" "terminal_ok (terminal_of view s2)"
    by (rule printk_step [OF c s1(3)]; (rule that; assumption)?) (simp_all add: cs_def)
  obtain s3 where s3: "printk bus (cs ''Current CPL: %d\<newline>'') [VInt (ucast (get_cpl s2))] s2 = Inr ((), s3)"
    "screen_only view s2 s3"
    by (rule printk_step [OF c s2(3)]; (rule that; assumption)?) (simp_all add: cs_def)
  show ?thesis
    using s1(1) s2(1) s3(1) screen_only_trans [OF screen_only_trans [OF s1(2) s2(2)] s3(2)]
    by (intro exI [of _ s3]) (simp add: jump_usermode_def)
qed

lemma boot_user:
  fixes s :: "('d, 'z) kernel_scheme"
  assumes "fs_ok bus view s" "vm_ok (Suc n) s" "fat_page (Suc n) s" "length (kernel_gdt s) = 6"
  obtains page s' where
    "(let (page, s) = vmmngr_alloc_page s; user_stack = page + 0x1000 in
      bindk (tss_init bus (tss_address k) (stack_top k) s) (\<lambda>_ s. jump_usermode bus (shell_address k) user_stack s)) = Inr ((), s')"
    "aligned page" "held n s' (V2P page)" "vm_ok n s'" "fat_page n s'" "fs_ok bus view s'" "disk_content view s' = disk_content view s"
    "mount_info s' = mount_info s" "input_side s' = input_side s" "user_mode k page s'"
    "\<forall>x. \<not> kernel_byte s x \<longrightarrow> mem s' x = mem s x"
    "\<forall>va. translate s' va = (if page_frame va = page then Some (V2P page OR (va AND 0xfff)) else translate s va)"
    "unat (V2P page) div 4096 \<in> next_frames 1 s"
proof -
  have c: "pc_conforms bus view" using assms(1) by (simp add: fs_ok_def drive_inv_def)
  obtain page s1 where al: "vmmngr_alloc_page s = (page, s1)" "page \<noteq> 0" "aligned page" "\<not> held (Suc n) s (V2P page)" "\<not> kernel_byte s page"
    "vm_ok n s1" "kernel_byte s1 = kernel_byte s" "\<forall>q. held (Suc n) s q \<or> q = V2P page \<longrightarrow> held n s1 q"
    "\<forall>x. \<not> kernel_byte s x \<longrightarrow> mem s1 x = mem s x"
    "mem_mngr s1 = mem_mngr s" "mem_mngr_max_blocks s1 = mem_mngr_max_blocks s" "pmm.more s1 = pmm.more s"
    "\<forall>va. translate s1 va = (if page_frame va = page then Some (V2P page OR (va AND 0xfff)) else translate s va)"
    "unat (V2P page) div 4096 \<in> next_frames 1 s" "\<forall>k. next_frames k s1 = next_frames (Suc k) s - {unat (V2P page) div 4096}"
    by (rule alloc_page_order [OF assms(2)])
  note m1 = fs_fields_more [OF al(12)]
  have more1: "fs.more s1 = fs.more s" using al(12) by (rule fs_more_pmm)
  have g1: "length (kernel_gdt s1) = 6" "input_side s1 = input_side s"
    using assms(4) kernel_gdt_more [OF more1] input_side_more [OF more1] by simp_all
  have ok1: "fs_ok bus view s1" using assms(1) m1(3) by simp
  then have t1: "terminal_ok (terminal_of view s1)" by (simp add: fs_ok_def)
  let ?d = "(tss_descriptor (tss_address k) 103)\<lparr>access := 0x8B\<rparr>"
  let ?s1 = "s1\<lparr>tss := kernel_tss (stack_top k), kernel_gdt := (kernel_gdt s1)[5 := ?d], task_register := 0x28\<rparr>"
  obtain s2 where s2: "tss_init bus (tss_address k) (stack_top k) s1 = Inr ((), s2)" "screen_only view ?s1 s2"
    using tss_init_spec [OF c t1 g1(1)] by blast
  obtain s3 where s3: "jump_usermode bus (shell_address k) (page + 0x1000) s2 = Inr ((), s3\<lparr>data_segment := 0x23, code_segment := 0x1B,
    stack_pointer := page + 0x1000, entry_point := shell_address k, interrupts_on := True\<rparr>)" "screen_only view s2 s3"
    using jump_usermode_spec [OF c screen_only_ok [OF s2(2)]] by blast
  let ?s = "s3\<lparr>data_segment := 0x23, code_segment := 0x1B, stack_pointer := page + 0x1000, entry_point := shell_address k, interrupts_on := True\<rparr>"
  have sc: "screen_only view ?s1 s3" using s2(2) s3(2) by (rule screen_only_trans)
  have ss: "same_space s1 ?s"
    using same_space_screen [OF sc] by (simp add: same_space_def)
  show thesis
  proof (rule that)
    show "(let (page, s) = vmmngr_alloc_page s; user_stack = page + 0x1000 in
      bindk (tss_init bus (tss_address k) (stack_top k) s) (\<lambda>_ s. jump_usermode bus (shell_address k) user_stack s)) = Inr ((), ?s)"
      by (simp add: al(1) s2(1) s3(1))
    show "vm_ok n ?s" using al(6) same_spaceD(12) [OF ss] by blast
    show "\<forall>va. translate ?s va = (if page_frame va = page then Some (V2P page OR (va AND 0xfff)) else translate s va)"
      using al(13) same_spaceD(9) [OF ss] by simp
    show "\<forall>x. \<not> kernel_byte s x \<longrightarrow> mem ?s x = mem s x" using al(9) ss by (simp add: same_space_def)
    have "mount_info ?s = mount_info s" using sc m1(1) by (auto simp: screen_only_def)
    then show "fat_page n ?s"
      using assms(3) al(7,8) kernel_byte_space [OF ss] same_spaceD(5) [OF ss]
      by (simp add: fat_page_def Let_def)
    have ok3: "fs_ok bus view ?s1" "disk_content view ?s1 = disk_content view s1"
      using ok1 by (simp_all add: fs_ok_def drive_inv_def terminal_of_def disk_content_def fun_eq_iff)
    note io = screen_io [OF sc ok3(1)]
    show "fs_ok bus view ?s" "disk_content view ?s = disk_content view s" "mount_info ?s = mount_info s"
      using io ok3(2) m1 io_only_fields(2) [OF io(1)]
      by (simp_all add: fs_ok_def drive_inv_def terminal_of_def disk_content_def fun_eq_iff)
    obtain d v where s3': "s3 = ?s1\<lparr>dev := d, vidmem := v\<rparr>" using sc unfolding screen_only_def by blast
    show "input_side ?s = input_side s" using g1(2) by (simp add: input_side_def s3')
    show "user_mode k page ?s" using g1(1) by (simp add: user_mode_def s3')
    show "held n ?s (V2P page)" using al(8) same_spaceD(5) [OF ss] by simp
  qed (rule al(3), rule al(14))
qed

section \<open>Properties of the boot\<close>

lemma vm_frame_fs:
  fixes s :: "('d, 'z) fs_scheme"
  assumes "vm_frame view s s'" "fs_ok bus view s"
  shows "fs_ok bus view s'" "disk_content view s' = disk_content view s" "mount_info s' = mount_info s" "fs.more s' = fs.more s"
proof -
  have f: "crtc_only (view (dev s)) (view (dev s'))" "terminal_ok (terminal_of view s')" "vmm.more s' = vmm.more s"
    using assms(1) by (simp_all add: vm_frame_def)
  from f(3) have "sector_buffer s' = sector_buffer s" "mount_info s' = mount_info s" "fs.more s' = fs.more s"
    by (cases s; cases s'; simp)+
  with f(1,2) assms(2) show "fs_ok bus view s'" "mount_info s' = mount_info s" "fs.more s' = fs.more s"
    "disk_content view s' = disk_content view s"
    by (auto simp: fs_ok_def drive_inv_def drive_ok_def disk_content_def crtc_only_fields fun_eq_iff)
qed

lemma held_high:
  assumes "held n s (V2P p)"
  shows "unat va < 0x400000 \<Longrightarrow> page_frame va \<noteq> p"
proof
  assume va: "unat va < 0x400000" "page_frame va = p"
  have "unat (P2V (V2P p)) = unat (V2P p) + 0xC0000000"
    using assms unfolding P2V_def held_def by (subst unat_plus_simple [THEN iffD1]) (simp_all add: word_le_nat_alt unat_word_ariths)
  moreover have "unat p \<le> unat va" using va(2) unat_page_frame [of va] by auto
  ultimately show False using va(1) by simp
qed

lemma set_up_fs:
  "fs_ok bus view (set_up k t s) = fs_ok bus view s" "disk_content view (set_up k t s) = disk_content view s"
  "mount_info (set_up k t s) = mount_info s"
  by (simp_all add: set_up_def set_idt_def Let_def fs_ok_def drive_inv_def terminal_of_def disk_content_def fun_eq_iff)

text \<open>The start of the machine up to paging: the state it leaves, and the address space.\<close>

text \<open>
  The condition on the boot's address space \<open>b\<close> under which a FAT of more sectors than fit in a page finds
  room: the frames that the whole start takes are contiguous, there are enough of them, and the boot
  tables map them linearly or, from 4 MiB on, not at all (then the initialisation of paging does).
\<close>

definition fat_room :: "nat \<Rightarrow> nat \<Rightarrow> u32 \<Rightarrow> ('d, 'z) vmm_scheme \<Rightarrow> bool" where
  "fat_room n sectors tm b \<longleftrightarrow> sectors \<le> 8 \<or> sectors \<le> 8 * n \<and>
     (let F = next_frames (frames_needed (min (unat tm) (2 ^ 30)) b + n) b in
       contiguous F \<and> (\<forall>va. unat (V2P va) div 4096 \<in> F \<longrightarrow>
         translate b va = Some (V2P va) \<or> translate b va = None \<and> 0x400000 \<le> unat (V2P va)))"

lemma fat_room_space:
  fixes s :: "('d, 'z) vmm_scheme"
  assumes "clear_start n tm b" "fat_room n k tm b" "in_order b s"
    and "next_frames n s \<subseteq> next_frames (frames_needed (min (unat tm) (2 ^ 30)) b + n) b"
    and "\<forall>va. translate s va = (if unat va < 0x400000 then None
       else if translate b va = None \<and> 0x400000 \<le> linear_page va \<and> linear_page va < min (unat tm) (2 ^ 30)
       then Some (V2P va) else translate b va)"
  shows "fat_space n k s"
proof (cases "k \<le> 8")
  case False
  let ?F = "next_frames (frames_needed (min (unat tm) (2 ^ 30)) b + n) b"
  have r: "k \<le> 8 * n" "contiguous ?F" "\<And>va. unat (V2P va) div 4096 \<in> ?F \<Longrightarrow>
      translate b va = Some (V2P va) \<or> translate b va = None \<and> 0x400000 \<le> unat (V2P va)"
    using assms(2) False by (auto simp: fat_room_def Let_def)
  have cs: "space_ok (frames_needed (min (unat tm) (2 ^ 30)) b + n) b" "\<And>f. f \<in> ?F \<Longrightarrow> 4096 * f < unat tm"
    using assms(1) by (simp_all add: clear_start_def Let_def)
  have "translate s va = Some (V2P va)" if va: "unat (V2P va) div 4096 \<in> next_frames n s" for va
  proof -
    let ?f = "unat (V2P va) div 4096"
    have f: "?f \<in> ?F" using assms(4) va by blast
    have lp: "linear_page va = 4096 * ?f" by (simp add: linear_page_def unat_page_frame)
    have f18: "?f < 2 ^ 18" by (rule space_ok_parts(3) [OF cs(1) f])
    have "unat (P2V (V2P va)) = unat (V2P va) + 0xC0000000"
      using f18 unfolding P2V_def by (subst unat_plus_simple [THEN iffD1]) (auto simp: word_le_nat_alt unat_word_ariths)
    then have high: "\<not> unat va < 0x400000" by simp
    have "linear_page va < min (unat tm) (2 ^ 30)" using cs(2) [OF f] f18 by (simp add: lp)
    moreover have "0x400000 \<le> linear_page va" if "0x400000 \<le> unat (V2P va)" using that unfolding lp by simp
    ultimately show ?thesis using r(3) [OF f] high assms(5) by auto
  qed
  moreover have "contiguous (next_frames n s)" using assms(3) r(2) assms(4) by (rule contiguous_in_order)
  ultimately show ?thesis using r(1) by (simp add: fat_space_def)
qed (simp add: fat_space_def)

lemma fat_room_cong: "same_space b b' \<Longrightarrow> fat_room n k tm b' \<longleftrightarrow> fat_room n k tm b"
  using same_spaceD(4,7,9) [of b b'] frames_needed_cong [of b' b] by (simp add: fat_room_def)

lemma boot_to_paging:
  fixes s :: "('d, 'z) kernel_scheme"
  assumes "fs_ok bus view s" "length (idt s) = 256" "length (interrupt_handlers s) = 256"
    and "clear_start n (boot_memory bootinfo s) (boot_view (mapped_memory k bootinfo s))"
  obtains t s' where
    "kernel_main bus k bootinfo s = bindk (fat12_init bus s') (\<lambda>_ s.
       let (page, s) = vmmngr_alloc_page s; user_stack = page + 0x1000 in
       bindk (tss_init bus (tss_address k) (stack_top k) s) (\<lambda>_ s. jump_usermode bus (shell_address k) user_stack s))"
    "\<forall>n < 256. n < 48 \<or> n = 0x80 \<longrightarrow> t ! n = gate (stub_address k n) (if n = 0x80 then 0xEE else 0x8E)"
    "fs_ok bus view s'" "disk_content view s' = disk_content view s" "mount_info s' = mount_info s"
    "fs.more s' = fs.more (set_up k t s)" "vm_ok n s'" "\<forall>va. unat va < 0x400000 \<longrightarrow> translate s' va = None"
    "\<forall>j. fat_room n j (boot_memory bootinfo s) (boot_view (mapped_memory k bootinfo s)) \<longrightarrow> fat_space n j s'"
proof -
  have c: "pc_conforms bus view" and t0: "terminal_ok (terminal_of view s)"
    using assms(1) by (simp_all add: fs_ok_def drive_inv_def)
  obtain t sA where A:
    "\<And>g :: ('d, 'z) kernel_scheme \<Rightarrow> (unit, ('d, 'z) kernel_scheme) result. bindk (printk_color bus 3 (cs ''============kernel loaded================\<newline>'') [] (kernel_gdt_load s)) (\<lambda>_ s.
     bindk (isr_install bus (stub_address k) (idt_address k) (s\<lparr>interrupts_on := False\<rparr>)) (\<lambda>_ s.
     bindk (init_timer bus 50 s) (\<lambda>_ s. bindk (init_keyboard s) (\<lambda>_ s. bindk (printk_init bus s) (\<lambda>_ s. g s))))) = g sA"
    "screen_only view (set_up k t s) (sA\<lparr>interrupts_on := True\<rparr>)" "terminal_ok (terminal_of view (sA\<lparr>interrupts_on := True\<rparr>))"
    "\<forall>n < 256. n < 48 \<or> n = 0x80 \<longrightarrow> t ! n = gate (stub_address k n) (if n = 0x80 then 0xEE else 0x8E)"
    by (rule boot_start [OF c t0 assms(2,3)]) (rule that)
  let ?A = "sA\<lparr>interrupts_on := True\<rparr>"
  obtain d v where dA: "?A = (set_up k t s)\<lparr>dev := d, vidmem := v\<rparr>" using A(2) unfolding screen_only_def by blast
  have trunc: "pmm.truncate ?A = pmm.truncate s"
    unfolding dA by (simp add: set_up_def set_idt_def Let_def pmm.defs)
  have mA: "mem ?A = mem s" using arg_cong [OF trunc, of mem] by simp
  obtain sM where M: "\<And>g :: ('d, 'z) kernel_scheme \<Rightarrow> (unit, ('d, 'z) kernel_scheme) result. bindk (pr bus KERN_DEBUG ''KERNEL'' ''Kernel ends at: %x\<newline>'' [VInt (kernel_end k)] ?A) (\<lambda>_ x.
     bindk (pr bus KERN_DEBUG ''KERNEL'' ''Bitmap starts at: %x\<newline>'' [VInt ((kernel_end k + 0xFFF) AND NOT 0xFFF)] x) (\<lambda>_ x.
     bindk (printk_color bus 5 (cs ''===========MEMORY MAP START========== \<newline>'') [] x) (\<lambda>_ x.
     bindk (map_loop bus (rd32 (mem ?A) (bootinfo + 44)) 0 (sint (rd32 (mem ?A) (bootinfo + 40) div 24))
       (init_mem_mngr ((kernel_end k + 0xFFF) AND NOT 0xFFF) (boot_memory bootinfo ?A) x)) (\<lambda>_ x.
     bindk (printk_color bus 5 (cs ''===========MEMORY MAP END========== \<newline>'') [] x) (\<lambda>_ x.
     bindk (pr bus KERN_INFO ''Memory'' ''Total Size %d'' [VInt (boot_memory bootinfo ?A)] x) (\<lambda>_ x.
     bindk (printk bus (cs ''Kernel stack top %x\<newline> '') [VInt (stack_top k)] x) (\<lambda>_ x. g x))))))) = g sM"
    "screen_only view (mapped_memory k bootinfo ?A) sM" "terminal_ok (terminal_of view sM)"
    by (rule boot_map [OF c A(3)]) (rule that)
  have "same_space (boot_view (mapped_memory k bootinfo s)) (boot_view (mapped_memory k bootinfo ?A))"
    using trunc by (intro mapped_memory_cong) simp
  with boot_view_screen [OF M(2)] have bv: "same_space (boot_view (mapped_memory k bootinfo s)) (boot_view sM)"
    by (simp add: same_space_def)
  with assms(4) have cl: "clear_start n (boot_memory bootinfo s) (boot_view sM)" by (simp add: clear_start_cong)
  let ?T = "min (unat (boot_memory bootinfo s)) (2 ^ 30)"
  obtain sV where V: "vmmngr_initialize bus (boot_memory bootinfo s) sM = Inr ((), sV)" "vm_ok n sV" "vm_frame view sM sV"
    "next_frames n sV \<subseteq> next_frames (frames_needed ?T (boot_view sM) + n) (boot_view sM)"
    and tr: "\<forall>va. translate sV va = (if unat va < 0x400000 then None
       else if translate (boot_view sM) va = None \<and> 0x400000 \<le> linear_page va \<and> linear_page va < ?T
       then Some (V2P va) else translate (boot_view sM) va)"
    using initialize_space [OF c M(3) cl] by blast
  have "in_order (boot_view sM) sV" using V(3) by (simp add: vm_frame_def boot_view_def)
  then have fat: "\<forall>j. fat_room n j (boot_memory bootinfo s) (boot_view (mapped_memory k bootinfo s)) \<longrightarrow> fat_space n j sV"
    using fat_room_space [OF cl _ _ V(4) tr] fat_room_cong [OF bv] by blast
  have low: "\<forall>va. unat va < 0x400000 \<longrightarrow> translate sV va = None" using tr by simp
  have bm: "boot_memory bootinfo ?A = boot_memory bootinfo s" by (simp add: boot_memory_def mA)
  show thesis
  proof (rule that [OF _ A(4) _ _ _ _ V(2) low fat])
    show "kernel_main bus k bootinfo s = bindk (fat12_init bus sV) (\<lambda>_ s.
       let (page, s) = vmmngr_alloc_page s; user_stack = page + 0x1000 in
       bindk (tss_init bus (tss_address k) (stack_top k) s) (\<lambda>_ s. jump_usermode bus (shell_address k) user_stack s))"
      unfolding kernel_main_def Let_def A(1) boot_memory_def [of bootinfo ?A, symmetric]
      unfolding M(1) unfolding bm V(1) by simp
    have okA: "fs_ok bus view ?A" "disk_content view ?A = disk_content view s" "mount_info ?A = mount_info s"
      "fs.more ?A = fs.more (set_up k t s)"
      using vm_frame_fs [OF vm_frame_screen [OF A(2)]] assms(1) by (simp_all add: set_up_fs)
    have more: "pmm.more (mapped_memory k bootinfo ?A) = pmm.more ?A" by (rule mapped_memory_pmm)
    have okM: "fs_ok bus view sM" "disk_content view sM = disk_content view ?A" "mount_info sM = mount_info ?A" "fs.more sM = fs.more ?A"
      using vm_frame_fs [OF vm_frame_screen [OF M(2)]] fs_fields_more [OF more] fs_more_pmm [OF more] okA(1) by simp_all
    show "fs_ok bus view sV" "disk_content view sV = disk_content view s" "mount_info sV = mount_info s"
      "fs.more sV = fs.more (set_up k t s)"
      using vm_frame_fs [OF V(3) okM(1)] okM(2-4) okA(2-4) by simp_all
  qed
qed

lemma set_up_waiting:
  fixes s :: "('d, 'z) kernel_scheme"
  assumes "kbd_ok s" "typed s = []" "length (interrupt_handlers s) = 256" "terminal_ok (terminal_of view s)"
  shows "waiting view (set_up k t s)" "typed (set_up k t s) = []"
proof -
  have "typed (set_up k t s) = typed s" "kbd_ok (set_up k t s) = kbd_ok s" "terminal_of view (set_up k t s) = terminal_of view s"
    by (simp_all add: set_up_def set_idt_def Let_def typed_def kbd_ok_def terminal_of_def)
  with assms show "waiting view (set_up k t s)" "typed (set_up k t s) = []"
    by (simp_all add: waiting_def) (simp_all add: set_up_def set_idt_def Let_def)
qed

text \<open>After a FAT that is larger than its page, the next page lies inside it.\<close>

lemma frame_page: "aligned p \<Longrightarrow> unat (V2P p) = 4096 * (unat (V2P p) div 4096)"
  using V2P_page_frame [of p] unat_page_frame [of "V2P p"] by (simp add: page_frame_aligned)

lemma fat_stack:
  fixes s :: "('d, 'z) vmm_scheme"
  assumes "vm_ok (Suc (Suc n)) s" "fat_space (Suc (Suc n)) k s" "8 < k"
    and "unat (V2P p) div 4096 \<in> next_frames 1 s" "\<forall>k. next_frames k s' = next_frames (Suc k) s - {unat (V2P p) div 4096}"
    and "unat (V2P page) div 4096 \<in> next_frames 1 s'" "aligned p" "aligned page"
  shows "page = p + 0x1000"
proof -
  let ?f = "unat (V2P p) div 4096"
  have ok: "spare (Suc (Suc n)) s" using assms(1) by (simp add: vm_ok_def)
  have "contiguous (next_frames (Suc (Suc n)) s)" using assms(2,3) by (auto simp: fat_space_def)
  then have "?f + 1 \<in> next_frames (Suc (Suc n)) s" by (rule contiguous_frames [OF _ ok assms(4)]) simp
  then have n: "?f + 1 \<in> next_frames 2 s" by (rule next_frames_2 [OF assms(4)])
  then have "?f + 1 \<in> next_frames 1 s'" by (simp add: assms(5) numeral_2_eq_2)
  then have "unat (V2P page) div 4096 = ?f + 1" by (rule next_frames_1 [OF assms(6)])
  then have "unat (V2P page) = unat (V2P p) + 4096" using frame_page [OF assms(7)] frame_page [OF assms(8)] by simp
  then have "of_nat (unat (V2P page)) = (of_nat (unat (V2P p) + 4096) :: u32)" by (simp only:)
  then have "V2P page = V2P p + 0x1000" by simp
  then show ?thesis by (simp add: V2P_def)
qed

text \<open>What the boot establishes.\<close>

lemma kernel_main_spec:
  fixes s :: "('d, 'z) kernel_scheme"
  assumes "fs_ok bus view s" "kbd_ok s" "typed s = []"
    and "length (idt s) = 256" "length (interrupt_handlers s) = 256" "length (kernel_gdt s) = 6"
    and "clear_start (Suc (Suc n)) (boot_memory bootinfo s) (boot_view (mapped_memory k bootinfo s))"
    and "b = disk_content view s 0" "take 8 (bpb_filesystem_type b) = cs ''FAT12   ''" "bpb_bytes_per_sector b \<noteq> 0"
    and "fat_room (Suc (Suc n)) (unat (bpb_sectors_per_fat b)) (boot_memory bootinfo s) (boot_view (mapped_memory k bootinfo s))"
  shows "\<exists>m p page s'. kernel_main bus k bootinfo s = Inr ((), s') \<and>
    vm_ok n s' \<and> (\<forall>va. unat va < 0x400000 \<longrightarrow> translate s' va = None) \<and>
    mount_from b (mount_info s) = Inr m \<and> mount_info s' = m\<lparr>fat_buffer := p\<rparr> \<and>
    rd_bytes (mem s') p (512 * unat (bpb_sectors_per_fat b)) = fat_on_disk view (fat_start m) 0 (unat (bpb_sectors_per_fat b)) s \<and>
    disk_content view s' = disk_content view s \<and> (\<forall>c. unat (fat_offset c) < 4095 \<longrightarrow> ready bus view c n s') \<and>
    waiting view s' \<and> typed s' = [] \<and> upcoming s' = upcoming s \<and>
    (\<forall>i < 256. i < 48 \<or> i = 0x80 \<longrightarrow> idt s' ! i = gate (stub_address k i) (if i = 0x80 then 0xEE else 0x8E)) \<and>
    idtr s' = \<lparr>idt_limit = 256 * 8 - 1, idt_base = idt_address k\<rparr> \<and>
    user_mode k page s' \<and> (\<forall>va. page_frame va = page \<longrightarrow> translate s' va = Some (V2P page OR (va AND 0xfff))) \<and>
    (\<forall>x. in_range p (512 * unat (bpb_sectors_per_fat b)) x \<longrightarrow> translate s' x = Some (V2P x)) \<and>
    (8 < unat (bpb_sectors_per_fat b) \<longrightarrow> page = p + 0x1000)"
proof -
  obtain t sV where V: "kernel_main bus k bootinfo s = bindk (fat12_init bus sV) (\<lambda>_ s.
       let (page, s) = vmmngr_alloc_page s; user_stack = page + 0x1000 in
       bindk (tss_init bus (tss_address k) (stack_top k) s) (\<lambda>_ s. jump_usermode bus (shell_address k) user_stack s))"
    "\<forall>n < 256. n < 48 \<or> n = 0x80 \<longrightarrow> t ! n = gate (stub_address k n) (if n = 0x80 then 0xEE else 0x8E)"
    "fs_ok bus view sV" "disk_content view sV = disk_content view s" "mount_info sV = mount_info s"
    "fs.more sV = fs.more (set_up k t s)" "vm_ok (Suc (Suc n)) sV" "\<forall>va. unat va < 0x400000 \<longrightarrow> translate sV va = None"
    "\<forall>j. fat_room (Suc (Suc n)) j (boot_memory bootinfo s) (boot_view (mapped_memory k bootinfo s)) \<longrightarrow> fat_space (Suc (Suc n)) j sV"
    by (rule boot_to_paging [OF assms(1,4,5,7)])
  let ?n = "unat (bpb_sectors_per_fat b)"
  have room: "fat_space (Suc (Suc n)) ?n sV" using V(9) assms(11) by blast
  obtain m p sF where F: "fat12_init bus sV = Inr (0, sF)" "fs_ok bus view sF" "disk_content view sF = disk_content view sV"
    "mount_from b (mount_info sV) = Inr m" "mount_info sF = m\<lparr>fat_buffer := p\<rparr>" "vm_ok (Suc n) sF" "fat_page (Suc n) sF"
    "rd_bytes (mem sF) p (512 * ?n) = fat_on_disk view (fat_start m) 0 ?n sV" "fs.more sF = fs.more sV"
    "\<forall>va. translate sF va = (if page_frame va = p then Some (V2P p OR (va AND 0xfff)) else translate sV va)"
    "\<forall>x. in_range p (512 * ?n) x \<longrightarrow> \<not> kernel_byte sF x \<and> translate sF x = Some (V2P x)"
    "unat (V2P p) div 4096 \<in> next_frames 1 sV" "\<forall>k. next_frames k sF = next_frames (Suc k) sV - {unat (V2P p) div 4096}"
    using assms(8) by (rule_tac fat12_init_vm [OF V(3,7) _ assms(9,10) room]) (simp_all add: V(4))
  have gF: "length (kernel_gdt sF) = 6"
    using assms(6) kernel_gdt_more [OF F(9)] kernel_gdt_more [OF V(6)] by (simp add: set_up_def set_idt_def Let_def)
  obtain page s' where U:
    "(let (page, s) = vmmngr_alloc_page sF; user_stack = page + 0x1000 in
      bindk (tss_init bus (tss_address k) (stack_top k) s) (\<lambda>_ s. jump_usermode bus (shell_address k) user_stack s)) = Inr ((), s')"
    "aligned page" "held n s' (V2P page)" "vm_ok n s'" "fat_page n s'" "fs_ok bus view s'" "disk_content view s' = disk_content view sF"
    "mount_info s' = mount_info sF" "input_side s' = input_side sF" "user_mode k page s'"
    "\<forall>x. \<not> kernel_byte sF x \<longrightarrow> mem s' x = mem sF x"
    "\<forall>va. translate s' va = (if page_frame va = page then Some (V2P page OR (va AND 0xfff)) else translate sF va)"
    "unat (V2P page) div 4096 \<in> next_frames 1 sF"
    by (rule boot_user [OF F(2,6,7) gF])
  have "?n < 2 ^ LENGTH(16)" by (rule unsigned_less)
  then have fat_length: "512 * ?n \<le> 2 ^ 32" by simp
  have fp: "held n s' (V2P p)" "aligned p" "\<not> kernel_byte sF p" using U(5) F(7) by (simp_all add: fat_page_def Let_def U(8) F(5))
  have low: "\<forall>va. unat va < 0x400000 \<longrightarrow> translate s' va = None"
    using held_high [OF U(3)] held_high [OF fp(1)] V(8) by (simp add: U(12) F(10))
  have "mem s' x = mem sF x" if "in_range p (512 * ?n) x" for x
    using that F(11) U(11) by blast
  then have fat: "rd_bytes (mem s') p (512 * ?n) = fat_on_disk view (fat_start m) 0 ?n s"
    using F(8) V(4) fat_length rd_bytes_cong [of p "512 * ?n" "mem s'" "mem sF"] by (simp add: fat_on_disk_def)
  have mapped: "\<forall>x. in_range p (512 * ?n) x \<longrightarrow> translate s' x = Some (V2P x)"
    using F(11) U(12) linear_in_page by auto
  have stack: "page = p + 0x1000" if large: "8 < ?n" by (rule fat_stack [OF V(7) room large F(12,13) U(13) fp(2) U(2)])
  have inp: "input_side s' = input_side (set_up k t s)"
    using U(9) input_side_more [OF F(9)] input_side_more [OF V(6)] by simp
  note tm = fs_ok_def [of bus view, THEN iffD1, THEN conjunct2, THEN conjunct1]
  note w = input_side_waiting [OF inp tm [OF U(6)] set_up_waiting(2) set_up_waiting(1)] 
  have tables: "idt s' = t" "idtr s' = \<lparr>idt_limit = 256 * 8 - 1, idt_base = idt_address k\<rparr>" "upcoming s' = upcoming s"
    using inp by (simp_all add: input_side_def set_up_def set_idt_def Let_def)
  have "ready bus view c n s'" if "unat (fat_offset c) < 4095" for c
    using that U(4-6) fat_page_entry by (simp add: ready_def)
  moreover have "kernel_main bus k bootinfo s = Inr ((), s')"
    by (simp only: V(1) F(1) bindk_simps fst_conv snd_conv U(1))
  moreover have "waiting view s'" "typed s' = []" using w assms(2,3,5) tm [OF assms(1)] by blast+
  ultimately show ?thesis
    using low F(4) fat tables V(2) U(4,7,8,10,12) mapped stack by (intro exI [of _ m] exI [of _ p] exI [of _ page] exI [of _ s'] conjI)
      (simp_all add: V(4,5) F(3,5))
qed

text \<open>
  C3: The boot: on a machine with a healthy drive and a FAT12 volume, whose boot tables and bitmap keep
  clear of the frames that paging, the FAT and the user's stack take (\<open>clear_start\<close>), and whose FAT finds
  room (\<open>fat_room\<close>), \<open>main\<close> comes to its end, and leaves what everything after it relies on. The address
  space has room for \<open>n\<close> more pages, and its first 4 MiB fault; the volume is mounted, its whole FAT in
  memory at pages that are all mapped, its disk unchanged, and the commands are ready to use it; the keyboard
  waits for a line with its handler and the timer's in place; every exception, interrupt line and the system
  call has its gate; and the processor is in user mode at the shell with its stack in a page, and the kernel's
  stack in the task state segment.
  The FAT gets one page, so one of at most 8 sectors fits and \<open>fat_room\<close> asks nothing more. A larger one, as
  the 272 sectors of the repository's boot sector, is written on past its page: then \<open>fat_room\<close> asks that the
  frames the start takes are contiguous, that the \<open>n + 2\<close> left to the FAT, the stack and later pages cover
  it (\<open>sectors \<le> 8 * (n + 2)\<close>), and that the boot tables map them linearly (or, from 4 MiB on, not at all).
  Those further pages are never allocated, and the user's stack page is the second page of the cached FAT.
\<close>

theorem kernel_main_boots:
  fixes s :: "('d, 'z) kernel_scheme"
  assumes "fs_ok bus view s" "kbd_ok s" "typed s = []"
    and "length (idt s) = 256" "length (interrupt_handlers s) = 256" "length (kernel_gdt s) = 6"
    and "clear_start (Suc (Suc n)) (boot_memory bootinfo s) (boot_view (mapped_memory k bootinfo s))"
    and "b = disk_content view s 0" "take 8 (bpb_filesystem_type b) = cs ''FAT12   ''" "bpb_bytes_per_sector b \<noteq> 0"
    and "fat_room (Suc (Suc n)) (unat (bpb_sectors_per_fat b)) (boot_memory bootinfo s) (boot_view (mapped_memory k bootinfo s))"
  shows "\<exists>m p page s'. kernel_main bus k bootinfo s = Inr ((), s') \<and>
    vm_ok n s' \<and> (\<forall>va. unat va < 0x400000 \<longrightarrow> translate s' va = None) \<and>
    mount_from b (mount_info s) = Inr m \<and> mount_info s' = m\<lparr>fat_buffer := p\<rparr> \<and>
    rd_bytes (mem s') p (512 * unat (bpb_sectors_per_fat b)) = fat_on_disk view (fat_start m) 0 (unat (bpb_sectors_per_fat b)) s \<and>
    disk_content view s' = disk_content view s \<and> (\<forall>c. unat (fat_offset c) < 4095 \<longrightarrow> ready bus view c n s') \<and>
    waiting view s' \<and> typed s' = [] \<and> upcoming s' = upcoming s \<and>
    (\<forall>i < 256. i < 48 \<or> i = 0x80 \<longrightarrow> idt s' ! i = gate (stub_address k i) (if i = 0x80 then 0xEE else 0x8E)) \<and>
    idtr s' = \<lparr>idt_limit = 256 * 8 - 1, idt_base = idt_address k\<rparr> \<and>
    user_mode k page s' \<and> (\<forall>va. page_frame va = page \<longrightarrow> translate s' va = Some (V2P page OR (va AND 0xfff))) \<and>
    (\<forall>x. in_range p (512 * unat (bpb_sectors_per_fat b)) x \<longrightarrow> translate s' x = Some (V2P x)) \<and>
    (8 < unat (bpb_sectors_per_fat b) \<longrightarrow> page = p + 0x1000)"
  by (rule kernel_main_spec [OF assms])

text \<open>
  A machine for the witnesses, as the repository's boot code leaves it: the disk's boot sector has the
  fields of bootsect.asm (its code left out), with a FAT of 272 sectors; the page directory at 0x9C000 and
  its tables for the first 4 MiB and for the kernel's addresses are those of paging.asm; the boot loader's
  structure is at 0x8000, with 8 MiB of memory and a map of one usable region, the low memory, at 0x9000.
\<close>

definition tenos_boot :: "u8 list" where
  "tenos_boot = [0xEB, 0x3C, 0x90] @ cs ''MYOS1.0 '' @ [0, 2, 1, 112, 0, 2, 0, 2, 0, 0, 0xF8, 16, 1, 63, 0, 16, 0] @
     [0, 0, 0, 0, 0, 0, 64, 0, 0x80, 0, 0x29, 0x78, 0x56, 0x34, 0x12] @ cs ''MY OS DISK '' @ cs ''FAT12   '' @
     replicate 448 0 @ [0x55, 0xAA]"

lemma tenos_boot_fields:
  "length tenos_boot = 512" "take 8 (bpb_filesystem_type tenos_boot) = cs ''FAT12   ''" "bpb_bytes_per_sector tenos_boot \<noteq> 0"
  "bpb_reserved_sectors tenos_boot = 112" "unat (bpb_sectors_per_fat tenos_boot) = 272"
  by (simp_all add: tenos_boot_def bpb_filesystem_type_def bpb_bytes_per_sector_def bpb_reserved_sectors_def
      bpb_num_fats_def bpb_sectors_per_fat_def bpb_root_entries_def buf16_def cs_def nth_append drop_append)

definition tenos_disk :: pc where
  "tenos_disk = demo_pc\<lparr>ata_sectors := (\<lambda>_. replicate 256 0)(0 := words_of tenos_boot)\<rparr>"

text \<open>A table that maps its 4 MiB to the first 4 MiB of memory.\<close>

primrec low_table :: "nat \<Rightarrow> u32 \<Rightarrow> memory \<Rightarrow> memory" where
  "low_table 0 P m = m" |
  "low_table (Suc k) P m = wr32 (low_table k P m) (P + 4 * of_nat k) (frame_addr k OR 7)"

lemma low_table_entry:
  assumes "k \<le> 1024" "j < 1024" "aligned P" "aligned Q"
  shows "entry (low_table k P m) Q j = (if Q = P \<and> j < k then frame_addr j OR 7 else entry m Q j)"
  using assms by (induction k) (auto simp: entry_wr32 less_Suc_eq)

lemma low_table_outside: "k \<le> 1024 \<Longrightarrow> aligned P \<Longrightarrow> page_frame x \<noteq> P \<Longrightarrow> low_table k P m x = m x"
proof (induction k)
  case (Suc k)
  then have "\<not> in_range (P + 4 * of_nat k) 4 x" using entry_byte [of k P x] by auto
  with Suc show ?case by (simp add: wr32_outside)
qed simp

definition boot_low :: memory where
  "boot_low = (\<lambda>_. 0)(0x8004 := 0xF8, 0x8005 := 0x1B, 0x8028 := 24, 0x802D := 0x90, 0x9009 := 0xFC, 0x900A := 0x09, 0x9010 := 1)"

definition boot_tables :: memory where
  "boot_tables = wr32 (wr32 (low_table 1024 0xC009E000 (low_table 1024 0xC009D000 boot_low))
     (0xC009C000 + 4 * of_nat 0) 0x9D007) (0xC009C000 + 4 * of_nat 768) 0x9E007"

definition boot_machine :: "(u8 \<times> pc) kernel" where
  "boot_machine = cpu.extend ((demo_cpu [])\<lparr>mem := boot_tables, cr3 := 0x9C000, dev := (0, tenos_disk)\<rparr>)
     (kernel.fields 0 0 0 0 False)"

lemma boot_tables_outside: "page_frame x \<notin> {0xC009C000, 0xC009D000, 0xC009E000} \<Longrightarrow> boot_tables x = boot_low x"
proof -
  assume x: "page_frame x \<notin> {0xC009C000, 0xC009D000, 0xC009E000}"
  then have "\<not> in_range (0xC009C000 + 4 * of_nat i) 4 x" if "i < 1024" for i
    using that entry_byte [of i "0xC009C000" x] by (auto simp: aligned_def)
  from this [of 0] this [of 768] show ?thesis
    using x by (simp add: boot_tables_def wr32_outside low_table_outside aligned_def)
qed

lemma boot_tables_entry:
  assumes "i < 1024"
  shows "entry boot_tables 0xC009C000 i = (if i = 0 then 0x9D007 else if i = 768 then 0x9E007 else 0)"
    "entry boot_tables 0xC009D000 i = frame_addr i OR 7" "entry boot_tables 0xC009E000 i = frame_addr i OR 7"
proof -
  have "entry boot_low 0xC009C000 i = entry (\<lambda>_. 0) 0xC009C000 i"
    using assms by (intro entry_cong) (auto simp: boot_low_def)
  then have "entry boot_low 0xC009C000 i = 0" by (simp add: entry_def rd32_def)
  moreover have a: "aligned 0xC009C000" "aligned 0xC009D000" "aligned 0xC009E000" by (simp_all add: aligned_def)
  have w: "entry (wr32 m (0xC009C000 + 4 * of_nat k) v) Q i = (if Q = 0xC009C000 \<and> i = k then v else entry m Q i)"
    if "k = 0 \<or> k = 768" "aligned Q" for m k v Q
    using that assms a(1) by (intro entry_wr32) auto
  note e = w [of 768, OF disjI2 [OF refl]] w [of 0, OF disjI1 [OF refl]]
  ultimately show "entry boot_tables 0xC009C000 i = (if i = 0 then 0x9D007 else if i = 768 then 0x9E007 else 0)"
    "entry boot_tables 0xC009D000 i = frame_addr i OR 7" "entry boot_tables 0xC009E000 i = frame_addr i OR 7"
    unfolding boot_tables_def e(1) [OF a(1)] e(1) [OF a(2)] e(1) [OF a(3)] e(2) [OF a(1)] e(2) [OF a(2)] e(2) [OF a(3)]
    using a assms by (simp_all add: low_table_entry)
qed

definition boot_env :: kernel_env where
  "boot_env = \<lparr>stub_address = (\<lambda>n. 0xC0100000 + 16 * of_nat n), idt_address = 0xC0110000, kernel_end = 0xC0200000,
     stack_top = 0xC0180000, tss_address = 0xC0111000, shell_address = 0xC0120000\<rparr>"

lemma boot_machine_fields:
  "mem boot_machine = boot_tables" "cr3 boot_machine = 0x9C000"
  "dev boot_machine = (0, tenos_disk)" "vidmem boot_machine = replicate 4000 0" "sector_buffer boot_machine = replicate 512 0"
  "kbd_ok boot_machine" "typed boot_machine = []" "length (idt boot_machine) = 256" "length (interrupt_handlers boot_machine) = 256"
  "length (kernel_gdt boot_machine) = 6"
proof -
  have k: "kbd_ok (demo_kbd 0 [])" "typed (demo_kbd 0 []) = []" using demo_kbd_ok [of "[]" 0] by (simp_all add: demo_kbd_simps)
  show "kbd_ok boot_machine" "typed boot_machine = []"
    using k by (simp_all add: boot_machine_def demo_cpu_def irq.defs cpu.defs demo_irq_def kbd.defs kbd_ok_def typed_def)
qed (simp_all add: boot_machine_def demo_cpu_def irq.defs cpu.defs demo_irq_def kbd.defs demo_kbd_def)

lemma boot_machine_ok: "fs_ok demo_kbus snd boot_machine" "disk_content snd boot_machine 0 = tenos_boot"
proof -
  have "length (words_of tenos_boot) = 256" by (simp add: words_of_length tenos_boot_fields)
  then show "fs_ok demo_kbus snd boot_machine" "disk_content snd boot_machine 0 = tenos_boot"
    using demo_fs_ok demo_kbus_conforms
    by (simp_all add: fs_ok_def drive_inv_def drive_ok_def terminal_of_def cursor_of_def demo_pc_def tenos_disk_def
        disk_content_def boot_machine_fields bytes_of_words_of tenos_boot_fields)
qed

lemma boot_machine_words:
  "rd32 (mem boot_machine) 0x8004 = 0x1BF8" "rd32 (mem boot_machine) 0x8008 = 0" "rd32 (mem boot_machine) 0x8028 = 24"
  "rd32 (mem boot_machine) 0x802C = 0x9000" "rd32 (mem boot_machine) 0x9000 = 0" "rd32 (mem boot_machine) 0x9008 = 0x9FC00"
  "rd32 (mem boot_machine) 0x9010 = 1"
  by (simp_all add: boot_machine_fields(1) boot_tables_outside page_frame_iff boot_low_def rd32_def push_bit_eq_mult)

text \<open>The machine with its allocator, before and after the region of the map is freed.\<close>

definition boot_managed :: "(u8 \<times> pc) kernel" where
  "boot_managed = init_mem_mngr 0xC0200000 0x7FE000 boot_machine"

lemma boot_managed_fields:
  "mem_mngr boot_managed = 0xC0200000" "mem_mngr_max_blocks boot_managed = 0xFF800" "mem_mngr_used_blocks boot_managed = 0xFF800"
  "cr3 boot_managed = 0x9C000" "\<not> in_range 0xC0200000 (2 ^ 18) x \<Longrightarrow> mem boot_managed x = mem boot_machine x"
  by (simp_all add: boot_managed_def init_mem_mngr_def get_memory_size_def get_block_count_def Let_def boot_machine_fields
    memset_eq in_range_def)

lemma boot_managed_words:
  assumes "unat a < 0x10000"
  shows "rd32 (mem boot_managed) a = rd32 (mem boot_machine) a"
proof (rule rd32_cong)
  fix x
  define k where "k = x - a"
  assume "in_range a 4 x"
  then have "unat k < 4" "x = a + k" by (simp_all add: in_range_def k_def)
  then have "unat x < 0x10004" using assms by (simp add: unat_word_ariths)
  then have "\<not> in_range 0xC0200000 (2 ^ 18) x" by (simp add: in_range_def unat_sub_if')
  then show "mem boot_managed x = mem boot_machine x" by (rule boot_managed_fields)
qed

lemma boot_mapped: "mapped_memory boot_env 0x8000 boot_machine = init_memory_region 0 0x9FC00 boot_managed"
proof -
  have "boot_memory 0x8000 boot_machine = 0x7FE000" by (simp add: boot_memory_def boot_machine_words)
  then have "mapped_memory boot_env 0x8000 boot_machine = map_frames 0x9000 0 1 boot_managed"
    by (simp add: mapped_memory_def boot_machine_words boot_env_def boot_managed_def)
  moreover have "clamp_region 0x9000 boot_managed = boot_managed"
    by (simp add: clamp_region_def region_type_def boot_managed_words boot_machine_words)
  moreover have "use_region 0x9000 boot_managed = init_memory_region 0 0x9FC00 boot_managed"
    by (simp add: use_region_def region_type_def region_startLo_def region_sizeLo_def boot_managed_words boot_machine_words)
  ultimately show ?thesis by (simp add: map_frames.simps [of "0x9000" 0] map_frames.simps [of "0x9000" 1])
qed

text \<open>What paging finds: the frames, the bytes outside the bitmap, the directory and its table.\<close>

definition boot_start_space :: "(u8 \<times> pc) kernel" where
  "boot_start_space = boot_view (mapped_memory boot_env 0x8000 boot_machine)"

lemma boot_space_fields:
  "mem_mngr boot_start_space = 0xC0200000" "mem_mngr_max_blocks boot_start_space = 0xFF800"
  "get_free_block_count boot_start_space = 160" "cur_directory boot_start_space = 0xC009C000"
  "\<not> in_range 0xC0200000 (2 ^ 18) x \<Longrightarrow> mem boot_start_space x = mem boot_machine x"
proof -
  obtain m u where X: "init_memory_region 0 0x9FC00 boot_managed = boot_managed\<lparr>mem := m, mem_mngr_used_blocks := u\<rparr>"
    using init_memory_region_rest by blast
  note s = boot_start_space_def boot_mapped X boot_view_def
  show f: "mem_mngr boot_start_space = 0xC0200000" "mem_mngr_max_blocks boot_start_space = 0xFF800" "cur_directory boot_start_space = 0xC009C000"
    by (simp_all add: s boot_managed_fields P2V_def)
  have "mem_mngr_used_blocks (init_memory_region 0 0x9FC00 boot_managed) = 0xFF800 - 160"
    using region_loop_used [of 0 159 boot_managed] by (simp add: init_memory_region_def boot_managed_fields)
  then show "get_free_block_count boot_start_space = 160" by (simp add: get_free_block_count_def s boot_managed_fields)
  show "mem boot_start_space x = mem boot_machine x" if "\<not> in_range 0xC0200000 (2 ^ 18) x"
    using that init_memory_region_mem [of boot_managed x 0 "0x9FC00"]
    by (simp add: boot_start_space_def boot_mapped boot_view_def boot_managed_fields)
qed

lemma boot_space_bit:
  assumes "c < 160"
  shows "frame_bit boot_start_space c \<longleftrightarrow> c = 0"
proof -
  have "frame_bit boot_start_space c \<longleftrightarrow> frame_bit (init_memory_region 0 0x9FC00 boot_managed) c"
    by (simp add: boot_start_space_def boot_mapped boot_view_def frame_bit_def mem_mngr_at_def)
  then show ?thesis using assms init_memory_region_frame(1) [of c 0 "0x9FC00" boot_managed] by simp
qed

lemma boot_space_entry:
  assumes "i < 1024" "aligned P" "unat P < 0xC0200000"
  shows "entry (mem boot_start_space) P i = entry boot_tables P i"
  unfolding boot_machine_fields(1) [symmetric]
proof (rule entry_cong [OF assms(1,2) boot_space_fields(5)])
  fix x
  assume "page_frame x = P"
  then have "4096 * (unat x div 4096) = unat P" using unat_page_frame [of x] by simp
  then have "unat x < 0xC0200000" using assms(2,3) by (auto simp: aligned_def elim!: dvdE)
  then show "\<not> in_range 0xC0200000 (2 ^ 18) x" by (simp add: in_range_def unat_sub_if')
qed

lemma boot_space_pde: "i < 1024 \<Longrightarrow> pde boot_start_space i = (if i = 0 then 0x9D007 else if i = 768 then 0x9E007 else 0)"
  by (simp add: pde_def boot_space_fields boot_space_entry boot_tables_entry aligned_def)

lemma boot_space_table:
  "j < 1024 \<Longrightarrow> P \<in> {0xC009D000, 0xC009E000} \<Longrightarrow> entry (mem boot_start_space) P j = frame_addr j OR 7"
  by (auto simp: boot_space_entry boot_tables_entry aligned_def)

lemma boot_space_next:
  assumes "n \<le> 150"
  shows "next_frames n boot_start_space = {1..n}"
proof (intro set_eqI iffI)
  fix f
  assume "f \<in> next_frames n boot_start_space"
  then have f: "\<not> frame_bit boot_start_space f" "card {b. b < f \<and> \<not> frame_bit boot_start_space b} < n"
    by (simp_all add: next_frames_def)
  have "{1..<min f 160} \<subseteq> {b. b < f \<and> \<not> frame_bit boot_start_space b}" by (auto simp: boot_space_bit)
  then have "card {1..<min f 160} \<le> card {b. b < f \<and> \<not> frame_bit boot_start_space b}" by (intro card_mono) simp_all
  with f assms show "f \<in> {1..n}" by (cases "f = 0") (auto simp: boot_space_bit)
next
  fix f
  assume f: "f \<in> {1..n}"
  have "{b. b < f \<and> \<not> frame_bit boot_start_space b} \<subseteq> {1..<f}" using boot_space_bit [of 0] by (auto simp: Suc_le_eq intro: gr0I)
  then have "card {b. b < f \<and> \<not> frame_bit boot_start_space b} \<le> card {1..<f}" by (intro card_mono) simp_all
  then show "f \<in> next_frames n boot_start_space"
    using f assms by (auto simp: next_frames_def boot_space_bit frame_limit_def boot_space_fields)
qed

lemma boot_space_held:
  "n \<le> 60 \<Longrightarrow> aligned p \<Longrightarrow> unat p < 2 ^ 30 \<Longrightarrow> 0x40000 \<le> unat p \<Longrightarrow> held n boot_start_space p"
  using boot_space_next [of n] by (auto simp: held_def)

lemma boot_space_bitmap:
  assumes "n \<le> 60" "bitmap_byte boot_start_space x"
  shows "held n boot_start_space (V2P (page_frame x))" "0xC0200000 \<le> unat (page_frame x)"
proof -
  have "unat (x - 0xC0200000) < 0x1FF00" using assms(2) by (simp add: bitmap_byte_def boot_space_fields in_range_def)
  then have x: "0xC0200000 \<le> unat x" "unat x < 0xC021FF00" using unat_lt32 [of x] by (auto simp: unat_sub_if' split: if_splits)
  then have p: "0xC0200000 \<le> unat (page_frame x)" "unat (page_frame x) < 0xC021FF00" by (auto simp: unat_page_frame)
  then show "0xC0200000 \<le> unat (page_frame x)" by simp
  have "unat (V2P (page_frame x)) = unat (page_frame x) - 0xC0000000" using p by (simp add: V2P_def unat_sub_if')
  moreover have "aligned (V2P (page_frame x))" using p calculation by (simp add: aligned_def unat_page_frame)
  moreover from calculation(1) have "0x40000 \<le> unat (V2P (page_frame x))" using p by linarith
  ultimately show "held n boot_start_space (V2P (page_frame x))" using p by (intro boot_space_held assms(1)) simp_all
qed

lemma boot_space_needs: "frames_needed 0x7FE000 boot_start_space = 4"
proof -
  have "{j. 0 \<le> j \<and> j < 1024 \<and> bit (pde boot_start_space j) 0} = {0, 768}"
    by (auto simp: boot_space_pde split: if_splits)
  moreover have "{i. 769 \<le> i \<and> i < 768 + ((0x7FE000 :: nat) + 0x3FFFFF) div 0x400000 \<and> \<not> bit (pde boot_start_space i) 0} = {769}"
    by (auto simp: boot_space_pde)
  ultimately show ?thesis by (simp only: frames_needed_def tables_from_def lacking_def) simp
qed

lemma frame_addr_low: "j < 1024 \<Longrightarrow> \<not> bit (frame_addr j OR 7) 31"
proof -
  assume j: "j < 1024"
  then have "unat (frame_addr j) < 2 ^ 31" by (simp add: unat_frame_addr)
  then have "\<not> bit (unat (frame_addr j)) 31" by (simp add: bit_iff_odd)
  then have "\<not> bit (frame_addr j) 31" by (simp add: bit_unsigned_iff)
  then show ?thesis by (simp add: bit_or_iff)
qed

lemma boot_clear: "clear_start 36 0x7FE000 boot_start_space"
proof -
  have l: "frame_limit boot_start_space = 0xFF800" by (simp add: frame_limit_def boot_space_fields)
  have nx: "next_frames 40 boot_start_space = {1..40}" by (simp add: boot_space_next)
  have "pmm_ok boot_start_space" by (simp add: pmm_ok_def boot_space_fields boot_space_bit)
  moreover have "page_frame x \<notin> {0xC009C000, 0xC009D000, 0xC009E000}" if "bitmap_byte boot_start_space x" for x
    using boot_space_bitmap(2) [of 40 x] that by auto
  ultimately have "space_ok 40 boot_start_space"
    using boot_space_bitmap(1) [of 40]
    by (auto simp: space_ok_def l nx boot_space_fields table_ok_def boot_space_pde boot_space_held aligned_def V2P_def P2V_def split: if_splits)
  moreover have "spare 40 boot_start_space"
  proof -
    have "{1..40} \<subseteq> {f. f < frame_limit boot_start_space \<and> \<not> frame_bit boot_start_space f}"
      by (auto simp: l boot_space_bit)
    then have "card {1 :: nat..40} \<le> card {f. f < frame_limit boot_start_space \<and> \<not> frame_bit boot_start_space f}"
      by (intro card_mono) simp_all
    then show ?thesis by (simp add: spare_def boot_space_fields)
  qed
  moreover have "no_high boot_start_space" by (auto simp: no_high_def boot_space_pde P2V_def boot_space_table frame_addr_low)
  ultimately show ?thesis using nx by (auto simp: clear_start_def boot_space_needs boot_space_pde)
qed

text \<open>The low memory is contiguous and mapped linearly, and has room for the whole FAT.\<close>

lemma boot_space_linear:
  assumes "unat (V2P va) div 4096 < 1024"
  shows "translate boot_start_space va = Some (V2P va)"
proof -
  let ?f = "unat (V2P va) div 4096"
  have "unat (P2V (V2P va)) = unat (V2P va) + 0xC0000000"
    using assms unfolding P2V_def by (subst unat_plus_simple [THEN iffD1]) (auto simp: word_le_nat_alt unat_word_ariths)
  then have va: "unat va = unat (V2P va) + 0xC0000000" by simp
  have "unat va div 4096 = ?f + 786432" unfolding va by simp
  then have "table_index va = ?f" unfolding table_index_def using assms mod_mult_self2 [of ?f 1024 768] by simp
  moreover have "dir_index va = 768" using assms by (simp add: dir_index_def va)
  ultimately have i: "dir_index va = 768" "table_index va = ?f" by simp_all
  then have "pte_of boot_start_space va = frame_addr ?f OR 7"
    using assms by (simp add: pte_of_def boot_space_pde boot_space_table P2V_def)
  moreover have f: "frame_addr ?f = page_frame (V2P va)"
    using assms by (simp add: word_unat_eq_iff unat_frame_addr unat_page_frame)
  have "page_frame (frame_addr ?f OR 7) = page_frame (V2P va)"
    unfolding f by (simp add: page_frame_def word_ao_dist bit_simps)
  moreover have "bit (frame_addr ?f OR 7) 0" by (simp add: bit_0 even_or_iff)
  ultimately show ?thesis by (simp add: translate_pte i boot_space_pde linear_address)
qed

lemma boot_room: "fat_room 36 272 0x7FE000 boot_start_space"
  using boot_space_linear by (auto simp: fat_room_def boot_space_needs boot_space_next contiguous_def)

lemma boot_machine_clear:
  "clear_start (Suc (Suc 34)) (boot_memory 0x8000 boot_machine) (boot_view (mapped_memory boot_env 0x8000 boot_machine))"
  "fat_room (Suc (Suc 34)) (unat (bpb_sectors_per_fat tenos_boot)) (boot_memory 0x8000 boot_machine)
     (boot_view (mapped_memory boot_env 0x8000 boot_machine))"
proof -
  have m: "boot_memory 0x8000 boot_machine = 0x7FE000" by (simp add: boot_memory_def boot_machine_words)
  have n: "Suc (Suc 34) = 36" by simp
  show "clear_start (Suc (Suc 34)) (boot_memory 0x8000 boot_machine) (boot_view (mapped_memory boot_env 0x8000 boot_machine))"
    "fat_room (Suc (Suc 34)) (unat (bpb_sectors_per_fat tenos_boot)) (boot_memory 0x8000 boot_machine)
      (boot_view (mapped_memory boot_env 0x8000 boot_machine))"
    unfolding n m tenos_boot_fields(5) using boot_clear boot_room by (simp_all only: boot_start_space_def)
qed

lemma boot_machine_boots: "\<exists>s'. kernel_main demo_kbus boot_env 0x8000 boot_machine = Inr ((), s')"
  using kernel_main_spec [OF boot_machine_ok(1) boot_machine_fields(6-10) boot_machine_clear(1) boot_machine_ok(2) [symmetric]
    tenos_boot_fields(2,3) boot_machine_clear(2)] by blast

theorem kernel_main_boots_witness:
  "\<exists>s' p page. kernel_main demo_kbus boot_env 0x8000 boot_machine = Inr ((), s') \<and> vm_ok 34 s' \<and> ready demo_kbus snd 2 34 s' \<and>
     waiting snd s' \<and> fat_start (mount_info s') = 112 \<and> fat_buffer (mount_info s') = p \<and> user_mode boot_env page s' \<and>
     page = p + 0x1000 \<and> translate s' (p + 0x21FFF) = Some (V2P (p + 0x21FFF)) \<and> translate s' 0x1000 = None"
proof -
  have "unat (fat_offset 2) < 4095" by (simp add: fat_offset_def)
  moreover have "unat (0x1000 :: u32) < 0x400000" by simp
  moreover have "in_range p (512 * 272) (p + 0x21FFF)" for p by (simp add: in_range_def)
  moreover have "fat_start m = 112" if "mount_from tenos_boot m0 = Inr m" for m m0
    using that by (auto simp: mount_from_def tenos_boot_fields Let_def)
  moreover have "8 < (272 :: nat)" by simp
  ultimately show ?thesis
    using kernel_main_boots [OF boot_machine_ok(1) boot_machine_fields(6-10) boot_machine_clear(1) boot_machine_ok(2) [symmetric]
      tenos_boot_fields(2,3) boot_machine_clear(2)] unfolding tenos_boot_fields(5)
    by fastforce
qed

end
