(* ===== verification/Session.thy ===== *)
theory Session
  imports Boot
begin

text \<open>
  A session at the shell, with all components at work: keys raise interrupts, the keyboard driver edits the
  line, the read system call delivers it, the shell hands it to the command interpreter, whose commands work
  on the volume and answer on the screen. Nothing that one round does stands in the way of the next.
\<close>

section \<open>What the shell's memory keeps clear of\<close>

text \<open>
  The bytes that are the user's: not of the bitmap, the page tables or the cached FAT, and not of a page
  that one of the next \<open>n\<close> allocations takes.
\<close>

definition user_byte :: "nat \<Rightarrow> ('d, 'z) fs_scheme \<Rightarrow> u32 \<Rightarrow> bool" where
  "user_byte n s x \<longleftrightarrow> \<not> kernel_byte s x \<and> \<not> to_come n s x \<and> (\<forall>d. unat d < 4084 \<longrightarrow> \<not> entry_byte_of d s x)"

text \<open>The shell's line buffer and its literals.\<close>

definition shell_byte :: "user_env \<Rightarrow> u32 \<Rightarrow> u32 \<Rightarrow> bool" where
  "shell_byte u line x \<longleftrightarrow> in_range line 256 x \<or>
     (\<exists>y \<in> {''TenOS> '', ''exit'', ''\<newline>Goodbye!\<newline>''}. \<exists>i \<le> length y. x = lit u y + of_nat i)"

lemma literals_shell:
  assumes "literals_ok u line m" "\<And>x. shell_byte u line x \<Longrightarrow> \<not> in_range line 256 x \<Longrightarrow> m' x = m x"
  shows "literals_ok u line m'"
  unfolding literals_ok_def
proof (intro ballI conjI)
  fix y assume y: "y \<in> {''TenOS> '', ''exit'', ''\<newline>Goodbye!\<newline>''}"
  with assms(1) have a: "mem_string m (lit u y) (cs y)" "\<forall>i \<le> length y. \<not> in_range line 256 (lit u y + of_nat i)"
    unfolding literals_ok_def by blast+
  show "\<forall>i \<le> length y. \<not> in_range line 256 (lit u y + of_nat i)" by (rule a(2))
  have "m' (lit u y + of_nat i) = m (lit u y + of_nat i)" if "i \<le> length y" for i
    using that y a(2) by (intro assms(2)) (auto simp: shell_byte_def)
  then show "mem_string m' (lit u y) (cs y)" by (intro mem_string_cong [OF a(1)]) (simp add: cs_def)
qed

text \<open>What a round leaves to the volume and to the memory manager, but for the line.\<close>

lemma calm_fs:
  fixes s :: "('d, 'z) irq_scheme"
  assumes "calm view s t" "fs_ok bus view s" "waiting view t"
  shows "fs_ok bus view t" "disk_content view t = disk_content view s" "same_kernel s t"
proof -
  have "terminal_ok (terminal_of view t)" using assms(3) by (simp add: waiting_def)
  with assms(1,2) show "fs_ok bus view t" "disk_content view t = disk_content view s" "same_kernel s t"
    by (auto simp: calm_def fs_ok_def drive_inv_def drive_ok_def disk_content_def crtc_only_fields fun_eq_iff same_kernel_def)
qed

lemma free_cluster_kept:
  assumes "\<And>d. unat d < 4084 \<Longrightarrow> get_next_cluster d t = get_next_cluster d s"
  shows "find_free_cluster t = find_free_cluster s"
proof -
  have "get_next_cluster (of_nat d) t = get_next_cluster (of_nat d) s" if "d \<in> set [2..<4084]" for d
    using that by (intro assms) (auto simp: unat_of_nat take_bit_nat_eq_self simp del: upt_rec_numeral)
  then have "find (\<lambda>d. get_next_cluster (of_nat d) t = 0) [2..<4084] = find (\<lambda>d. get_next_cluster (of_nat d) s = 0) [2..<4084]"
    by (intro find_cong refl) (simp del: upt_rec_numeral)
  then show ?thesis by (simp add: find_free_cluster_def free_cluster_from_eq del: upt_rec_numeral)
qed

lemma calm_ready:
  fixes s :: "('d, 'z) irq_scheme"
  assumes "ready bus view c n s" "calm view s t" "waiting view t"
    and m: "\<And>x. \<not> user_byte n s x \<Longrightarrow> mem t x = mem s x"
  shows "ready bus view c n t" "touched d n t = touched d n s" "user_byte n t = user_byte n s"
    "room_for view name c s \<Longrightarrow> room_for view name c t"
proof -
  have fs: "fs_ok bus view s" using assms(1) by (simp add: ready_def)
  note k = calm_fs [OF assms(2) fs assms(3)]
  note r = ready_transfer [OF assms(1) k(1,3)]
  have km: "mem t x = mem s x" if "kernel_byte s x" for x using that by (intro m) (simp add: user_byte_def)
  show "ready bus view c n t" by (rule r(1) [OF km])
  have mi: "mount_info t = mount_info s" using k(3) by (simp add: same_kernel_def)
  have h: "kernel_byte t = kernel_byte s" "held n t = held n s" by (rule r(2) [OF km], assumption, rule r(3) [OF km])
  show "touched d n t = touched d n s" "user_byte n t = user_byte n s"
    by (simp_all add: fun_eq_iff touched_def user_byte_def entry_byte_of_def to_come_def h mi)
  have "get_next_cluster d t = get_next_cluster d s" if "unat d < 4084" for d
    using that by (intro next_cluster_cong mi m) (auto simp: user_byte_def)
  then have "find_free_cluster t = find_free_cluster s" by (rule free_cluster_kept)
  then show "room_for view name c s \<Longrightarrow> room_for view name c t"
    using directory_cong [OF mi k(2)] by (simp add: room_for_def mi)
qed

section \<open>Rounds of the shell\<close>

text \<open>The keys \<open>evs\<close> build the line \<open>l\<close> in the editor \<open>e\<close>, and \<open>k\<close> enters it; what the editor is afterwards.\<close>

definition enters :: "u8 option list \<Rightarrow> u8 \<Rightarrow> editor \<Rightarrow> u8 list \<Rightarrow> bool" where
  "enters evs k e l \<longleftrightarrow> ed_queue (run_events evs e) = [] \<and> key_char k (run_events evs e) = Some 10 \<and>
     ed_line (run_events evs e) = l \<and> length l < 255"

definition entered :: "u8 option list \<Rightarrow> editor \<Rightarrow> editor" where
  "entered evs e = (run_events evs e)\<lparr>ed_line := [], ed_queue := []\<rparr>"

lemma round_runs:
  fixes s :: "('d, 'z) cpu_scheme"
  assumes "pc_conforms bus view" "latches bus view latch" "waiting view s" "typed s = []" "literals_ok u line (mem s)"
    and "upcoming s = map (event latch) evs @ event latch (Some k) # rest" "enters evs k (editor_of s) l"
    and "l \<noteq> []" "hd l \<noteq> 32" "l \<noteq> cs ''exit''"
  obtains t where "shell_round bus u line s = bindk (process_cmd bus (beyond u) line t) (\<lambda>_ s. Inr ((), s))"
    "mem_string (mem t) line l" "waiting view t" "typed t = []" "upcoming t = rest" "editor_of t = entered evs (editor_of s)"
    "calm view s t" "literals_ok u line (mem t)" "\<forall>x. \<not> in_range line 256 x \<longrightarrow> mem t x = mem s x"
proof -
  from assms(7) have e: "ed_queue (run_events evs (editor_of s)) = []" "key_char k (run_events evs (editor_of s)) = Some 10"
    "ed_line (run_events evs (editor_of s)) = l" "length l < 255" by (simp_all add: enters_def)
  have w: "l = dropWhile (\<lambda>c. c = 32) l" using assms(8,9) by (cases l) simp_all
  obtain t where t: "mem_string (mem t) line l" "\<forall>x. \<not> in_range line 256 x \<longrightarrow> mem t x = mem s x"
    "pending t = []" "typed t = []" "upcoming t = rest" "waiting view t" "calm view s t" "editor_of t = entered evs (editor_of s)"
    "shell_round bus u line s = (if l = [] then Inr ((), t) else if l = cs ''exit'' then Inl Hang
       else bindk (process_cmd bus (beyond u) line t) (\<lambda>_ s. Inr ((), s)))"
    using shell_round_spec [OF assms(1-6) e w, folded entered_def] by (elim exE conjE) (rule that)
  have "literals_ok u line (mem t)" using t(2) by (intro literals_ok_cong [OF assms(5)]) simp
  with t assms(8,10) show thesis by (intro that [of t]) simp_all
qed

lemma input_side_editor: "input_side t = input_side s \<Longrightarrow> editor_of t = editor_of s \<and> upcoming t = upcoming s"
  by (simp add: input_side_def editor_of_def typed_def pending_def)

text \<open>The round of a line \<open>create name text\<close>, and what it leaves for a later one.\<close>

lemma create_round:
  fixes s :: "('d, 'z) cpu_scheme"
  assumes "latches bus view latch" "waiting view s" "typed s = []" "literals_ok u line (mem s)"
    and "ready bus view c 2 s" "room_for view name c s" and clear: "\<forall>x. shell_byte u line x \<longrightarrow> user_byte 2 s x"
    and "upcoming s = map (event latch) evs @ event latch (Some k) # rest"
    and "enters evs k (editor_of s) (cs ''create '' @ name @ 32 # text)"
    and "name \<noteq> []" "32 \<notin> set name" "length name < 12" "8 \<notin> set name"
  obtains s' where "shell_round bus u line s = Inr ((), s')" "0 \<notin> set text" "length text < 256"
    "waiting view s'" "typed s' = []" "literals_ok u line (mem s')" "editor_of s' = entered evs (editor_of s)" "upcoming s' = rest"
    "ready bus view c 1 s'" "listed view name c 256 s'"
    "take 256 (disk_content view s' (lba_of s' c)) = text @ replicate (256 - length text) 0"
    "\<And>x. shell_byte u line x \<Longrightarrow> \<not> kernel_byte s' x \<and> \<not> entry_byte_of c s' x"
proof -
  have c: "pc_conforms bus view" using assms(5) by (simp add: ready_def fs_ok_def drive_inv_def)
  let ?l = "cs ''create '' @ name @ 32 # text"
  have l: "?l \<noteq> []" "hd ?l \<noteq> 32" "?l \<noteq> cs ''exit''" using assms(10) by (auto simp: cs_def)
  obtain t where t: "shell_round bus u line s = bindk (process_cmd bus (beyond u) line t) (\<lambda>_ s. Inr ((), s))"
    "mem_string (mem t) line ?l" "waiting view t" "typed t = []" "editor_of t = entered evs (editor_of s)" "upcoming t = rest"
    "calm view s t" "literals_ok u line (mem t)" "\<forall>x. \<not> in_range line 256 x \<longrightarrow> mem t x = mem s x"
    using round_runs [OF c assms(1-4,8,9) l] by metis
  have user: "user_byte 2 s x" if "in_range line 256 x" for x using that clear by (simp add: shell_byte_def)
  have m: "mem t x = mem s x" if "\<not> user_byte 2 s x" for x using that user t(9) by blast
  have r: "ready bus view c 2 t" "room_for view name c t" "user_byte 2 t = user_byte 2 s"
    using calm_ready [OF assms(5) t(7,3) m] assms(6) by blast+
  have cl: "command_line (mem t) line 0 (cs ''create'') 1 (name @ 32 # text)"
    using t(2) assms(10,11) by (cases name) (simp_all add: command_line_def cs_def)
  have "length ?l < 255" using assms(9) unfolding enters_def by blast
  then have tl: "length text < 256" by simp
  obtain s' where s': "process_cmd bus (beyond u) line t = Inr (0, s')" "ready bus view c 1 s'" "listed view name c 256 s'"
    "take 256 (disk_content view s' (lba_of s' c)) = text @ replicate (256 - length text) 0" "kept (touched c 2 t) t s'"
    by (rule create_line [OF r(1,2) cl assms(11,12) tl assms(13)])
  have k: "kernel_byte s' = kernel_byte t" "mount_info s' = mount_info t" "input_side s' = input_side t"
    "\<And>x. \<not> touched c 2 t x \<Longrightarrow> mem s' x = mem t x"
    using s'(5) unfolding kept_def by (blast, blast, blast intro: input_side_more, blast)
  have "terminal_ok (terminal_of view s')" using s'(2) by (simp add: ready_def fs_ok_def)
  note w = input_side_waiting [OF k(3) this t(4,3)] and e = input_side_editor [OF k(3)]
  have shell: "\<not> kernel_byte s' x \<and> \<not> entry_byte_of c s' x \<and> \<not> touched c 2 t x" if "shell_byte u line x" for x
  proof -
    have "unat c < 4084" using s'(3) by (simp add: listed_def)
    moreover have "user_byte 2 t x" using that clear unfolding r(3) by blast
    moreover have "entry_byte_of c s' = entry_byte_of c t" by (simp add: entry_byte_of_def k(2))
    ultimately show ?thesis by (simp add: user_byte_def touched_def k(1))
  qed
  have "literals_ok u line (mem s')" using shell k(4) by (intro literals_shell [OF t(8)]) blast
  moreover have "0 \<notin> set text" using t(2) by (simp add: mem_string_def)
  ultimately show thesis using that [of s'] w e t(1,5,6) s' shell tl by simp
qed

section \<open>Properties of a session\<close>

text \<open>
  C1: A session: with room for a file on a mounted volume, the user types \<open>create\<close>, a name and a text, and
  Enter, and later \<open>cat\<close>, the name and a blank, and Enter. Whatever keys and timer ticks build these two lines,
  two rounds of the shell carry both commands out, and the last thing the screen shows is the name and exactly
  the text that was typed in the first line.
\<close>

theorem shell_session:
  fixes s :: "('d, 'z) cpu_scheme"
  assumes "latches bus view latch" "waiting view s" "typed s = []" "literals_ok u line (mem s)"
    and "ready bus view c 2 s" "room_for view name c s" "\<forall>x. shell_byte u line x \<longrightarrow> user_byte 2 s x"
    and "upcoming s = map (event latch) evs1 @ event latch (Some k1) # map (event latch) evs2 @ event latch (Some k2) # rest"
    and "enters evs1 k1 (editor_of s) (cs ''create '' @ name @ 32 # text)"
    and "enters evs2 k2 (entered evs1 (editor_of s)) (cs ''cat '' @ name @ [32])"
    and "name \<noteq> []" "32 \<notin> set name" "length name < 12" "8 \<notin> set name" "8 \<notin> set text"
  shows "\<exists>T s'. shell_rounds bus u line 2 s = Inr ((), s') \<and> terminal_ok T \<and>
    terminal_of view s' = text_puts (shown name text) WHITE_ON_BLACK T"
proof -
  have c: "pc_conforms bus view" using assms(5) by (simp add: ready_def fs_ok_def drive_inv_def)
  let ?l = "cs ''cat '' @ name @ [32]"
  have l: "?l \<noteq> []" "hd ?l \<noteq> 32" "?l \<noteq> cs ''exit''" by (auto simp: cs_def)
  obtain s1 where s1: "shell_round bus u line s = Inr ((), s1)" "0 \<notin> set text" "length text < 256"
    "waiting view s1" "typed s1 = []" "literals_ok u line (mem s1)" "editor_of s1 = entered evs1 (editor_of s)"
    "upcoming s1 = map (event latch) evs2 @ event latch (Some k2) # rest"
    "ready bus view c 1 s1" "listed view name c 256 s1"
    "take 256 (disk_content view s1 (lba_of s1 c)) = text @ replicate (256 - length text) 0"
    "\<And>x. shell_byte u line x \<Longrightarrow> \<not> kernel_byte s1 x \<and> \<not> entry_byte_of c s1 x"
    by (rule create_round [OF assms(1-9,11-14)]) (rule that)
  obtain t where t: "shell_round bus u line s1 = bindk (process_cmd bus (beyond u) line t) (\<lambda>_ s. Inr ((), s))"
    "mem_string (mem t) line ?l" "waiting view t" "calm view s1 t" "\<forall>x. \<not> in_range line 256 x \<longrightarrow> mem t x = mem s1 x"
    using round_runs [OF c assms(1) s1(4-6,8) assms(10) [folded s1(7)] l] by metis
  have "fs_ok bus view s1" using s1(9) by (simp add: ready_def)
  note f = calm_fs [OF t(4) this t(3)]
  have und: "undisturbed view c s1 t" using f(2,3) s1(12) t(5) by (auto simp: undisturbed_def shell_byte_def)
  have cl: "command_line (mem t) line 0 (cs ''cat'') 1 (name @ [32])"
    using t(2) assms(11,12) by (cases name) (simp_all add: command_line_def cs_def)
  obtain T s' where s': "process_cmd bus (beyond u) line t = Inr (0, s')" "terminal_ok T"
    "terminal_of view s' = text_puts (shown name text) WHITE_ON_BLACK T"
    using cat_line [OF s1(9-11) f(1) und cl assms(12,13) s1(3) assms(14,15) s1(2)] by blast
  have "shell_rounds bus u line 2 s = Inr ((), s')" by (simp add: numeral_2_eq_2 s1(1) t(1) s'(1))
  with s'(2,3) show ?thesis by blast
qed

text \<open>The demo machine with the shell's literals in low memory, and keys that type the two lines.\<close>

lemma type_keys:
  assumes "\<not> ed_shift e" "\<not> ed_caps e" "length (ed_line e) + length ks < 256"
    and "\<forall>k \<in> set ks. key_char k e = Some (scancode_to_ascii k False False) \<and> scancode_to_ascii k False False \<notin> {8, 10, 63}"
  shows "run_events (map Some ks) e = e\<lparr>ed_line := ed_line e @ map (\<lambda>k. scancode_to_ascii k False False) ks\<rparr>"
  using assms
proof (induction ks arbitrary: e)
  case (Cons k ks)
  let ?c = "scancode_to_ascii k False False" and ?e = "e\<lparr>ed_line := ed_line e @ [scancode_to_ascii k False False]\<rparr>"
  have "key_char j ?e = key_char j e" for j by (simp add: key_char_def)
  then have "run_events (map Some ks) ?e = e\<lparr>ed_line := ed_line e @ map (\<lambda>k. scancode_to_ascii k False False) (k # ks)\<rparr>"
    using Cons.prems by (subst Cons.IH) simp_all
  moreover have "key_event k e = ?e" using Cons.prems by (simp add: key_event_char [of k e ?c] edit_char_def)
  ultimately show ?case by (simp add: run_events_def)
qed (simp add: run_events_def)

definition demo_session :: "(u32 \<times> (u8 \<times> pc \<Rightarrow> u8 \<times> pc)) list \<Rightarrow> (u8 \<times> pc) cpu" where
  "demo_session evs = (demo_shell evs)\<lparr>mem := \<lambda>x. if unat x < 0x8000 then mem (demo_shell evs) x else mem demo_fs x,
     caps_lock := False\<rparr>"

definition create_keys :: "u8 list" where
  "create_keys = [0x2E, 0x13, 0x12, 0x1E, 0x14, 0x12, 0x39, 0x1E, 0x34, 0x14, 0x2D, 0x14, 0x39, 0x23, 0x12, 0x26, 0x26, 0x18]"

definition cat_keys :: "u8 list" where
  "cat_keys = [0x2E, 0x1E, 0x14, 0x39, 0x1E, 0x34, 0x14, 0x2D, 0x14, 0x39]"

lemma session_keys:
  assumes "ed_line e = []" "ed_queue e = []" "\<not> ed_shift e" "\<not> ed_caps e"
  shows "enters (map Some create_keys) 0x1C e (cs ''create '' @ cs ''a.txt'' @ 32 # cs ''hello'')"
    "enters (map Some cat_keys) 0x1C e (cs ''cat '' @ cs ''a.txt'' @ [32])"
    "entered (map Some create_keys) e = e\<lparr>ed_line := [], ed_queue := []\<rparr>"
proof -
  have a: "run_events (map Some create_keys) e = e\<lparr>ed_line := ed_line e @ map (\<lambda>k. scancode_to_ascii k False False) create_keys\<rparr>"
    "map (\<lambda>k. scancode_to_ascii k False False) create_keys = cs ''create '' @ cs ''a.txt'' @ 32 # cs ''hello''"
    using assms by (intro type_keys) (simp_all add: create_keys_def key_char_def scancode_to_ascii_def sc_ascii_def cs_def)
  have b: "run_events (map Some cat_keys) e = e\<lparr>ed_line := ed_line e @ map (\<lambda>k. scancode_to_ascii k False False) cat_keys\<rparr>"
    "map (\<lambda>k. scancode_to_ascii k False False) cat_keys = cs ''cat '' @ cs ''a.txt'' @ [32]"
    using assms by (intro type_keys) (simp_all add: cat_keys_def key_char_def scancode_to_ascii_def sc_ascii_def cs_def)
  have enter: "key_char 0x1C e' = Some 10" if "\<not> ed_shift e'" "\<not> ed_caps e'" for e'
    using that by (simp add: key_char_def scancode_to_ascii_def sc_ascii_def cs_def)
  show "enters (map Some create_keys) 0x1C e (cs ''create '' @ cs ''a.txt'' @ 32 # cs ''hello'')"
    "enters (map Some cat_keys) 0x1C e (cs ''cat '' @ cs ''a.txt'' @ [32])"
    "entered (map Some create_keys) e = e\<lparr>ed_line := [], ed_queue := []\<rparr>"
    using assms by (simp_all add: enters_def entered_def a b enter) (simp_all add: cs_def)
qed

lemma demo_shell_byte: "shell_byte demo_env 0x5000 x \<Longrightarrow> unat x < 0x8000"
proof -
  have "unat (numeral n + of_nat i :: u32) < 0x8000" if "unat (numeral n :: u32) \<le> 0x6200" "i \<le> 20" for n i
    using that by (simp add: unat_word_ariths unat_of_nat)
  note lits = this
  assume x: "shell_byte demo_env 0x5000 x"
  show "unat x < 0x8000"
  proof (cases "in_range 0x5000 256 x")
    case True
    then show ?thesis by (auto dest!: in_range_num)
  next
    case False
    with x obtain y i where y: "y \<in> {''TenOS> '', ''exit'', ''\<newline>Goodbye!\<newline>''}" "i \<le> length y"
      "x = lit demo_env y + of_nat i" unfolding shell_byte_def by blast
    then show ?thesis by (elim insertE emptyE; hypsubst) (simp_all add: demo_env_def demo_lit_def lits)
  qed
qed

lemma demo_session_fields:
  "mem_mngr (demo_session evs) = mem_mngr demo_vmm" "mem_mngr_max_blocks (demo_session evs) = mem_mngr_max_blocks demo_vmm"
  "mem_mngr_used_blocks (demo_session evs) = mem_mngr_used_blocks demo_vmm" "cur_directory (demo_session evs) = cur_directory demo_vmm"
  "mount_info (demo_session evs) = mount_info demo_fs" "sector_buffer (demo_session evs) = replicate 512 0"
  "dev (demo_session evs) = (0, demo_pc)" "vidmem (demo_session evs) = replicate 4000 0"
  by (simp_all add: demo_session_def demo_shell_def demo_cpu_def irq.defs cpu.defs demo_irq_def kbd.defs demo_kbd_def)
    (simp_all add: demo_fs_def vmm.defs)

lemma demo_session_state:
  "typed (demo_session evs) = []" "pending (demo_session evs) = []" "upcoming (demo_session evs) = evs" "waiting snd (demo_session evs)"
  "literals_ok demo_env 0x5000 (mem (demo_session evs))"
  "\<not> ed_shift (editor_of (demo_session evs))" "\<not> ed_caps (editor_of (demo_session evs))"
proof -
  have f: "typed (demo_session evs) = typed (demo_shell evs)" "upcoming (demo_session evs) = upcoming (demo_shell evs)"
    "kbd_ok (demo_session evs) = kbd_ok (demo_shell evs)" "terminal_of snd (demo_session evs) = terminal_of snd (demo_shell evs)"
    "interrupt_handlers (demo_session evs) = interrupt_handlers (demo_shell evs)"
    "pending (demo_session evs) = pending (demo_shell evs)" "shift_pressed (demo_session evs) = shift_pressed (demo_shell evs)"
    by (simp_all add: demo_session_def typed_def pending_def kbd_ok_def terminal_of_def)
  show "typed (demo_session evs) = []" "upcoming (demo_session evs) = evs" "waiting snd (demo_session evs)"
    using demo_shell_state(2-4) [of evs] unfolding waiting_def f by blast+
  show "pending (demo_session evs) = []" "\<not> ed_shift (editor_of (demo_session evs))" "\<not> ed_caps (editor_of (demo_session evs))"
    using arg_cong [OF demo_shell_state(1) [of evs], of ed_queue] arg_cong [OF demo_shell_state(1) [of evs], of ed_shift]
    by (simp_all add: f demo_kbd_simps) (simp add: demo_session_def)
  show "literals_ok demo_env 0x5000 (mem (demo_session evs))"
    by (rule literals_shell [OF demo_shell_literals [of evs]]) (simp add: demo_session_def demo_shell_byte)
qed

lemma demo_session_user:
  assumes "unat x < 0x8000"
  shows "user_byte 2 (demo_session evs) x"
proof -
  let ?s = "demo_session evs"
  have m: "mem ?s y = mem demo_fs y" if "0x8000 \<le> unat y" for y using that by (simp add: demo_session_def)
  note r = demo_ready [OF demo_session_fields [of evs] m]
  have u: "unat (page_frame x) < 0x8000" using assms by (simp add: unat_page_frame)
  have "\<not> kernel_byte ?s x" using demo_kernel_byte [of x] u by (auto simp: r(3))
  moreover have "\<not> to_come 2 ?s x"
  proof -
    have "unat (V2P (page_frame x)) = unat (page_frame x) + 0x40000000"
      using u by (simp add: V2P_def unat_sub_if')
    then show ?thesis by (simp add: to_come_def)
  qed
  moreover have "\<not> entry_byte_of d ?s x" if "unat d < 4084" for d
  proof
    have o: "unat (0xC0006000 + fat_offset d) = 0xC0006000 + (unat d + unat d div 2)"
      using that unat_fat_offset [of d] by (subst unat_plus_simple [THEN iffD1]) (simp_all add: word_le_nat_alt unat_word_ariths)
    assume "entry_byte_of d ?s x"
    then have "unat (x - (0xC0006000 + fat_offset d)) < 2" by (simp add: entry_byte_of_def in_range_def demo_session_fields)
    moreover have "unat (x - (0xC0006000 + fat_offset d)) = unat x + 2 ^ 32 - (0xC0006000 + (unat d + unat d div 2))"
      using assms by (simp add: unat_sub_if' o word_le_nat_alt del: unat_plus_if_size)
    ultimately show False using that by simp
  qed
  ultimately show ?thesis by (simp add: user_byte_def)
qed

theorem shell_session_witness:
  "\<exists>T s'. shell_rounds demo_kbus demo_env 0x5000 2 (demo_session
       (map (event demo_latch) (map Some (create_keys @ [0x1C] @ cat_keys @ [0x1C])))) = Inr ((), s') \<and>
     terminal_of snd s' = text_puts (shown (cs ''a.txt'') (cs ''hello'')) WHITE_ON_BLACK T"
proof -
  define evs where "evs = map (event demo_latch) (map Some create_keys) @ event demo_latch (Some 0x1C) #
    map (event demo_latch) (map Some cat_keys) @ event demo_latch (Some 0x1C) # []"
  let ?s = "demo_session evs"
  have m: "mem ?s y = mem demo_fs y" if "0x8000 \<le> unat y" for y using that by (simp add: demo_session_def)
  note r = demo_ready [OF demo_session_fields [of evs] m]
  have e: "ed_line (editor_of ?s) = []" "ed_queue (editor_of ?s) = []" by (simp_all add: demo_session_state)
  note k = session_keys [OF e demo_session_state(6,7)]
  have k2: "enters (map Some cat_keys) 0x1C (entered (map Some create_keys) (editor_of ?s)) (cs ''cat '' @ cs ''a.txt'' @ [32])"
    unfolding k(3) by (rule session_keys) (use demo_session_state(6,7) in simp_all)
  have up: "upcoming ?s = map (event demo_latch) (map Some create_keys) @ event demo_latch (Some 0x1C) #
    map (event demo_latch) (map Some cat_keys) @ event demo_latch (Some 0x1C) # []"
    by (simp add: demo_session_state evs_def)
  have name: "cs ''a.txt'' \<noteq> []" "32 \<notin> set (cs ''a.txt'')" "length (cs ''a.txt'') < 12"
    "8 \<notin> set (cs ''a.txt'')" "8 \<notin> set (cs ''hello'')" by (simp_all add: cs_def)
  have "\<forall>x. shell_byte demo_env 0x5000 x \<longrightarrow> user_byte 2 ?s x"
    using demo_shell_byte demo_session_user by blast
  from shell_session [OF demo_latches demo_session_state(4,1,5) r(1,2) this up k(1) k2 name]
  show ?thesis unfolding evs_def by (auto simp: demo_session_state)
qed

end
