(* ===== verification/Wellformed.thy ===== *)
theory Wellformed
  imports Boot
begin

text \<open>
  The kernel's invariant over its whole life: the static arrays have their declared sizes, the
  keyboard's positions are indices of its buffers, and the cursor of the CRT controller is a cell of the
  screen. Every operation keeps it, and in a state that has it every interrupt is handled: the handler
  returns. One case is left, which is a defect of the code and is stated as such.
\<close>

section \<open>Well-formed states and sound operations\<close>

text \<open>Interrupts to come that neither the drive nor the screen see (the keyboard latches a scan code).\<close>

definition unseen :: "('d \<Rightarrow> pc) \<Rightarrow> (u32 \<times> ('d \<Rightarrow> 'd)) list \<Rightarrow> bool" where
  "unseen view evs \<longleftrightarrow> (\<forall>(n, latch) \<in> set evs. \<forall>d. view (latch d) = view d)"

definition well_formed :: "'d bus \<Rightarrow> ('d \<Rightarrow> pc) \<Rightarrow> ('d, 'z) cpu_scheme \<Rightarrow> bool" where
  "well_formed bus view s \<longleftrightarrow> pc_conforms bus view \<and> terminal_ok (terminal_of view s) \<and>
     length (sector_buffer s) = 512 \<and> kbd_ok s \<and>
     length (interrupt_handlers s) = 256 \<and> length (idt s) = 256 \<and> length (kernel_gdt s) = 6 \<and>
     unseen view (upcoming s)"

lemmas wf_def = well_formed_def terminal_of_def

text \<open>Every state an operation returns is well formed; and what a routine on arrays returns.\<close>

definition sound :: "'d bus \<Rightarrow> ('d \<Rightarrow> pc) \<Rightarrow> ('a, ('d, 'z) cpu_scheme) result \<Rightarrow> bool" where
  "sound bus view r \<longleftrightarrow> (\<forall>x s'. r = Inr (x, s') \<longrightarrow> well_formed bus view s')"

definition yields :: "('a \<Rightarrow> bool) \<Rightarrow> stop + 'a \<Rightarrow> bool" where
  "yields P r \<longleftrightarrow> (\<forall>x. r = Inr x \<longrightarrow> P x)"

named_theorems sound

lemma yields_simps [simp]: "yields P (Inl e)" "yields P (Inr x) \<longleftrightarrow> P x"
  by (simp_all add: yields_def)

lemma yields_mono: "yields P r \<Longrightarrow> (\<And>x. P x \<Longrightarrow> Q x) \<Longrightarrow> yields Q r"
  by (auto simp: yields_def)

lemma yields_case: "yields Q r \<Longrightarrow> (\<And>x. r = Inr x \<Longrightarrow> Q x \<Longrightarrow> yields P (f x)) \<Longrightarrow> yields P (case r of Inl e \<Rightarrow> Inl e | Inr x \<Rightarrow> f x)"
  by (auto simp: yields_def split: sum.splits)

lemma yields_any: "yields (\<lambda>_. True) r"
  by (simp add: yields_def)

lemma sound_simps [simp]: "sound bus view (Inl e)" "sound bus view (Inr (x, s)) \<longleftrightarrow> well_formed bus view s"
  by (simp_all add: sound_def)

lemma sound_case:
  "yields Q r \<Longrightarrow> (\<And>x. r = Inr x \<Longrightarrow> Q x \<Longrightarrow> sound bus view (f x)) \<Longrightarrow>
     sound bus view (case r of Inl e \<Rightarrow> Inl e | Inr x \<Rightarrow> f x)"
  by (auto simp: yields_def split: sum.splits)

lemmas sound_any = sound_case [OF yields_any]

lemma sound_bind:
  "sound bus view m \<Longrightarrow> (\<And>x s. m = Inr (x, s) \<Longrightarrow> well_formed bus view s \<Longrightarrow> sound bus view (f x s)) \<Longrightarrow>
     sound bus view (bindk m f)"
  unfolding sound_def bindk_eq_Inr_iff by force

lemma sound_if: "(c \<Longrightarrow> sound bus view a) \<Longrightarrow> (\<not> c \<Longrightarrow> sound bus view b) \<Longrightarrow> sound bus view (if c then a else b)"
  by simp

text \<open>Fields that well-formedness is not about.\<close>

lemma well_formed_updates [simp]:
  "well_formed bus view (s\<lparr>mem := m\<rparr>) = well_formed bus view s"
  "well_formed bus view (s\<lparr>mount_info := i\<rparr>) = well_formed bus view s"
  "well_formed bus view (s\<lparr>shift_pressed := b\<rparr>) = well_formed bus view s" "well_formed bus view (s\<lparr>ctrl_pressed := b\<rparr>) = well_formed bus view s"
  "well_formed bus view (s\<lparr>alt_pressed := b\<rparr>) = well_formed bus view s" "well_formed bus view (s\<lparr>caps_lock := b\<rparr>) = well_formed bus view s"
  "well_formed bus view (s\<lparr>tick := t\<rparr>) = well_formed bus view s" "well_formed bus view (s\<lparr>current_level := l\<rparr>) = well_formed bus view s"
  "well_formed bus view (s\<lparr>idt_reg := r\<rparr>) = well_formed bus view s" "well_formed bus view (s\<lparr>idtr := r\<rparr>) = well_formed bus view s"
  "well_formed bus view (s\<lparr>tss := x\<rparr>) = well_formed bus view s" "well_formed bus view (s\<lparr>task_register := tr\<rparr>) = well_formed bus view s"
  by (simp_all add: wf_def kbd_ok_def typed_def)

lemma well_formed_vmm [simp]:
  "well_formed bus view (s\<lparr>kernel_directory := a\<rparr>) = well_formed bus view s" "well_formed bus view (s\<lparr>kernel_directory_physical := a\<rparr>) = well_formed bus view s"
  "well_formed bus view (s\<lparr>cur_directory := a\<rparr>) = well_formed bus view s" "well_formed bus view (s\<lparr>cur_pdbr := a\<rparr>) = well_formed bus view s"
  "well_formed bus view (s\<lparr>cr3 := a\<rparr>) = well_formed bus view s" "well_formed bus view (s\<lparr>cr0 := a\<rparr>) = well_formed bus view s"
  by (simp_all add: wf_def kbd_ok_def typed_def)

lemma well_formed_more:
  fixes s :: "('d, 'z) cpu_scheme"
  assumes "pmm.more s' = pmm.more s"
  shows "well_formed bus view s' = well_formed bus view s"
proof -
  have f: "fs.more s' = fs.more s" using assms by (rule fs_more_pmm)
  note i = input_side_more [OF f]
  have "kbd_ok s' = kbd_ok s" "interrupt_handlers s' = interrupt_handlers s" "idt s' = idt s" "upcoming s' = upcoming s"
    using i by (simp_all add: input_side_def kbd_ok_def typed_def)
  then show ?thesis
    using fs_fields_more(2) [OF assms] vmm_fields_more [OF assms] kernel_gdt_more [OF f] by (simp add: well_formed_def terminal_of_def)
qed

section \<open>Ports and screen\<close>

lemma cursor_out:
  "pc_conforms bus view \<Longrightarrow> port \<notin> {0x3d4, 0x3d5} \<Longrightarrow> cursor_of (view (bus_outb bus port v d)) = cursor_of (view d)"
  by (frule view_outb [of bus view port v d]) (auto simp: pc_outb_def cursor_of_def)

lemma cursor_in:
  assumes "pc_conforms bus view"
  shows "cursor_of (view (snd (bus_inb bus port d))) = cursor_of (view d)"
proof (cases "port = 0x1F7")
  case True
  with assms show ?thesis by (simp add: pc_conforms_def cursor_of_def)
qed (use view_inb [OF assms] in simp)

lemma cursor_word:
  assumes "pc_conforms bus view"
  shows "cursor_of (view (snd (bus_inw bus 0x1F0 d))) = cursor_of (view d)"
    "cursor_of (view (bus_outw bus 0x1F0 w d)) = cursor_of (view d)"
proof -
  show "cursor_of (view (snd (bus_inw bus 0x1F0 d))) = cursor_of (view d)"
    using assms by (simp add: pc_conforms_def cursor_of_def)
  obtain n where "view (bus_outw bus 0x1F0 w d) = ata_data_out w n (view d)" using assms unfolding pc_conforms_def by blast
  then show "cursor_of (view (bus_outw bus 0x1F0 w d)) = cursor_of (view d)"
    by (simp add: ata_data_out_def cursor_of_def split: ata_phase.split)
qed

lemma well_formed_dev:
  "cursor_of (view d) = cursor_of (view (dev s)) \<Longrightarrow> well_formed bus view (s\<lparr>dev := d\<rparr>) = well_formed bus view s"
  by (simp add: wf_def kbd_ok_def typed_def)

lemma ports_wf [simp]:
  fixes s :: "('d, 'z) cpu_scheme"
  shows "port \<notin> {0x3d4, 0x3d5} \<Longrightarrow> well_formed bus view (port_byte_out bus port v s) = well_formed bus view s"
    "well_formed bus view (snd (port_byte_in bus port s)) = well_formed bus view s"
    "well_formed bus view (port_word_out bus 0x1F0 w s) = well_formed bus view s"
    "well_formed bus view (snd (port_word_in bus 0x1F0 s)) = well_formed bus view s"
proof -
  have w: "well_formed bus view (s\<lparr>dev := d\<rparr>) = well_formed bus view s"
    if "pc_conforms bus view \<Longrightarrow> cursor_of (view d) = cursor_of (view (dev s))" for d
    using that well_formed_dev [of view d s bus] by (auto simp: well_formed_def)
  show "well_formed bus view (port_byte_out bus port v s) = well_formed bus view s" if "port \<notin> {0x3d4, 0x3d5}"
    unfolding port_byte_out_def by (rule w, rule cursor_out) (use that in simp_all)
  show "well_formed bus view (snd (port_byte_in bus port s)) = well_formed bus view s"
    by (simp add: port_byte_in_def case_prod_beta w cursor_in)
  show "well_formed bus view (port_word_out bus 0x1F0 w s) = well_formed bus view s"
    by (simp add: port_word_out_def w cursor_word)
  show "well_formed bus view (snd (port_word_in bus 0x1F0 s)) = well_formed bus view s"
    by (simp add: port_word_in_def case_prod_beta w cursor_word)
qed

lemma well_formed_upcoming:
  "well_formed bus view s \<Longrightarrow> unseen view evs \<Longrightarrow> well_formed bus view (s\<lparr>upcoming := evs\<rparr>)"
  by (simp add: wf_def kbd_ok_def typed_def)

lemma well_formed_screen:
  assumes "well_formed bus view s" "terminal_ok (v, cursor_of (view d))"
  shows "well_formed bus view (s\<lparr>dev := d, vidmem := v\<rparr>)"
  using assms by (simp add: wf_def kbd_ok_def typed_def)

text \<open>A character either arrives on the screen or, a backspace at its start, leaves the array.\<close>

lemma put_char_sound [sound]:
  fixes s :: "('d, 'z) cpu_scheme"
  assumes "well_formed bus view s"
  shows "sound bus view (put_char bus c a s)"
proof (cases "c = 8 \<and> cursor_of (view (dev s)) = 0")
  case True
  then show ?thesis using put_char_at_start [of bus view s a] assms by (simp add: well_formed_def)
next
  case False
  let ?t = "text_put c (if a = 0 then WHITE_ON_BLACK else a) (terminal_of view s)"
  have c: "pc_conforms bus view" "terminal_ok (terminal_of view s)" using assms by (simp_all add: well_formed_def)
  obtain d where d: "put_char bus c a s = Inr ((), s\<lparr>dev := d, vidmem := fst ?t\<rparr>)" "cursor_of (view d) = snd ?t"
    by (rule put_char_refines_ex [OF c, of c a]) (use False in auto)
  have "terminal_ok ?t" using False c(2) by (intro terminal_ok_text_put) (auto simp: terminal_of_def)
  then show ?thesis using well_formed_screen [OF assms] d by simp
qed

lemma clear_screen_sound [sound]:
  fixes s :: "('d, 'z) cpu_scheme"
  assumes "well_formed bus view s"
  shows "sound bus view (clear_screen bus s)"
proof -
  have "length (vidmem s) = 4000" using assms by (simp add: well_formed_def terminal_ok_def terminal_of_def)
  then obtain d v where d: "clear_screen bus s = Inr ((), s\<lparr>dev := d, vidmem := v\<rparr>)"
    "terminal_of view (s\<lparr>dev := d, vidmem := v\<rparr>) = (concat (replicate 2000 [32, WHITE_ON_BLACK]), 0)"
    using clear_screen_blank [of bus view s] assms by (auto simp: well_formed_def)
  have "length (concat (replicate 2000 [32, WHITE_ON_BLACK])) = 4000"
    by (simp add: length_concat sum_list_replicate del: concat_replicate_trivial)
  then have "terminal_ok (v, cursor_of (view d))" using d(2) by (simp add: terminal_of_def terminal_ok_def del: concat_replicate_trivial)
  then show ?thesis using well_formed_screen [OF assms] d(1) by simp
qed

section \<open>Arrays\<close>

lemma yields_arr_set: "yields (\<lambda>ys. length ys = length xs) (arr_set xs i v)"
  by (simp add: arr_set_def)

lemmas arr_get_case = yields_case [OF yields_any, of "arr_get xs i" for xs i]

lemmas arr_set_case = yields_case [OF yields_arr_set]

lemma yields_memset_arr: "yields (\<lambda>ys. length ys = length xs) (memset_arr xs i v n)"
proof (induction xs i v n rule: memset_arr.induct)
  case (1 xs i v n)
  show ?case
    by (subst memset_arr.simps) (auto intro!: arr_set_case yields_mono [OF 1])
qed

lemma yields_memcpy: "yields (\<lambda>ys. length ys = length xs) (memcpy xs d ss k n i)"
proof (induction xs d ss k n i rule: memcpy.induct)
  case (1 xs d ss k n i)
  show ?case by (subst memcpy.simps) (auto intro!: arr_get_case arr_set_case yields_mono [OF 1])
qed

lemma yields_memcpy_within: "yields (\<lambda>ys. length ys = length xs) (memcpy_within xs d k n i)"
proof (induction xs d k n i rule: memcpy_within.induct)
  case (1 xs d k n i)
  show ?case by (subst memcpy_within.simps) (auto intro!: arr_get_case arr_set_case yields_mono [OF 1])
qed

section \<open>Log\<close>

lemma put_chars_sound [sound]: "well_formed bus view s \<Longrightarrow> sound bus view (put_chars bus xs a s)"
  by (induction xs arbitrary: s) (auto intro!: sound_bind sound)

lemma put_array_sound [sound]: "well_formed bus view s \<Longrightarrow> sound bus view (put_array bus xs p a s)"
proof (induction bus xs p a s rule: put_array.induct)
  case (1 bus xs p a s)
  from 1 show ?case by (subst put_array.simps) (auto intro!: sound_any sound_bind sound)
qed

lemma print_number_sound [sound]:
  assumes "well_formed bus view s"
  shows "sound bus view (print_int bus v a s)" "sound bus view (print_hex bus u a s)" "sound bus view (print_uint bus u a s)"
  unfolding print_int_def print_hex_def print_uint_def using assms
  by (auto intro!: sound_bind sound sound_any)

lemma vformat_sound [sound]:
  fixes s :: "('d, 'z) cpu_scheme"
  shows "well_formed bus view s \<Longrightarrow> sound bus view (vformat_print bus fmt args a s)"
proof (induction fmt arbitrary: args s rule: length_induct)
  case (1 fmt)
  then have ih: "sound bus view (vformat_print bus p args' a t)" if "length p < length fmt" "well_formed bus view t" for p args' and t :: "('d, 'z) cpu_scheme"
    using that by blast
  consider "fmt = []" | c where "fmt = [c]" | c k p where "fmt = c # k # p" by (cases fmt; cases "tl fmt") auto
  then show ?case
  proof cases
    case (3 c k p)
    have b: "sound bus view (if k = 99 then put_char bus (ucast v) a t else if k = 120 then print_hex bus v a t
        else if k = 117 then print_uint bus v a t else print_int bus (sint v) a t)" if "well_formed bus view t" for v t
      using that by (auto intro!: sound)
    have arg: "sound bus view (case args of VInt v # args' \<Rightarrow> f v args' | _ \<Rightarrow> Inl Wild)" if "\<And>v args'. sound bus view (f v args')" for f
      using that by (simp split: list.splits va_arg.splits)
    have str: "sound bus view (case args of VStr v # args' \<Rightarrow> f v args' | _ \<Rightarrow> Inl Wild)" if "\<And>v args'. sound bus view (f v args')" for f
      using that by (simp split: list.splits va_arg.splits)
    show ?thesis unfolding 3 vformat_print.simps
      by (intro sound_if arg str sound_bind [OF b] sound_bind) (use 1(2) in \<open>auto intro!: ih sound simp: 3\<close>)
  qed (use 1(2) in \<open>auto intro!: sound_bind sound\<close>)
qed

lemma printk_sound [sound]:
  fixes s :: "('d, 'z) cpu_scheme"
  assumes "well_formed bus view s"
  shows "sound bus view (printk bus fmt args s)" "sound bus view (printk_color bus a fmt args s)" "sound bus view (pr bus l m f args s)"
    "sound bus view (printk_init bus s)"
proof -
  show p: "sound bus view (printk bus fmt args s)" "sound bus view (printk_color bus a fmt args s)"
    using assms by (auto simp: printk_def printk_color_def intro!: sound)
  have "sound bus view (if m \<noteq> [] then bindk (put_char bus 91 a t) (\<lambda>_ s. bindk (put_chars bus m a s) (\<lambda>_ s.
      bindk (put_char bus 93 a s) (\<lambda>_ s. put_char bus 58 a s))) else Inr ((), t))" if "well_formed bus view t" for m a and t :: "('d, 'z) cpu_scheme"
    using that by (auto intro!: sound_bind sound)
  note b = this
  have core: "sound bus view (printk_core bus l m fmt args t)" if "well_formed bus view t" for l m fmt args and t :: "('d, 'z) cpu_scheme"
    using that unfolding printk_core_def
    by (auto intro!: sound_any sound_bind [OF b] sound_bind sound)
  show "sound bus view (pr bus l m f args s)" using assms by (simp add: pr_def core)
  show "sound bus view (printk_init bus s)" using assms unfolding printk_init_def pr_def by (intro core) simp
qed

section \<open>Drive and volume\<close>

lemma io_wait_wf [simp]: "well_formed bus view (io_wait bus s) = well_formed bus view s" "well_formed bus view (ata_setup bus lba c s) = well_formed bus view s"
  by (simp_all add: io_wait_def ata_setup_def Let_def)

lemma poll_wf:
  fixes s :: "('d, 'z) cpu_scheme"
  assumes "poll bus again s = Some s'" "well_formed bus view s"
  shows "well_formed bus view s'"
proof -
  have "well_formed bus view s \<longrightarrow> well_formed bus view s'"
  proof (rule poll.raw_induct [of "\<lambda>bus _ s s'. well_formed bus view s \<longrightarrow> well_formed bus view s'", OF _ assms(1)])
    fix poll :: "'d bus \<Rightarrow> (u8 \<Rightarrow> bool) \<Rightarrow> ('d, 'z) cpu_scheme \<Rightarrow> ('d, 'z) cpu_scheme option" and bus again s s'
    assume ih: "\<And>bus again s s'. poll bus again s = Some s' \<Longrightarrow> well_formed bus view s \<longrightarrow> well_formed bus view s'"
      and r: "(let r = port_byte_in bus ATA_REG_STATUS s in if again (fst r) then poll bus again (snd r) else Some (snd r)) = Some s'"
    show "well_formed bus view s \<longrightarrow> well_formed bus view s'"
      using r ih [of bus again "snd (port_byte_in bus ATA_REG_STATUS s)" s'] by (auto simp: Let_def split: if_splits)
  qed
  with assms(2) show ?thesis by blast
qed

lemma ata_wait_sound [sound]:
  assumes "well_formed bus view s"
  shows "sound bus view (ata_wait_bsy bus s)" "sound bus view (ata_wait_drq bus s)" "sound bus view (ata_wait_ready bus s)"
proof -
  have "sound bus view (returned (poll bus again s))" for again
    using assms poll_wf by (cases "poll bus again s") (auto simp: returned_def)
  then show "sound bus view (ata_wait_bsy bus s)" "sound bus view (ata_wait_drq bus s)" "sound bus view (ata_wait_ready bus s)"
    by (simp_all add: ata_wait_bsy_def ata_wait_drq_def ata_wait_ready_def)
qed

lemma ata_check_sound [sound]: "well_formed bus view s \<Longrightarrow> sound bus view (ata_check_error bus s)"
  unfolding ata_check_error_def Let_def case_prod_beta by (auto intro!: sound_bind sound)

text \<open>Reading fills a buffer without changing its size.\<close>

definition sized :: "'d bus \<Rightarrow> ('d \<Rightarrow> pc) \<Rightarrow> nat \<Rightarrow> (u8 list, ('d, 'z) cpu_scheme) result \<Rightarrow> bool" where
  "sized bus view n r \<longleftrightarrow> (\<forall>b s'. r = Inr (b, s') \<longrightarrow> length b = n \<and> well_formed bus view s')"

lemma sized_simps [simp]:
  "sized bus view n (Inl e)" "sized bus view n (Inr (b, s)) \<longleftrightarrow> length b = n \<and> well_formed bus view s"
  by (simp_all add: sized_def)

lemma sized_bind:
  "sound bus view m \<Longrightarrow> (\<And>x s. m = Inr (x, s) \<Longrightarrow> well_formed bus view s \<Longrightarrow> sized bus view n (f x s)) \<Longrightarrow>
     sized bus view n (bindk m f)"
  unfolding sized_def sound_def bindk_eq_Inr_iff by force

lemma sized_case:
  "yields Q r \<Longrightarrow> (\<And>x. r = Inr x \<Longrightarrow> Q x \<Longrightarrow> sized bus view n (f x)) \<Longrightarrow>
     sized bus view n (case r of Inl e \<Rightarrow> Inl e | Inr x \<Rightarrow> f x)"
  by (auto simp: yields_def split: sum.splits)

lemma bind_sized:
  "sized bus view n m \<Longrightarrow> (\<And>x s. length x = n \<Longrightarrow> well_formed bus view s \<Longrightarrow> sound bus view (f x s)) \<Longrightarrow> sound bus view (bindk m f)"
  unfolding sized_def sound_def bindk_eq_Inr_iff by force

lemma bind_sized_sized:
  "sized bus view n m \<Longrightarrow> (\<And>x s. length x = n \<Longrightarrow> well_formed bus view s \<Longrightarrow> sized bus view k (f x s)) \<Longrightarrow> sized bus view k (bindk m f)"
proof (cases m)
  case (Inr p)
  assume m: "sized bus view n m" and f: "\<And>x s. length x = n \<Longrightarrow> well_formed bus view s \<Longrightarrow> sized bus view k (f x s)"
  obtain x s where p: "p = (x, s)" by (cases p)
  have "length x = n" "well_formed bus view s" using m by (simp_all add: Inr p)
  from f [OF this] show ?thesis by (simp add: Inr p)
qed simp

lemma read_words_sized:
  fixes s :: "('d, 'z) cpu_scheme"
  shows "well_formed bus view s \<Longrightarrow> sized bus view (length b) (read_words bus b off i s)"
proof (induction "nat (256 - i)" arbitrary: b i s)
  case (Suc k)
  have ih: "sized bus view (length b) (read_words bus b' off (i + 1) t)" if "well_formed bus view t" "length b' = length b" for b' and t :: "('d, 'z) cpu_scheme"
    using Suc(1) [of "i + 1" t b'] Suc(2) that by simp
  show ?case using Suc(2,3)
    by (subst read_words.simps) (auto simp: case_prod_beta intro!: sized_case [OF yields_arr_set] ih)
qed (subst read_words.simps; simp)

lemma read_sector_sized: "well_formed bus view s \<Longrightarrow> sized bus view (length b) (read_sector bus lba b off s)"
  unfolding read_sector_def ata_read_sector_def Let_def
  by (auto intro!: sized_bind sound bind_sized_sized [OF read_words_sized])

lemma write_words_sound [sound]: "well_formed bus view s \<Longrightarrow> sound bus view (write_words bus b off i s)"
proof (induction bus b off i s rule: write_words.induct)
  case (1 bus b off i s)
  from 1(2) show ?case
    by (subst write_words.simps) (auto intro!: sound_any 1(1))
qed

lemma write_sector_sound [sound]: "well_formed bus view s \<Longrightarrow> sound bus view (write_sector bus lba b off s)"
  unfolding write_sector_def ata_write_sector_def Let_def by (auto intro!: sound_bind sound)

lemma well_formed_buffer: "length b = 512 \<Longrightarrow> well_formed bus view s \<Longrightarrow> well_formed bus view (s\<lparr>sector_buffer := b\<rparr>)"
  by (simp add: wf_def kbd_ok_def typed_def)

lemma sector_sound [sound]:
  assumes "well_formed bus view s"
  shows "sound bus view (load_sector bus lba s)" "sound bus view (store_sector bus lba s)" "sound bus view (load_sector_at bus lba p s)" "sound bus view (store_sector_at bus lba p s)"
proof -
  have "length (sector_buffer s) = 512" using assms by (simp add: well_formed_def)
  then show "sound bus view (load_sector bus lba s)" unfolding load_sector_def
    by (intro bind_sized [OF read_sector_sized [OF assms]]) (simp add: well_formed_buffer)
  show "sound bus view (load_sector_at bus lba p s)" unfolding load_sector_at_def
    by (intro bind_sized [OF read_sector_sized [OF assms]]) simp
qed (use assms in \<open>auto simp: store_sector_def store_sector_at_def intro!: sound\<close>)

lemma fat_sound [sound]:
  fixes s :: "('d, 'z) cpu_scheme"
  assumes "well_formed bus view s"
  shows "sound bus view (load_fat bus i n s)" "sound bus view (sync_from bus i n s)" "sound bus view (sync_fat bus s)" "sound bus view (mount_report bus s)"
proof -
  show "sound bus view (load_fat bus i n s)" using assms
  proof (induction "n - i" arbitrary: i s)
    case (Suc k)
    have ih: "sound bus view (load_fat bus (Suc i) n t)" if "well_formed bus view t" for t :: "('d, 'z) cpu_scheme"
      using Suc(1) [of "Suc i" t] Suc(2) that by simp
    show ?case using Suc(2,3) by (subst load_fat.simps) (auto intro!: sound_bind sound ih)
  qed (subst load_fat.simps; simp)
  have sync: "sound bus view (sync_from bus i n t)" if "well_formed bus view t" for i n and t :: "('d, 'z) cpu_scheme" using that
  proof (induction "n - i" arbitrary: i t)
    case (Suc k)
    have ih: "sound bus view (sync_from bus (Suc i) n t)" if "well_formed bus view t" for t :: "('d, 'z) cpu_scheme"
      using Suc(1) [of "Suc i" t] Suc(2) that by simp
    show ?case using Suc(2,3) by (subst sync_from.simps) (auto intro!: sound_bind sound ih)
  qed (subst sync_from.simps; simp)
  show "sound bus view (sync_from bus i n s)" "sound bus view (sync_fat bus s)" using assms by (simp_all add: sync_fat_def sync)
  show "sound bus view (mount_report bus s)" unfolding mount_report_def using assms by (auto intro!: sound_bind sound)
qed

lemma alloc_page_wf [simp]:
  fixes s :: "('d, 'z) cpu_scheme"
  shows "well_formed bus view (snd (vmmngr_alloc_page s)) = well_formed bus view s"
  by (rule well_formed_more [OF alloc_page_more])

lemma open_sound [sound]:
  fixes s :: "('d, 'z) cpu_scheme"
  assumes "well_formed bus view s"
  shows "sound bus view (fat12_open bus f s)"
proof -
  have e: "sound bus view (open_entry bus f i t)" if "well_formed bus view t" for i and t :: "('d, 'z) cpu_scheme"
    using that unfolding open_entry_def Let_def case_prod_beta by (auto intro!: sound_bind sound)
  have "sound bus view (open_from bus f d i n t)" if "well_formed bus view t" for d i n and t :: "('d, 'z) cpu_scheme" using that
  proof (induction "n - i" arbitrary: i t)
    case (Suc k)
    have ih: "sound bus view (open_from bus f d (Suc i) n t)" if "well_formed bus view t" for t :: "('d, 'z) cpu_scheme"
      using Suc(1) [of "Suc i" t] Suc(2) that by simp
    have c: "sound bus view (case scan_entries (sector_buffer t) d 0 of Inl e \<Rightarrow> Inl e | Inr (Found i) \<Rightarrow> open_entry bus f i t
        | Inr Ended \<Rightarrow> Inr (0, t) | Inr Next_sector \<Rightarrow> open_from bus f d (Suc i) n t)" if "well_formed bus view t" for t :: "('d, 'z) cpu_scheme"
      using that by (intro sound_any) (auto intro!: e ih split: scan.split)
    show ?case using Suc(2,3) by (subst open_from.simps) (auto intro!: sound_bind sound c)
  qed (subst open_from.simps; simp)
  with assms show ?thesis unfolding fat12_open_def by (auto intro!: sound_any)
qed

lemma set_cluster_wf [simp]: "well_formed bus view (set_cluster_value c v s) = well_formed bus view s"
  by (simp add: set_cluster_value_def Let_def)

lemma alloc_clusters_wf: "well_formed bus view (snd (alloc_clusters i n c p s)) = well_formed bus view s"
proof (induction i n c p s rule: alloc_clusters.induct)
  case (1 i n c p s)
  then show ?case by (subst alloc_clusters.simps) (simp add: Let_def)
qed

lemma yields_put_entry: "yields (\<lambda>b'. length b' = length b) (put_entry i d c sz b)"
  unfolding put_entry_def by (rule yields_case [OF yields_memcpy]) (simp add: put16_def put32_def)

lemma write_entry_sound [sound]: "well_formed bus view s \<Longrightarrow> sound bus view (write_entry bus i j d c sz s)"
  unfolding write_entry_def
  by (auto intro!: sound_bind sound sound_case [OF yields_put_entry] well_formed_buffer) (simp add: well_formed_def)

lemma free_entry_sound [sound]:
  fixes s :: "('d, 'z) cpu_scheme"
  assumes "well_formed bus view s"
  shows "sound bus view (find_free_dir_entry bus s)"
proof -
  have "sound bus view (free_entry_from bus i n t)" if "well_formed bus view t" for i n and t :: "('d, 'z) cpu_scheme" using that
  proof (induction "n - i" arbitrary: i t)
    case (Suc k)
    have ih: "sound bus view (free_entry_from bus (Suc i) n t)" if "well_formed bus view t" for t :: "('d, 'z) cpu_scheme"
      using Suc(1) [of "Suc i" t] Suc(2) that by simp
    show ?case using Suc(2,3) by (subst free_entry_from.simps) (auto intro!: sound_bind sound ih split: option.split)
  qed (subst free_entry_from.simps; simp)
  with assms show ?thesis by (simp add: find_free_dir_entry_def)
qed

lemma create_sound [sound]:
  assumes "well_formed bus view s"
  shows "sound bus view (fat12_create bus f sz s)"
proof -
  have c: "sound bus view (case alloc_clusters 0 n 0 0 t of (None, s) \<Rightarrow> Inr (-1, s)
      | (Some c, s) \<Rightarrow> bindk (sync_fat bus s) (\<lambda>_ s. write_entry bus i j d c sz s))" if "well_formed bus view t" for n i j d t
    using that alloc_clusters_wf [of bus view 0 n 0 0 t]
    by (cases "alloc_clusters 0 n 0 0 t") (auto intro!: sound_bind sound split: option.split)
  show ?thesis using assms unfolding fat12_create_def
    by (auto intro!: sound_any sound_bind sound c split: option.split)
qed

lemma handle_wf [simp]:
  "well_formed bus view (set_position f v s) = well_formed bus view s" "well_formed bus view (set_current_cluster f c s) = well_formed bus view s"
  "well_formed bus view (set_eof f v s) = well_formed bus view s"
  by (simp_all add: set_position_def set_current_cluster_def set_eof_def)

lemma read_sound [sound]:
  fixes s :: "('d, 'z) cpu_scheme"
  assumes "well_formed bus view s"
  shows "sound bus view (fat12_read bus f b sz s)"
proof -
  have "sound bus view (read_clusters bus f b off sz r t)" if "well_formed bus view t" for b off sz r and t :: "('d, 'z) cpu_scheme" using that
  proof (induction "unat sz" arbitrary: b off sz r t rule: less_induct)
    case less
    have ih: "sound bus view (read_clusters bus f b' off' k r' u)"
      if "well_formed bus view u" "unat k < unat sz" for b' off' r' k and u :: "('d, 'z) cpu_scheme"
      using that by (intro less(1))
    have d: "512 < sz \<Longrightarrow> unat (sz - 512) < unat sz" "0 < sz \<Longrightarrow> 0 < unat sz"
      by (auto simp: unat_sub word_le_nat_alt word_less_nat_alt)
    show ?case using less(2)
      by (subst read_clusters.simps) (auto simp: Let_def intro!: sound_bind sound sound_case [OF yields_memcpy] ih d)
  qed
  with assms show ?thesis unfolding fat12_read_def Let_def by (auto intro!: sound_bind)
qed

lemma write_sound [sound]:
  fixes s :: "('d, 'z) cpu_scheme"
  assumes "well_formed bus view s"
  shows "sound bus view (fat12_write bus f b sz s)"
proof -
  have "sound bus view (write_clusters bus f b off sz r t)" if "well_formed bus view t" for b off sz r and t :: "('d, 'z) cpu_scheme" using that
  proof (induction "unat sz" arbitrary: b off sz r t rule: less_induct)
    case less
    have ih: "sound bus view (write_clusters bus f b' off' k r' u)"
      if "well_formed bus view u" "unat k < unat sz" for b' off' r' k and u :: "('d, 'z) cpu_scheme"
      using that by (intro less(1))
    have d: "512 < sz \<Longrightarrow> unat (sz - 512) < unat sz" "0 < sz \<Longrightarrow> 0 < unat sz"
      by (auto simp: unat_sub word_le_nat_alt word_less_nat_alt)
    have l: "length (sector_buffer t) = 512" using less(2) by (simp add: well_formed_def)
    show ?case using less(2)
      by (subst write_clusters.simps)
        (auto simp: Let_def l intro!: sound_bind sound sound_case [OF yields_memset_arr] sound_case [OF yields_memcpy] ih d well_formed_buffer)
  qed
  with assms show ?thesis unfolding fat12_write_def Let_def by (auto intro!: sound_bind sound)
qed

lemma list_sound [sound]:
  fixes s :: "('d, 'z) cpu_scheme"
  assumes "well_formed bus view s"
  shows "sound bus view (fat12_list_root bus s)"
proof -
  have e: "sound bus view (list_entries bus i c t)" if "well_formed bus view t" for i c and t :: "('d, 'z) cpu_scheme" using that
  proof (induction "16 - i" arbitrary: i c t)
    case (Suc k)
    have ih: "sound bus view (list_entries bus (Suc i) c' u)" if "well_formed bus view u" for c' and u :: "('d, 'z) cpu_scheme"
      using Suc(1) [of "Suc i" u] Suc(2) that by simp
    show ?case using Suc(2,3) by (subst list_entries.simps) (auto intro!: sound_bind sound ih)
  qed (subst list_entries.simps; simp)
  have "sound bus view (list_from bus i n c t)" if "well_formed bus view t" for i n c and t :: "('d, 'z) cpu_scheme" using that
  proof (induction "n - i" arbitrary: i c t)
    case (Suc k)
    have ih: "sound bus view (list_from bus (Suc i) n c' u)" if "well_formed bus view u" for c' and u :: "('d, 'z) cpu_scheme"
      using Suc(1) [of "Suc i" u] Suc(2) that by simp
    show ?case using Suc(2,3) by (subst list_from.simps) (auto intro!: sound_bind sound e ih)
  qed (subst list_from.simps; simp)
  with assms show ?thesis unfolding fat12_list_root_def by (auto intro!: sound_bind sound)
qed

section \<open>Keyboard and interrupts\<close>

lemma well_formed_kbd:
  "well_formed bus view s \<Longrightarrow> length b = 256 \<Longrightarrow> well_formed bus view (s\<lparr>input_buffer := b, write_pos := (write_pos s + 1) smod BUFFER_SIZE\<rparr>)"
  "well_formed bus view s \<Longrightarrow> well_formed bus view (s\<lparr>mem := m, read_pos := (read_pos s + 1) smod BUFFER_SIZE\<rparr>)"
  "well_formed bus view s \<Longrightarrow> well_formed bus view (s\<lparr>line_pos := 0\<rparr>)"
  by (auto simp: wf_def kbd_ok_def typed_def smod_nonneg)

lemma put_input_sound: "well_formed bus view s \<Longrightarrow> sound bus view (put_input c s)"
proof -
  assume s: "well_formed bus view s"
  then have "length (input_buffer s) = 256" by (simp add: wf_def kbd_ok_def)
  with s show ?thesis unfolding put_input_def by (intro sound_case [OF yields_arr_set]) (simp add: well_formed_kbd)
qed

lemma commit_line_sound:
  fixes s :: "('d, 'z) cpu_scheme"
  assumes "well_formed bus view s"
  shows "sound bus view (commit_line s)"
proof -
  have "sound bus view (commit_loop i n t)" if "well_formed bus view t" for i n and t :: "('d, 'z) cpu_scheme" using that
  proof (induction "nat (n - i)" arbitrary: i t)
    case (Suc k)
    have ih: "sound bus view (commit_loop (i + 1) n u)" if "well_formed bus view u" for u :: "('d, 'z) cpu_scheme"
      using Suc(1) [of "i + 1" u] Suc(2) that by simp
    show ?case using Suc(2,3)
      by (subst commit_loop.simps) (auto intro!: sound_any sound_bind put_input_sound ih)
  qed (subst commit_loop.simps; simp)
  with assms show ?thesis unfolding commit_line_def by (auto intro!: sound_bind put_input_sound well_formed_kbd)
qed

lemma well_formed_line:
  assumes "well_formed bus view s"
  shows "0 < line_pos s \<Longrightarrow> well_formed bus view (s\<lparr>line_pos := line_pos s - 1\<rparr>)"
    and "line_pos s < 255 \<Longrightarrow> c \<notin> {8, 10, 63} \<Longrightarrow>
      well_formed bus view (s\<lparr>line_buffer := (line_buffer s)[nat (line_pos s) := c], line_pos := line_pos s + 1\<rparr>)"
proof -
  have k: "kbd_ok s" using assms by (simp add: well_formed_def)
  show "well_formed bus view (s\<lparr>line_pos := line_pos s - 1\<rparr>)" if "0 < line_pos s"
  proof -
    have "set (butlast (typed s)) \<inter> {8, 10, 63} = {}" using k in_set_butlastD [of _ "typed s"] by (auto simp: kbd_ok_def)
    then show ?thesis using assms that typed_erase [OF k that] by (simp add: wf_def kbd_ok_def)
  qed
  show "well_formed bus view (s\<lparr>line_buffer := (line_buffer s)[nat (line_pos s) := c], line_pos := line_pos s + 1\<rparr>)"
    if "line_pos s < 255" "c \<notin> {8, 10, 63}"
    using assms that typed_store [OF k that(1), of c] by (simp add: wf_def kbd_ok_def)
qed

lemma key_pressed_sound:
  assumes "well_formed bus view s"
  shows "sound bus view (key_pressed bus c s)"
proof -
  have "sound bus view (case arr_set (line_buffer s) (line_pos s) c of Inl e \<Rightarrow> Inl e | Inr b \<Rightarrow>
      printk bus (cs ''%s'') [VStr [c]] (s\<lparr>line_buffer := b, line_pos := line_pos s + 1\<rparr>))"
    if "line_pos s < 255" "c \<notin> {8, 10, 63}"
  proof (rule sound_case [OF yields_arr_set])
    fix b assume "arr_set (line_buffer s) (line_pos s) c = Inr b"
    then have "b = (line_buffer s)[nat (line_pos s) := c]" by (simp add: arr_set_def split: if_splits)
    with well_formed_line(2) [OF assms that]
    show "sound bus view (printk bus (cs ''%s'') [VStr [c]] (s\<lparr>line_buffer := b, line_pos := line_pos s + 1\<rparr>))" by (simp add: sound)
  qed
  then show ?thesis using assms unfolding key_pressed_def
    by (auto intro!: sound_bind sound commit_line_sound well_formed_line(1))
qed

lemma keyboard_callback_sound: "well_formed bus view s \<Longrightarrow> sound bus view (keyboard_callback bus s)"
  unfolding keyboard_callback_def Let_def case_prod_beta by (auto intro!: key_pressed_sound)

lemma irq_handler_sound: "well_formed bus view s \<Longrightarrow> sound bus view (irq_handler bus n s)"
  unfolding irq_handler_def Let_def
  by (auto intro!: sound_any keyboard_callback_sound simp: timer_callback_def split: option.split isr_t.split)

lemma read_line_sound:
  fixes s :: "('d, 'z) cpu_scheme"
  assumes "well_formed bus view s"
  shows "sound bus view (read_line a n i s)"
  using assms
proof (induction "unat (n - i)" arbitrary: i s rule: less_induct)
  case less
  have t: "sound bus view (take_input b u)" if "well_formed bus view u" for b and u :: "('d, 'z) cpu_scheme"
    using that unfolding take_input_def by (auto intro!: sound_any well_formed_kbd)
  have ih: "sound bus view (read_line a n (i + 1) u)" if "i < n" "well_formed bus view u" for u :: "('d, 'z) cpu_scheme"
  proof (rule less(1))
    have "i + 1 \<le> n" "n - i \<noteq> 0" using that by (auto simp: inc_le)
    then show "unat (n - (i + 1)) < unat (n - i)" by (simp add: diff_diff_add [symmetric] unat_minus_one unat_gt_0)
  qed (rule that(2))
  show ?case using less(2) by (subst read_line.simps) (auto simp: Let_def intro!: sound_bind t ih)
qed

lemma keyboard_read_sound [sound]:
  fixes s :: "('d, 'z) cpu_scheme"
  assumes "well_formed bus view s"
  shows "sound bus view (keyboard_read bus a n s)"
proof -
  have "sound bus view (wait_line bus evs t)" if "well_formed bus view t" "unseen view evs"
    for evs and t :: "('d, 'z) cpu_scheme" using that
  proof (induction evs arbitrary: t)
    case Nil
    then show ?case by (subst wait_line.simps) (auto intro!: sound_any simp: well_formed_upcoming)
  next
    case (Cons e evs)
    obtain n l where e: "e = (n, l)" by (cases e)
    then have q: "unseen view evs" "well_formed bus view (t\<lparr>dev := l (dev t)\<rparr>)"
      using Cons.prems by (simp_all add: unseen_def well_formed_dev)
    show ?case using Cons q e
      by (subst wait_line.simps) (auto intro!: sound_any sound_bind irq_handler_sound simp: well_formed_upcoming)
  qed
  moreover have "unseen view (upcoming s)" using assms by (simp add: well_formed_def)
  ultimately show ?thesis using assms unfolding keyboard_read_def by (auto intro!: sound_bind read_line_sound)
qed

section \<open>System calls\<close>

lemma help_sound [sound]: "well_formed bus view s \<Longrightarrow> sound bus view (help_entries bus xs s)"
  by (induction xs arbitrary: s) (auto intro!: sound_bind sound)

lemma command_sound [sound]:
  assumes "well_formed bus view s"
  shows "sound bus view (cmd_help bus s)" "sound bus view (cmd_echo bus a s)" "sound bus view (cmd_ls bus s)"
    "sound bus view (cmd_create_file bus past a s)" "sound bus view (cmd_cat bus past a s)"
  unfolding cmd_help_def cmd_echo_def cmd_ls_def cmd_create_file_def cmd_cat_def using assms
  by (auto intro!: sound_bind sound sound_any split: prod.split)

lemma process_cmd_sound [sound]:
  assumes "well_formed bus view s"
  shows "sound bus view (process_cmd bus past a s)"
proof -
  have r: "sound bus view (run_cmd bus past xs b s)" for xs b
    unfolding run_cmd_def using assms
    by (intro sound_any) (auto intro!: sound sound_any simp: cmd_clear_def split: option.split)
  show ?thesis unfolding process_cmd_def
    by (auto intro!: sound_any sound_case [OF yields_arr_set] sound_bind r split: option.split prod.split)
qed

lemma syscall_sound: "well_formed bus view s \<Longrightarrow> sound bus view (syscall_dispatcher bus past n a b c s)"
  unfolding syscall_dispatcher_def sys_exit_def sys_print_def sys_read_def Let_def
  by (auto intro!: sound_bind sound sound_any)

section \<open>Boot\<close>

lemma table_more: "pmm.more (copy_ptes a b j s) = pmm.more s" "pmm.more (clear_table a i s) = pmm.more s"
proof -
  show "pmm.more (copy_ptes a b j s) = pmm.more s"
  proof (induction a b j s rule: copy_ptes.induct)
    case (1 a b j s)
    then show ?case by (subst copy_ptes.simps) (simp add: store32_fields)
  qed
  show "pmm.more (clear_table a i s) = pmm.more s"
  proof (induction a i s rule: clear_table.induct)
    case (1 a i s)
    then show ?case by (subst clear_table.simps) (simp add: store32_fields)
  qed
qed

lemma pages_wf [simp]:
  fixes s :: "('d, 'z) cpu_scheme"
  shows "well_formed bus view (snd (alloc_memory_block s)) = well_formed bus view s" "well_formed bus view (clear_page a s) = well_formed bus view s"
    "well_formed bus view (copy_ptes a b j s) = well_formed bus view s" "well_formed bus view (clear_table a i s) = well_formed bus view s"
    "well_formed bus view (extend_mappings p n s) = well_formed bus view s" "well_formed bus view (new_pd_entry e u s) = well_formed bus view s"
    "well_formed bus view (store32 e u s) = well_formed bus view s" "well_formed bus view (init_mem_mngr a u s) = well_formed bus view s"
    "well_formed bus view (init_memory_region u w s) = well_formed bus view s" "well_formed bus view (load_PDBR a s) = well_formed bus view s"
proof -
  obtain m k where r: "init_memory_region u w s = s\<lparr>mem := m, mem_mngr_used_blocks := k\<rparr>"
    using init_memory_region_rest by blast
  show "well_formed bus view (init_memory_region u w s) = well_formed bus view s" unfolding r by (rule well_formed_more) simp
qed (rule well_formed_more; simp add: alloc_fields clear_page_fields table_more extend_more store32_fields init_mem_mngr_def
  new_pd_entry_eq load_PDBR_def Let_def)+

lemma vmm_sound [sound]:
  fixes s :: "('d, 'z) cpu_scheme"
  assumes "well_formed bus view s"
  shows "sound bus view (vmmngr_initialize bus u s)"
proof -
  have c: "sound bus view (copy_table bus e d i t)" if "well_formed bus view t" for e i d and t :: "('d, 'z) cpu_scheme"
    using that unfolding copy_table_def Let_def case_prod_beta by (auto intro!: sound)
  have cs: "sound bus view (copy_tables bus d d' i t)" if "well_formed bus view t" for d d' i and t :: "('d, 'z) cpu_scheme" using that
  proof (induction "1024 - i" arbitrary: i t)
    case (Suc k)
    have ih: "sound bus view (copy_tables bus d d' (Suc i) u)" if "well_formed bus view u" for u :: "('d, 'z) cpu_scheme"
      using Suc(1) [of "Suc i" u] Suc(2) that by simp
    show ?case using Suc(2,3) by (subst copy_tables.simps) (auto intro!: sound_bind c ih)
  qed (subst copy_tables.simps; simp)
  have rm: "sound bus view (remove_identity bus t)" if "well_formed bus view t" for t :: "('d, 'z) cpu_scheme"
    using that unfolding remove_identity_def Let_def by (auto intro!: sound)
  have sw: "well_formed bus view (snd (vmmngr_switch_pdirectory a t)) = well_formed bus view t" for a and t :: "('d, 'z) cpu_scheme"
    by (simp add: vmmngr_switch_pdirectory_def Let_def)
  show ?thesis using assms unfolding vmmngr_initialize_def Let_def case_prod_beta
    by (auto intro!: sound_bind sound cs rm simp: sw)
qed

lemma well_formed_tables:
  "well_formed bus view s \<Longrightarrow> length h = 256 \<Longrightarrow> well_formed bus view (s\<lparr>interrupt_handlers := h\<rparr>)"
  "well_formed bus view s \<Longrightarrow> length d = 256 \<Longrightarrow> well_formed bus view (s\<lparr>idt := d\<rparr>)"
  "well_formed bus view s \<Longrightarrow> length g = 6 \<Longrightarrow> well_formed bus view (s\<lparr>kernel_gdt := g\<rparr>)"
  by (simp_all add: wf_def kbd_ok_def typed_def)

lemma well_formed_lengths:
  "well_formed bus view s \<Longrightarrow> length (interrupt_handlers s) = 256" "well_formed bus view s \<Longrightarrow> length (idt s) = 256"
  "well_formed bus view s \<Longrightarrow> length (kernel_gdt s) = 6"
  by (simp_all add: well_formed_def)

lemma interrupts_sound [sound]:
  fixes s :: "('d, 'z) cpu_scheme"
  assumes "well_formed bus view s"
  shows "sound bus view (isr_install bus vec base s)" "sound bus view (init_timer bus 50 s)" "sound bus view (init_keyboard s)"
proof -
  have g: "sound bus view (set_idt_gate n h sel f t)" if "well_formed bus view t" for n h sel f and t :: "('d, 'z) cpu_scheme"
    using that well_formed_lengths(2) [OF that] unfolding set_idt_gate_def
    by (intro sound_case [OF yields_arr_set]) (simp add: well_formed_tables)
  have gs: "sound bus view (set_gates vec ns t)" if "well_formed bus view t" for ns and t :: "('d, 'z) cpu_scheme"
    using that by (induction ns arbitrary: t) (auto intro!: sound_bind g)
  have "well_formed bus view (remap_pic bus t) = well_formed bus view t" for t :: "('d, 'z) cpu_scheme" by (simp add: remap_pic_def)
  then show "sound bus view (isr_install bus vec base s)" using assms unfolding isr_install_def
    by (auto intro!: sound_bind g gs simp: set_idt_def Let_def)
  have r: "sound bus view (register_interrupt_handler n h t)" if "well_formed bus view t" for n h and t :: "('d, 'z) cpu_scheme"
    using that well_formed_lengths(1) [OF that] unfolding register_interrupt_handler_def
    by (intro sound_case [OF yields_arr_set]) (simp add: well_formed_tables)
  show "sound bus view (init_timer bus 50 s)" "sound bus view (init_keyboard s)" using assms unfolding init_timer_def init_keyboard_def
    by (auto intro!: sound_bind r simp: Let_def)
qed

lemma tss_sound [sound]:
  fixes s :: "('d, 'z) cpu_scheme"
  assumes "well_formed bus view s"
  shows "sound bus view (tss_init bus a k s)"
proof -
  have g: "sound bus view (gdt_set_tss b l t)" if "well_formed bus view t" for b l and t :: "('d, 'z) cpu_scheme"
    using that well_formed_lengths(3) [OF that] unfolding gdt_set_tss_def
    by (intro sound_any sound_case [OF yields_arr_set]) (simp add: well_formed_tables)
  have "well_formed bus view (ltr sg t)" if "well_formed bus view t" for sg and t :: "('d, 'z) cpu_scheme"
  proof -
    have "well_formed bus view (t\<lparr>task_register := sg\<rparr>)" using that by simp
    from well_formed_tables(3) [OF this] well_formed_lengths(3) [OF that] show ?thesis by (simp add: ltr_def Let_def)
  qed
  with assms show ?thesis unfolding tss_init_def Let_def by (auto intro!: sound_bind sound g)
qed

lemma fat12_init_sound [sound]:
  fixes s :: "('d, 'z) cpu_scheme"
  assumes "well_formed bus view s"
  shows "sound bus view (fat12_init bus s)"
  unfolding fat12_init_def Let_def case_prod_beta
  using assms by (intro sound_bind sector_sound(1)) (auto intro!: sound_bind sound split: sum.split)

text \<open>The fields that only the boot uses.\<close>

lemma well_formed_kernel [simp]:
  "well_formed bus view (s\<lparr>interrupts_on := b\<rparr>) = well_formed bus view s"
  "well_formed bus view (kernel_gdt_load s) = well_formed bus view s"
  "well_formed bus view (s\<lparr>data_segment := d\<rparr>) = well_formed bus view s" "well_formed bus view (s\<lparr>code_segment := c\<rparr>) = well_formed bus view s"
  "well_formed bus view (s\<lparr>stack_pointer := p\<rparr>) = well_formed bus view s" "well_formed bus view (s\<lparr>entry_point := e\<rparr>) = well_formed bus view s"
  by (simp_all add: kernel_gdt_load_def wf_def kbd_ok_def typed_def)

lemma map_loop_sound [sound]:
  fixes s :: "('d, 'z) cpu_scheme"
  assumes "well_formed bus view s"
  shows "sound bus view (map_loop bus region i n s)"
  using assms
proof (induction "nat (n - i)" arbitrary: i s)
  case (Suc k)
  have ih: "sound bus view (map_loop bus region (i + 1) n t)" if "well_formed bus view t" for t :: "('d, 'z) cpu_scheme"
    using Suc(1) [of "i + 1" t] Suc(2) that by simp
  have "well_formed bus view (set_region_type r v t) = well_formed bus view t" for r v and t :: "('d, 'z) cpu_scheme"
    by (simp add: set_region_type_def)
  with Suc(2,3) show ?case
    by (subst map_loop.simps) (auto simp: Let_def intro!: sound_bind sound ih)
qed (subst map_loop.simps; simp)

lemma kernel_main_sound:
  fixes s :: "('d, 'z) kernel_scheme"
  assumes "well_formed bus view s"
  shows "sound bus view (kernel_main bus k bootinfo s)"
proof -
  have j: "sound bus view (jump_usermode bus a b t)" if "well_formed bus view t" for a b and t :: "('d, 'z) kernel_scheme"
    using that unfolding jump_usermode_def by (auto intro!: sound_bind sound)
  show ?thesis unfolding kernel_main_def Let_def case_prod_beta
    using assms by (intro sound_bind j) (auto intro!: sound)
qed

section \<open>Interrupts and prints return\<close>

text \<open>
  A well-formed state is what the driver relies on: an interrupt with any number is handled, unless
  the keyboard erases a character at the first cell of the screen.
\<close>

lemma irq_returns:
  fixes s :: "('d, 'z) cpu_scheme"
  assumes "well_formed bus view s" "n < 256"
  shows "(\<exists>s'. irq_handler bus n s = Inr ((), s') \<and> well_formed bus view s') \<or>
    irq_handler bus n s = Inl Wild \<and> interrupt_handlers s ! unat n = Some Keyboard_callback \<and>
      typed s \<noteq> [] \<and> snd (terminal_of view s) = 0"
proof -
  define s0 where "s0 = (if n \<ge> 40 then port_byte_out bus 0xA0 0x20 s else s)"
  define s1 where "s1 = port_byte_out bus 0x20 0x20 s0"
  have w: "well_formed bus view s1" using assms(1) by (simp add: s1_def s0_def)
  have f: "interrupt_handlers s1 = interrupt_handlers s" "typed s1 = typed s" "terminal_of view s1 = terminal_of view s"
    using assms(1) cursor_out [of bus view]
    by (simp_all add: s1_def s0_def port_byte_out_def typed_def terminal_of_def well_formed_def)
  have "uint n < 256" using assms(2) by (simp add: word_less_def)
  then have g: "arr_get (interrupt_handlers s1) (uint n) = Inr (interrupt_handlers s ! unat n)"
    using assms(1) unfolding arr_get_def f(1) by (simp add: well_formed_def)
  have eq: "irq_handler bus n s = (case interrupt_handlers s ! unat n of None \<Rightarrow> Inr ((), s1)
      | Some Timer_callback \<Rightarrow> Inr ((), timer_callback s1) | Some Keyboard_callback \<Rightarrow> keyboard_callback bus s1)"
    unfolding irq_handler_def Let_def s0_def [symmetric] s1_def [symmetric] g by (simp split: option.split isr_t.split)
  have k: "(\<exists>s'. keyboard_callback bus s1 = Inr ((), s') \<and> well_formed bus view s') \<or>
    keyboard_callback bus s1 = Inl Wild \<and> typed s1 \<noteq> [] \<and> snd (terminal_of view s1) = 0"
  proof -
    note c = w [unfolded well_formed_def]
    let ?k = "fst (bus_inb bus 0x60 (dev s1))"
    show ?thesis
    proof (cases "key_char ?k (editor_of s1) = Some 8 \<and> typed s1 \<noteq> [] \<and> snd (terminal_of view s1) = 0")
      case True
      then show ?thesis using backspace_at_start [of bus view s1, OF _ refl] c by simp
    next
      case False
      then have "0 < snd (terminal_of view s1)" if "key_char ?k (editor_of s1) = Some 8" "typed s1 \<noteq> []"
        using that by simp
      then obtain s' where s': "keyboard_callback bus s1 = Inr ((), s')"
        using keyboard_callback_spec [of bus view s1, OF _ _ _ refl] c by blast
      then show ?thesis using keyboard_callback_sound [OF w] by simp
    qed
  qed
  show ?thesis
  proof (cases "interrupt_handlers s ! unat n")
    case None
    then show ?thesis using w by (simp add: eq)
  next
    case (Some h)
    then show ?thesis using w k by (cases h) (simp_all add: eq f timer_callback_def)
  qed
qed

text \<open>A string of characters arrives on the screen, unless a backspace reaches its start.\<close>

lemma put_chars_returns:
  fixes s :: "('d, 'z) cpu_scheme"
  assumes "well_formed bus view s"
  shows "(\<exists>s'. put_chars bus xs a s = Inr ((), s')) \<or> put_chars bus xs a s = Inl Wild \<and> 8 \<in> set xs"
  using assms
proof (induction xs arbitrary: s)
  case (Cons c xs)
  note c = Cons.prems [unfolded well_formed_def]
  show ?case
  proof (cases "c = 8 \<and> cursor_of (view (dev s)) = 0")
    case True
    then show ?thesis using put_char_at_start [of bus view s a] c by simp
  next
    case False
    obtain d v where d: "put_char bus c a s = Inr ((), s\<lparr>dev := d, vidmem := v\<rparr>)"
      by (rule put_char_refines_ex [of bus view s c a]) (use c False in auto)
    then have "well_formed bus view (s\<lparr>dev := d, vidmem := v\<rparr>)" using put_char_sound [OF Cons.prems, of c a] by simp
    from Cons.IH [OF this] show ?thesis by (auto simp: d)
  qed
qed simp

lemma print_length_string:
  "print_length m a (int len) < 4096 \<Longrightarrow> len \<le> 4096 \<Longrightarrow> \<exists>xs. mem_string m a xs \<and> len + length xs < 4096"
proof (induction "4096 - len" arbitrary: a len)
  case 0
  then show ?case by (simp add: print_length.simps)
next
  case (Suc k)
  show ?case
  proof (cases "m a = 0")
    case True
    with Suc(2) show ?thesis by (intro exI [of _ "[]"]) simp
  next
    case False
    have "len < 4096" using Suc(2) by simp
    with False have "print_length m (a + 1) (int len + 1) < 4096"
      using Suc(3) \<open>len < 4096\<close> by (subst (asm) print_length.simps) simp
    then have "print_length m (a + 1) (int (Suc len)) < 4096" by (simp add: add.commute)
    moreover have k: "k = 4096 - Suc len" using Suc(2) by simp
    ultimately obtain xs where "mem_string m (a + 1) xs" "Suc len + length xs < 4096" using Suc(1) [OF k] \<open>len < 4096\<close> by auto
    then show ?thesis using False by (intro exI [of _ "m a # xs"]) (simp add: mem_string_Cons)
  qed
qed

lemma mem_string_nth:
  assumes "mem_string m a xs" "c \<in> set xs"
  shows "\<exists>i < length xs. m (a + of_nat i) = c"
proof -
  obtain i where i: "i < length xs" "xs ! i = c" using assms(2) by (auto simp: in_set_conv_nth)
  then have "rd_bytes m a (length xs) ! i = m (a + of_nat i)" by (simp add: rd_bytes_def)
  moreover have "rd_bytes m a (length xs) = xs" using assms(1) by (simp add: mem_string_def)
  ultimately show ?thesis using i by metis
qed

lemma sys_print_returns:
  fixes s :: "('d, 'z) cpu_scheme"
  assumes "well_formed bus view s"
  shows "(\<exists>x s'. sys_print bus a c s = Inr (x, s')) \<or>
    sys_print bus a c s = Inl Wild \<and> (\<exists>i < 4096. mem s (a + of_nat i) = 8)"
proof (cases "print_length (mem s) a 0 < 4096")
  case True
  then obtain xs where xs: "mem_string (mem s) a xs" "length xs < 4096" using print_length_string [of "mem s" a 0] by auto
  have len: "print_length (mem s) a 0 = int (length xs)" using print_length_from [OF xs(1), of 0] xs(2) by simp
  have r: "render (cs ''%s'') [VStr xs] = Some xs" by (simp add: cs_def)
  let ?c = "if c = 0 then 0x0f else c"
  have "sys_print bus a c s = bindk (put_chars bus xs (ucast ?c) s) (\<lambda>_ s. Inr (of_nat (length xs), s))"
    using xs(2) by (simp add: sys_print_def Let_def len string_at_eq [OF xs(1)] printk_color_def vformat_renders [OF r])
  then show ?thesis
    using put_chars_returns [OF assms, of xs "ucast ?c"] mem_string_nth [OF xs(1), of 8] xs(2)
    by (auto intro: less_trans)
next
  case False
  have c: "pc_conforms bus view" "terminal_ok (terminal_of view s)" using assms by (simp_all add: well_formed_def)
  obtain s' where "printk bus (cs ''[KERNEL] String too long\<newline>'') [] s = Inr ((), s')"
    by (rule printk_step [OF c, of "cs ''[KERNEL] String too long\<newline>''" "[]"]) (simp_all add: cs_def)
  then show ?thesis using False by (simp add: sys_print_def Let_def)
qed

section \<open>Runs of the kernel\<close>

text \<open>
  What can happen once the boot is over: a system call with any arguments returns, an interrupt with
  any vector is handled, or user code runs, which may write any memory, while hardware that neither the
  drive nor the screen sees changes and will raise other interrupts.
\<close>

inductive kernel_step :: "'d bus \<Rightarrow> ('d \<Rightarrow> pc) \<Rightarrow> (nat \<Rightarrow> u8) \<Rightarrow> ('d, 'z) cpu_scheme \<Rightarrow> ('d, 'z) cpu_scheme \<Rightarrow> bool"
  for bus view past where
  syscall: "syscall_dispatcher bus past n a b c s = Inr (r, s') \<Longrightarrow> kernel_step bus view past s s'"
| interrupt: "irq_handler bus n s = Inr ((), s') \<Longrightarrow> kernel_step bus view past s s'"
| user: "view d = view (dev s) \<Longrightarrow> unseen view evs \<Longrightarrow> kernel_step bus view past s (s\<lparr>mem := m, dev := d, upcoming := evs\<rparr>)"

lemma kernel_step_wf: "kernel_step bus view past s s' \<Longrightarrow> well_formed bus view s \<Longrightarrow> well_formed bus view s'"
proof (induction rule: kernel_step.induct)
  case (syscall n a b c s r s')
  then show ?case using syscall_sound [of bus view s past n a b c] by simp
next
  case (interrupt n s s')
  then show ?case using irq_handler_sound [of bus view s n] by simp
next
  case (user d s evs m)
  have "well_formed bus view (s\<lparr>mem := m, dev := d\<rparr>)"
    using user(1,3) by (subst well_formed_dev) simp_all
  then show ?case using user(2) by (rule well_formed_upcoming)
qed

lemma kernel_run_wf: "(kernel_step bus view past)\<^sup>*\<^sup>* s s' \<Longrightarrow> well_formed bus view s \<Longrightarrow> well_formed bus view s'"
  by (induction rule: rtranclp_induct) (auto intro: kernel_step_wf)



end
